(* ===== verification/Prelude.thy ===== *)
theory Prelude
  imports Main "HOL-Library.Word"
begin

text \<open>
  Shared vocabulary of the development: the machine types, the exceptions the C++ code can
  raise, the state-exception commands in which every method of the library is written, and the
  generic lemmas on lists, association lists and pointer paths the components use.
\<close>

unbundle bit_operations_syntax

section \<open>Collections of rewrite rules\<close>

named_theorems cmd_simps "evaluation of state-exception commands"
named_theorems run_simps "running a command on a given state"
named_theorems lock_word_simps "reading one field of a lock word after writing another"

section \<open>Machine types\<close>

type_synonym u64 = "64 word"
type_synonym key_t = u64
type_synonym val_t = u64
type_synonym addr = nat
type_synonym list_id = nat

section \<open>Outcomes and commands\<close>

text \<open>
  \<open>TxAbortException\<close> and \<open>EmptyQueueException\<close> are the C++ classes of these names,
  \<open>InvalidArgument\<close> is \<open>std::invalid_argument\<close>, \<open>OptionalException\<close> is the class of
  \<^verbatim>\<open>optional.h\<close>. \<open>AssertionFailed\<close> is a failing \<open>assert\<close>, \<open>NullPointer\<close> an access
  through a null or dangling pointer or outside its array, \<open>Diverges\<close> a loop that does not end.
\<close>

datatype exn =
    TxAbortException
  | EmptyQueueException
  | InvalidArgument
  | OptionalException
  | AssertionFailed
  | NullPointer
  | Diverges

datatype 'a outcome = Ok 'a | Throw exn

type_synonym ('s, 'a) cmd = "'s \<Rightarrow> 'a outcome \<times> 's"

definition returnE :: "'a \<Rightarrow> ('s, 'a) cmd" where
  "returnE x = (\<lambda>s. (Ok x, s))"

definition throwE :: "exn \<Rightarrow> ('s, 'a) cmd" where
  "throwE e = (\<lambda>s. (Throw e, s))"

definition bindE :: "('s, 'a) cmd \<Rightarrow> ('a \<Rightarrow> ('s, 'b) cmd) \<Rightarrow> ('s, 'b) cmd" where
  "bindE m f = (\<lambda>s. case m s of (Ok x, s') \<Rightarrow> f x s' | (Throw e, s') \<Rightarrow> (Throw e, s'))"

definition thenE :: "('s, 'a) cmd \<Rightarrow> ('s, 'b) cmd \<Rightarrow> ('s, 'b) cmd" where
  "thenE m n = bindE m (\<lambda>_. n)"

definition getsE :: "('s \<Rightarrow> 'a) \<Rightarrow> ('s, 'a) cmd" where
  "getsE f = (\<lambda>s. (Ok (f s), s))"

definition modifyE :: "('s \<Rightarrow> 's) \<Rightarrow> ('s, unit) cmd" where
  "modifyE f = (\<lambda>s. (Ok (), f s))"

definition assertE :: "bool \<Rightarrow> ('s, unit) cmd" where
  "assertE b = (\<lambda>s. if b then (Ok (), s) else (Throw AssertionFailed, s))"

primrec forE :: "'a list \<Rightarrow> ('a \<Rightarrow> ('s, unit) cmd) \<Rightarrow> ('s, unit) cmd" where
  "forE [] f = returnE ()"
| "forE (x # xs) f = thenE (f x) (forE xs f)"

lemma returnE_apply [cmd_simps]: "returnE x s = (Ok x, s)"
  by (simp add: returnE_def)

lemma throwE_apply [cmd_simps]: "throwE e s = (Throw e, s)"
  by (simp add: throwE_def)

lemma getsE_apply [cmd_simps]: "getsE f s = (Ok (f s), s)"
  by (simp add: getsE_def)

lemma modifyE_apply [cmd_simps]: "modifyE f s = (Ok (), f s)"
  by (simp add: modifyE_def)

lemma assertE_apply [cmd_simps]:
  "assertE b s = (if b then (Ok (), s) else (Throw AssertionFailed, s))"
  by (simp add: assertE_def)

lemma bindE_Ok [cmd_simps]: "m s = (Ok x, s') \<Longrightarrow> bindE m f s = f x s'"
  by (simp add: bindE_def)

lemma bindE_Throw [cmd_simps]: "m s = (Throw e, s') \<Longrightarrow> bindE m f s = (Throw e, s')"
  by (simp add: bindE_def)

lemma thenE_Ok [cmd_simps]: "m s = (Ok x, s') \<Longrightarrow> thenE m n s = n s'"
  by (simp add: thenE_def cmd_simps)

lemma thenE_Throw [cmd_simps]: "m s = (Throw e, s') \<Longrightarrow> thenE m n s = (Throw e, s')"
  by (simp add: thenE_def cmd_simps)

lemma bindE_eval [run_simps]:
  "bindE m f s = (case m s of (r, s') \<Rightarrow> (case r of Ok x \<Rightarrow> f x s' | Throw e \<Rightarrow> (Throw e, s')))"
  by (simp add: bindE_def split: prod.splits outcome.splits)

lemma thenE_eval [run_simps]:
  "thenE m n s = (case m s of (r, s') \<Rightarrow> (case r of Ok x \<Rightarrow> n s' | Throw e \<Rightarrow> (Throw e, s')))"
  by (simp add: thenE_def bindE_eval)

lemmas run_basic [run_simps] =
  returnE_apply throwE_apply getsE_apply modifyE_apply assertE_apply

lemma bindE_cases:
  assumes "bindE m f s = (r, t)"
  obtains (ok) x s' where "m s = (Ok x, s')" and "f x s' = (r, t)"
    | (throw) e where "m s = (Throw e, t)" and "r = Throw e"
  using assms by (auto simp: bindE_def split: prod.splits outcome.splits)

lemma thenE_cases:
  assumes "thenE m n s = (r, t)"
  obtains (ok) x s' where "m s = (Ok x, s')" and "n s' = (r, t)"
    | (throw) e where "m s = (Throw e, t)" and "r = Throw e"
  using assms unfolding thenE_def by (rule bindE_cases) auto

lemma bindE_OkE:
  assumes "bindE m f s = (Ok y, t)"
  obtains x s' where "m s = (Ok x, s')" and "f x s' = (Ok y, t)"
  using assms by (cases rule: bindE_cases) auto

lemma forE_append: "forE (xs @ ys) f = thenE (forE xs f) (forE ys f)"
  by (induction xs) (auto simp: fun_eq_iff run_simps split: prod.splits outcome.splits)

lemma bindE_assoc: "bindE (bindE m f) g = bindE m (\<lambda>x. bindE (f x) g)"
  by (auto simp: bindE_def fun_eq_iff split: prod.splits outcome.splits)

section \<open>Atomic words\<close>

text \<open>
  \<open>std::atomic::compare_exchange_strong\<close>: the word changes to \<open>desired\<close> exactly when it
  still holds \<open>expected\<close>; the result says whether it did.
\<close>

definition compare_exchange_strong :: "'a \<Rightarrow> 'a \<Rightarrow> 'a \<Rightarrow> bool \<times> 'a" where
  "compare_exchange_strong cur expected desired =
     (if cur = expected then (True, desired) else (False, cur))"

section \<open>Options\<close>

lemma option_eqI: "(\<And>v. x = Some v \<longleftrightarrow> y = Some v) \<Longrightarrow> x = y"
  by (cases x; cases y) auto

section \<open>Pointer paths\<close>

text \<open>
  \<open>path nx p as q\<close>: following the successor function \<open>nx\<close> from \<open>p\<close> visits exactly the
  nodes \<open>as\<close> and ends at \<open>q\<close>.
\<close>

primrec path :: "(addr \<Rightarrow> addr option) \<Rightarrow> addr option \<Rightarrow> addr list \<Rightarrow> addr option \<Rightarrow> bool" where
  "path nx p [] q \<longleftrightarrow> p = q"
| "path nx p (a # as) q \<longleftrightarrow> p = Some a \<and> path nx (nx a) as q"

lemma path_append [simp]:
  "path nx p (as @ bs) q \<longleftrightarrow> (\<exists>r. path nx p as r \<and> path nx r bs q)"
  by (induction as arbitrary: p) auto

lemma path_None [simp]: "path nx None as q \<longleftrightarrow> as = [] \<and> q = None"
  by (cases as) auto

lemma path_cong: "(\<And>a. a \<in> set as \<Longrightarrow> nx a = nx' a) \<Longrightarrow> path nx p as q = path nx' p as q"
  by (induction as arbitrary: p) auto

lemma path_upd [simp]: "u \<notin> set as \<Longrightarrow> path (nx(u := v)) p as q = path nx p as q"
  by (rule path_cong) auto

lemma path_unique: "path nx p as None \<Longrightarrow> path nx p bs None \<Longrightarrow> as = bs"
proof (induction as arbitrary: p bs)
  case Nil
  then show ?case by simp
next
  case (Cons a as)
  then show ?case by (cases bs) auto
qed

lemma path_suffix_None:
  "path nx p (as @ a # bs) None \<Longrightarrow> path nx (nx a) bs None"
  by simp

lemma path_distinct: "path nx p as None \<Longrightarrow> distinct as"
proof (induction as arbitrary: p)
  case Nil
  then show ?case by simp
next
  case (Cons a as)
  have "a \<notin> set as"
  proof
    assume "a \<in> set as"
    then obtain xs ys where as: "as = xs @ a # ys"
      by (auto simp: in_set_conv_decomp)
    from Cons.prems as have "path nx (nx a) as None" and "path nx (nx a) ys None"
      by simp_all
    then have "as = ys" by (rule path_unique)
    with as show False by simp
  qed
  with Cons show ?case by auto
qed

lemma path_next_in:
  assumes "path nx p as None" and "a \<in> set as" and "nx a = Some b"
  shows "b \<in> set as"
proof -
  from assms(2) obtain xs ys where "as = xs @ a # ys"
    by (auto simp: in_set_conv_decomp)
  with assms(1,3) show ?thesis by (cases ys) auto
qed

lemma path_next_neq:
  assumes "path nx p as None" and "a \<in> set as"
  shows "nx a \<noteq> Some a"
proof
  assume nx: "nx a = Some a"
  from assms(2) obtain xs ys where "as = xs @ a # ys" by (auto simp: in_set_conv_decomp)
  with assms(1) have "path nx (nx a) ys None" by simp
  moreover from this nx have "path nx (nx a) (a # ys) None" by simp
  ultimately have "ys = a # ys" by (rule path_unique)
  then show False by simp
qed

section \<open>Association lists\<close>

text \<open>
  The \<open>std::unordered_map\<close>s of the code are association lists with distinct keys: the list
  order is the order in which the container is iterated. \<open>alist_put\<close> is \<open>m[k] = v\<close>.
\<close>

primrec alist_put :: "'k \<Rightarrow> 'v \<Rightarrow> ('k \<times> 'v) list \<Rightarrow> ('k \<times> 'v) list" where
  "alist_put k v [] = [(k, v)]"
| "alist_put k v (p # ps) = (if fst p = k then (k, v) # ps else p # alist_put k v ps)"

lemma map_of_alist_put [simp]: "map_of (alist_put k v ps) = (map_of ps)(k \<mapsto> v)"
  by (induction ps) (auto simp: fun_eq_iff)

lemma set_map_fst_alist_put [simp]:
  "fst ` set (alist_put k v ps) = insert k (fst ` set ps)"
  by (induction ps) auto

lemma distinct_alist_put [simp]:
  "distinct (map fst ps) \<Longrightarrow> distinct (map fst (alist_put k v ps))"
  by (induction ps) auto

end
