(* ===== verification/LockProtocol.thy ===== *)
theory LockProtocol
  imports Prelude
begin

text \<open>
  The try-lock protocol of the library: a lock bit inside an atomic word, taken with a load and
  a compare-and-swap and released with a load and a compare-and-swap whose success is asserted.
  \<open>LNode\<close> and \<open>Queue\<close> each have such a word. The interface is the locale
  \<open>versioned_lock\<close>; the steps of any number of threads on one word are \<open>lock_step\<close>, one rule
  per atomic access, so the threads interleave between the load and the compare-and-swap.
\<close>

section \<open>Steps of threads on one lock word\<close>

text \<open>
  Where a thread stands: outside, between the load and the compare-and-swap of \<open>tryLock\<close>
  (with the loaded word and the word to install), holding the lock, between the two halves of
  \<open>unlock\<close>, or stopped by a failed assertion.
\<close>

datatype 'w lock_pc =
    Outside
  | Locking 'w 'w
  | Holding
  | Unlocking 'w 'w
  | Crashed

record 'w lock_sys =
  lword :: 'w
  lpc :: "nat \<Rightarrow> 'w lock_pc"

inductive lock_step ::
  "('w \<Rightarrow> 'w option) \<Rightarrow> ('w \<Rightarrow> 'w outcome) \<Rightarrow> ('w \<Rightarrow> 'w \<Rightarrow> bool) \<Rightarrow>
   'w lock_sys \<Rightarrow> 'w lock_sys \<Rightarrow> bool"
  for try_load unlk_load writes where
  lock_load:
    "lpc s t = Outside \<Longrightarrow> try_load (lword s) = Some d \<Longrightarrow>
     lock_step try_load unlk_load writes s (s\<lparr>lpc := (lpc s)(t := Locking (lword s) d)\<rparr>)"
| lock_cas:
    "lpc s t = Locking e d \<Longrightarrow> compare_exchange_strong (lword s) e d = (ok, w) \<Longrightarrow>
     lock_step try_load unlk_load writes s
       (s\<lparr>lword := w, lpc := (lpc s)(t := (if ok then Holding else Outside))\<rparr>)"
| holder_set:
    "lpc s t = Holding \<Longrightarrow> writes (lword s) w \<Longrightarrow>
     lock_step try_load unlk_load writes s (s\<lparr>lword := w\<rparr>)"
| unlk_load:
    "lpc s t = Holding \<Longrightarrow> unlk_load (lword s) = Ok u \<Longrightarrow>
     lock_step try_load unlk_load writes s (s\<lparr>lpc := (lpc s)(t := Unlocking (lword s) u)\<rparr>)"
| unlk_assert:
    "lpc s t = Holding \<Longrightarrow> unlk_load (lword s) = Throw e \<Longrightarrow>
     lock_step try_load unlk_load writes s (s\<lparr>lpc := (lpc s)(t := Crashed)\<rparr>)"
| unlk_cas:
    "lpc s t = Unlocking e u \<Longrightarrow> compare_exchange_strong (lword s) e u = (ok, w) \<Longrightarrow>
     lock_step try_load unlk_load writes s
       (s\<lparr>lword := w, lpc := (lpc s)(t := (if ok then Outside else Crashed))\<rparr>)"

inductive lock_reach ::
  "('w \<Rightarrow> 'w option) \<Rightarrow> ('w \<Rightarrow> 'w outcome) \<Rightarrow> ('w \<Rightarrow> 'w \<Rightarrow> bool) \<Rightarrow> 'w \<Rightarrow>
   'w lock_sys \<Rightarrow> bool"
  for try_load unlk_load writes w0 where
  lock_init: "lock_reach try_load unlk_load writes w0 \<lparr>lword = w0, lpc = (\<lambda>_. Outside)\<rparr>"
| lock_next:
    "lock_reach try_load unlk_load writes w0 s \<Longrightarrow> lock_step try_load unlk_load writes s s' \<Longrightarrow>
     lock_reach try_load unlk_load writes w0 s'"

definition in_section :: "'w lock_pc \<Rightarrow> bool" where
  "in_section p \<longleftrightarrow> p = Holding \<or> (\<exists>e u. p = Unlocking e u)"

lemma in_section_simps [simp]:
  "\<not> in_section Outside" "\<not> in_section (Locking e d)" "in_section Holding"
  "in_section (Unlocking e u)" "\<not> in_section Crashed"
  by (simp_all add: in_section_def)

section \<open>The interface and what it gives\<close>

locale versioned_lock =
  fixes locked :: "'w \<Rightarrow> bool"
    and try_load :: "'w \<Rightarrow> 'w option"
    and unlk_load :: "'w \<Rightarrow> 'w outcome"
    and writes :: "'w \<Rightarrow> 'w \<Rightarrow> bool"
  assumes try_load_None: "try_load w = None \<longleftrightarrow> locked w"
    and try_load_Some: "try_load w = Some d \<Longrightarrow> locked d"
    and unlk_load_Ok: "locked w \<Longrightarrow> \<exists>u. unlk_load w = Ok u \<and> \<not> locked u"
    and writes_locked: "locked w \<Longrightarrow> writes w w' \<Longrightarrow> locked w'"
begin

definition lock_inv :: "'w lock_sys \<Rightarrow> bool" where
  "lock_inv s \<longleftrightarrow>
     (\<forall>t. lpc s t \<noteq> Crashed) \<and>
     (\<forall>t e d. lpc s t = Locking e d \<longrightarrow> \<not> locked e \<and> locked d) \<and>
     (\<forall>t e u. lpc s t = Unlocking e u \<longrightarrow> lword s = e \<and> \<not> locked u) \<and>
     (locked (lword s) \<longleftrightarrow> (\<exists>t. in_section (lpc s t))) \<and>
     (\<forall>t t'. in_section (lpc s t) \<longrightarrow> in_section (lpc s t') \<longrightarrow> t = t')"

lemma lock_invD:
  assumes "lock_inv s"
  shows "lpc s t \<noteq> Crashed"
    and "lpc s t = Locking e d \<Longrightarrow> \<not> locked e \<and> locked d"
    and "lpc s t = Unlocking e u \<Longrightarrow> lword s = e \<and> \<not> locked u"
    and "in_section (lpc s t) \<Longrightarrow> locked (lword s)"
    and "locked (lword s) \<Longrightarrow> \<exists>t. in_section (lpc s t)"
    and "in_section (lpc s t) \<Longrightarrow> in_section (lpc s t') \<Longrightarrow> t = t'"
  using assms unfolding lock_inv_def by blast+

lemma lock_inv_lock_load:
  assumes "lock_inv s" and "lpc s t = Outside" and "try_load (lword s) = Some d"
  shows "lock_inv (s\<lparr>lpc := (lpc s)(t := Locking (lword s) d)\<rparr>)"
proof -
  have "\<not> locked (lword s)" using assms(3) try_load_None [of "lword s"] by simp
  moreover have "locked d" using assms(3) by (rule try_load_Some)
  ultimately show ?thesis
    using assms(1,2) unfolding lock_inv_def by (auto split: if_splits)
qed

lemma lock_inv_lock_cas:
  assumes "lock_inv s" and "lpc s t = Locking e d"
    and "compare_exchange_strong (lword s) e d = (ok, w)"
  shows "lock_inv (s\<lparr>lword := w, lpc := (lpc s)(t := (if ok then Holding else Outside))\<rparr>)"
proof (cases "lword s = e")
  case True
  with assms(3) have ok: "ok = True" and w: "w = d"
    by (auto simp: compare_exchange_strong_def)
  from assms(1,2) have "\<not> locked e" and d: "locked d" by (auto dest: lock_invD)
  with True assms(1) have none: "\<And>t. \<not> in_section (lpc s t)" by (auto dest: lock_invD)
  from none have "\<And>t e u. lpc s t \<noteq> Unlocking e u" by (metis in_section_simps(4))
  with none d assms(1) show ?thesis
    unfolding lock_inv_def ok w by (auto split: if_splits)
next
  case False
  with assms(3) have ok: "ok = False" and w: "w = lword s"
    by (auto simp: compare_exchange_strong_def)
  have "in_section (((lpc s)(t := Outside)) t') = in_section (lpc s t')" for t'
    using assms(2) by simp
  with assms(1,2) show ?thesis
    unfolding lock_inv_def ok w by (simp del: fun_upd_apply) simp
qed

lemma lock_inv_holder_set:
  assumes "lock_inv s" and "lpc s t = Holding" and "writes (lword s) w"
  shows "lock_inv (s\<lparr>lword := w\<rparr>)"
proof -
  have sec: "in_section (lpc s t)" using assms(2) by simp
  with assms(1) have "locked (lword s)" by (rule lock_invD)
  then have "locked w" using assms(3) by (rule writes_locked)
  moreover have "\<And>t' e u. lpc s t' \<noteq> Unlocking e u"
  proof -
    fix t' e u
    show "lpc s t' \<noteq> Unlocking e u"
    proof
      assume "lpc s t' = Unlocking e u"
      then have "in_section (lpc s t')" by simp
      with assms(1) sec have "t = t'" by (rule lock_invD(6))
      with assms(2) \<open>lpc s t' = Unlocking e u\<close> show False by simp
    qed
  qed
  ultimately show ?thesis using assms(1) sec unfolding lock_inv_def by auto
qed

lemma lock_inv_unlk_load:
  assumes "lock_inv s" and "lpc s t = Holding" and "unlk_load (lword s) = Ok u"
  shows "lock_inv (s\<lparr>lpc := (lpc s)(t := Unlocking (lword s) u)\<rparr>)"
proof -
  have sec: "in_section (lpc s t)" using assms(2) by simp
  with assms(1) have lk: "locked (lword s)" by (rule lock_invD)
  then have "\<not> locked u" using assms(3) unlk_load_Ok by fastforce
  with assms(1) lk sec show ?thesis unfolding lock_inv_def by (auto split: if_splits)
qed

lemma lock_inv_unlk_cas:
  assumes "lock_inv s" and "lpc s t = Unlocking e u"
    and "compare_exchange_strong (lword s) e u = (ok, w)"
  shows "lock_inv (s\<lparr>lword := w, lpc := (lpc s)(t := (if ok then Outside else Crashed))\<rparr>)"
proof -
  from assms(1,2) have e: "lword s = e" and u: "\<not> locked u" by (auto dest: lock_invD)
  with assms(3) have ok: "ok = True" and w: "w = u" by (auto simp: compare_exchange_strong_def)
  have sec: "in_section (lpc s t)" using assms(2) by simp
  then have only: "\<And>t'. t' \<noteq> t \<Longrightarrow> \<not> in_section (lpc s t')"
    using assms(1) by (auto dest: lock_invD)
  then have "\<And>t' e u. t' \<noteq> t \<Longrightarrow> lpc s t' \<noteq> Unlocking e u" by (metis in_section_simps(4))
  with only u assms(1) show ?thesis
    unfolding lock_inv_def ok w by (auto split: if_splits)
qed

lemma lock_step_inv: "lock_step try_load unlk_load writes s s' \<Longrightarrow> lock_inv s \<Longrightarrow> lock_inv s'"
proof (induction rule: lock_step.induct)
  case (lock_load s t d)
  then show ?case by (intro lock_inv_lock_load)
next
  case (lock_cas s t e d ok w)
  then show ?case by (intro lock_inv_lock_cas)
next
  case (holder_set s t w)
  then show ?case by (intro lock_inv_holder_set)
next
  case (unlk_load s t u)
  then show ?case by (intro lock_inv_unlk_load)
next
  case (unlk_assert s t e)
  then have "in_section (lpc s t)" by simp
  with unlk_assert.prems have "locked (lword s)" by (rule lock_invD(4))
  with unlk_assert.hyps show ?case using unlk_load_Ok by fastforce
next
  case (unlk_cas s t e u ok w)
  then show ?case by (intro lock_inv_unlk_cas)
qed

lemma lock_reach_inv:
  assumes "lock_reach try_load unlk_load writes w0 s" and "\<not> locked w0"
  shows "lock_inv s"
  using assms
proof (induction rule: lock_reach.induct)
  case lock_init
  then show ?case by (simp add: lock_inv_def)
next
  case (lock_next s s')
  then show ?case by (blast intro: lock_step_inv)
qed

lemma mutual_exclusion:
  assumes "lock_reach try_load unlk_load writes w0 s" and "\<not> locked w0"
    and "in_section (lpc s t)" and "in_section (lpc s t')"
  shows "t = t'"
  using lock_reach_inv [OF assms(1,2)] assms(3,4) by (rule lock_invD(6))

lemma no_assertion_fails:
  assumes "lock_reach try_load unlk_load writes w0 s" and "\<not> locked w0"
  shows "lpc s t \<noteq> Crashed"
  using lock_reach_inv [OF assms] by (rule lock_invD(1))

lemma locked_iff_held:
  assumes "lock_reach try_load unlk_load writes w0 s" and "\<not> locked w0"
  shows "locked (lword s) \<longleftrightarrow> (\<exists>t. in_section (lpc s t))"
  using lock_reach_inv [OF assms] by (auto dest: lock_invD)

end

end
