(* ===== verification/LNode.thy ===== *)
theory LNode
  imports LockProtocol
begin

text \<open>
  The node of the sorted list (\<^verbatim>\<open>nodes/LNode.h\<close>) and the lock word \<open>m_version_mask\<close> that
  each node carries: a 64-bit word holding a lock bit, a deleted bit, a singleton bit and a
  version. Every method of \<open>LNode\<close> on the word is here, with the laws that make the word a
  record of four independent fields.
\<close>

unbundle bit_operations_syntax

section \<open>The masks\<close>

definition LOCK_MASK :: u64 where
  "LOCK_MASK = 0x1000000000000000"

definition DELETE_MASK :: u64 where
  "DELETE_MASK = 0x2000000000000000"

definition SINGLETON_MASK :: u64 where
  "SINGLETON_MASK = 0x4000000000000000"

definition VERSIONNEG_MASK :: u64 where
  "VERSIONNEG_MASK = (LOCK_MASK OR DELETE_MASK) OR SINGLETON_MASK"

section \<open>The methods on the lock word\<close>

text \<open>
  \<open>tryLock\<close> is a load followed by a compare-and-swap. \<open>tryLock_load\<close> is what the first
  half decides from the loaded word: \<open>None\<close> is the early \<open>return false\<close>, \<open>Some d\<close> is
  the word the second half tries to install.
\<close>

definition tryLock_load :: "u64 \<Rightarrow> u64 option" where
  "tryLock_load l = (if l AND LOCK_MASK \<noteq> 0 then None else Some (l OR LOCK_MASK))"

definition tryLock :: "u64 \<Rightarrow> bool \<times> u64" where
  "tryLock l =
     (case tryLock_load l of
        None \<Rightarrow> (False, l)
      | Some locked \<Rightarrow> compare_exchange_strong l l locked)"

text \<open>\<open>unlock\<close> in the same two halves; both of its assertions are kept.\<close>

definition unlock_load :: "u64 \<Rightarrow> u64 outcome" where
  "unlock_load l =
     (if l AND LOCK_MASK \<noteq> 0 then Ok (l AND NOT LOCK_MASK) else Throw AssertionFailed)"

definition unlock :: "u64 \<Rightarrow> u64 outcome" where
  "unlock l =
     (case unlock_load l of
        Throw e \<Rightarrow> Throw e
      | Ok unlocked \<Rightarrow>
          (case compare_exchange_strong l l unlocked of
             (ret, w) \<Rightarrow> if ret then Ok w else Throw AssertionFailed))"

definition isLocked :: "u64 \<Rightarrow> bool" where
  "isLocked l \<longleftrightarrow> l AND LOCK_MASK \<noteq> 0"

definition isDeleted :: "u64 \<Rightarrow> bool" where
  "isDeleted l \<longleftrightarrow> l AND DELETE_MASK \<noteq> 0"

definition setDeleted :: "bool \<Rightarrow> u64 \<Rightarrow> u64 outcome" where
  "setDeleted value l =
     (if l AND LOCK_MASK \<noteq> 0
      then Ok (if value then l OR DELETE_MASK else l AND NOT DELETE_MASK)
      else Throw AssertionFailed)"

definition isLockedOrDeleted :: "u64 \<Rightarrow> bool" where
  "isLockedOrDeleted l \<longleftrightarrow> l AND DELETE_MASK \<noteq> 0 \<or> l AND LOCK_MASK \<noteq> 0"

definition isSingleton :: "u64 \<Rightarrow> bool" where
  "isSingleton l \<longleftrightarrow> l AND SINGLETON_MASK \<noteq> 0"

definition setSingletonNoLockAssert :: "bool \<Rightarrow> u64 \<Rightarrow> u64" where
  "setSingletonNoLockAssert value l =
     (if value then l OR SINGLETON_MASK else l AND NOT SINGLETON_MASK)"

definition setSingleton :: "bool \<Rightarrow> u64 \<Rightarrow> u64 outcome" where
  "setSingleton value l =
     (if l AND LOCK_MASK \<noteq> 0
      then Ok (if value then l OR SINGLETON_MASK else l AND NOT SINGLETON_MASK)
      else Throw AssertionFailed)"

definition getVersion :: "u64 \<Rightarrow> u64" where
  "getVersion l = l AND NOT VERSIONNEG_MASK"

definition setVersion :: "u64 \<Rightarrow> u64 \<Rightarrow> u64 outcome" where
  "setVersion version l =
     (if l AND LOCK_MASK \<noteq> 0
      then Ok ((l AND VERSIONNEG_MASK) OR (version AND NOT VERSIONNEG_MASK))
      else Throw AssertionFailed)"

definition isSameVersionAndSingleton :: "u64 \<Rightarrow> u64 \<Rightarrow> bool" where
  "isSameVersionAndSingleton version l =
     (if l AND SINGLETON_MASK \<noteq> 0 then (l AND NOT VERSIONNEG_MASK) = version else False)"

definition setVersionAndSingletonNoLockAssert :: "u64 \<Rightarrow> bool \<Rightarrow> u64 \<Rightarrow> u64" where
  "setVersionAndSingletonNoLockAssert version value l =
     (let l1 = l AND VERSIONNEG_MASK;
          l2 = l1 OR (version AND NOT VERSIONNEG_MASK)
      in if value then l2 OR SINGLETON_MASK else l2 AND NOT SINGLETON_MASK)"

definition setVersionAndSingleton :: "u64 \<Rightarrow> bool \<Rightarrow> u64 \<Rightarrow> u64 outcome" where
  "setVersionAndSingleton version value l =
     (if l AND LOCK_MASK \<noteq> 0
      then (let l1 = l AND VERSIONNEG_MASK;
                l2 = l1 OR (version AND NOT VERSIONNEG_MASK)
            in Ok (if value then l2 OR SINGLETON_MASK else l2 AND NOT SINGLETON_MASK))
      else Throw AssertionFailed)"

definition setVersionAndDeletedAndSingleton :: "u64 \<Rightarrow> bool \<Rightarrow> bool \<Rightarrow> u64 \<Rightarrow> u64 outcome" where
  "setVersionAndDeletedAndSingleton version deleted singleton l =
     (if l AND LOCK_MASK \<noteq> 0
      then (let l1 = l AND VERSIONNEG_MASK;
                l2 = l1 OR (version AND NOT VERSIONNEG_MASK);
                l3 = (if singleton then l2 OR SINGLETON_MASK else l2 AND NOT SINGLETON_MASK)
            in Ok (if deleted then l3 OR DELETE_MASK else l3 AND NOT DELETE_MASK))
      else Throw AssertionFailed)"

section \<open>The word read bit by bit\<close>

lemma mask_exps:
  "LOCK_MASK = 2 ^ 60" "DELETE_MASK = 2 ^ 61" "SINGLETON_MASK = 2 ^ 62"
  by (simp_all add: LOCK_MASK_def DELETE_MASK_def SINGLETON_MASK_def)

lemma bit_masks [simp]:
  "bit LOCK_MASK n \<longleftrightarrow> n = 60"
  "bit DELETE_MASK n \<longleftrightarrow> n = 61"
  "bit SINGLETON_MASK n \<longleftrightarrow> n = 62"
  unfolding mask_exps bit_exp_iff possible_bit_word by auto

lemma bit_VERSIONNEG_MASK [simp]: "bit VERSIONNEG_MASK n \<longleftrightarrow> n = 60 \<or> n = 61 \<or> n = 62"
  by (auto simp: VERSIONNEG_MASK_def bit_or_iff)

lemma and_mask_eq_0 [simp]:
  "l AND LOCK_MASK = 0 \<longleftrightarrow> \<not> bit l 60"
  "l AND DELETE_MASK = 0 \<longleftrightarrow> \<not> bit l 61"
  "l AND SINGLETON_MASK = 0 \<longleftrightarrow> \<not> bit l 62"
  unfolding mask_exps by (rule and_exp_eq_0_iff_not_bit)+

lemma u64_eq_iff: "(a :: u64) = b \<longleftrightarrow> (\<forall>n<64. bit a n = bit b n)"
  by (auto intro: bit_word_eqI)

lemma flag_bits:
  "isLocked l \<longleftrightarrow> bit l 60"
  "isDeleted l \<longleftrightarrow> bit l 61"
  "isSingleton l \<longleftrightarrow> bit l 62"
  by (simp_all add: isLocked_def isDeleted_def isSingleton_def)

lemma bit_getVersion [simp]:
  "bit (getVersion l) n \<longleftrightarrow> bit l n \<and> n \<noteq> 60 \<and> n \<noteq> 61 \<and> n \<noteq> 62"
  by (auto simp: getVersion_def bit_simps dest: bit_imp_le_length)

lemma isLockedOrDeleted_iff [simp]: "isLockedOrDeleted l \<longleftrightarrow> isDeleted l \<or> isLocked l"
  by (simp add: isLockedOrDeleted_def isDeleted_def isLocked_def)

lemma isSameVersionAndSingleton_iff [simp]:
  "isSameVersionAndSingleton v l \<longleftrightarrow> isSingleton l \<and> getVersion l = v"
  by (simp add: isSameVersionAndSingleton_def isSingleton_def getVersion_def)

section \<open>The word as a record of four fields\<close>

record lock_fields =
  lf_locked :: bool
  lf_deleted :: bool
  lf_singleton :: bool
  lf_version :: u64

definition fields :: "u64 \<Rightarrow> lock_fields" where
  "fields l = \<lparr>lf_locked = isLocked l, lf_deleted = isDeleted l,
               lf_singleton = isSingleton l, lf_version = getVersion l\<rparr>"

lemma fields_sel [simp]:
  "lf_locked (fields l) = isLocked l" "lf_deleted (fields l) = isDeleted l"
  "lf_singleton (fields l) = isSingleton l" "lf_version (fields l) = getVersion l"
  by (simp_all add: fields_def)

lemma fieldsD:
  "fields w = f \<Longrightarrow> isLocked w = lf_locked f \<and> isDeleted w = lf_deleted f \<and>
     isSingleton w = lf_singleton f \<and> getVersion w = lf_version f"
  by auto

lemma word_eq_by_fields:
  assumes "isLocked l = isLocked m" "isDeleted l = isDeleted m"
    "isSingleton l = isSingleton m" "getVersion l = getVersion m"
  shows "l = m"
proof (rule bit_word_eqI)
  fix n
  assume "n < LENGTH(64)"
  from assms(4) have "bit (getVersion l) n = bit (getVersion m) n" by simp
  with assms(1-3) show "bit l n = bit m n"
    by (cases "n = 60 \<or> n = 61 \<or> n = 62") (auto simp: flag_bits)
qed

text \<open>A version fits when it leaves the three flag bits alone.\<close>

definition version_fits :: "u64 \<Rightarrow> bool" where
  "version_fits v \<longleftrightarrow> v AND VERSIONNEG_MASK = 0"

lemma version_fits_iff: "version_fits v \<longleftrightarrow> getVersion v = v"
proof -
  have "v AND VERSIONNEG_MASK = 0 \<longleftrightarrow> (\<forall>n<64. bit v n \<longrightarrow> n \<noteq> 60 \<and> n \<noteq> 61 \<and> n \<noteq> 62)"
    by (auto simp: u64_eq_iff bit_and_iff)
  moreover have "getVersion v = v \<longleftrightarrow> (\<forall>n<64. bit v n \<longrightarrow> n \<noteq> 60 \<and> n \<noteq> 61 \<and> n \<noteq> 62)"
    by (auto simp: u64_eq_iff)
  ultimately show ?thesis by (simp add: version_fits_def)
qed

lemma getVersion_idem [simp]: "getVersion (getVersion l) = getVersion l"
  by (rule bit_word_eqI) auto

subsection \<open>What each method does to the fields\<close>

lemma tryLock_eq: "tryLock l = (\<not> isLocked l, l OR LOCK_MASK)"
proof (cases "isLocked l")
  case True
  then have "l OR LOCK_MASK = l"
    by (intro bit_word_eqI) (auto simp: flag_bits bit_or_iff)
  with True show ?thesis
    by (simp add: tryLock_def tryLock_load_def isLocked_def)
qed (simp add: tryLock_def tryLock_load_def isLocked_def compare_exchange_strong_def)

lemma unlock_eq: "unlock l = (if isLocked l then Ok (l AND NOT LOCK_MASK) else Throw AssertionFailed)"
  by (simp add: unlock_def unlock_load_def isLocked_def compare_exchange_strong_def)

lemma or_LOCK_fields [lock_word_simps]:
  "isLocked (l OR LOCK_MASK)" "isDeleted (l OR LOCK_MASK) = isDeleted l"
  "isSingleton (l OR LOCK_MASK) = isSingleton l" "getVersion (l OR LOCK_MASK) = getVersion l"
  by (auto simp: flag_bits bit_or_iff u64_eq_iff)

lemma clear_LOCK_fields [lock_word_simps]:
  "\<not> isLocked (l AND NOT LOCK_MASK)" "isDeleted (l AND NOT LOCK_MASK) = isDeleted l"
  "isSingleton (l AND NOT LOCK_MASK) = isSingleton l"
  "getVersion (l AND NOT LOCK_MASK) = getVersion l"
  by (auto simp: flag_bits bit_simps u64_eq_iff dest: bit_imp_le_length)

lemma unlock_lock_id [lock_word_simps]:
  "\<not> isLocked l \<Longrightarrow> (l OR LOCK_MASK) AND NOT LOCK_MASK = l"
  by (rule bit_word_eqI) (auto simp: flag_bits bit_simps)

lemma locked_word_setters:
  assumes "isLocked l"
  shows "setDeleted b l = Ok (if b then l OR DELETE_MASK else l AND NOT DELETE_MASK)"
    and "setSingleton b l = Ok (setSingletonNoLockAssert b l)"
    and "setVersion v l = Ok ((l AND VERSIONNEG_MASK) OR (v AND NOT VERSIONNEG_MASK))"
    and "setVersionAndSingleton v b l = Ok (setVersionAndSingletonNoLockAssert v b l)"
  using assms
  by (simp_all add: setDeleted_def setSingleton_def setSingletonNoLockAssert_def setVersion_def
      setVersionAndSingleton_def setVersionAndSingletonNoLockAssert_def isLocked_def Let_def)

lemma setDeleted_fields:
  assumes "setDeleted b l = Ok w"
  shows "fields w = (fields l)\<lparr>lf_deleted := b\<rparr>"
proof -
  from assms have w: "w = (if b then l OR DELETE_MASK else l AND NOT DELETE_MASK)"
    by (simp add: setDeleted_def split: if_splits)
  show ?thesis unfolding w
    by (auto simp: fields_def flag_bits bit_simps u64_eq_iff dest: bit_imp_le_length)
qed

lemma setSingletonNoLockAssert_fields:
  "fields (setSingletonNoLockAssert b l) = (fields l)\<lparr>lf_singleton := b\<rparr>"
  by (auto simp: setSingletonNoLockAssert_def fields_def flag_bits bit_simps u64_eq_iff
      dest: bit_imp_le_length)

lemma setVersion_fields:
  assumes "setVersion v l = Ok w"
  shows "fields w = (fields l)\<lparr>lf_version := getVersion v\<rparr>"
proof -
  from assms have w: "w = (l AND VERSIONNEG_MASK) OR (v AND NOT VERSIONNEG_MASK)"
    by (simp add: setVersion_def split: if_splits)
  show ?thesis unfolding w
    by (auto simp: fields_def flag_bits bit_simps u64_eq_iff dest: bit_imp_le_length)
qed

lemma setVersionAndSingletonNoLockAssert_fields:
  "fields (setVersionAndSingletonNoLockAssert v b l) =
     (fields l)\<lparr>lf_singleton := b, lf_version := getVersion v\<rparr>"
  by (auto simp: setVersionAndSingletonNoLockAssert_def Let_def fields_def flag_bits bit_simps
      u64_eq_iff dest: bit_imp_le_length)

lemma setVersionAndDeletedAndSingleton_fields:
  assumes "setVersionAndDeletedAndSingleton v d b l = Ok w"
  shows "fields w =
    (fields l)\<lparr>lf_deleted := d, lf_singleton := b, lf_version := getVersion v\<rparr>"
proof -
  let ?m = "setVersionAndSingletonNoLockAssert v b l"
  from assms have w: "w = (if d then ?m OR DELETE_MASK else ?m AND NOT DELETE_MASK)"
    by (simp add: setVersionAndDeletedAndSingleton_def setVersionAndSingletonNoLockAssert_def
        Let_def split: if_splits)
  have "fields w = (fields ?m)\<lparr>lf_deleted := d\<rparr>" unfolding w
    by (auto simp: fields_def flag_bits bit_simps u64_eq_iff dest: bit_imp_le_length)
  then show ?thesis by (simp add: setVersionAndSingletonNoLockAssert_fields)
qed

text \<open>The asserting setters succeed exactly on a locked word.\<close>

lemma setters_assert:
  "(\<exists>w. setDeleted b l = Ok w) \<longleftrightarrow> isLocked l"
  "(\<exists>w. setSingleton b l = Ok w) \<longleftrightarrow> isLocked l"
  "(\<exists>w. setVersion v l = Ok w) \<longleftrightarrow> isLocked l"
  "(\<exists>w. setVersionAndSingleton v b l = Ok w) \<longleftrightarrow> isLocked l"
  "(\<exists>w. setVersionAndDeletedAndSingleton v d b l = Ok w) \<longleftrightarrow> isLocked l"
  by (simp_all add: setDeleted_def setSingleton_def setVersion_def setVersionAndSingleton_def
      setVersionAndDeletedAndSingleton_def isLocked_def Let_def)

section \<open>The lock bit under interleaving\<close>

text \<open>
  The setters a lock holder applies between \<open>tryLock\<close> and \<open>unlock\<close>. Each reads the word and
  stores a new one; all of them assert the lock bit.
\<close>

definition holder_write :: "u64 \<Rightarrow> u64 \<Rightarrow> bool" where
  "holder_write l w \<longleftrightarrow>
     (\<exists>b. setDeleted b l = Ok w) \<or> (\<exists>b. setSingleton b l = Ok w) \<or>
     (\<exists>v. setVersion v l = Ok w) \<or> (\<exists>v b. setVersionAndSingleton v b l = Ok w) \<or>
     (\<exists>v d b. setVersionAndDeletedAndSingleton v d b l = Ok w)"

lemma setters_keep_lock:
  assumes "isLocked l"
  shows "setDeleted b l = Ok w \<Longrightarrow> isLocked w"
    and "setSingleton b l = Ok w \<Longrightarrow> isLocked w"
    and "setVersion v l = Ok w \<Longrightarrow> isLocked w"
    and "setVersionAndSingleton v b l = Ok w \<Longrightarrow> isLocked w"
    and "setVersionAndDeletedAndSingleton v d b l = Ok w \<Longrightarrow> isLocked w"
proof -
  show "setDeleted b l = Ok w \<Longrightarrow> isLocked w"
    using assms by (auto dest!: setDeleted_fields fieldsD)
  show "setVersion v l = Ok w \<Longrightarrow> isLocked w"
    using assms by (auto dest!: setVersion_fields fieldsD)
  show "setVersionAndDeletedAndSingleton v d b l = Ok w \<Longrightarrow> isLocked w"
    using assms by (auto dest!: setVersionAndDeletedAndSingleton_fields fieldsD)
  show "setSingleton b l = Ok w \<Longrightarrow> isLocked w"
    using assms fieldsD [OF setSingletonNoLockAssert_fields [of b l]]
    by (auto simp: locked_word_setters)
  show "setVersionAndSingleton v b l = Ok w \<Longrightarrow> isLocked w"
    using assms fieldsD [OF setVersionAndSingletonNoLockAssert_fields [of v b l]]
    by (auto simp: locked_word_setters)
qed

interpretation node_lock: versioned_lock isLocked tryLock_load unlock_load holder_write
proof unfold_locales
  show "tryLock_load w = None \<longleftrightarrow> isLocked w" for w
    by (simp add: tryLock_load_def isLocked_def)
  show "tryLock_load w = Some d \<Longrightarrow> isLocked d" for w d
    by (auto simp: tryLock_load_def lock_word_simps split: if_splits)
  show "isLocked w \<Longrightarrow> \<exists>u. unlock_load w = Ok u \<and> \<not> isLocked u" for w
    by (auto simp: unlock_load_def isLocked_def bit_simps)
  show "isLocked w \<Longrightarrow> holder_write w w' \<Longrightarrow> isLocked w'" for w w'
    unfolding holder_write_def
    by (elim disjE exE) (erule (1) setters_keep_lock)+
qed

section \<open>Properties\<close>


text \<open>Two threads load the same word and race; thread \<open>0\<close> wins and thread \<open>1\<close> fails.\<close>

lemma lock_race_reachable:
  "lock_reach tryLock_load unlock_load holder_write 5
     \<lparr>lword = 5 OR LOCK_MASK,
      lpc = (\<lambda>_. Outside)(0 := Locking 5 (5 OR LOCK_MASK), 1 := Locking 5 (5 OR LOCK_MASK),
                          0 := Holding, 1 := Outside)\<rparr>"
proof -
  let ?d = "5 OR LOCK_MASK" and ?pc = "(\<lambda>_. Outside) :: nat \<Rightarrow> u64 lock_pc"
  have d: "tryLock_load 5 = Some ?d" by (simp add: tryLock_load_def LOCK_MASK_def)
  have ne: "?d \<noteq> 5" by (simp add: LOCK_MASK_def)
  let ?R = "lock_reach tryLock_load unlock_load holder_write 5"
  have "?R \<lparr>lword = 5, lpc = ?pc\<rparr>" by (rule lock_init)
  from lock_next [OF this lock_load [where t = 0 and d = ?d]] d
  have "?R \<lparr>lword = 5, lpc = ?pc(0 := Locking 5 ?d)\<rparr>" by simp
  from lock_next [OF this lock_load [where t = 1 and d = ?d]] d
  have "?R \<lparr>lword = 5, lpc = ?pc(0 := Locking 5 ?d, 1 := Locking 5 ?d)\<rparr>" by simp
  from lock_next [OF this lock_cas [where t = 0 and e = 5 and d = ?d and ok = True and w = ?d]]
  have "?R \<lparr>lword = ?d, lpc = ?pc(0 := Locking 5 ?d, 1 := Locking 5 ?d, 0 := Holding)\<rparr>"
    by (simp add: compare_exchange_strong_def)
  from lock_next [OF this lock_cas [where t = 1 and e = 5 and d = ?d and ok = False and w = ?d]] ne
  show ?thesis by (simp add: compare_exchange_strong_def)
qed





end
