(* ===== verification/TxState.thy ===== *)
theory TxState
  imports LNode
begin

text \<open>
  The state every method of the library works on: the heap of list nodes with the wrappers of
  \<^verbatim>\<open>nodes/LNodeWrapper.h\<close>, the record manager of \<^verbatim>\<open>nodes/record_mgr.h\<close>, the thread-local
  \<open>LocalTransaction\<close> and \<open>LocalStorage\<close>, and the accessors through which the methods of
  \<open>LNode\<close> are called on a heap node. The model is the default build (\<open>tds\<close>, neither
  \<open>UNSAFE\<close> nor \<open>DEBRA\<close> defined).
\<close>

section \<open>Data\<close>

text \<open>
  A heap cell: the fields of \<open>LNode\<close>, and the \<open>deleted\<close> flag of its \<open>LNodeWrapper\<close>. In the
  default build the flag is a \<open>shared_ptr\<close> made when the node is made and shared by every
  copy of the wrapper, so there is one flag per node. A wrapper is a pointer
  \<open>addr option\<close>, \<open>None\<close> being the null wrapper.
\<close>

record lnode =
  m_key :: key_t
  m_val :: "val_t option"
  m_next :: "addr option"
  m_version_mask :: u64
  w_deleted :: bool

record write_element =
  we_next :: "addr option"
  we_val :: "val_t option"
  we_deleted :: bool

record local_transaction =
  readVersion :: u64
  writeVersion :: u64
  TX :: bool
  readOnly :: bool

text \<open>
  The sets and maps are lists without repetition, in the order in which the unordered
  containers are iterated.
\<close>

record local_storage =
  writeSet :: "(addr \<times> write_element) list"
  readSet :: "addr list"
  indexAdd :: "(list_id \<times> addr list) list"
  indexRemove :: "(list_id \<times> addr list) list"

record 'ix linked_list =
  ll_head :: addr
  ll_index :: 'ix

text \<open>
  What one thread sees: the shared heap with the next unused address, the global version clock,
  the lists, the calls of \<open>retire_node\<close> so far; and its own transaction, storage and random
  seed.
\<close>

record 'ix state =
  heap :: "addr \<Rightarrow> lnode option"
  next_addr :: addr
  gvc :: u64
  lists :: "list_id \<Rightarrow> 'ix linked_list"
  retired :: "addr list"
  lt :: local_transaction
  ls :: local_storage
  rng :: u64

definition initial_transaction :: local_transaction where
  "initial_transaction = \<lparr>readVersion = 0, writeVersion = 0, TX = False, readOnly = True\<rparr>"

definition initial_storage :: local_storage where
  "initial_storage = \<lparr>writeSet = [], readSet = [], indexAdd = [], indexRemove = []\<rparr>"

section \<open>Heap access\<close>

definition derefE :: "addr option \<Rightarrow> ('ix state, lnode) cmd" where
  "derefE p = (\<lambda>s. case p of
       None \<Rightarrow> (Throw NullPointer, s)
     | Some a \<Rightarrow> (case heap s a of None \<Rightarrow> (Throw NullPointer, s) | Some n \<Rightarrow> (Ok n, s)))"

definition updE :: "addr \<Rightarrow> (lnode \<Rightarrow> lnode) \<Rightarrow> ('ix state, unit) cmd" where
  "updE a f = bindE (derefE (Some a)) (\<lambda>n. modifyE (\<lambda>s. s\<lparr>heap := (heap s)(a \<mapsto> f n)\<rparr>))"

text \<open>The methods of \<open>LNode\<close> called through a pointer.\<close>

definition readWord :: "addr \<Rightarrow> (u64 \<Rightarrow> 'a) \<Rightarrow> ('ix state, 'a) cmd" where
  "readWord a f = bindE (derefE (Some a)) (\<lambda>n. returnE (f (m_version_mask n)))"

definition writeWord :: "addr \<Rightarrow> (u64 \<Rightarrow> u64 outcome) \<Rightarrow> ('ix state, unit) cmd" where
  "writeWord a f = bindE (derefE (Some a)) (\<lambda>n.
     case f (m_version_mask n) of
       Throw e \<Rightarrow> throwE e
     | Ok w \<Rightarrow> updE a (\<lambda>n. n\<lparr>m_version_mask := w\<rparr>))"

definition node_tryLock :: "addr \<Rightarrow> ('ix state, bool) cmd" where
  "node_tryLock a = bindE (derefE (Some a)) (\<lambda>n.
     case tryLock (m_version_mask n) of
       (ok, w) \<Rightarrow> thenE (updE a (\<lambda>n. n\<lparr>m_version_mask := w\<rparr>)) (returnE ok))"

definition node_unlock :: "addr \<Rightarrow> ('ix state, unit) cmd" where
  "node_unlock a = writeWord a unlock"

section \<open>The wrapper and the record manager\<close>

text \<open>\<open>delete_wrapped_node\<close> stores \<open>false\<close> into the flag: no call ever sets it.\<close>

definition delete_wrapped_node :: "addr \<Rightarrow> ('ix state, unit) cmd" where
  "delete_wrapped_node a = updE a (\<lambda>n. n\<lparr>w_deleted := False\<rparr>)"

text \<open>
  \<open>LNodeWrapper(key)\<close> makes a node with the default \<open>m_val\<close> and \<open>m_next\<close>, an all-zero
  lock word and a cleared flag.
\<close>

definition new_LNode :: "key_t \<Rightarrow> lnode" where
  "new_LNode key = \<lparr>m_key = key, m_val = None, m_next = None, m_version_mask = 0, w_deleted = False\<rparr>"

definition get_new_node_key :: "key_t \<Rightarrow> ('ix state, addr) cmd" where
  "get_new_node_key key = (\<lambda>s.
     (Ok (next_addr s),
      s\<lparr>heap := (heap s)(next_addr s \<mapsto> new_LNode key), next_addr := Suc (next_addr s)\<rparr>))"

definition get_new_node :: "key_t \<Rightarrow> val_t \<Rightarrow> ('ix state, addr) cmd" where
  "get_new_node key val = bindE (get_new_node_key key) (\<lambda>n.
     thenE (updE n (\<lambda>nd. nd\<lparr>m_val := Some val\<rparr>)) (returnE n))"

text \<open>
  \<open>retire_node\<close> hands the node to \<open>delete_wrapped_node\<close>; the field \<open>retired\<close> records the
  call (the \<open>DEBRA\<close> build passes the same node on to its reclaimer).
\<close>

definition retire_node :: "addr \<Rightarrow> ('ix state, unit) cmd" where
  "retire_node a = thenE (delete_wrapped_node a) (modifyE (\<lambda>s. s\<lparr>retired := retired s @ [a]\<rparr>))"

section \<open>Local storage\<close>

definition modifyLS :: "(local_storage \<Rightarrow> local_storage) \<Rightarrow> ('ix state, unit) cmd" where
  "modifyLS f = modifyE (\<lambda>s. s\<lparr>ls := f (ls s)\<rparr>)"

definition modifyLT :: "(local_transaction \<Rightarrow> local_transaction) \<Rightarrow> ('ix state, unit) cmd" where
  "modifyLT f = modifyE (\<lambda>s. s\<lparr>lt := f (lt s)\<rparr>)"

definition putIntoWriteSet ::
  "addr \<Rightarrow> addr option \<Rightarrow> val_t option \<Rightarrow> bool \<Rightarrow> local_storage \<Rightarrow> local_storage" where
  "putIntoWriteSet node next val deleted st =
     (let we = \<lparr>we_next = next, we_val = val, we_deleted = deleted\<rparr>
      in st\<lparr>writeSet := alist_put node we (writeSet st)\<rparr>)"

definition addToIndexAdd :: "list_id \<Rightarrow> addr \<Rightarrow> local_storage \<Rightarrow> local_storage" where
  "addToIndexAdd l node st =
     (let nodes = (case map_of (indexAdd st) l of None \<Rightarrow> [] | Some ns \<Rightarrow> ns)
      in st\<lparr>indexAdd := alist_put l (nodes @ [node]) (indexAdd st)\<rparr>)"

definition addToIndexRemove :: "list_id \<Rightarrow> addr \<Rightarrow> local_storage \<Rightarrow> local_storage" where
  "addToIndexRemove l node st =
     (let nodes = (case map_of (indexRemove st) l of None \<Rightarrow> [] | Some ns \<Rightarrow> ns)
      in st\<lparr>indexRemove := alist_put l (nodes @ [node]) (indexRemove st)\<rparr>)"

definition emplaceReadSet :: "addr \<Rightarrow> local_storage \<Rightarrow> local_storage" where
  "emplaceReadSet node st = st\<lparr>readSet := List.insert node (readSet st)\<rparr>"

definition clear_storage :: "local_storage \<Rightarrow> local_storage" where
  "clear_storage st = st\<lparr>writeSet := [], readSet := [], indexAdd := [], indexRemove := []\<rparr>"

section \<open>The index interface\<close>

text \<open>
  The operations a list calls on its index. The skip list (\<^verbatim>\<open>nodes/Index.h\<close>) and the dummy
  index (\<^verbatim>\<open>datatypes/dummyIndex.h\<close>) provide them; \<open>add\<close> draws its level from the thread's
  random seed.
\<close>

record 'ix index_ops =
  ix_init :: "addr \<Rightarrow> 'ix"
  ix_add :: "(addr \<Rightarrow> lnode option) \<Rightarrow> addr \<Rightarrow> u64 \<Rightarrow> 'ix \<Rightarrow> (u64 \<times> 'ix) outcome"
  ix_remove :: "(addr \<Rightarrow> lnode option) \<Rightarrow> addr \<Rightarrow> 'ix \<Rightarrow> 'ix outcome"
  ix_getPred :: "(addr \<Rightarrow> lnode option) \<Rightarrow> key_t \<Rightarrow> 'ix \<Rightarrow> (addr \<times> 'ix) outcome"

definition set_index :: "list_id \<Rightarrow> 'ix \<Rightarrow> 'ix state \<Rightarrow> 'ix state" where
  "set_index l ix s = s\<lparr>lists := (lists s)(l := (lists s l)\<lparr>ll_index := ix\<rparr>)\<rparr>"

definition index_add :: "'ix index_ops \<Rightarrow> list_id \<Rightarrow> addr \<Rightarrow> ('ix state, unit) cmd" where
  "index_add i l a = (\<lambda>s.
     case ix_add i (heap s) a (rng s) (ll_index (lists s l)) of
       Throw e \<Rightarrow> (Throw e, s)
     | Ok (r, ix) \<Rightarrow> (Ok (), (set_index l ix s)\<lparr>rng := r\<rparr>))"

definition index_remove :: "'ix index_ops \<Rightarrow> list_id \<Rightarrow> addr \<Rightarrow> ('ix state, unit) cmd" where
  "index_remove i l a = (\<lambda>s.
     case ix_remove i (heap s) a (ll_index (lists s l)) of
       Throw e \<Rightarrow> (Throw e, s)
     | Ok ix \<Rightarrow> (Ok (), set_index l ix s))"

definition index_getPred :: "'ix index_ops \<Rightarrow> list_id \<Rightarrow> key_t \<Rightarrow> ('ix state, addr) cmd" where
  "index_getPred i l key = (\<lambda>s.
     case ix_getPred i (heap s) key (ll_index (lists s l)) of
       Throw e \<Rightarrow> (Throw e, s)
     | Ok (b, ix) \<Rightarrow> (Ok b, set_index l ix s))"

end
