(* ===== verification/TXManager.thy ===== *)
theory TXManager
  imports TxState
begin

text \<open>
  The transaction manager, \<^verbatim>\<open>TX.h\<close>: the global version clock, \<open>TXbegin\<close>, \<open>TXend\<close> with its
  phases (lock the write set, validate the read set, advance the clock, publish, unlock, update
  the index, clean up), and \<open>handle_abort\<close>. The queue parts of \<open>TXend\<close> are commented out in
  the source and have no counterpart. The guard \<open>TXend\<close> takes is the constant \<open>0\<close> in the
  default build.
\<close>

definition TX_getVersion :: "('ix state, u64) cmd" where
  "TX_getVersion = getsE gvc"

definition incrementAndGetVersion :: "('ix state, u64) cmd" where
  "incrementAndGetVersion = thenE (modifyE (\<lambda>s. s\<lparr>gvc := gvc s + 1\<rparr>)) (getsE gvc)"

definition TXbegin :: "('ix state, unit) cmd" where
  "TXbegin =
     thenE (modifyLT (\<lambda>t. t\<lparr>TX := True\<rparr>))
       (bindE TX_getVersion (\<lambda>v. modifyLT (\<lambda>t. t\<lparr>readVersion := v\<rparr>)))"

text \<open>The loop that locks the write set: \<open>(True, locked)\<close> when a lock could not be taken.\<close>

primrec lockWriteSet ::
  "(addr \<times> write_element) list \<Rightarrow> addr list \<Rightarrow> ('ix state, bool \<times> addr list) cmd" where
  "lockWriteSet [] locked = returnE (False, locked)"
| "lockWriteSet (p # ps) locked =
     bindE (node_tryLock (fst p)) (\<lambda>ok.
       if \<not> ok then returnE (True, locked)
       else lockWriteSet ps (List.insert (fst p) locked))"

text \<open>The loop that validates the read set: whether the transaction has to abort.\<close>

primrec validateReadSet :: "addr list \<Rightarrow> addr list \<Rightarrow> ('ix state, bool) cmd" where
  "validateReadSet locked [] = returnE False"
| "validateReadSet locked (node # nodes) =
     bindE (getsE (\<lambda>s. readVersion (lt s))) (\<lambda>rv.
     bindE (if node \<notin> set locked then readWord node isLocked else returnE False) (\<lambda>other.
     if other then returnE True
     else bindE (readWord node getVersion) (\<lambda>v.
       if v > rv then returnE True
       else bindE (readWord node getVersion) (\<lambda>v.
            bindE (if v = rv then readWord node isSingleton else returnE False) (\<lambda>single.
            if single
            then thenE incrementAndGetVersion
                   (thenE (writeWord node (setSingleton False)) (returnE True))
            else validateReadSet locked nodes)))))"

text \<open>Publishing one entry of the write set.\<close>

definition commitNode :: "u64 \<Rightarrow> addr \<times> write_element \<Rightarrow> ('ix state, unit) cmd" where
  "commitNode wv p =
     (let node = fst p; we = snd p in
      thenE (updE node (\<lambda>n. n\<lparr>m_next := we_next we\<rparr>))
     (thenE (updE node (\<lambda>n. n\<lparr>m_val := we_val we\<rparr>))
     (thenE (if we_deleted we
             then thenE (writeWord node (setDeleted True)) (updE node (\<lambda>n. n\<lparr>m_val := None\<rparr>))
             else returnE ())
     (thenE (writeWord node (setVersion wv))
            (writeWord node (setSingleton False))))))"

definition updateIndex :: "'ix index_ops \<Rightarrow> ('ix state, unit) cmd" where
  "updateIndex i =
     bindE (getsE (\<lambda>s. ls s)) (\<lambda>st.
     thenE (forE (indexAdd st) (\<lambda>(l, nodes). forE nodes (\<lambda>node. index_add i l node)))
           (forE (indexRemove st) (\<lambda>(l, nodes). forE nodes (\<lambda>node.
              thenE (index_remove i l node) (retire_node node)))))"

definition cleanup :: "('ix state, unit) cmd" where
  "cleanup = thenE (modifyLS clear_storage) (modifyLT (\<lambda>t. t\<lparr>TX := False, readOnly := True\<rparr>))"

text \<open>Clock and publication, for a transaction that was validated.\<close>

definition commitWrites :: "bool \<Rightarrow> ('ix state, unit) cmd" where
  "commitWrites abort =
     bindE (getsE (\<lambda>s. readOnly (lt s))) (\<lambda>ro.
     if \<not> abort \<and> \<not> ro
     then bindE incrementAndGetVersion (\<lambda>wv.
          bindE (getsE (\<lambda>s. readVersion (lt s))) (\<lambda>rv.
          thenE (assertE (wv > rv))
         (thenE (modifyLT (\<lambda>t. t\<lparr>writeVersion := wv\<rparr>))
          (bindE (getsE (\<lambda>s. writeSet (ls s))) (\<lambda>ws. forE ws (commitNode wv))))))
     else returnE ())"

definition TXend :: "'ix index_ops \<Rightarrow> ('ix state, bool) cmd" where
  "TXend i =
     bindE (getsE (\<lambda>s. TX (lt s))) (\<lambda>active.
     bindE (if active then bindE (getsE (\<lambda>s. writeSet (ls s))) (\<lambda>ws. lockWriteSet ws [])
            else returnE (True, [])) (\<lambda>(abort1, locked).
     bindE (if \<not> abort1 then bindE (getsE (\<lambda>s. readSet (ls s))) (validateReadSet locked)
            else returnE True) (\<lambda>abort.
     thenE (commitWrites abort)
    (thenE (forE locked node_unlock)
    (bindE (getsE (\<lambda>s. readOnly (lt s))) (\<lambda>ro.
     thenE (if \<not> abort \<and> \<not> ro then updateIndex i else returnE ())
    (thenE cleanup
     (if abort then throwE TxAbortException else returnE True))))))))"

definition handle_abort :: "('ix state, unit) cmd" where
  "handle_abort =
     bindE (getsE (\<lambda>s. indexAdd (ls s))) (\<lambda>indexMap.
     thenE (forE indexMap (\<lambda>(l, nodes). forE nodes retire_node)) cleanup)"

end
