(* ===== verification/LinkedList.thy ===== *)
theory LinkedList
  imports TXManager
begin

text \<open>
  The sorted transactional list, \<^verbatim>\<open>datatypes/LinkedList.h\<close>: the traversals, the operations a
  thread performs inside a transaction (through its read and write sets), the singleton
  operations outside one, and the whole-list walks. \<open>i\<close> is the index implementation and
  \<open>l\<close> the list (\<open>this\<close>). A method runs as one step of its thread; the loops carry a bound
  taken from the number of allocated nodes, and \<open>Diverges\<close> is the value of a loop that passes
  it. The memory fences order accesses of other threads and have no effect within one step; the
  guards of \<open>recordMgr\<close> are the constant \<open>0\<close> in the default build.
\<close>

section \<open>Construction\<close>

text \<open>The head holds the least key and the default value, both \<open>0\<close> for \<open>size_t\<close>.\<close>

definition LinkedList_init :: "'ix index_ops \<Rightarrow> list_id \<Rightarrow> ('ix state, unit) cmd" where
  "LinkedList_init i l =
     bindE (get_new_node 0 0) (\<lambda>h.
       modifyE (\<lambda>s. s\<lparr>lists := (lists s)(l := \<lparr>ll_head = h, ll_index = ix_init i h\<rparr>)\<rparr>))"

section \<open>Reads inside a transaction\<close>

definition abortTX :: "('ix state, 'a) cmd" where
  "abortTX = thenE (modifyLT (\<lambda>t. t\<lparr>TX := False\<rparr>)) (throwE TxAbortException)"

definition safe_get_next :: "addr \<Rightarrow> ('ix state, addr option) cmd" where
  "safe_get_next n = bindE (derefE (Some n)) (\<lambda>nd. returnE (m_next nd))"

definition findWriteSet :: "addr \<Rightarrow> ('ix state, write_element option) cmd" where
  "findWriteSet n = getsE (\<lambda>s. map_of (writeSet (ls s)) n)"

definition getVal :: "addr \<Rightarrow> ('ix state, val_t option) cmd" where
  "getVal n = bindE (findWriteSet n) (\<lambda>we.
     case we of
       Some w \<Rightarrow> returnE (we_val w)
     | None \<Rightarrow> bindE (derefE (Some n)) (\<lambda>nd. returnE (m_val nd)))"

text \<open>
  The check made on every node a transaction reads: locked or newer than the transaction aborts
  it, changed by a singleton operation at the transaction's own version aborts it after
  advancing the clock.
\<close>

definition checkNode :: "addr \<Rightarrow> ('ix state, unit) cmd" where
  "checkNode n =
     bindE (getsE (\<lambda>s. readVersion (lt s))) (\<lambda>rv.
     bindE (readWord n isLocked) (\<lambda>lk.
     bindE (if lk then returnE True else readWord n (\<lambda>w. getVersion w > rv)) (\<lambda>bad.
     if bad then abortTX
     else bindE (readWord n (isSameVersionAndSingleton rv)) (\<lambda>single.
       if single then thenE incrementAndGetVersion abortTX
       else returnE ()))))"

primrec getPred_loop ::
  "nat \<Rightarrow> 'ix index_ops \<Rightarrow> list_id \<Rightarrow> addr \<Rightarrow> ('ix state, addr) cmd" where
  "getPred_loop 0 i l pred = throwE Diverges"
| "getPred_loop (Suc fuel) i l pred =
     thenE (checkNode pred)
    (bindE (findWriteSet pred) (\<lambda>we.
     bindE (getsE (\<lambda>s. ll_head (lists s l))) (\<lambda>head.
     if (case we of Some w \<Rightarrow> we_deleted w | None \<Rightarrow> False)
     then thenE (assertE (pred \<noteq> head))
         (bindE (derefE (Some pred)) (\<lambda>nd.
          bindE (index_getPred i l (m_key nd)) (getPred_loop fuel i l)))
     else bindE (readWord pred isDeleted) (\<lambda>del.
       if del
       then thenE (assertE (pred \<noteq> head))
           (bindE (derefE (Some pred)) (\<lambda>nd.
            bindE (index_getPred i l (m_key nd)) (getPred_loop fuel i l)))
       else returnE pred))))"

definition getPred :: "'ix index_ops \<Rightarrow> list_id \<Rightarrow> key_t \<Rightarrow> ('ix state, addr) cmd" where
  "getPred i l key =
     bindE (index_getPred i l key) (\<lambda>pred.
     bindE (getsE next_addr) (\<lambda>n. getPred_loop (Suc n) i l pred))"

definition getNext :: "addr \<Rightarrow> ('ix state, addr option) cmd" where
  "getNext n =
     bindE (findWriteSet n) (\<lambda>we.
     case we of
       Some w \<Rightarrow> returnE (we_next w)
     | None \<Rightarrow>
         bindE (readWord n isLocked) (\<lambda>lk.
         if lk then abortTX
         else bindE (safe_get_next n) (\<lambda>next.
           thenE (checkNode n)
             (case next of
                None \<Rightarrow> returnE None
              | Some m \<Rightarrow> thenE (checkNode m) (returnE (Some m))))))"

primrec find_node_loop ::
  "nat \<Rightarrow> key_t \<Rightarrow> addr \<Rightarrow> addr option \<Rightarrow> ('ix state, bool \<times> addr \<times> addr option) cmd" where
  "find_node_loop 0 key pred next = throwE Diverges"
| "find_node_loop (Suc fuel) key pred next =
     (case next of
        None \<Rightarrow> returnE (False, pred, None)
      | Some m \<Rightarrow>
          bindE (derefE (Some m)) (\<lambda>nd.
          if m_key nd = key then returnE (True, pred, Some m)
          else if m_key nd > key then returnE (False, pred, Some m)
          else bindE (getNext m) (find_node_loop fuel key m)))"

definition find_node ::
  "'ix index_ops \<Rightarrow> list_id \<Rightarrow> key_t \<Rightarrow> ('ix state, bool \<times> addr \<times> addr option) cmd" where
  "find_node i l key =
     bindE (getPred i l key) (\<lambda>pred.
     bindE (getNext pred) (\<lambda>next.
     bindE (getsE next_addr) (\<lambda>n. find_node_loop (Suc n) key pred next)))"

section \<open>Operations inside a transaction\<close>

definition insert_new_node ::
  "list_id \<Rightarrow> key_t \<Rightarrow> val_t \<Rightarrow> addr \<Rightarrow> addr option \<Rightarrow> ('ix state, val_t option) cmd" where
  "insert_new_node l key val pred next =
     bindE (get_new_node key val) (\<lambda>n.
     thenE (updE n (\<lambda>nd. nd\<lparr>m_next := next\<rparr>))
    (bindE (getVal pred) (\<lambda>v.
     thenE (modifyLS (putIntoWriteSet pred (Some n) v False))
    (thenE (modifyLS (addToIndexAdd l n))
    (thenE (modifyLS (emplaceReadSet pred))
           (returnE None))))))"

definition put_TX ::
  "'ix index_ops \<Rightarrow> list_id \<Rightarrow> key_t \<Rightarrow> val_t \<Rightarrow> ('ix state, val_t option) cmd" where
  "put_TX i l key val =
     thenE (modifyLT (\<lambda>t. t\<lparr>readOnly := False\<rparr>))
    (bindE (find_node i l key) (\<lambda>(found, pred, next).
     case (found, next) of
       (True, Some m) \<Rightarrow>
         bindE (findWriteSet m) (\<lambda>we.
         thenE (case we of
                  Some w \<Rightarrow> modifyLS (putIntoWriteSet m (we_next w) (Some val) (we_deleted w))
                | None \<Rightarrow> bindE (derefE (Some m)) (\<lambda>nd.
                            modifyLS (putIntoWriteSet m (m_next nd) (Some val) False)))
        (thenE (modifyLS (emplaceReadSet m))
               (bindE (derefE (Some m)) (\<lambda>nd. returnE (m_val nd)))))
     | _ \<Rightarrow> insert_new_node l key val pred next))"

definition putIfAbsent_TX ::
  "'ix index_ops \<Rightarrow> list_id \<Rightarrow> key_t \<Rightarrow> val_t \<Rightarrow> ('ix state, val_t option) cmd" where
  "putIfAbsent_TX i l key val =
     thenE (modifyLT (\<lambda>t. t\<lparr>readOnly := False\<rparr>))
    (bindE (find_node i l key) (\<lambda>(found, pred, next).
     case (found, next) of
       (True, Some m) \<Rightarrow>
         thenE (modifyLS (emplaceReadSet m))
               (bindE (derefE (Some m)) (\<lambda>nd. returnE (m_val nd)))
     | _ \<Rightarrow> insert_new_node l key val pred next))"

definition remove_TX ::
  "'ix index_ops \<Rightarrow> list_id \<Rightarrow> key_t \<Rightarrow> ('ix state, val_t option) cmd" where
  "remove_TX i l key =
     thenE (modifyLT (\<lambda>t. t\<lparr>readOnly := False\<rparr>))
    (bindE (find_node i l key) (\<lambda>(found, pred, next).
     thenE (modifyLS (emplaceReadSet pred))
     (case (found, next) of
        (True, Some m) \<Rightarrow>
          bindE (getNext m) (\<lambda>mnext.
          bindE (getVal pred) (\<lambda>pval.
          thenE (modifyLS (putIntoWriteSet pred mnext pval False))
         (bindE (getVal m) (\<lambda>mval.
          thenE (modifyLS (putIntoWriteSet m None mval True))
         (thenE (modifyLS (emplaceReadSet m))
         (thenE (modifyLS (addToIndexRemove l m))
         (bindE (findWriteSet m) (\<lambda>we.
          case we of
            Some w \<Rightarrow> returnE (we_val w)
          | None \<Rightarrow> bindE (derefE (Some m)) (\<lambda>nd. returnE (m_val nd))))))))))
      | _ \<Rightarrow> returnE None)))"

definition get_TX ::
  "'ix index_ops \<Rightarrow> list_id \<Rightarrow> key_t \<Rightarrow> ('ix state, val_t option) cmd" where
  "get_TX i l key =
     bindE (find_node i l key) (\<lambda>(found, pred, next).
     thenE (modifyLS (emplaceReadSet pred))
     (case (found, next) of
        (True, Some m) \<Rightarrow>
          bindE (findWriteSet m) (\<lambda>we.
          case we of
            Some w \<Rightarrow> returnE (we_val w)
          | None \<Rightarrow> bindE (derefE (Some m)) (\<lambda>nd.
                      thenE (assertE (m_key nd = key)) (returnE (m_val nd))))
      | _ \<Rightarrow> returnE None))"

section \<open>Singleton operations\<close>

primrec getPredSingleton_loop ::
  "nat \<Rightarrow> 'ix index_ops \<Rightarrow> list_id \<Rightarrow> addr \<Rightarrow> ('ix state, addr) cmd" where
  "getPredSingleton_loop 0 i l pred = throwE Diverges"
| "getPredSingleton_loop (Suc fuel) i l pred =
     bindE (readWord pred isLockedOrDeleted) (\<lambda>bad.
     if \<not> bad then returnE pred
     else bindE (getsE (\<lambda>s. ll_head (lists s l))) (\<lambda>head.
       if pred = head then returnE head
       else bindE (derefE (Some pred)) (\<lambda>nd.
            bindE (index_getPred i l (m_key nd)) (getPredSingleton_loop fuel i l))))"

definition getPredSingleton :: "'ix index_ops \<Rightarrow> list_id \<Rightarrow> key_t \<Rightarrow> ('ix state, addr) cmd" where
  "getPredSingleton i l key =
     bindE (index_getPred i l key) (\<lambda>pred.
     bindE (getsE next_addr) (\<lambda>n. getPredSingleton_loop (Suc n) i l pred))"

text \<open>The inner loop of \<open>find_node_singelton\<close>: \<open>None\<close> is \<open>startOver\<close>.\<close>

primrec singleton_walk ::
  "nat \<Rightarrow> key_t \<Rightarrow> addr \<Rightarrow> addr option \<Rightarrow>
   ('ix state, (bool \<times> addr \<times> addr option) option) cmd" where
  "singleton_walk 0 key pred next = throwE Diverges"
| "singleton_walk (Suc fuel) key pred next =
     (case next of
        None \<Rightarrow> returnE (Some (False, pred, None))
      | Some m \<Rightarrow>
          bindE (readWord m isLockedOrDeleted) (\<lambda>bad.
          if bad then returnE None
          else bindE (derefE (Some m)) (\<lambda>nd.
          if m_key nd = key
          then bindE (derefE (Some pred)) (\<lambda>pd. returnE (Some (True, pred, m_next pd)))
          else if m_key nd > key then returnE (Some (False, pred, Some m))
          else bindE (readWord m isLocked) (\<lambda>lk.
               bindE (derefE (Some pred)) (\<lambda>pd.
               if lk \<or> Some m \<noteq> m_next pd then returnE None
               else (case m_next pd of
                       None \<Rightarrow> returnE None
                     | Some pred' \<Rightarrow>
                         bindE (derefE (Some pred')) (\<lambda>pd'.
                         bindE (readWord pred' isLockedOrDeleted) (\<lambda>bad.
                         if bad then returnE None
                         else singleton_walk fuel key pred' (m_next pd')))))))))"

primrec find_node_singelton ::
  "nat \<Rightarrow> 'ix index_ops \<Rightarrow> list_id \<Rightarrow> key_t \<Rightarrow> ('ix state, bool \<times> addr \<times> addr option) cmd" where
  "find_node_singelton 0 i l key = throwE Diverges"
| "find_node_singelton (Suc fuel) i l key =
     bindE (getPredSingleton i l key) (\<lambda>pred.
     bindE (readWord pred isLocked) (\<lambda>lk.
     if lk then find_node_singelton fuel i l key
     else bindE (safe_get_next pred) (\<lambda>next.
          bindE (readWord pred isLockedOrDeleted) (\<lambda>bad.
          if bad then find_node_singelton fuel i l key
          else bindE (getsE next_addr) (\<lambda>n.
               bindE (singleton_walk (Suc n) key pred next) (\<lambda>r.
               case r of
                 Some t \<Rightarrow> returnE t
               | None \<Rightarrow> find_node_singelton fuel i l key))))))"

text \<open>The insertion branches: link a fresh node between \<open>pred\<close> and its successor.\<close>

definition link_new_node ::
  "'ix index_ops \<Rightarrow> list_id \<Rightarrow> key_t \<Rightarrow> val_t \<Rightarrow> addr \<Rightarrow> ('ix state, val_t option) cmd" where
  "link_new_node i l key val pred =
     bindE (get_new_node key val) (\<lambda>n.
     bindE (derefE (Some pred)) (\<lambda>pd.
     thenE (updE n (\<lambda>nd. nd\<lparr>m_next := m_next pd\<rparr>))
    (thenE (updE pred (\<lambda>nd. nd\<lparr>m_next := Some n\<rparr>))
    (bindE TX_getVersion (\<lambda>ver.
     thenE (updE n (\<lambda>nd. nd\<lparr>m_version_mask :=
              setVersionAndSingletonNoLockAssert ver True (m_version_mask nd)\<rparr>))
    (thenE (node_unlock pred)
    (thenE (index_add i l n) (returnE None))))))))"

definition append_new_node ::
  "'ix index_ops \<Rightarrow> list_id \<Rightarrow> key_t \<Rightarrow> val_t \<Rightarrow> bool \<Rightarrow> addr \<Rightarrow> ('ix state, val_t option) cmd" where
  "append_new_node i l key val stamp pred =
     bindE (get_new_node key val) (\<lambda>n.
     thenE (updE pred (\<lambda>nd. nd\<lparr>m_next := Some n\<rparr>))
    (bindE TX_getVersion (\<lambda>ver.
     thenE (if stamp
            then updE n (\<lambda>nd. nd\<lparr>m_version_mask :=
                   setVersionAndSingletonNoLockAssert ver True (m_version_mask nd)\<rparr>)
            else returnE ())
    (thenE (node_unlock pred)
    (thenE (index_add i l n) (returnE None))))))"

primrec putSingleton ::
  "nat \<Rightarrow> 'ix index_ops \<Rightarrow> list_id \<Rightarrow> key_t \<Rightarrow> val_t \<Rightarrow> ('ix state, val_t option) cmd" where
  "putSingleton 0 i l key val = throwE Diverges"
| "putSingleton (Suc fuel) i l key val =
     bindE (getsE next_addr) (\<lambda>bound.
     bindE (find_node_singelton (Suc bound) i l key) (\<lambda>(found, pred, next).
     if found
     then bindE (derefE (Some pred)) (\<lambda>pd.
          bindE (derefE (m_next pd)) (\<lambda>_.
          let node = the (m_next pd) in
          bindE (node_tryLock node) (\<lambda>ok.
          if ok
          then bindE (derefE next) (\<lambda>xd.
               bindE (readWord node isDeleted) (\<lambda>del.
               if m_key xd \<noteq> key \<or> Some node \<noteq> next \<or> del
               then thenE (node_unlock node) (putSingleton fuel i l key val)
               else bindE (derefE (Some node)) (\<lambda>nd.
                    thenE (updE node (\<lambda>n. n\<lparr>m_val := Some val\<rparr>))
                   (thenE (writeWord node (setSingleton True))
                   (bindE TX_getVersion (\<lambda>ver.
                    thenE (writeWord node (setVersion ver))
                   (thenE (node_unlock node) (returnE (m_val nd)))))))))
          else putSingleton fuel i l key val)))
     else if next \<noteq> None
     then bindE (node_tryLock pred) (\<lambda>ok.
          if ok
          then bindE (derefE (Some pred)) (\<lambda>pd.
               if isDeleted (m_version_mask pd) \<or> next \<noteq> m_next pd
               then thenE (node_unlock pred) (putSingleton fuel i l key val)
               else link_new_node i l key val pred)
          else putSingleton fuel i l key val)
     else bindE (node_tryLock pred) (\<lambda>ok.
          if ok
          then bindE (derefE (Some pred)) (\<lambda>pd.
               if isDeleted (m_version_mask pd) \<or> m_next pd \<noteq> None
               then thenE (node_unlock pred) (putSingleton fuel i l key val)
               else append_new_node i l key val True pred)
          else putSingleton fuel i l key val)))"

primrec putIfAbsentSingleton ::
  "nat \<Rightarrow> 'ix index_ops \<Rightarrow> list_id \<Rightarrow> key_t \<Rightarrow> val_t \<Rightarrow> ('ix state, val_t option) cmd" where
  "putIfAbsentSingleton 0 i l key val = throwE Diverges"
| "putIfAbsentSingleton (Suc fuel) i l key val =
     bindE (getsE next_addr) (\<lambda>bound.
     bindE (find_node_singelton (Suc bound) i l key) (\<lambda>(found, pred, next).
     if found
     then bindE (derefE (Some pred)) (\<lambda>pd.
          bindE (derefE next) (\<lambda>xd.
          bindE (derefE (m_next pd)) (\<lambda>nd.
          if m_key xd \<noteq> key \<or> m_next pd \<noteq> next \<or> isLockedOrDeleted (m_version_mask nd)
          then putIfAbsentSingleton fuel i l key val
          else returnE (m_val nd))))
     else if next \<noteq> None
     then bindE (node_tryLock pred) (\<lambda>ok.
          if ok
          then bindE (derefE (Some pred)) (\<lambda>pd.
               if isDeleted (m_version_mask pd) \<or> next \<noteq> m_next pd
               then thenE (node_unlock pred) (putIfAbsentSingleton fuel i l key val)
               else link_new_node i l key val pred)
          else putIfAbsentSingleton fuel i l key val)
     else bindE (node_tryLock pred) (\<lambda>ok.
          if ok
          then bindE (derefE (Some pred)) (\<lambda>pd.
               if isDeleted (m_version_mask pd) \<or> m_next pd \<noteq> None
               then thenE (node_unlock pred) (putIfAbsentSingleton fuel i l key val)
               else append_new_node i l key val False pred)
          else putIfAbsentSingleton fuel i l key val)))"

primrec removeSingleton ::
  "nat \<Rightarrow> 'ix index_ops \<Rightarrow> list_id \<Rightarrow> key_t \<Rightarrow> ('ix state, val_t option) cmd" where
  "removeSingleton 0 i l key = throwE Diverges"
| "removeSingleton (Suc fuel) i l key =
     bindE (getsE next_addr) (\<lambda>bound.
     bindE (find_node_singelton (Suc bound) i l key) (\<lambda>(found, pred, next).
     if \<not> found then returnE None
     else bindE (node_tryLock pred) (\<lambda>ok.
     if ok
     then bindE (derefE (Some pred)) (\<lambda>pd.
          if isDeleted (m_version_mask pd) \<or> next \<noteq> m_next pd
          then thenE (node_unlock pred) (removeSingleton fuel i l key)
          else bindE (derefE next) (\<lambda>_.
               let toRemove = the next in
               bindE (node_tryLock toRemove) (\<lambda>ok2.
               if ok2
               then bindE (derefE (Some toRemove)) (\<lambda>td.
                    thenE (updE toRemove (\<lambda>n. n\<lparr>m_val := None\<rparr>))
                   (thenE (updE pred (\<lambda>n. n\<lparr>m_next := m_next td\<rparr>))
                   (bindE TX_getVersion (\<lambda>ver.
                    thenE (writeWord toRemove (setVersionAndDeletedAndSingleton ver True True))
                   (thenE (writeWord pred (setVersionAndSingleton ver True))
                   (thenE (node_unlock toRemove)
                   (thenE (node_unlock pred)
                   (thenE (index_remove i l toRemove)
                   (thenE (retire_node toRemove)
                          (returnE (m_val td)))))))))))
               else thenE (node_unlock pred) (removeSingleton fuel i l key))))
     else removeSingleton fuel i l key)))"

definition getSingleton ::
  "'ix index_ops \<Rightarrow> list_id \<Rightarrow> key_t \<Rightarrow> ('ix state, val_t option) cmd" where
  "getSingleton i l key =
     bindE (getsE next_addr) (\<lambda>bound.
     bindE (find_node_singelton (Suc bound) i l key) (\<lambda>(found, pred, next).
     if found then bindE (derefE next) (\<lambda>nd. returnE (m_val nd)) else returnE None))"

section \<open>The public operations\<close>

definition put ::
  "'ix index_ops \<Rightarrow> list_id \<Rightarrow> key_t \<Rightarrow> val_t \<Rightarrow> ('ix state, val_t option) cmd" where
  "put i l key val =
     bindE (getsE (\<lambda>s. TX (lt s))) (\<lambda>tx.
     if \<not> tx then bindE (getsE next_addr) (\<lambda>b. putSingleton (Suc b) i l key val)
     else put_TX i l key val)"

definition putIfAbsent ::
  "'ix index_ops \<Rightarrow> list_id \<Rightarrow> key_t \<Rightarrow> val_t \<Rightarrow> ('ix state, val_t option) cmd" where
  "putIfAbsent i l key val =
     bindE (getsE (\<lambda>s. TX (lt s))) (\<lambda>tx.
     if \<not> tx then bindE (getsE next_addr) (\<lambda>b. putIfAbsentSingleton (Suc b) i l key val)
     else putIfAbsent_TX i l key val)"

definition remove ::
  "'ix index_ops \<Rightarrow> list_id \<Rightarrow> key_t \<Rightarrow> ('ix state, val_t option) cmd" where
  "remove i l key =
     bindE (getsE (\<lambda>s. TX (lt s))) (\<lambda>tx.
     if \<not> tx then bindE (getsE next_addr) (\<lambda>b. removeSingleton (Suc b) i l key)
     else remove_TX i l key)"

definition get ::
  "'ix index_ops \<Rightarrow> list_id \<Rightarrow> key_t \<Rightarrow> ('ix state, val_t option) cmd" where
  "get i l key =
     bindE (getsE (\<lambda>s. TX (lt s))) (\<lambda>tx.
     if \<not> tx then getSingleton i l key else get_TX i l key)"

definition containsKey :: "'ix index_ops \<Rightarrow> list_id \<Rightarrow> key_t \<Rightarrow> ('ix state, bool) cmd" where
  "containsKey i l key = bindE (get i l key) (\<lambda>v. returnE (v \<noteq> None))"

section \<open>Whole-list walks\<close>

primrec deinit_loop :: "nat \<Rightarrow> addr \<Rightarrow> addr option \<Rightarrow> ('ix state, unit) cmd" where
  "deinit_loop 0 prev cur = throwE Diverges"
| "deinit_loop (Suc fuel) prev cur =
     (case cur of
        None \<Rightarrow> returnE ()
      | Some c \<Rightarrow> thenE (retire_node prev)
                  (bindE (derefE (Some c)) (\<lambda>nd. deinit_loop fuel c (m_next nd))))"

definition deinit_list :: "list_id \<Rightarrow> ('ix state, unit) cmd" where
  "deinit_list l =
     bindE (getsE (\<lambda>s. ll_head (lists s l))) (\<lambda>head.
     bindE (derefE (Some head)) (\<lambda>hd.
     bindE (getsE next_addr) (\<lambda>n. deinit_loop (Suc n) head (m_next hd))))"

primrec sum_loop :: "nat \<Rightarrow> addr option \<Rightarrow> key_t \<Rightarrow> ('ix state, key_t) cmd" where
  "sum_loop 0 cur res = throwE Diverges"
| "sum_loop (Suc fuel) cur res =
     (case cur of
        None \<Rightarrow> returnE res
      | Some c \<Rightarrow> bindE (derefE (Some c)) (\<lambda>nd. sum_loop fuel (m_next nd) (res + m_key nd)))"

definition get_sum_key :: "list_id \<Rightarrow> ('ix state, key_t) cmd" where
  "get_sum_key l =
     bindE (getsE (\<lambda>s. ll_head (lists s l))) (\<lambda>head.
     bindE (getsE next_addr) (\<lambda>n. sum_loop (Suc n) (Some head) 0))"

primrec size_loop :: "nat \<Rightarrow> addr option \<Rightarrow> u64 \<Rightarrow> ('ix state, u64) cmd" where
  "size_loop 0 cur res = throwE Diverges"
| "size_loop (Suc fuel) cur res =
     (case cur of
        None \<Rightarrow> returnE res
      | Some c \<Rightarrow> bindE (derefE (Some c)) (\<lambda>nd. size_loop fuel (m_next nd) (res + 1)))"

definition get_size :: "list_id \<Rightarrow> ('ix state, u64) cmd" where
  "get_size l =
     bindE (getsE (\<lambda>s. ll_head (lists s l))) (\<lambda>head.
     bindE (getsE next_addr) (\<lambda>n.
     bindE (size_loop (Suc n) (Some head) 0) (\<lambda>res. returnE (res - 1))))"

end
