(* ===== verification/TxView.thy ===== *)
theory TxView
  imports LinkedList
begin

text \<open>
  What a transaction sees: the heap overlaid by its write set. A list is a path of that view.
  This theory holds the view functions, the contents of a list as a map from keys to values, and
  the lemmas that an insertion, an update and a deletion in the write set act on the view as the
  map operations do, whatever other transactions commit outside the nodes that were read.
\<close>

section \<open>Definitions\<close>

definition nkey :: "(addr \<Rightarrow> lnode option) \<Rightarrow> addr \<Rightarrow> key_t" where
  "nkey h a = (case h a of Some n \<Rightarrow> m_key n | None \<Rightarrow> 0)"

definition vnext ::
  "(addr \<Rightarrow> lnode option) \<Rightarrow> (addr \<Rightarrow> write_element option) \<Rightarrow> addr \<Rightarrow> addr option" where
  "vnext h W a = (case W a of
       Some we \<Rightarrow> we_next we
     | None \<Rightarrow> (case h a of Some n \<Rightarrow> m_next n | None \<Rightarrow> None))"

definition vval ::
  "(addr \<Rightarrow> lnode option) \<Rightarrow> (addr \<Rightarrow> write_element option) \<Rightarrow> addr \<Rightarrow> val_t option" where
  "vval h W a = (case W a of
       Some we \<Rightarrow> we_val we
     | None \<Rightarrow> (case h a of Some n \<Rightarrow> m_val n | None \<Rightarrow> None))"

definition wdels :: "(addr \<Rightarrow> write_element option) \<Rightarrow> addr set" where
  "wdels W = {a. \<exists>we. W a = Some we \<and> we_deleted we}"

text \<open>The keys of a list are those of its nodes after the head.\<close>

definition contents ::
  "(addr \<Rightarrow> lnode option) \<Rightarrow> (addr \<Rightarrow> write_element option) \<Rightarrow> addr list \<Rightarrow> key_t \<Rightarrow> val_t option" where
  "contents h W V k =
     Option.bind (map_of (map (\<lambda>a. (nkey h a, vval h W a)) (tl V)) k) (\<lambda>v. v)"

definition sorted_chain :: "(addr \<Rightarrow> lnode option) \<Rightarrow> addr list \<Rightarrow> bool" where
  "sorted_chain h V \<longleftrightarrow> sorted_wrt (\<lambda>a b. nkey h a < nkey h b) (tl V)"

text \<open>The lists of a heap: disjoint sorted paths of live nodes.\<close>

definition lists_ok ::
  "list_id set \<Rightarrow> (list_id \<Rightarrow> addr) \<Rightarrow> (addr \<Rightarrow> lnode option) \<Rightarrow> (list_id \<Rightarrow> addr list) \<Rightarrow> bool" where
  "lists_ok L hds h C \<longleftrightarrow>
     (\<forall>l\<in>L. path (vnext h Map.empty) (Some (hds l)) (C l) None \<and> sorted_chain h (C l) \<and>
        (\<forall>a\<in>set (C l). \<exists>n. h a = Some n \<and> m_val n \<noteq> None \<and> \<not> isDeleted (m_version_mask n))) \<and>
     (\<forall>l\<in>L. \<forall>l'\<in>L. l \<noteq> l' \<longrightarrow> set (C l) \<inter> set (C l') = {})"

definition later :: "(addr \<Rightarrow> lnode option) \<Rightarrow> (addr \<Rightarrow> lnode option) \<Rightarrow> bool" where
  "later h h' \<longleftrightarrow> (\<forall>a n. h a = Some n \<longrightarrow> (\<exists>n'. h' a = Some n' \<and> m_key n' = m_key n))"

definition same_content :: "lnode \<Rightarrow> lnode \<Rightarrow> bool" where
  "same_content n n' \<longleftrightarrow> m_key n' = m_key n \<and> m_next n' = m_next n \<and> m_val n' = m_val n"

text \<open>
  \<open>F\<close> records, for each node the transaction relies on, its list and content; \<open>N\<close> are the
  nodes the transaction made itself. \<open>agree\<close>: the heap still has that content, the nodes
  relied on are still in their lists and the new ones are in none.
\<close>

type_synonym footprint = "addr \<Rightarrow> (list_id \<times> lnode) option"

definition agree ::
  "list_id set \<Rightarrow> (addr \<Rightarrow> lnode option) \<Rightarrow> (list_id \<Rightarrow> addr list) \<Rightarrow> footprint \<Rightarrow> addr set \<Rightarrow> bool" where
  "agree L h C F N \<longleftrightarrow>
     (\<forall>a l n. F a = Some (l, n) \<longrightarrow>
        (\<exists>n'. h a = Some n' \<and> same_content n n') \<and>
        (if a \<in> N then (\<forall>l'\<in>L. a \<notin> set (C l')) else a \<in> set (C l)))"

definition overlay :: "(key_t \<Rightarrow> val_t option option) \<Rightarrow> (key_t \<Rightarrow> val_t option) \<Rightarrow> key_t \<Rightarrow> val_t option" where
  "overlay U M k = (case U k of None \<Rightarrow> M k | Some v \<Rightarrow> v)"

definition own :: "footprint \<Rightarrow> addr set \<Rightarrow> list_id \<Rightarrow> addr set" where
  "own F N l = {a \<in> N. \<exists>n. F a = Some (l, n)}"

text \<open>One list of the view: its path, its nodes and its contents.\<close>

definition view_ok ::
  "(list_id \<Rightarrow> addr) \<Rightarrow> (addr \<Rightarrow> lnode option) \<Rightarrow> (addr \<Rightarrow> write_element option) \<Rightarrow> footprint \<Rightarrow>
   addr set \<Rightarrow> (list_id \<Rightarrow> key_t \<Rightarrow> val_t option option) \<Rightarrow> (list_id \<Rightarrow> addr list) \<Rightarrow> list_id \<Rightarrow>
   addr list \<Rightarrow> bool" where
  "view_ok hds h W F N U C l V \<longleftrightarrow>
     path (vnext h W) (Some (hds l)) V None \<and> sorted_chain h V \<and>
     set V = (set (C l) \<union> own F N l) - wdels W \<and>
     (\<forall>a\<in>set V. vval h W a \<noteq> None) \<and>
     contents h W V = overlay (U l) (contents h Map.empty (C l))"

text \<open>
  The transaction invariant: in every later heap whose lists are well formed and which agrees
  with the footprint, the view is well formed and holds the updates \<open>U\<close> on top of the lists.
\<close>

definition tx_view ::
  "list_id set \<Rightarrow> (list_id \<Rightarrow> addr) \<Rightarrow> (addr \<Rightarrow> lnode option) \<Rightarrow> (addr \<Rightarrow> write_element option) \<Rightarrow>
   footprint \<Rightarrow> addr set \<Rightarrow> (list_id \<Rightarrow> key_t \<Rightarrow> val_t option option) \<Rightarrow> bool" where
  "tx_view L hds h W F N U \<longleftrightarrow>
     dom W \<subseteq> dom F \<and> N \<subseteq> dom F \<and> dom F \<subseteq> dom h \<and> fst ` ran F \<subseteq> L \<and>
     (\<forall>h' C. later h h' \<longrightarrow> lists_ok L hds h' C \<longrightarrow> agree L h' C F N \<longrightarrow>
        (\<forall>l\<in>L. \<exists>V. view_ok hds h' W F N U C l V))"

section \<open>Paths with a node more or less\<close>

lemma path_insert:
  assumes "path nx q (xs @ p # ys) None" and "n \<notin> set (xs @ p # ys)"
    and "nx' p = Some n" and "nx' n = nx p" and "\<And>a. a \<in> set (xs @ ys) \<Longrightarrow> nx' a = nx a"
  shows "path nx' q (xs @ p # n # ys) None"
proof -
  from assms(1) have "path nx q xs (Some p)" and "path nx (nx p) ys None" by auto
  moreover have "path nx' r xs t = path nx r xs t" for r t
    by (rule path_cong) (simp add: assms(5))
  moreover have "path nx' r ys t = path nx r ys t" for r t
    by (rule path_cong) (simp add: assms(5))
  ultimately show ?thesis using assms(3,4) by auto
qed

lemma path_delete:
  assumes "path nx q (xs @ p # m # ys) None"
    and "nx' p = nx m" and "\<And>a. a \<in> set (xs @ ys) \<Longrightarrow> nx' a = nx a"
  shows "path nx' q (xs @ p # ys) None"
proof -
  from assms(1) have "path nx q xs (Some p)" and "path nx (nx m) ys None" by auto
  moreover have "path nx' r xs t = path nx r xs t" for r t
    by (rule path_cong) (simp add: assms(3))
  moreover have "path nx' r ys t = path nx r ys t" for r t
    by (rule path_cong) (simp add: assms(3))
  ultimately show ?thesis using assms(2) by auto
qed

lemma path_head: "path nx (Some p) V None \<Longrightarrow> \<exists>ys. V = p # ys"
  by (cases V) auto

lemma path_split_next:
  assumes "path nx q (xs @ p # ys) None"
  shows "nx p = (case ys of [] \<Rightarrow> None | y # _ \<Rightarrow> Some y)"
  using assms by (cases ys) auto

section \<open>Sorted chains and contents\<close>

lemma sorted_wrt_less_distinct:
  "sorted_wrt (\<lambda>a b. f a < (f b :: key_t)) xs \<Longrightarrow> distinct (map f xs)"
  by (induction xs) auto

lemma sorted_chain_distinct: "sorted_chain h V \<Longrightarrow> distinct (map (nkey h) (tl V))"
  unfolding sorted_chain_def by (rule sorted_wrt_less_distinct)

lemma sorted_chain_cong:
  assumes "\<And>a. a \<in> set V \<Longrightarrow> nkey h a = nkey h' a"
  shows "sorted_chain h V = sorted_chain h' V"
proof -
  have "sorted_wrt (\<lambda>a b. nkey h a < nkey h b) xs = sorted_wrt (\<lambda>a b. nkey h' a < nkey h' b) xs"
    if "set xs \<subseteq> set V" for xs
    using that by (induction xs) (auto simp: assms subset_iff)
  then show ?thesis
    unfolding sorted_chain_def by (metis list.set_sel(2) subsetI tl_Nil)
qed

lemma contents_Some_iff:
  assumes "sorted_chain h V"
  shows "contents h W V k = Some v \<longleftrightarrow> (\<exists>a\<in>set (tl V). nkey h a = k \<and> vval h W a = Some v)"
proof -
  let ?ps = "map (\<lambda>a. (nkey h a, vval h W a)) (tl V)"
  have "map fst ?ps = map (nkey h) (tl V)" by simp
  with sorted_chain_distinct [OF assms] have "distinct (map fst ?ps)" by metis
  then have "map_of ?ps k = Some (Some v) \<longleftrightarrow> (k, Some v) \<in> set ?ps"
    by (rule map_of_eq_Some_iff)
  then show ?thesis unfolding contents_def bind_eq_Some_conv by auto
qed

lemma contents_eqI:
  assumes "sorted_chain h V" and "sorted_chain h' V'"
    and "\<And>v. (\<exists>a\<in>set (tl V). nkey h a = k \<and> vval h W a = Some v) \<longleftrightarrow>
             (\<exists>a\<in>set (tl V'). nkey h' a = k' \<and> vval h' W' a = Some v)"
  shows "contents h W V k = contents h' W' V' k'"
proof -
  have "contents h W V k = Some v \<longleftrightarrow> contents h' W' V' k' = Some v" for v
    using assms by (simp add: contents_Some_iff)
  then show ?thesis by (metis option.exhaust)
qed

lemma contents_NoneI:
  assumes "\<And>a. a \<in> set (tl V) \<Longrightarrow> nkey h a \<noteq> k"
  shows "contents h W V k = None"
proof -
  have "map_of (map (\<lambda>a. (nkey h a, vval h W a)) (tl V)) k = None"
    by (force simp: map_of_eq_None_iff dest: assms)
  then show ?thesis by (simp add: contents_def)
qed

lemma contents_node:
  assumes "sorted_chain h V" and "a \<in> set (tl V)" and "vval h W a \<noteq> None"
  shows "contents h W V (nkey h a) = vval h W a"
proof -
  from assms(3) obtain v where v: "vval h W a = Some v" by blast
  with assms(1,2) have "contents h W V (nkey h a) = Some v"
    by (auto simp: contents_Some_iff)
  with v show ?thesis by simp
qed

section \<open>Splitting a sorted chain at a node\<close>

text \<open>
  \<open>before h p k\<close>: a search for \<open>k\<close> may stand at \<open>p\<close> (the head, or a node of smaller key);
  \<open>after h c k\<close>: the successor it has found is null or of larger key.
\<close>

lemma sorted_chain_insert:
  assumes "sorted_chain h (xs @ p # ys)" and "xs \<noteq> [] \<Longrightarrow> nkey h p < k"
    and "nkey h n = k" and "\<And>m zs. ys = m # zs \<Longrightarrow> k < nkey h m"
  shows "sorted_chain h (xs @ p # n # ys)"
proof -
  have ys: "\<forall>y\<in>set ys. k < nkey h y" if "sorted_wrt (\<lambda>a b. nkey h a < nkey h b) ys"
    using that assms(4) by (cases ys) auto
  show ?thesis
  proof (cases xs)
    case Nil
    with assms(1,3) ys show ?thesis by (simp add: sorted_chain_def)
  next
    case (Cons x xs')
    with assms(1-3) ys show ?thesis
      by (auto simp: sorted_chain_def sorted_wrt_append)
  qed
qed

lemma sorted_chain_delete:
  "sorted_chain h (xs @ p # m # ys) \<Longrightarrow> sorted_chain h (xs @ p # ys)"
  by (cases xs) (auto simp: sorted_chain_def sorted_wrt_append)

section \<open>The footprint\<close>

text \<open>Reading a node adds it to the footprint, unless it is there already.\<close>

definition fp_add :: "addr \<Rightarrow> list_id \<Rightarrow> lnode \<Rightarrow> footprint \<Rightarrow> footprint" where
  "fp_add a l n F = (if F a = None then F(a \<mapsto> (l, n)) else F)"

lemma dom_fp_add [simp]: "dom (fp_add a l n F) = insert a (dom F)"
  by (auto simp: fp_add_def)

lemma fp_add_le: "F \<subseteq>\<^sub>m fp_add a l n F"
  by (auto simp: fp_add_def map_le_def)

lemma own_fp_add:
  assumes "N \<subseteq> dom F"
  shows "own (fp_add a l n F) N l' = own F N l'"
  using assms by (auto simp: own_def fp_add_def)

lemma later_refl [simp]: "later h h"
  by (simp add: later_def)

lemma later_trans: "later h h' \<Longrightarrow> later h' h'' \<Longrightarrow> later h h''"
  by (fastforce simp: later_def)

lemma later_nkey: "later h h' \<Longrightarrow> h a \<noteq> None \<Longrightarrow> nkey h' a = nkey h a"
  by (fastforce simp: later_def nkey_def)

lemma later_fresh: "h n = None \<Longrightarrow> later h (h(n \<mapsto> nd))"
  by (auto simp: later_def)

lemma agree_content: "agree L h C F N \<Longrightarrow> F a = Some (l, n) \<Longrightarrow> \<exists>n'. h a = Some n' \<and> same_content n n'"
  unfolding agree_def by blast

lemma agree_old: "agree L h C F N \<Longrightarrow> F a = Some (l, n) \<Longrightarrow> a \<notin> N \<Longrightarrow> a \<in> set (C l)"
  unfolding agree_def by presburger

lemma agree_new: "agree L h C F N \<Longrightarrow> F a = Some (l, n) \<Longrightarrow> a \<in> N \<Longrightarrow> l' \<in> L \<Longrightarrow> a \<notin> set (C l')"
  unfolding agree_def by metis

lemma lists_disjoint:
  assumes "lists_ok L hds h C" and "l \<in> L" and "l' \<in> L" and "a \<in> set (C l)" and "a \<in> set (C l')"
  shows "l = l'"
  using assms unfolding lists_ok_def by blast

lemma agree_mono:
  assumes "agree L h C F' N'" and "F \<subseteq>\<^sub>m F'" and "N' \<inter> dom F = N" and "N \<subseteq> dom F"
  shows "agree L h C F N"
proof -
  have "F' a = Some x \<and> (a \<in> N \<longleftrightarrow> a \<in> N')" if "F a = Some x" for a x
    using that assms(2,3) by (auto simp: map_le_def dom_def)
  with assms(1) show ?thesis unfolding agree_def by metis
qed

text \<open>A node that is read stands where it stood, with the same content.\<close>

lemma agree_node:
  assumes "agree L h' C' F N" and "F a = Some (l, n)" and "h a = Some n0" and "same_content n n0"
  shows "nkey h' a = nkey h a" and "vnext h' W a = vnext h W a" and "vval h' W a = vval h W a"
    and "h' a \<noteq> None"
proof -
  from assms(1,2) obtain n' where "h' a = Some n'" and "same_content n n'"
    unfolding agree_def by blast
  with assms(3,4)
  show "nkey h' a = nkey h a" and "vnext h' W a = vnext h W a" and "vval h' W a = vval h W a"
    and "h' a \<noteq> None"
    by (auto simp: nkey_def vnext_def vval_def same_content_def split: option.splits)
qed

text \<open>\<open>known\<close>: the footprint holds the node with its present content and its list.\<close>

definition known :: "(addr \<Rightarrow> lnode option) \<Rightarrow> footprint \<Rightarrow> list_id \<Rightarrow> addr \<Rightarrow> bool" where
  "known h F l a \<longleftrightarrow> (\<exists>n n0. F a = Some (l, n) \<and> h a = Some n0 \<and> same_content n n0)"

lemma known_fp_add:
  assumes "agree L h C F N" and "h a = Some n0" and "F a \<noteq> None \<Longrightarrow> \<exists>n. F a = Some (l, n)"
  shows "known h (fp_add a l n0 F) l a"
proof (cases "F a")
  case None
  with assms(2) show ?thesis by (simp add: known_def fp_add_def same_content_def)
next
  case (Some x)
  with assms(3) obtain n where "F a = Some (l, n)" by auto
  with assms(1,2) show ?thesis by (auto simp: known_def fp_add_def dest: agree_content)
qed

lemma known_mono: "known h F l a \<Longrightarrow> F \<subseteq>\<^sub>m F' \<Longrightarrow> known h F' l a"
  by (force simp: known_def map_le_def dom_def)

text \<open>The list of a node of the view.\<close>

lemma view_list:
  assumes "view_ok hds h W F N U C l V" and "agree L h C F N" and "lists_ok L hds h C"
    and "l \<in> L" and "fst ` ran F \<subseteq> L" and "a \<in> set V" and "F a = Some (l', n)"
  shows "l' = l"
proof (cases "a \<in> N")
  case True
  with assms have "a \<notin> set (C l)" by (blast dest: agree_new)
  with assms(1,6) have "a \<in> own F N l" by (auto simp: view_ok_def)
  with assms(7) show ?thesis by (auto simp: own_def)
next
  case False
  with assms(1,6) have "a \<in> set (C l)" by (auto simp: view_ok_def own_def)
  moreover from False assms(2,7) have "a \<in> set (C l')" by (blast dest: agree_old)
  moreover from assms(5,7) have "l' \<in> L" by (force simp: ran_def)
  ultimately show ?thesis using assms(3,4) by (blast dest: lists_disjoint)
qed

text \<open>
  A node of the view that is known stays in the view, in every later heap that agrees with the
  footprint, with the same successor, value and key.
\<close>

lemma known_stays:
  assumes "view_ok hds h W F N U C l V" and "a \<in> set V" and "known h F' l a"
    and "F \<subseteq>\<^sub>m F'" and "N' \<inter> dom F = N" and "N \<subseteq> dom F" and "a \<in> N' \<Longrightarrow> a \<in> N"
    and "agree L h' C' F' N'" and "view_ok hds h' W F N U C' l V'"
  shows "a \<in> set V'"
proof -
  from assms(3) obtain n where F': "F' a = Some (l, n)" by (auto simp: known_def)
  from assms(1,2) have a: "a \<in> set (C l) \<union> own F N l" "a \<notin> wdels W" by (auto simp: view_ok_def)
  have "a \<in> set (C' l) \<union> own F N l"
  proof (cases "a \<in> N")
    case True
    with assms(4,6) F' have "F a = Some (l, n)"
      by (metis map_le_def subsetD)
    with True show ?thesis by (auto simp: own_def)
  next
    case False
    with assms(7,8) F' have "a \<in> set (C' l)" by (blast intro: agree_old)
    then show ?thesis by simp
  qed
  with a(2) assms(9) show ?thesis by (auto simp: view_ok_def)
qed

section \<open>One heap: the effect of a write-set entry on the view\<close>

definition log_upd ::
  "list_id \<Rightarrow> key_t \<Rightarrow> val_t option \<Rightarrow> (list_id \<Rightarrow> key_t \<Rightarrow> val_t option option) \<Rightarrow>
   list_id \<Rightarrow> key_t \<Rightarrow> val_t option option" where
  "log_upd l k x U = U(l := (U l)(k \<mapsto> x))"

lemma overlay_empty [simp]: "overlay Map.empty M = M"
  by (simp add: overlay_def fun_eq_iff)

lemma overlay_upd [simp]: "overlay (u(k \<mapsto> x)) M = (overlay u M)(k := x)"
  by (auto simp: overlay_def fun_eq_iff)

lemma log_upd_same [simp]: "log_upd l k x U l = (U l)(k \<mapsto> x)"
  by (simp add: log_upd_def)

lemma log_upd_other [simp]: "l' \<noteq> l \<Longrightarrow> log_upd l k x U l' = U l'"
  by (simp add: log_upd_def)

lemma in_set_tl: "a \<in> set (tl V) \<Longrightarrow> a \<in> set V"
  by (cases V) auto

lemma contents_put:
  assumes "sorted_chain h V" and "sorted_chain h V1" and "set (tl V1) = insert n (set (tl V))"
    and "nkey h n = k" and "vval h W1 n = Some v"
    and "\<And>a. a \<in> set (tl V) \<Longrightarrow> a \<noteq> n \<Longrightarrow> vval h W1 a = vval h W a"
  shows "contents h W1 V1 = (contents h W V)(k := Some v)"
proof
  fix k'
  show "contents h W1 V1 k' = ((contents h W V)(k := Some v)) k'"
  proof (cases "k' = k")
    case True
    with assms(2-5) contents_node [of h V1 n W1] show ?thesis by simp
  next
    case False
    with assms(4) have "a \<noteq> n" if "nkey h a = k'" for a using that by auto
    with assms(3,6) have "contents h W1 V1 k' = contents h W V k'"
      by (intro contents_eqI assms(1,2)) (metis insert_iff)
    with False show ?thesis by simp
  qed
qed

lemma contents_drop:
  assumes "sorted_chain h V" and "sorted_chain h V1" and "set (tl V1) = set (tl V) - {m}"
    and "m \<in> set (tl V)" and "\<And>a. a \<in> set (tl V1) \<Longrightarrow> vval h W1 a = vval h W a"
  shows "contents h W1 V1 = (contents h W V)(nkey h m := None)"
proof
  fix k'
  have inj: "a = m" if "a \<in> set (tl V)" "nkey h a = nkey h m" for a
    using sorted_chain_distinct [OF assms(1)] that assms(4) by (auto simp: distinct_map inj_on_def)
  show "contents h W1 V1 k' = ((contents h W V)(nkey h m := None)) k'"
  proof (cases "k' = nkey h m")
    case True
    have "contents h W1 V1 (nkey h m) = None"
      by (rule contents_NoneI) (use assms(3) inj in auto)
    with True show ?thesis by simp
  next
    case False
    with assms(3,5) have "contents h W1 V1 k' = contents h W V k'"
      by (intro contents_eqI assms(1,2)) (metis Diff_iff singletonD)
    with False show ?thesis by simp
  qed
qed

lemma vnext_upd: "vnext h (W(a \<mapsto> we)) = (vnext h W)(a := we_next we)"
  by (simp add: vnext_def fun_eq_iff)

lemma vval_upd: "vval h (W(a \<mapsto> we)) = (vval h W)(a := we_val we)"
  by (simp add: vval_def fun_eq_iff)

lemma wdels_upd: "wdels (W(a \<mapsto> we)) = (if we_deleted we then insert a (wdels W) else wdels W - {a})"
  by (auto simp: wdels_def)

lemma view_ok_frame:
  assumes "view_ok hds h W F N U C l V" and "\<And>a. a \<in> set V \<Longrightarrow> W1 a = W a"
    and "own F1 N1 l = own F N l" and "U1 l = U l"
    and "\<And>a. a \<in> set (C l) \<union> own F N l \<Longrightarrow> a \<in> wdels W1 \<longleftrightarrow> a \<in> wdels W"
  shows "view_ok hds h W1 F1 N1 U1 C l V"
proof -
  have nx: "vnext h W1 a = vnext h W a" "vval h W1 a = vval h W a" if "a \<in> set V" for a
    using assms(2) [OF that] by (simp_all add: vnext_def vval_def)
  have "path (vnext h W1) (Some (hds l)) V None = path (vnext h W) (Some (hds l)) V None"
    by (rule path_cong) (rule nx)
  moreover have "contents h W1 V = contents h W V"
  proof -
    have "map (\<lambda>a. (nkey h a, vval h W1 a)) (tl V) = map (\<lambda>a. (nkey h a, vval h W a)) (tl V)"
      by (auto simp: nx dest: in_set_tl)
    then show ?thesis by (simp only: contents_def fun_eq_iff simp_thms)
  qed
  moreover have "set (C l) \<union> own F N l - wdels W1 = set (C l) \<union> own F N l - wdels W"
    using assms(5) by blast
  ultimately show ?thesis using assms(1,3,4) by (simp add: view_ok_def nx)
qed

lemma view_ok_insert:
  assumes V: "view_ok hds h W F N U C l V" and p: "p \<in> set V"
    and before: "p = hds l \<or> nkey h p < k" and after: "\<And>m. vnext h W p = Some m \<Longrightarrow> k < nkey h m"
    and n: "h n = Some nd" "m_key nd = k" "m_val nd = Some v" "m_next nd = vnext h W p"
    and fresh: "W n = None" "n \<notin> set V" and own: "own F1 N1 l = insert n (own F N l)"
    and we: "we_next we = Some n" "we_val we = vval h W p" "\<not> we_deleted we"
  shows "\<exists>V1. view_ok hds h (W(p \<mapsto> we)) F1 N1 (log_upd l k (Some v) U) C l V1"
proof -
  let ?W1 = "W(p \<mapsto> we)"
  from p obtain xs ys where split: "V = xs @ p # ys" by (auto simp: in_set_conv_decomp)
  let ?V1 = "xs @ p # n # ys"
  have pathV: "path (vnext h W) (Some (hds l)) (xs @ p # ys) None" and srt: "sorted_chain h (xs @ p # ys)"
    using V split by (auto simp: view_ok_def)
  have dist: "distinct V" using V by (auto simp: view_ok_def intro: path_distinct)
  have np: "n \<noteq> p" using p fresh(2) by auto
  have nk: "nkey h n = k" using n by (simp add: nkey_def)
  have path1: "path (vnext h ?W1) (Some (hds l)) ?V1 None"
    by (rule path_insert [OF pathV])
      (use fresh split np we n dist in \<open>auto simp: vnext_upd vnext_def [of h W n]\<close>)
  have srt1: "sorted_chain h ?V1"
  proof (rule sorted_chain_insert [OF srt _ nk])
    assume "xs \<noteq> []"
    with dist split pathV have "p \<noteq> hds l" by (cases xs) auto
    with before show "nkey h p < k" by simp
  next
    fix m zs assume "ys = m # zs"
    with path_split_next [OF pathV] have "vnext h W p = Some m" by simp
    then show "k < nkey h m" by (rule after)
  qed
  have tl1: "set (tl ?V1) = insert n (set (tl V))" using split by (cases xs) auto
  have pdel: "p \<notin> wdels W" using V p by (auto simp: view_ok_def)
  have ndel: "n \<notin> wdels W" using fresh(1) by (auto simp: wdels_def)
  have vv: "vval h ?W1 n = Some v" using np fresh(1) n by (simp add: vval_def)
  have "contents h ?W1 ?V1 = (contents h W V)(k := Some v)"
    by (rule contents_put [OF _ srt1 tl1 nk vv]) (use srt split we in \<open>auto simp: vval_upd\<close>)
  moreover have "set ?V1 = set (C l) \<union> own F1 N1 l - wdels ?W1"
    using V split we(3) pdel ndel own by (auto simp: view_ok_def wdels_upd)
  moreover have "\<forall>a\<in>set ?V1. vval h ?W1 a \<noteq> None"
    using V split we vv by (auto simp: view_ok_def vval_upd)
  ultimately have "view_ok hds h ?W1 F1 N1 (log_upd l k (Some v) U) C l ?V1"
    using V path1 srt1 by (simp add: view_ok_def)
  then show ?thesis by blast
qed

lemma view_ok_update:
  assumes V: "view_ok hds h W F N U C l V" and m: "m \<in> set V" "m \<noteq> hds l" "nkey h m = k"
    and own: "own F1 N1 l = own F N l"
    and we: "we_next we = vnext h W m" "we_val we = Some v" "\<not> we_deleted we"
  shows "\<exists>V1. view_ok hds h (W(m \<mapsto> we)) F1 N1 (log_upd l k (Some v) U) C l V1"
proof -
  let ?W1 = "W(m \<mapsto> we)"
  have srt: "sorted_chain h V" using V by (simp add: view_ok_def)
  obtain ys where ys: "V = hds l # ys" using V path_head by (fastforce simp: view_ok_def)
  have mtl: "set (tl V) = insert m (set (tl V))" using m ys by auto
  have nx: "vnext h ?W1 = vnext h W" using we(1) by (simp add: vnext_upd)
  have mdel: "m \<notin> wdels W" using V m by (auto simp: view_ok_def)
  have "contents h ?W1 V = (contents h W V)(k := Some v)"
    by (rule contents_put [OF srt srt mtl m(3)]) (use we in \<open>auto simp: vval_upd\<close>)
  then have "view_ok hds h ?W1 F1 N1 (log_upd l k (Some v) U) C l V"
    using V own we mdel by (auto simp: view_ok_def nx wdels_upd vval_upd)
  then show ?thesis by blast
qed

lemma view_ok_delete:
  assumes V: "view_ok hds h W F N U C l V" and p: "p \<in> set V" "vnext h W p = Some m"
    and own: "own F1 N1 l = own F N l"
    and we: "we_next we = vnext h W m" "we_val we = vval h W p" "\<not> we_deleted we"
    and we': "we_deleted we'"
  shows "\<exists>V1. view_ok hds h (W(p \<mapsto> we, m \<mapsto> we')) F1 N1 (log_upd l (nkey h m) None U) C l V1"
proof -
  let ?W1 = "W(p \<mapsto> we, m \<mapsto> we')"
  from p(1) obtain xs ys0 where split0: "V = xs @ p # ys0" by (auto simp: in_set_conv_decomp)
  have path0: "path (vnext h W) (Some (hds l)) V None" using V by (simp add: view_ok_def)
  have "Some m = (case ys0 of [] \<Rightarrow> None | y # _ \<Rightarrow> Some y)"
    using path_split_next [OF path0 [unfolded split0]] p(2) by simp
  then obtain ys where "ys0 = m # ys" by (cases ys0) auto
  with split0 have split: "V = xs @ p # m # ys" by simp
  let ?V1 = "xs @ p # ys"
  have dist: "distinct V" using path0 by (rule path_distinct)
  have srt: "sorted_chain h V" using V by (simp add: view_ok_def)
  have path1: "path (vnext h ?W1) (Some (hds l)) ?V1 None"
    by (rule path_delete [OF path0 [unfolded split]]) (use split dist we in \<open>auto simp: vnext_upd\<close>)
  have srt1: "sorted_chain h ?V1" using srt split by (auto intro: sorted_chain_delete)
  have tl1: "set (tl ?V1) = set (tl V) - {m}" and mtl: "m \<in> set (tl V)"
    using split dist by (cases xs; auto)+
  have pdel: "p \<notin> wdels W" using V p by (auto simp: view_ok_def)
  have pm: "p \<noteq> m" using split dist by auto
  have mV: "m \<notin> set ?V1" using split dist by auto
  have "contents h ?W1 ?V1 = (contents h W V)(nkey h m := None)"
    by (rule contents_drop [OF srt srt1 tl1 mtl])
      (use we mV in \<open>auto simp: vval_upd dest: in_set_tl\<close>)
  moreover have "set ?V1 = set (C l) \<union> own F1 N1 l - wdels ?W1"
    using V split we we' pdel own pm mV by (auto simp: view_ok_def wdels_upd)
  moreover have "\<forall>a\<in>set ?V1. vval h ?W1 a \<noteq> None"
    using V split we mV by (auto simp: view_ok_def vval_upd)
  ultimately have "view_ok hds h ?W1 F1 N1 (log_upd l (nkey h m) None U) C l ?V1"
    using V path1 srt1 by (simp add: view_ok_def)
  then show ?thesis by blast
qed

section \<open>The transaction invariant under the operations\<close>

lemma tx_viewD:
  assumes "tx_view L hds h W F N U"
  shows "dom W \<subseteq> dom F" and "N \<subseteq> dom F" and "dom F \<subseteq> dom h" and "fst ` ran F \<subseteq> L"
  using assms by (simp_all add: tx_view_def)

lemma tx_view_at:
  assumes "tx_view L hds h W F N U" and "later h h'" and "lists_ok L hds h' C'"
    and "agree L h' C' F' N'" and "F \<subseteq>\<^sub>m F'" and "N' \<inter> dom F = N" and "l \<in> L"
  obtains V' where "view_ok hds h' W F N U C' l V'"
proof -
  from assms(1) have "N \<subseteq> dom F" by (simp add: tx_view_def)
  with assms(4-6) have "agree L h' C' F N" by (blast intro: agree_mono)
  with assms(1-3,7) have "\<exists>V'. view_ok hds h' W F N U C' l V'" unfolding tx_view_def by blast
  then show ?thesis using that by blast
qed

lemma tx_view_begin: "tx_view L hds h Map.empty Map.empty {} (\<lambda>_. Map.empty)"
proof -
  have "view_ok hds h' Map.empty Map.empty {} (\<lambda>_. Map.empty) C l (C l)"
    if "lists_ok L hds h' C" and "l \<in> L" for h' C l
  proof -
    have "vval h' Map.empty a \<noteq> None" if "a \<in> set (C l)" for a
      using that \<open>lists_ok L hds h' C\<close> \<open>l \<in> L\<close> by (fastforce simp: lists_ok_def vval_def)
    with that show ?thesis by (simp add: view_ok_def lists_ok_def own_def wdels_def)
  qed
  then show ?thesis by (auto simp: tx_view_def)
qed

lemma tx_view_later:
  assumes "tx_view L hds h W F N U" and "later h h'"
  shows "tx_view L hds h' W F N U"
proof -
  from assms(2) have "dom h \<subseteq> dom h'" by (auto simp: later_def)
  moreover from assms(2) have "later h' h'' \<Longrightarrow> later h h''" for h'' by (rule later_trans)
  ultimately show ?thesis using assms(1) unfolding tx_view_def
    by (meson order_trans)
qed

lemma map_le_ran: "F \<subseteq>\<^sub>m G \<Longrightarrow> F a = Some x \<Longrightarrow> G a = Some x"
  by (metis domI map_le_def)

text \<open>The lists other than the one an operation works on keep their view.\<close>

lemma tx_view_other:
  assumes T: "tx_view L hds h W F N U" and h': "later h h'" "lists_ok L hds h' C'"
    and ag: "agree L h' C' F1 N1" and ext: "F \<subseteq>\<^sub>m F1" "N1 \<inter> dom F = N"
    and l: "l \<in> L" "l' \<in> L" "l' \<noteq> l" and own: "own F1 N1 l' = own F N l'" and U: "U1 l' = U l'"
    and W: "\<And>a. W1 a \<noteq> W a \<Longrightarrow> \<exists>n. F1 a = Some (l, n)"
  shows "\<exists>V1. view_ok hds h' W1 F1 N1 U1 C' l' V1"
proof -
  obtain V' where V': "view_ok hds h' W F N U C' l' V'"
    by (rule tx_view_at [OF T h' ag ext l(2)])
  have same: "W1 a = W a" if a: "a \<in> set (C' l') \<union> own F N l'" for a
  proof (rule ccontr)
    assume "W1 a \<noteq> W a"
    with W obtain n where F1: "F1 a = Some (l, n)" by blast
    show False
    proof (cases "a \<in> N1")
      case True
      with agree_new [OF ag F1] l(2) a have "a \<in> own F1 N1 l'" using own by auto
      with F1 l(3) show False by (auto simp: own_def)
    next
      case False
      with agree_old [OF ag F1] have "a \<in> set (C' l)" by blast
      with lists_disjoint [OF h'(2)] l have "a \<notin> set (C' l')" by blast
      with a own False show False by (auto simp: own_def)
    qed
  qed
  have "view_ok hds h' W1 F1 N1 U1 C' l' V'"
    by (rule view_ok_frame [OF V'])
      (use V' same own U in \<open>auto simp: view_ok_def wdels_def\<close>)
  then show ?thesis by blast
qed

text \<open>The list it works on: the nodes it knows stay, with their successors, values and keys.\<close>

lemma tx_view_same:
  assumes T: "tx_view L hds h W F N U" and h': "later h h'" "lists_ok L hds h' C'"
    and ag: "agree L h' C' F1 N1" and ext: "F \<subseteq>\<^sub>m F1" "N1 \<inter> dom F = N"
    and l: "l \<in> L" and V: "view_ok hds h W F N U C l V"
  obtains V' where "view_ok hds h' W F N U C' l V'"
    and "\<And>a. a \<in> set V \<Longrightarrow> known h F1 l a \<Longrightarrow> (a \<in> N1 \<Longrightarrow> a \<in> N) \<Longrightarrow>
        a \<in> set V' \<and> nkey h' a = nkey h a \<and> vnext h' W a = vnext h W a \<and> vval h' W a = vval h W a"
proof -
  obtain V' where V': "view_ok hds h' W F N U C' l V'"
    by (rule tx_view_at [OF T h' ag ext l])
  show ?thesis
  proof (rule that [OF V'])
    fix a assume a: "a \<in> set V" "known h F1 l a" "a \<in> N1 \<Longrightarrow> a \<in> N"
    have "a \<in> set V'"
      by (rule known_stays [OF V a(1,2) ext(1,2) tx_viewD(2) [OF T] a(3) ag V'])
    moreover from a(2) obtain n n0 where "F1 a = Some (l, n)" "h a = Some n0" "same_content n n0"
      by (auto simp: known_def)
    ultimately show "a \<in> set V' \<and> nkey h' a = nkey h a \<and> vnext h' W a = vnext h W a \<and>
        vval h' W a = vval h W a"
      using agree_node [OF ag] by blast
  qed
qed

lemma agree_fp_add:
  assumes "agree L h C F N" and "N \<subseteq> dom F" and "h a = Some n" and "a \<in> set (C l) \<or> F a \<noteq> None"
  shows "agree L h C (fp_add a l n F) N"
proof (cases "F a")
  case None
  with assms show ?thesis
    by (auto simp: agree_def fp_add_def same_content_def split: if_splits)
next
  case (Some x)
  with assms(1) show ?thesis by (simp add: fp_add_def)
qed

lemma view_node_list:
  assumes "view_ok hds h W F N U C l V" and "tx_view L hds h W F N U" and "agree L h C F N"
    and "lists_ok L hds h C" and "l \<in> L" and "a \<in> set V"
  shows "F a \<noteq> None \<Longrightarrow> \<exists>n. F a = Some (l, n)" and "a \<in> set (C l) \<or> F a \<noteq> None"
    and "h a \<noteq> None"
proof -
  show "\<exists>n. F a = Some (l, n)" if "F a \<noteq> None"
    using that view_list [OF assms(1,3-5) tx_viewD(4) [OF assms(2)] assms(6)] by auto
  from assms(1,6) show in_list: "a \<in> set (C l) \<or> F a \<noteq> None"
    by (auto simp: view_ok_def own_def)
  have "h a \<noteq> None" if "a \<in> set (C l)"
    using that assms(4,5) by (fastforce simp: lists_ok_def)
  moreover have "h a \<noteq> None" if "F a \<noteq> None"
    using that tx_viewD(3) [OF assms(2)] by blast
  ultimately show "h a \<noteq> None" using in_list by blast
qed

lemma ran_fp_add: "fst ` ran F \<subseteq> L \<Longrightarrow> l \<in> L \<Longrightarrow> fst ` ran (fp_add a l n F) \<subseteq> L"
  by (auto simp: fp_add_def ran_def split: if_splits)

text \<open>A read: the footprint grows.\<close>

lemma tx_view_read:
  assumes T: "tx_view L hds h W F N U" and "l \<in> L" and "h a = Some n"
  shows "tx_view L hds h W (fp_add a l n F) N U"
proof -
  let ?F = "fp_add a l n F"
  note D = tx_viewD [OF T]
  have "\<exists>V. view_ok hds h' W ?F N U C l' V"
    if h': "later h h'" "lists_ok L hds h' C" and ag: "agree L h' C ?F N" and "l' \<in> L" for h' C l'
  proof -
    obtain V where "view_ok hds h' W F N U C l' V"
      by (rule tx_view_at [OF T h' ag fp_add_le _ \<open>l' \<in> L\<close>]) (use D in auto)
    then have "view_ok hds h' W ?F N U C l' V"
      by (rule view_ok_frame) (use D in \<open>auto simp: own_fp_add\<close>)
    then show ?thesis by blast
  qed
  with D assms(2,3) ran_fp_add [OF D(4) assms(2)] show ?thesis
    unfolding tx_view_def by auto
qed

text \<open>An update of a node in the view.\<close>

lemma tx_view_update:
  assumes T: "tx_view L hds h W F N U" and now: "lists_ok L hds h C" "agree L h C F N"
    and l: "l \<in> L" and V: "view_ok hds h W F N U C l V"
    and m: "m \<in> set V" "m \<noteq> hds l" "nkey h m = k" "h m = Some nd"
    and we: "we_next we = vnext h W m" "we_val we = Some v" "\<not> we_deleted we"
  shows "tx_view L hds h (W(m \<mapsto> we)) (fp_add m l nd F) N (log_upd l k (Some v) U)"
proof -
  let ?F = "fp_add m l nd F"
  note D = tx_viewD [OF T] and vn = view_node_list [OF V T now(2,1) l m(1)]
  have kn: "known h ?F l m" by (rule known_fp_add [OF now(2) m(4) vn(1)])
  have NF: "N \<inter> dom F = N" using D by auto
  have "\<exists>V. view_ok hds h' (W(m \<mapsto> we)) ?F N (log_upd l k (Some v) U) C' l' V"
    if h': "later h h'" "lists_ok L hds h' C'" and ag: "agree L h' C' ?F N" and l': "l' \<in> L" for h' C' l'
  proof (cases "l' = l")
    case True
    obtain V' where V': "view_ok hds h' W F N U C' l V'"
      and st: "\<And>a. a \<in> set V \<Longrightarrow> known h ?F l a \<Longrightarrow>
        a \<in> set V' \<and> nkey h' a = nkey h a \<and> vnext h' W a = vnext h W a \<and> vval h' W a = vval h W a"
      using tx_view_same [OF T h' ag fp_add_le NF l V] by metis
    show ?thesis unfolding True
      by (rule view_ok_update [OF V'])
        (use st [OF m(1) kn] m(2,3) we D in \<open>auto simp: own_fp_add\<close>)
  next
    case False
    have "own ?F N l' = own F N l'" by (rule own_fp_add [OF D(2)])
    moreover have "\<exists>n. ?F a = Some (l, n)" if "(W(m \<mapsto> we)) a \<noteq> W a" for a
      using that kn by (auto simp: known_def split: if_splits)
    ultimately show ?thesis
      using False l' by (intro tx_view_other [OF T h' ag fp_add_le NF l]) auto
  qed
  with D m(4) ran_fp_add [OF D(4) l] show ?thesis unfolding tx_view_def by auto
qed

text \<open>The insertion of a fresh node after a node of the view.\<close>

lemma tx_view_insert:
  assumes T: "tx_view L hds h W F N U" and now: "lists_ok L hds h C" "agree L h C F N"
    and l: "l \<in> L" and V: "view_ok hds h W F N U C l V"
    and p: "p \<in> set V" "p = hds l \<or> nkey h p < k" "h p = Some pd"
    and after: "\<And>m. vnext h W p = Some m \<Longrightarrow> h m \<noteq> None \<and> k < nkey h m"
    and n: "h n = None" "m_key nd = k" "m_val nd = Some v" "m_next nd = vnext h W p"
    and we: "we_next we = Some n" "we_val we = vval h W p" "\<not> we_deleted we"
  shows "tx_view L hds (h(n \<mapsto> nd)) (W(p \<mapsto> we)) ((fp_add p l pd F)(n \<mapsto> (l, nd))) (insert n N)
           (log_upd l k (Some v) U)" (is ?view)
    and "agree L (h(n \<mapsto> nd)) C ((fp_add p l pd F)(n \<mapsto> (l, nd))) (insert n N)" (is ?agree)
proof -
  let ?G = "fp_add p l pd F" and ?N = "insert n N"
  let ?F = "?G(n \<mapsto> (l, nd))"
  note D = tx_viewD [OF T] and vn = view_node_list [OF V T now(2,1) l p(1)]
  have nF0: "n \<notin> dom F" using n(1) D(3) by auto
  then have nF: "n \<notin> dom F" "n \<notin> N" "W n = None" using D(1,2) by auto
  have np: "n \<noteq> p" using n(1) p(3) by auto
  have le: "F \<subseteq>\<^sub>m ?F" using nF by (auto simp: map_le_def fp_add_def)
  have NF: "?N \<inter> dom F = N" using D nF by auto
  have kn: "known h ?F l p"
    by (rule known_mono [OF known_fp_add [OF now(2) p(3) vn(1)]])
      (use n(1) p(3) nF in \<open>auto simp: map_le_def\<close>)
  have own: "own ?F ?N l' = (if l' = l then insert n (own F N l) else own F N l')" for l'
    using nF D own_fp_add [OF D(2), of p l pd l'] by (auto simp: own_def)
  have lat: "later h (h(n \<mapsto> nd))" using n(1) by (rule later_fresh)
  have "\<exists>V. view_ok hds h' (W(p \<mapsto> we)) ?F ?N (log_upd l k (Some v) U) C' l' V"
    if h1: "later (h(n \<mapsto> nd)) h'" and ok': "lists_ok L hds h' C'" and ag: "agree L h' C' ?F ?N"
      and l': "l' \<in> L" for h' C' l'
  proof (cases "l' = l")
    case True
    have h': "later h h'" using lat h1 by (rule later_trans)
    obtain V' where V': "view_ok hds h' W F N U C' l V'"
      and st: "\<And>a. a \<in> set V \<Longrightarrow> known h ?F l a \<Longrightarrow> (a \<in> ?N \<Longrightarrow> a \<in> N) \<Longrightarrow>
        a \<in> set V' \<and> nkey h' a = nkey h a \<and> vnext h' W a = vnext h W a \<and> vval h' W a = vval h W a"
      using tx_view_same [OF T h' ok' ag le NF l V] by metis
    have p': "p \<in> set V'" "nkey h' p = nkey h p" "vnext h' W p = vnext h W p" "vval h' W p = vval h W p"
      using st [OF p(1) kn] np by auto
    obtain n' where n': "h' n = Some n'" "same_content nd n'" using agree_content [OF ag, of n] by auto
    have "n \<notin> set (C' l)" using agree_new [OF ag, of n] l by auto
    then have "n \<notin> set V'" using V' nF by (auto simp: view_ok_def own_def)
    moreover have "k < nkey h' m" if "vnext h' W p = Some m" for m
      using after [of m] that p'(3) later_nkey [OF h'] by simp
    ultimately show ?thesis unfolding True
      using p' p(2) n' n(2-4) we own [of l] nF
      by (intro view_ok_insert [OF V', where n = n and nd = n']) (auto simp: same_content_def)
  next
    case False
    have "\<exists>n. ?F a = Some (l, n)" if "(W(p \<mapsto> we)) a \<noteq> W a" for a
      using that kn by (auto simp: known_def split: if_splits)
    with False l' own [of l'] show ?thesis
      by (intro tx_view_other [OF T later_trans [OF lat h1] ok' ag le NF l]) auto
  qed
  moreover have "fst ` ran ?G \<subseteq> L" by (rule ran_fp_add [OF D(4) l])
  then have "fst ` ran ?F \<subseteq> L" using l by (auto simp: ran_def image_subset_iff split: if_splits)
  ultimately show ?view unfolding tx_view_def using D p(3) by auto
  have "agree L h C ?G N" by (rule agree_fp_add [OF now(2) D(2) p(3) vn(2)])
  moreover have "n \<notin> set (C l')" if "l' \<in> L" for l'
    using that now(1) n(1) by (fastforce simp: lists_ok_def)
  ultimately show ?agree using l by (auto simp: agree_def same_content_def split: if_splits)
qed

text \<open>The removal of the successor of a node of the view.\<close>

lemma tx_view_delete:
  assumes T: "tx_view L hds h W F N U" and now: "lists_ok L hds h C" "agree L h C F N"
    and l: "l \<in> L" and V: "view_ok hds h W F N U C l V"
    and p: "p \<in> set V" "vnext h W p = Some m" "h p = Some pd" "h m = Some md"
    and we: "we_next we = vnext h W m" "we_val we = vval h W p" "\<not> we_deleted we"
    and we': "we_deleted we'"
  shows "tx_view L hds h (W(p \<mapsto> we, m \<mapsto> we')) (fp_add m l md (fp_add p l pd F)) N
           (log_upd l (nkey h m) None U)"
proof -
  let ?G = "fp_add p l pd F"
  let ?F = "fp_add m l md ?G"
  note D = tx_viewD [OF T]
  have "path (vnext h W) (Some (hds l)) V None" using V by (simp add: view_ok_def)
  then have m: "m \<in> set V" using p(1,2) by (rule path_next_in)
  note vp = view_node_list [OF V T now(2,1) l p(1)] and vm = view_node_list [OF V T now(2,1) l m]
  have le: "F \<subseteq>\<^sub>m ?F" by (rule map_le_trans [OF fp_add_le fp_add_le])
  have NF: "N \<inter> dom F = N" using D by auto
  have N0: "N \<subseteq> dom ?G" using D by auto
  have ag0: "agree L h C ?G N" by (rule agree_fp_add [OF now(2) D(2) p(3) vp(2)])
  have knp: "known h ?F l p"
    by (rule known_mono [OF known_fp_add [OF now(2) p(3) vp(1)] fp_add_le])
  have knm: "known h ?F l m"
    by (rule known_fp_add [OF ag0 p(4)]) (use vm(1) in \<open>auto simp: fp_add_def split: if_splits\<close>)
  have own: "own ?F N l' = own F N l'" for l'
    by (simp add: own_fp_add [OF N0] own_fp_add [OF D(2)])
  have "\<exists>V. view_ok hds h' (W(p \<mapsto> we, m \<mapsto> we')) ?F N (log_upd l (nkey h m) None U) C' l' V"
    if h': "later h h'" "lists_ok L hds h' C'" and ag: "agree L h' C' ?F N" and l': "l' \<in> L" for h' C' l'
  proof (cases "l' = l")
    case True
    obtain V' where V': "view_ok hds h' W F N U C' l V'"
      and st: "\<And>a. a \<in> set V \<Longrightarrow> known h ?F l a \<Longrightarrow>
        a \<in> set V' \<and> nkey h' a = nkey h a \<and> vnext h' W a = vnext h W a \<and> vval h' W a = vval h W a"
      using tx_view_same [OF T h' ag le NF l V] by metis
    have "\<exists>V1. view_ok hds h' (W(p \<mapsto> we, m \<mapsto> we')) ?F N (log_upd l (nkey h' m) None U) C' l V1"
      by (rule view_ok_delete [OF V'])
        (use st [OF p(1) knp] st [OF m knm] p(2) we we' own in auto)
    with st [OF m knm] show ?thesis unfolding True by simp
  next
    case False
    have "\<exists>n. ?F a = Some (l, n)" if "(W(p \<mapsto> we, m \<mapsto> we')) a \<noteq> W a" for a
      using that knp knm by (auto simp: known_def split: if_splits)
    with False l' own [of l'] show ?thesis
      by (intro tx_view_other [OF T h' ag le NF l]) auto
  qed
  moreover have "fst ` ran ?F \<subseteq> L" by (intro ran_fp_add D l)
  ultimately show ?thesis using D p(3,4) unfolding tx_view_def by auto
qed

section \<open>Publication\<close>

text \<open>
  \<open>published\<close>: the heap after the write set has been written out. Its lists are the views.
\<close>

definition published ::
  "(addr \<Rightarrow> lnode option) \<Rightarrow> (addr \<Rightarrow> write_element option) \<Rightarrow> (addr \<Rightarrow> lnode option) \<Rightarrow> bool" where
  "published h W h' \<longleftrightarrow>
     (\<forall>a. case h a of
        None \<Rightarrow> h' a = None
      | Some n \<Rightarrow> (\<exists>n'. h' a = Some n' \<and> m_key n' = m_key n \<and>
          (case W a of
             None \<Rightarrow> m_next n' = m_next n \<and> m_val n' = m_val n \<and>
                isDeleted (m_version_mask n') = isDeleted (m_version_mask n)
           | Some we \<Rightarrow> m_next n' = we_next we \<and>
                m_val n' = (if we_deleted we then None else we_val we) \<and>
                isDeleted (m_version_mask n') = (we_deleted we \<or> isDeleted (m_version_mask n)))))"

lemma published_vnext:
  "published h W h' \<Longrightarrow> vnext h' Map.empty a = (if h a = None then None else vnext h W a)"
  by (drule spec [where x = a, OF iffD1 [OF published_def]])
    (auto simp: vnext_def split: option.splits)

lemma published_vval:
  "published h W h' \<Longrightarrow> h a \<noteq> None \<Longrightarrow> a \<notin> wdels W \<Longrightarrow> vval h' Map.empty a = vval h W a"
  by (drule spec [where x = a, OF iffD1 [OF published_def]])
    (auto simp: vval_def wdels_def split: option.splits)

lemma published_nkey: "published h W h' \<Longrightarrow> nkey h' a = nkey h a"
  by (drule spec [where x = a, OF iffD1 [OF published_def]])
    (auto simp: nkey_def split: option.splits)

lemma published_live:
  assumes "published h W h'" and "h a = Some n" and "\<not> isDeleted (m_version_mask n)"
    and "a \<notin> wdels W" and "vval h W a \<noteq> None"
  shows "\<exists>n'. h' a = Some n' \<and> m_val n' \<noteq> None \<and> \<not> isDeleted (m_version_mask n')"
  using assms(1) [unfolded published_def, rule_format, of a] assms(2-5)
  by (auto simp: vval_def wdels_def split: option.splits)

lemma view_ok_disjoint:
  assumes "view_ok hds h W F N U C l V" and "view_ok hds h W F N U C l' V'"
    and "lists_ok L hds h C" and "agree L h C F N" and "l \<in> L" and "l' \<in> L" and "l \<noteq> l'"
  shows "set V \<inter> set V' = {}"
proof -
  have 1: "set (C l) \<inter> set (C l') = {}"
    using lists_disjoint [OF assms(3)] assms(5-7) by blast
  have 2: "own F N l \<inter> own F N l' = {}" using assms(7) by (auto simp: own_def)
  have 3: "set (C j) \<inter> own F N j' = {}" if "j \<in> L" for j j'
    using agree_new [OF assms(4) _ _ that] by (auto simp: own_def)
  have "set V \<subseteq> set (C l) \<union> own F N l" and "set V' \<subseteq> set (C l') \<union> own F N l'"
    using assms(1,2) by (auto simp: view_ok_def)
  with 1 2 3 [OF assms(5)] 3 [OF assms(6)] show ?thesis by blast
qed

lemma view_published:
  assumes V: "view_ok hds h W F N U C l V" and pub: "published h W h'"
    and live: "\<And>a. a \<in> set V \<Longrightarrow> \<exists>n. h a = Some n \<and> \<not> isDeleted (m_version_mask n)"
  shows "path (vnext h' Map.empty) (Some (hds l)) V None" and "sorted_chain h' V"
    and "\<And>a. a \<in> set V \<Longrightarrow> \<exists>n. h' a = Some n \<and> m_val n \<noteq> None \<and> \<not> isDeleted (m_version_mask n)"
    and "contents h' Map.empty V = overlay (U l) (contents h Map.empty (C l))"
proof -
  have nd: "a \<notin> wdels W" "vval h W a \<noteq> None" "h a \<noteq> None" if "a \<in> set V" for a
    using V that live [OF that] by (auto simp: view_ok_def)
  have "path (vnext h' Map.empty) (Some (hds l)) V None = path (vnext h W) (Some (hds l)) V None"
    by (rule path_cong) (simp add: nd published_vnext [OF pub])
  with V show "path (vnext h' Map.empty) (Some (hds l)) V None" by (simp add: view_ok_def)
  show srt: "sorted_chain h' V"
    using V sorted_chain_cong [of V h' h] published_nkey [OF pub] by (simp add: view_ok_def)
  show "\<exists>n. h' a = Some n \<and> m_val n \<noteq> None \<and> \<not> isDeleted (m_version_mask n)" if "a \<in> set V" for a
    using live [OF that] published_live [OF pub] nd [OF that] by blast
  have "sorted_chain h V" using V by (simp add: view_ok_def)
  moreover have "vval h' Map.empty a = vval h W a" if "a \<in> set (tl V)" for a
    using nd [OF in_set_tl [OF that]] published_vval [OF pub] by blast
  ultimately have "contents h' Map.empty V k = contents h W V k" for k
    by (intro contents_eqI [OF srt]) (auto simp: published_nkey [OF pub])
  with V show "contents h' Map.empty V = overlay (U l) (contents h Map.empty (C l))"
    by (simp add: view_ok_def fun_eq_iff)
qed

text \<open>
  Committing: the published heap has well-formed lists again, whose contents are those before
  with the transaction's updates on top.
\<close>

lemma tx_view_publish:
  assumes T: "tx_view L hds h W F N U" and ok: "lists_ok L hds h C" and ag: "agree L h C F N"
    and new: "\<And>a n. a \<in> N \<Longrightarrow> h a = Some n \<Longrightarrow> \<not> isDeleted (m_version_mask n)"
    and pub: "published h W h'"
  obtains C' where "lists_ok L hds h' C'"
    and "\<And>l. l \<in> L \<Longrightarrow> set (C' l) = set (C l) \<union> own F N l - wdels W"
    and "\<And>l. l \<in> L \<Longrightarrow> contents h' Map.empty (C' l) = overlay (U l) (contents h Map.empty (C l))"
proof -
  have "\<forall>l\<in>L. \<exists>V. view_ok hds h W F N U C l V"
    using T ok ag unfolding tx_view_def by (meson later_refl)
  then obtain C' where C': "\<And>l. l \<in> L \<Longrightarrow> view_ok hds h W F N U C l (C' l)" by metis
  have live: "\<exists>n. h a = Some n \<and> \<not> isDeleted (m_version_mask n)" if "l \<in> L" "a \<in> set (C' l)" for l a
  proof (cases "a \<in> N")
    case True
    with tx_viewD [OF T] obtain n where "h a = Some n" by blast
    with new True show ?thesis by blast
  next
    case False
    with C' [OF that(1)] that(2) have "a \<in> set (C l)" by (auto simp: view_ok_def own_def)
    with ok that(1) show ?thesis unfolding lists_ok_def by blast
  qed
  have P: "path (vnext h' Map.empty) (Some (hds l)) (C' l) None" "sorted_chain h' (C' l)"
    "\<And>a. a \<in> set (C' l) \<Longrightarrow> \<exists>n. h' a = Some n \<and> m_val n \<noteq> None \<and> \<not> isDeleted (m_version_mask n)"
    "contents h' Map.empty (C' l) = overlay (U l) (contents h Map.empty (C l))" if "l \<in> L" for l
    using view_published [OF C' [OF that] pub live [OF that]] by blast+
  show ?thesis
  proof (rule that)
    have "\<forall>l\<in>L. \<forall>l'\<in>L. l \<noteq> l' \<longrightarrow> set (C' l) \<inter> set (C' l') = {}"
      using view_ok_disjoint [OF C' C' ok ag] by blast
    with P(1-3) show "lists_ok L hds h' C'" unfolding lists_ok_def by simp
    show "set (C' l) = set (C l) \<union> own F N l - wdels W" if "l \<in> L" for l
      using C' [OF that] by (simp add: view_ok_def)
    show "contents h' Map.empty (C' l) = overlay (U l) (contents h Map.empty (C l))" if "l \<in> L" for l
      using that by (rule P)
  qed
qed

end
