(* ===== verification/IndexSpec.thy ===== *)
theory IndexSpec
  imports TxView
begin

text \<open>
  The interface between the list and its index. The list relies on \<open>getPred\<close> for a live node of
  the list at or before the searched position, and calls \<open>add\<close> and \<open>remove\<close> after it has
  changed the list. \<open>ix_inv h head A ix\<close>: in the heap \<open>h\<close> the index \<open>ix\<close> of the list with
  head \<open>head\<close> refers only to nodes of \<open>A\<close>, the nodes that have been added to the list so far.
\<close>

definition live :: "(addr \<Rightarrow> lnode option) \<Rightarrow> addr \<Rightarrow> bool" where
  "live h a \<longleftrightarrow> (\<exists>n. h a = Some n \<and> m_val n \<noteq> None)"

text \<open>No wrapper is flagged as deleted: \<open>delete_wrapped_node\<close> stores \<open>false\<close>.\<close>

definition flags_clear :: "(addr \<Rightarrow> lnode option) \<Rightarrow> bool" where
  "flags_clear h \<longleftrightarrow> (\<forall>a n. h a = Some n \<longrightarrow> \<not> w_deleted n)"

locale list_index =
  fixes i :: "'ix index_ops"
    and ix_inv :: "(addr \<Rightarrow> lnode option) \<Rightarrow> addr \<Rightarrow> addr set \<Rightarrow> 'ix \<Rightarrow> bool"
  assumes ix_init: "live h head \<Longrightarrow> ix_inv h head {head} (ix_init i head)"
    and ix_later: "ix_inv h head A ix \<Longrightarrow> later h h' \<Longrightarrow> ix_inv h' head A ix"
    and ix_getPred: "ix_inv h head A ix \<Longrightarrow> flags_clear h \<Longrightarrow> live h head \<Longrightarrow>
      \<exists>b ix'. ix_getPred i h k ix = Ok (b, ix') \<and> ix_inv h head A ix' \<and>
        b \<in> A \<and> live h b \<and> (b = head \<or> nkey h b < k)"
    and ix_add: "ix_inv h head A ix \<Longrightarrow> flags_clear h \<Longrightarrow> live h head \<Longrightarrow> h a \<noteq> None \<Longrightarrow> a \<notin> A \<Longrightarrow>
      \<exists>r' ix'. ix_add i h a r ix = Ok (r', ix') \<and> ix_inv h head (insert a A) ix'"
    and ix_remove: "ix_inv h head A ix \<Longrightarrow> flags_clear h \<Longrightarrow> live h head \<Longrightarrow> a \<in> A \<Longrightarrow>
      \<exists>ix'. ix_remove i h a ix = Ok ix' \<and> ix_inv h head A ix'"
begin

lemma index_getPred_run:
  assumes "ix_inv (heap s) (ll_head (lists s l)) A (ll_index (lists s l))"
    and "flags_clear (heap s)" and "live (heap s) (ll_head (lists s l))"
  obtains b ix' where "index_getPred i l k s = (Ok b, set_index l ix' s)"
    and "ix_inv (heap s) (ll_head (lists s l)) A ix'" and "b \<in> A" and "live (heap s) b"
    and "b = ll_head (lists s l) \<or> nkey (heap s) b < k"
  using ix_getPred [OF assms, of k] by (auto simp: index_getPred_def)

lemma index_add_run:
  assumes "ix_inv (heap s) (ll_head (lists s l)) A (ll_index (lists s l))"
    and "flags_clear (heap s)" and "live (heap s) (ll_head (lists s l))" and "heap s a \<noteq> None" and "a \<notin> A"
  obtains r' ix' where "index_add i l a s = (Ok (), (set_index l ix' s)\<lparr>rng := r'\<rparr>)"
    and "ix_inv (heap s) (ll_head (lists s l)) (insert a A) ix'"
  using ix_add [OF assms, of "rng s"] by (auto simp: index_add_def)

lemma index_remove_run:
  assumes "ix_inv (heap s) (ll_head (lists s l)) A (ll_index (lists s l))"
    and "flags_clear (heap s)" and "live (heap s) (ll_head (lists s l))" and "a \<in> A"
  obtains ix' where "index_remove i l a s = (Ok (), set_index l ix' s)"
    and "ix_inv (heap s) (ll_head (lists s l)) A ix'"
  using ix_remove [OF assms] by (auto simp: index_remove_def)

end

end
