(* ===== verification/TxOps.thy ===== *)
theory TxOps
  imports IndexSpec
begin

text \<open>
  The traversals of the list inside a transaction. On a heap whose pointers go to allocated nodes
  of larger key, every traversal ends within its bound, and either aborts the transaction or
  returns the place of the searched key in the transaction's view. This holds for every
  transaction, also for one that will fail validation.
\<close>

section \<open>Safe states\<close>

definition ptr_ok :: "(addr \<Rightarrow> lnode option) \<Rightarrow> addr set \<Rightarrow> addr \<Rightarrow> addr option \<Rightarrow> bool" where
  "ptr_ok h H a p \<longleftrightarrow>
     (\<forall>b. p = Some b \<longrightarrow> h b \<noteq> None \<and> b \<notin> H \<and> (a \<in> H \<or> nkey h a < nkey h b))"

text \<open>
  Between two methods no node is locked, no singleton operation has run, and the wrapper's flag
  is clear.
\<close>

definition heap_ok :: "addr set \<Rightarrow> (addr \<Rightarrow> lnode option) \<Rightarrow> addr \<Rightarrow> bool" where
  "heap_ok H h nx \<longleftrightarrow> dom h = {..<nx} \<and> H \<subseteq> dom h \<and>
     (\<forall>a n. h a = Some n \<longrightarrow> ptr_ok h H a (m_next n) \<and>
        \<not> isLocked (m_version_mask n) \<and> \<not> isSingleton (m_version_mask n) \<and> \<not> w_deleted n)"

definition ws_ok :: "addr set \<Rightarrow> (addr \<Rightarrow> lnode option) \<Rightarrow> (addr \<Rightarrow> write_element option) \<Rightarrow> bool" where
  "ws_ok H h W \<longleftrightarrow>
     (\<forall>a we. W a = Some we \<longrightarrow> h a \<noteq> None \<and> ptr_ok h H a (we_next we) \<and> (we_deleted we \<longrightarrow> a \<notin> H))"

abbreviation head_of :: "'ix state \<Rightarrow> list_id \<Rightarrow> addr" where
  "head_of s l \<equiv> ll_head (lists s l)"

abbreviation heads :: "list_id set \<Rightarrow> 'ix state \<Rightarrow> addr set" where
  "heads L s \<equiv> head_of s ` L"

abbreviation ws :: "'ix state \<Rightarrow> addr \<Rightarrow> write_element option" where
  "ws s \<equiv> map_of (writeSet (ls s))"

text \<open>The measure of a search backwards: the nodes of smaller key.\<close>

definition below :: "(addr \<Rightarrow> lnode option) \<Rightarrow> addr \<Rightarrow> addr set" where
  "below h a = {b \<in> dom h. nkey h b < nkey h a}"

definition above :: "(addr \<Rightarrow> lnode option) \<Rightarrow> addr \<Rightarrow> addr set" where
  "above h a = {b \<in> dom h. nkey h a < nkey h b}"

lemma ptr_okD:
  assumes "ptr_ok h H a (Some b)"
  shows "h b \<noteq> None" and "b \<notin> H" and "a \<in> H \<or> nkey h a < nkey h b"
  using assms by (auto simp: ptr_ok_def)

lemma heap_okD:
  assumes "heap_ok H h nx"
  shows "dom h = {..<nx}" and "H \<subseteq> dom h"
    and "h a = Some n \<Longrightarrow> ptr_ok h H a (m_next n)"
    and "h a = Some n \<Longrightarrow> \<not> isLocked (m_version_mask n)"
    and "h a = Some n \<Longrightarrow> \<not> isSingleton (m_version_mask n)"
    and "h a = Some n \<Longrightarrow> \<not> w_deleted n"
  using assms by (auto simp: heap_ok_def)

lemma ws_okD:
  assumes "ws_ok H h W" and "W a = Some we"
  shows "h a \<noteq> None" and "ptr_ok h H a (we_next we)" and "we_deleted we \<Longrightarrow> a \<notin> H"
  using assms by (auto simp: ws_ok_def)

lemma vnext_ok:
  assumes "heap_ok H h nx" and "ws_ok H h W" and "h a \<noteq> None"
  shows "ptr_ok h H a (vnext h W a)"
proof (cases "W a")
  case None
  with assms(3) heap_okD(3) [OF assms(1)] show ?thesis by (auto simp: vnext_def)
next
  case (Some we)
  with ws_okD(2) [OF assms(2) Some] show ?thesis by (simp add: vnext_def)
qed

lemma finite_below [simp]: "dom h = {..<nx} \<Longrightarrow> finite (below h a)"
  by (rule finite_subset [of _ "{..<nx}"]) (auto simp: below_def)

lemma finite_above [simp]: "dom h = {..<nx} \<Longrightarrow> finite (above h a)"
  by (rule finite_subset [of _ "{..<nx}"]) (auto simp: above_def)

lemma card_below_less:
  assumes "dom h = {..<nx}" and "h b \<noteq> None" and "nkey h b < nkey h a"
  shows "card (below h b) < card (below h a)"
  by (rule psubset_card_mono) (use assms in \<open>auto simp: below_def\<close>)

lemma card_above_less:
  assumes "dom h = {..<nx}" and "h b \<noteq> None" and "nkey h a < nkey h b"
  shows "card (above h b) < card (above h a)"
  by (rule psubset_card_mono) (use assms in \<open>auto simp: above_def\<close>)

lemma card_below_bound:
  assumes "dom h = {..<nx}" and "h a \<noteq> None"
  shows "card (below h a) < nx"
proof -
  have "a < nx" using assms by auto
  have "card (below h a) < card {..<nx}"
    by (rule psubset_card_mono) (use assms \<open>a < nx\<close> in \<open>auto simp: below_def\<close>)
  then show ?thesis by simp
qed

lemma card_above_bound:
  assumes "dom h = {..<nx}" and "h a \<noteq> None"
  shows "card (above h a) < nx"
proof -
  have "a < nx" using assms by auto
  have "card (above h a) < card {..<nx}"
    by (rule psubset_card_mono) (use assms \<open>a < nx\<close> in \<open>auto simp: above_def\<close>)
  then show ?thesis by simp
qed

section \<open>Reading one node\<close>

lemma derefE_Some [simp]: "heap s a = Some n \<Longrightarrow> derefE (Some a) s = (Ok n, s)"
  by (simp add: derefE_def)

lemma readWord_Some [simp]: "heap s a = Some n \<Longrightarrow> readWord a f s = (Ok (f (m_version_mask n)), s)"
  by (simp add: readWord_def run_simps)

definition stop_tx :: "'ix state \<Rightarrow> 'ix state" where
  "stop_tx s = s\<lparr>lt := (lt s)\<lparr>TX := False\<rparr>\<rparr>"

lemma abortTX_run [simp]: "abortTX s = (Throw TxAbortException, stop_tx s)"
  by (simp add: abortTX_def modifyLT_def stop_tx_def run_simps)

lemma checkNode_run:
  assumes "heap s a = Some n" and "\<not> isLocked (m_version_mask n)" and "\<not> isSingleton (m_version_mask n)"
  shows "checkNode a s =
    (if getVersion (m_version_mask n) > readVersion (lt s) then (Throw TxAbortException, stop_tx s)
     else (Ok (), s))"
  using assms by (simp add: checkNode_def run_simps)

lemma findWriteSet_run [simp]: "findWriteSet a s = (Ok (ws s a), s)"
  by (simp add: findWriteSet_def run_simps)

lemma getVal_run: "heap s a \<noteq> None \<Longrightarrow> getVal a s = (Ok (vval (heap s) (ws s) a), s)"
  by (auto simp: getVal_def run_simps vval_def split: option.splits)

lemma safe_get_next_run [simp]: "heap s a = Some n \<Longrightarrow> safe_get_next a s = (Ok (m_next n), s)"
  by (simp add: safe_get_next_def run_simps)

text \<open>\<open>getNext\<close> aborts or returns the successor in the view.\<close>

lemma getNext_run:
  assumes "heap_ok H (heap s) (next_addr s)" and "ws_ok H (heap s) (ws s)" and "heap s a \<noteq> None"
  shows "getNext a s = (Throw TxAbortException, stop_tx s) \<or>
    getNext a s = (Ok (vnext (heap s) (ws s) a), s)"
proof (cases "ws s a")
  case None
  from assms(3) obtain n where n: "heap s a = Some n" by blast
  note ok = heap_okD [OF assms(1)]
  show ?thesis
  proof (cases "m_next n")
    case None': None
    with None n ok(4,5) [OF n] show ?thesis
      by (simp add: getNext_def run_simps vnext_def checkNode_run)
  next
    case (Some b)
    with ok(3) [OF n] obtain m where m: "heap s b = Some m" by (auto dest: ptr_okD)
    from None n ok(4,5) [OF n] Some m ok(4,5) [OF m] show ?thesis
      by (simp add: getNext_def run_simps vnext_def checkNode_run)
  qed
qed (simp add: getNext_def run_simps vnext_def)

section \<open>Searching\<close>

lemma set_index_sel [simp]:
  "heap (set_index l ix s) = heap s" "next_addr (set_index l ix s) = next_addr s"
  "gvc (set_index l ix s) = gvc s" "lt (set_index l ix s) = lt s" "ls (set_index l ix s) = ls s"
  "rng (set_index l ix s) = rng s" "retired (set_index l ix s) = retired s"
  "head_of (set_index l ix s) l' = head_of s l'"
  by (simp_all add: set_index_def)

lemma set_index_twice [simp]: "set_index l ix (set_index l ix' s) = set_index l ix s"
  by (simp add: set_index_def)

lemma set_index_same [simp]: "set_index l (ll_index (lists s l)) s = s"
  by (simp add: set_index_def)

lemma ll_index_set_index:
  "ll_index (lists (set_index l ix s) l') = (if l' = l then ix else ll_index (lists s l'))"
  by (simp add: set_index_def)

text \<open>The place found for a key: \<open>p\<close> before it, \<open>c\<close> at or after it, adjacent in the view.\<close>

definition place ::
  "'ix state \<Rightarrow> list_id \<Rightarrow> key_t \<Rightarrow> bool \<Rightarrow> addr \<Rightarrow> addr option \<Rightarrow> bool" where
  "place s l k found p c \<longleftrightarrow>
     heap s p \<noteq> None \<and> (p = head_of s l \<or> nkey (heap s) p < k) \<and>
     c = vnext (heap s) (ws s) p \<and>
     (\<forall>m. c = Some m \<longrightarrow> k \<le> nkey (heap s) m) \<and>
     (found \<longleftrightarrow> (\<exists>m. c = Some m \<and> nkey (heap s) m = k))"

text \<open>
  The loop of \<open>find_node\<close>, from any node. \<open>P\<close> is any set of nodes closed under the view's
  successor: the search stays inside it.
\<close>

lemma find_node_loop_run:
  assumes "heap_ok H (heap s) (next_addr s)" and "ws_ok H (heap s) (ws s)"
    and "heap s p \<noteq> None" and "p = head_of s l \<or> nkey (heap s) p < k"
    and "c = vnext (heap s) (ws s) p"
    and "\<And>m. c = Some m \<Longrightarrow> Suc (card (above (heap s) m)) < fuel" and "0 < fuel"
    and "p \<in> P" and "\<And>a b. a \<in> P \<Longrightarrow> vnext (heap s) (ws s) a = Some b \<Longrightarrow> b \<in> P"
  shows "find_node_loop fuel k p c s = (Throw TxAbortException, stop_tx s) \<or>
    (\<exists>found q d. find_node_loop fuel k p c s = (Ok (found, q, d), s) \<and> place s l k found q d \<and> q \<in> P)"
  using assms(3-8)
proof (induction fuel arbitrary: p c)
  case 0
  then show ?case by simp
next
  case (Suc fuel)
  note ok = assms(1,2) and closed = assms(9)
  show ?case
  proof (cases c)
    case None
    with Suc.prems show ?thesis by (auto simp: run_simps place_def)
  next
    case (Some m)
    with Suc.prems vnext_ok [OF ok, of p] have pm: "ptr_ok (heap s) H p (Some m)" by simp
    then obtain nd where nd: "heap s m = Some nd" by (auto dest: ptr_okD)
    then have key: "nkey (heap s) m = m_key nd" by (simp add: nkey_def)
    consider "m_key nd = k" | "m_key nd > k" | "m_key nd < k" by force
    then show ?thesis
    proof cases
      case 1
      with Some Suc.prems nd key show ?thesis by (auto simp: run_simps place_def)
    next
      case 2
      with Some Suc.prems nd key show ?thesis by (auto simp: run_simps place_def)
    next
      case 3
      then have ne: "m_key nd \<noteq> k" "\<not> k < m_key nd" by auto
      have loop: "find_node_loop (Suc fuel) k p c s = bindE (getNext m) (find_node_loop fuel k m) s"
        using Some nd ne by (simp add: run_simps)
      let ?c = "vnext (heap s) (ws s) m"
      have mP: "m \<in> P" using closed Suc.prems(3,6) Some by blast
      have fuel: "Suc (card (above (heap s) b)) < fuel" if "?c = Some b" for b
      proof -
        from that vnext_ok [OF ok, of m] nd have b: "ptr_ok (heap s) H m (Some b)" by simp
        moreover have "m \<notin> H" using pm by (rule ptr_okD)
        ultimately have "nkey (heap s) m < nkey (heap s) b" and "heap s b \<noteq> None"
          by (auto dest: ptr_okD)
        with card_above_less [OF heap_okD(1) [OF ok(1)]] Suc.prems(4) [OF Some]
        show ?thesis by fastforce
      qed
      have pos: "0 < fuel" using Suc.prems(4) [OF Some] by simp
      have IH: "find_node_loop fuel k m ?c s = (Throw TxAbortException, stop_tx s) \<or>
        (\<exists>found q d. find_node_loop fuel k m ?c s = (Ok (found, q, d), s) \<and> place s l k found q d \<and> q \<in> P)"
        by (rule Suc.IH) (use nd key 3 fuel pos mP in auto)
      have "heap s m \<noteq> None" using nd by simp
      from getNext_run [OF ok this] IH show ?thesis unfolding loop
        by (auto simp: run_simps)
    qed
  qed
qed

context list_index
begin

definition index_ok :: "list_id set \<Rightarrow> (list_id \<Rightarrow> addr set) \<Rightarrow> 'ix state \<Rightarrow> bool" where
  "index_ok L A s \<longleftrightarrow>
     (\<forall>l\<in>L. ix_inv (heap s) (head_of s l) (A l) (ll_index (lists s l)) \<and>
        head_of s l \<in> A l \<and> live (heap s) (head_of s l) \<and> nkey (heap s) (head_of s l) = 0 \<and>
        (\<forall>b\<in>A l. \<forall>n. heap s b = Some n \<longrightarrow> m_val n \<noteq> None \<longrightarrow> \<not> isDeleted (m_version_mask n)))"

definition safe :: "list_id set \<Rightarrow> (list_id \<Rightarrow> addr set) \<Rightarrow> 'ix state \<Rightarrow> bool" where
  "safe L A s \<longleftrightarrow> heap_ok (heads L s) (heap s) (next_addr s) \<and>
     ws_ok (heads L s) (heap s) (ws s) \<and> index_ok L A s"

text \<open>\<open>searched\<close>: a state that differs in the index of the list only.\<close>

definition searched :: "(list_id \<Rightarrow> addr set) \<Rightarrow> list_id \<Rightarrow> 'ix state \<Rightarrow> 'ix state \<Rightarrow> bool" where
  "searched A l s s' \<longleftrightarrow>
     (\<exists>ix. s' = set_index l ix s \<and> ix_inv (heap s) (head_of s l) (A l) ix)"

lemma searched_safe:
  assumes "safe L A s" and "searched A l s s'"
  shows "safe L A s'"
  using assms by (auto simp: safe_def index_ok_def searched_def ll_index_set_index)

lemma searched_refl: "safe L A s \<Longrightarrow> l \<in> L \<Longrightarrow> searched A l s s"
  unfolding searched_def safe_def index_ok_def by (metis set_index_same)

lemma searched_trans: "searched A l s s' \<Longrightarrow> searched A l s' s'' \<Longrightarrow> searched A l s s''"
  by (auto simp: searched_def)

lemma searched_sel:
  assumes "searched A l s s'"
  shows "heap s' = heap s" "next_addr s' = next_addr s" "gvc s' = gvc s" "lt s' = lt s"
    "ls s' = ls s" "retired s' = retired s" "rng s' = rng s" "head_of s' l' = head_of s l'"
  using assms by (auto simp: searched_def)

lemma safe_getPred:
  assumes "safe L A s" and "l \<in> L"
  obtains b s' where "index_getPred i l k s = (Ok b, s')" and "searched A l s s'" and "b \<in> A l"
    and "live (heap s) b" and "b = head_of s l \<or> nkey (heap s) b < k"
proof -
  from assms have "ix_inv (heap s) (head_of s l) (A l) (ll_index (lists s l))"
    and "flags_clear (heap s)" and "live (heap s) (head_of s l)"
    by (auto simp: safe_def index_ok_def heap_ok_def flags_clear_def)
  then show ?thesis
    by (rule index_getPred_run [where k = k]) (rule that, auto simp: searched_def)
qed

text \<open>The loop of \<open>getPred\<close> walks back over the nodes the transaction has deleted.\<close>

lemma getPred_loop_run:
  assumes "safe L A s" and "l \<in> L" and "p \<in> A l" and "live (heap s) p"
    and "p = head_of s l \<or> nkey (heap s) p < k"
    and "if p = head_of s l then 0 < fuel else Suc (card (below (heap s) p)) < fuel"
  shows "\<exists>s'. searched A l s s' \<and>
    (getPred_loop fuel i l p s = (Throw TxAbortException, stop_tx s') \<or>
     (\<exists>q. getPred_loop fuel i l p s = (Ok q, s') \<and> q \<in> A l \<and> live (heap s) q \<and>
        q \<notin> wdels (ws s) \<and> (q = head_of s l \<or> nkey (heap s) q < k)))"
  using assms
proof (induction fuel arbitrary: p s k)
  case 0
  then show ?case by (auto split: if_splits)
next
  case (Suc fuel)
  from Suc.prems(4) obtain n where n: "heap s p = Some n" and v: "m_val n \<noteq> None"
    by (auto simp: live_def)
  from Suc.prems(1) have ok: "heap_ok (heads L s) (heap s) (next_addr s)"
    and wok: "ws_ok (heads L s) (heap s) (ws s)" by (auto simp: safe_def)
  note clean = heap_okD(4,5) [OF ok n]
  have nd: "\<not> isDeleted (m_version_mask n)"
    using Suc.prems(1-3) n v by (auto simp: safe_def index_ok_def)
  have refl: "searched A l s s" by (rule searched_refl [OF Suc.prems(1,2)])
  show ?case
  proof (cases "getVersion (m_version_mask n) > readVersion (lt s)")
    case True
    with n clean refl show ?thesis by (auto simp: run_simps checkNode_run)
  next
    case False
    show ?thesis
    proof (cases "p \<in> wdels (ws s)")
      case False': False
      then have "(case ws s p of Some w \<Rightarrow> we_deleted w | None \<Rightarrow> False) = False"
        by (auto simp: wdels_def split: option.splits)
      with False False' n clean nd refl Suc.prems show ?thesis
        by (auto simp: run_simps checkNode_run)
    next
      case True
      then obtain w where w: "ws s p = Some w" "we_deleted w" by (auto simp: wdels_def)
      from ws_okD(3) [OF wok w] Suc.prems(2) have nh: "p \<noteq> head_of s l" by auto
      obtain b s1 where gp: "index_getPred i l (m_key n) s = (Ok b, s1)" and se: "searched A l s s1"
        and b: "b \<in> A l" "live (heap s) b" "b = head_of s l \<or> nkey (heap s) b < m_key n"
        by (rule safe_getPred [OF Suc.prems(1,2)])
      have loop: "getPred_loop (Suc fuel) i l p s = getPred_loop fuel i l b s1"
        using False n clean w nh gp by (simp add: run_simps checkNode_run)
      have key: "nkey (heap s) p = m_key n" using n by (simp add: nkey_def)
      have fuel: "if b = head_of s l then 0 < fuel else Suc (card (below (heap s) b)) < fuel"
      proof (cases "b = head_of s l")
        case True
        with Suc.prems(6) nh show ?thesis by simp
      next
        case False
        with b have "card (below (heap s) b) < card (below (heap s) p)"
          by (intro card_below_less [OF heap_okD(1) [OF ok]]) (auto simp: live_def key)
        with False Suc.prems(6) nh show ?thesis by simp
      qed
      have bk: "b = head_of s l \<or> nkey (heap s) b < k"
        using b(3) Suc.prems(5) nh key by auto
      from Suc.IH [OF searched_safe [OF Suc.prems(1) se] Suc.prems(2) b(1)] b(2) bk fuel
      obtain s2 where "searched A l s1 s2" and
        "getPred_loop fuel i l b s1 = (Throw TxAbortException, stop_tx s2) \<or>
         (\<exists>q. getPred_loop fuel i l b s1 = (Ok q, s2) \<and> q \<in> A l \<and> live (heap s) q \<and>
            q \<notin> wdels (ws s) \<and> (q = head_of s l \<or> nkey (heap s) q < k))"
        unfolding searched_sel [OF se] by blast
      with searched_trans [OF se] show ?thesis unfolding loop by blast
    qed
  qed
qed

lemma getPred_run:
  assumes "safe L A s" and "l \<in> L"
  shows "\<exists>s'. searched A l s s' \<and>
    (getPred i l k s = (Throw TxAbortException, stop_tx s') \<or>
     (\<exists>q. getPred i l k s = (Ok q, s') \<and> q \<in> A l \<and> live (heap s) q \<and>
        q \<notin> wdels (ws s) \<and> (q = head_of s l \<or> nkey (heap s) q < k)))"
proof -
  obtain b s1 where gp: "index_getPred i l k s = (Ok b, s1)" and se: "searched A l s s1"
    and b: "b \<in> A l" "live (heap s) b" "b = head_of s l \<or> nkey (heap s) b < k"
    by (rule safe_getPred [OF assms])
  have ok: "heap_ok (heads L s) (heap s) (next_addr s)" using assms(1) by (simp add: safe_def)
  have run: "getPred i l k s = getPred_loop (Suc (next_addr s)) i l b s1"
    using gp by (simp add: getPred_def run_simps searched_sel [OF se] del: getPred_loop.simps)
  have "card (below (heap s) b) < next_addr s"
    by (rule card_below_bound [OF heap_okD(1) [OF ok]]) (use b in \<open>auto simp: live_def\<close>)
  then have "if b = head_of s l then 0 < Suc (next_addr s)
      else Suc (card (below (heap s) b)) < Suc (next_addr s)" by simp
  with getPred_loop_run [OF searched_safe [OF assms(1) se] assms(2) b(1),
      of k "Suc (next_addr s)", unfolded searched_sel [OF se], OF b(2,3)]
  obtain s2 where "searched A l s1 s2" and
    "getPred_loop (Suc (next_addr s)) i l b s1 = (Throw TxAbortException, stop_tx s2) \<or>
     (\<exists>q. getPred_loop (Suc (next_addr s)) i l b s1 = (Ok q, s2) \<and> q \<in> A l \<and> live (heap s) q \<and>
        q \<notin> wdels (ws s) \<and> (q = head_of s l \<or> nkey (heap s) q < k))"
    by blast
  with searched_trans [OF se] show ?thesis unfolding run by blast
qed

lemma find_node_run:
  assumes "safe L A s" and "l \<in> L"
    and "\<And>a. a \<in> A l \<Longrightarrow> live (heap s) a \<Longrightarrow> a \<notin> wdels (ws s) \<Longrightarrow> a \<in> P"
    and "\<And>a b. a \<in> P \<Longrightarrow> vnext (heap s) (ws s) a = Some b \<Longrightarrow> b \<in> P"
  shows "\<exists>s'. searched A l s s' \<and>
    (find_node i l k s = (Throw TxAbortException, stop_tx s') \<or>
     (\<exists>found p c. find_node i l k s = (Ok (found, p, c), s') \<and> place s l k found p c \<and> p \<in> P))"
proof -
  obtain s1 where se: "searched A l s s1" and
    gp: "getPred i l k s = (Throw TxAbortException, stop_tx s1) \<or>
     (\<exists>q. getPred i l k s = (Ok q, s1) \<and> q \<in> A l \<and> live (heap s) q \<and>
        q \<notin> wdels (ws s) \<and> (q = head_of s l \<or> nkey (heap s) q < k))"
    using getPred_run [OF assms(1,2)] by blast
  note sel = searched_sel [OF se]
  from gp show ?thesis
  proof
    assume "getPred i l k s = (Throw TxAbortException, stop_tx s1)"
    then have "find_node i l k s = (Throw TxAbortException, stop_tx s1)"
      by (simp add: find_node_def run_simps)
    with se show ?thesis by blast
  next
    assume "\<exists>q. getPred i l k s = (Ok q, s1) \<and> q \<in> A l \<and> live (heap s) q \<and>
        q \<notin> wdels (ws s) \<and> (q = head_of s l \<or> nkey (heap s) q < k)"
    then obtain q where q: "getPred i l k s = (Ok q, s1)" "q \<in> A l" "live (heap s) q"
      "q \<notin> wdels (ws s)" "q = head_of s l \<or> nkey (heap s) q < k" by blast
    have q': "heap s q \<noteq> None" using q(3) by (auto simp: live_def)
    from assms(1) have ok: "heap_ok (heads L s) (heap s) (next_addr s)"
      and wok: "ws_ok (heads L s) (heap s) (ws s)" by (auto simp: safe_def)
    let ?c = "vnext (heap s) (ws s) q"
    have run: "find_node i l k s = bindE (getNext q) (\<lambda>next.
        bindE (getsE next_addr) (\<lambda>n. find_node_loop (Suc n) k q next)) s1"
      using q(1) by (simp add: find_node_def run_simps)
    have fuel: "Suc (card (above (heap s) m)) < Suc (next_addr s)" if "?c = Some m" for m
    proof -
      have "heap s m \<noteq> None" using vnext_ok [OF ok wok q'] that by (auto dest: ptr_okD)
      then show ?thesis using card_above_bound [OF heap_okD(1) [OF ok]] by simp
    qed
    have loop: "find_node_loop (Suc (next_addr s)) k q ?c s1 = (Throw TxAbortException, stop_tx s1) \<or>
      (\<exists>found p d. find_node_loop (Suc (next_addr s)) k q ?c s1 = (Ok (found, p, d), s1) \<and>
         place s1 l k found p d \<and> p \<in> P)"
      by (rule find_node_loop_run [where H = "heads L s"])
        (use ok wok q' q assms(3,4) fuel in \<open>auto simp: sel\<close>)
    have pl: "place s1 l k found p d = place s l k found p d" for found p d
      by (simp add: place_def sel)
    from getNext_run [of "heads L s" s1 q] ok wok q'
    have "getNext q s1 = (Throw TxAbortException, stop_tx s1) \<or> getNext q s1 = (Ok ?c, s1)"
      by (simp add: sel)
    with loop se show ?thesis unfolding run pl
      by (auto simp: run_simps sel simp del: find_node_loop.simps)
  qed
qed

end

end
