(* ===== verification/ListSpec.thy ===== *)
theory ListSpec
  imports TxView
begin

text \<open>
  The abstract specification of the list: every list is a map from keys to values, an operation
  reads one key and may change it. \<open>replay\<close> runs a sequence of operations with the results they
  returned, and checks of each result what a committed transaction guarantees.
\<close>

type_synonym maps = "list_id \<Rightarrow> key_t \<Rightarrow> val_t option"
type_synonym updates = "list_id \<Rightarrow> key_t \<Rightarrow> val_t option option"

datatype list_op =
    Put list_id key_t val_t
  | PutIfAbsent list_id key_t val_t
  | Remove list_id key_t
  | Get list_id key_t
  | ContainsKey list_id key_t

datatype list_result = Value "val_t option" | Truth bool

primrec op_list :: "list_op \<Rightarrow> list_id" where
  "op_list (Put l k v) = l"
| "op_list (PutIfAbsent l k v) = l"
| "op_list (Remove l k) = l"
| "op_list (Get l k) = l"
| "op_list (ContainsKey l k) = l"

definition map_upd :: "list_id \<Rightarrow> key_t \<Rightarrow> val_t option \<Rightarrow> maps \<Rightarrow> maps" where
  "map_upd l k x M = M(l := (M l)(k := x))"

text \<open>What each operation returns and does.\<close>

primrec spec_op :: "list_op \<Rightarrow> maps \<Rightarrow> list_result \<times> maps" where
  "spec_op (Put l k v) M = (Value (M l k), map_upd l k (Some v) M)"
| "spec_op (PutIfAbsent l k v) M =
     (Value (M l k), if M l k = None then map_upd l k (Some v) M else M)"
| "spec_op (Remove l k) M = (Value (M l k), map_upd l k None M)"
| "spec_op (Get l k) M = (Value (M l k), M)"
| "spec_op (ContainsKey l k) M = (Truth (M l k \<noteq> None), M)"

text \<open>The keys an operation with this result has written.\<close>

fun op_writes :: "list_op \<Rightarrow> list_result \<Rightarrow> (list_id \<times> key_t) set" where
  "op_writes (Put l k v) r = {(l, k)}"
| "op_writes (PutIfAbsent l k v) r = (if r = Value None then {(l, k)} else {})"
| "op_writes (Remove l k) r = (if r = Value None then {} else {(l, k)})"
| "op_writes _ r = {}"

text \<open>
  What a commit guarantees of a result, \<open>D\<close> being the keys the transaction has written before.
  The value \<open>put\<close> returns is exact for a key not written before, and is null exactly for an
  absent key. A search that finds its key is exact for the transaction's own writes; otherwise the
  node it finds is not validated.
\<close>

fun guaranteed :: "list_op \<Rightarrow> list_result \<Rightarrow> (list_id \<times> key_t) set \<Rightarrow> maps \<Rightarrow> bool" where
  "guaranteed (Put l k v) (Value r) D M \<longleftrightarrow>
     (r = None \<longleftrightarrow> M l k = None) \<and> ((l, k) \<notin> D \<longrightarrow> r = M l k)"
| "guaranteed (PutIfAbsent l k v) (Value r) D M \<longleftrightarrow>
     (r = None \<longleftrightarrow> M l k = None) \<and> ((l, k) \<notin> D \<longrightarrow> r = M l k)"
| "guaranteed (Remove l k) (Value r) D M \<longleftrightarrow> r = M l k"
| "guaranteed (Get l k) (Value r) D M \<longleftrightarrow> ((l, k) \<in> D \<or> r = None \<longrightarrow> r = M l k)"
| "guaranteed (ContainsKey l k) (Truth b) D M \<longleftrightarrow> ((l, k) \<in> D \<or> \<not> b \<longrightarrow> b = (M l k \<noteq> None))"
| "guaranteed _ _ D M \<longleftrightarrow> False"

fun replay :: "(list_op \<times> list_result) list \<Rightarrow> (list_id \<times> key_t) set \<Rightarrow> maps \<Rightarrow> maps option" where
  "replay [] D M = Some M"
| "replay ((f, r) # tr) D M =
     (if guaranteed f r D M then replay tr (D \<union> op_writes f r) (snd (spec_op f M)) else None)"

definition written :: "(list_op \<times> list_result) list \<Rightarrow> (list_id \<times> key_t) set" where
  "written tr = (\<Union>(f, r) \<in> set tr. op_writes f r)"

lemma written_simps [simp]:
  "written [] = {}" "written ((f, r) # tr) = op_writes f r \<union> written tr"
  "written (tr @ tr') = written tr \<union> written tr'"
  by (auto simp: written_def)

lemma replay_append:
  "replay (tr @ tr') D M = Option.bind (replay tr D M) (replay tr' (D \<union> written tr))"
  by (induction tr D M rule: replay.induct) (simp_all add: Un_assoc)

lemma map_upd_overlay:
  "map_upd l k x (\<lambda>j. overlay (U j) (M j)) = (\<lambda>j. overlay (log_upd l k x U j) (M j))"
  by (auto simp: map_upd_def log_upd_def fun_eq_iff)

section \<open>The updates and reads of a transaction\<close>

text \<open>
  \<open>U\<close> are the updates a transaction has made, \<open>R\<close> the values it has read and that its commit
  validates. Its trace, replayed on any contents with these values, makes these updates.
\<close>

definition meets :: "maps \<Rightarrow> updates \<Rightarrow> bool" where
  "meets M R \<longleftrightarrow> (\<forall>l k x. R l k = Some x \<longrightarrow> M l k = x)"

definition trace_ok :: "(list_op \<times> list_result) list \<Rightarrow> updates \<Rightarrow> updates \<Rightarrow> bool" where
  "trace_ok tr R U \<longleftrightarrow> written tr = {(l, k). U l k \<noteq> None} \<and>
     (\<forall>M. meets M R \<longrightarrow> replay tr {} M = Some (\<lambda>l. overlay (U l) (M l)))"

definition read_upd :: "list_id \<Rightarrow> key_t \<Rightarrow> val_t option \<Rightarrow> updates \<Rightarrow> updates \<Rightarrow> updates" where
  "read_upd l k x U R = (if U l k = None then log_upd l k x R else R)"

lemma trace_ok_Nil: "trace_ok [] R (\<lambda>_. Map.empty)"
  by (simp add: trace_ok_def)

lemma meets_read_upd:
  assumes "meets M (read_upd l k (M0 l k) U R)" and "meets M0 R"
  shows "meets M R" and "overlay (U l) (M l) k = overlay (U l) (M0 l) k"
proof -
  show "meets M R"
    unfolding meets_def
  proof (intro allI impI)
    fix j q x assume R: "R j q = Some x"
    show "M j q = x"
    proof (cases "U l k = None \<and> j = l \<and> q = k")
      case True
      with R assms(2) have "x = M0 l k" by (simp add: meets_def)
      with True assms(1) show ?thesis by (simp add: meets_def read_upd_def log_upd_def)
    next
      case False
      with R assms(1) show ?thesis by (auto simp: meets_def read_upd_def log_upd_def split: if_splits)
    qed
  qed
  show "overlay (U l) (M l) k = overlay (U l) (M0 l) k"
    using assms(1) by (auto simp: meets_def read_upd_def overlay_def split: option.splits if_splits)
qed

lemma trace_ok_snoc:
  assumes "trace_ok tr R U" and "meets M0 R"
    and "\<And>M. overlay (U l) (M l) k = overlay (U l) (M0 l) k \<Longrightarrow>
      guaranteed f r {(l, k). U l k \<noteq> None} (\<lambda>j. overlay (U j) (M j)) \<and>
      snd (spec_op f (\<lambda>j. overlay (U j) (M j))) = (\<lambda>j. overlay (U' j) (M j))"
    and "op_writes f r \<union> {(l, k). U l k \<noteq> None} = {(l, k). U' l k \<noteq> None}"
  shows "trace_ok (tr @ [(f, r)]) (read_upd l k (M0 l k) U R) U'"
proof -
  have "replay (tr @ [(f, r)]) {} M = Some (\<lambda>j. overlay (U' j) (M j))"
    if M: "meets M (read_upd l k (M0 l k) U R)" for M
    using assms(1,3) meets_read_upd [OF M assms(2)]
    by (simp add: trace_ok_def replay_append)
  moreover have "written (tr @ [(f, r)]) = {(l, k). U' l k \<noteq> None}"
    using assms(1,4) by (simp add: trace_ok_def Un_commute)
  ultimately show ?thesis unfolding trace_ok_def by blast
qed

text \<open>One rule per operation; \<open>M0\<close> are the contents when it runs.\<close>

lemma log_upd_dom: "{(l, k). log_upd j q x U l k \<noteq> None} = insert (j, q) {(l, k). U l k \<noteq> None}"
  by (auto simp: log_upd_def split: if_splits)

lemma trace_ok_Put:
  assumes "trace_ok tr R U" and "meets M0 R"
    and "r = None \<longleftrightarrow> overlay (U l) (M0 l) k = None"
    and "U l k = None \<Longrightarrow> r = M0 l k"
  shows "trace_ok (tr @ [(Put l k v, Value r)]) (read_upd l k (M0 l k) U R) (log_upd l k (Some v) U)"
  by (rule trace_ok_snoc [OF assms(1,2)], unfold log_upd_dom)
    (use assms(3,4) in \<open>auto simp: map_upd_overlay overlay_def\<close>)

lemma trace_ok_PutIfAbsent:
  assumes "trace_ok tr R U" and "meets M0 R" and "overlay (U l) (M0 l) k = None"
  shows "trace_ok (tr @ [(PutIfAbsent l k v, Value None)]) (read_upd l k (M0 l k) U R)
    (log_upd l k (Some v) U)"
  by (rule trace_ok_snoc [OF assms(1,2)], unfold log_upd_dom)
    (use assms(3) in \<open>auto simp: map_upd_overlay\<close>)

lemma trace_ok_PutIfAbsent_found:
  assumes "trace_ok tr R U" and "meets M0 R" and "overlay (U l) (M0 l) k \<noteq> None" and "r \<noteq> None"
    and "U l k = None \<Longrightarrow> r = M0 l k"
  shows "trace_ok (tr @ [(PutIfAbsent l k v, Value r)]) (read_upd l k (M0 l k) U R) U"
  by (rule trace_ok_snoc [OF assms(1,2)])
    (use assms(3-5) in \<open>auto simp: overlay_def\<close>)

lemma trace_ok_Remove:
  assumes "trace_ok tr R U" and "meets M0 R" and "r = overlay (U l) (M0 l) k" and "r \<noteq> None"
  shows "trace_ok (tr @ [(Remove l k, Value r)]) (read_upd l k (M0 l k) U R) (log_upd l k None U)"
  by (rule trace_ok_snoc [OF assms(1,2)], unfold log_upd_dom)
    (use assms(3,4) in \<open>auto simp: map_upd_overlay\<close>)

lemma map_upd_same: "M l k = x \<Longrightarrow> map_upd l k x M = M"
  by (auto simp: map_upd_def)

lemma trace_ok_Remove_absent:
  assumes "trace_ok tr R U" and "meets M0 R" and "overlay (U l) (M0 l) k = None"
  shows "trace_ok (tr @ [(Remove l k, Value None)]) (read_upd l k (M0 l k) U R) U"
  by (rule trace_ok_snoc [OF assms(1,2)]) (use assms(3) in \<open>auto intro: map_upd_same\<close>)

lemma trace_ok_Get_absent:
  assumes "trace_ok tr R U" and "meets M0 R" and "overlay (U l) (M0 l) k = None"
  shows "trace_ok (tr @ [(Get l k, Value None)]) (read_upd l k (M0 l k) U R) U"
    and "trace_ok (tr @ [(ContainsKey l k, Truth False)]) (read_upd l k (M0 l k) U R) U"
  by (rule trace_ok_snoc [OF assms(1,2)]; use assms(3) in auto)+

lemma trace_ok_Get_found:
  assumes "trace_ok tr R U" and "r = overlay (U l) (M0 l) k" and "r \<noteq> None"
  shows "trace_ok (tr @ [(Get l k, Value r)]) R U"
    and "trace_ok (tr @ [(ContainsKey l k, Truth True)]) R U"
  using assms by (auto simp: trace_ok_def replay_append overlay_def)

section \<open>Replays and runs of the specification\<close>

primrec spec_run :: "list_op list \<Rightarrow> maps \<Rightarrow> list_result list \<times> maps" where
  "spec_run [] M = ([], M)"
| "spec_run (f # fs) M =
     (let (r, M1) = spec_op f M; (rs, M2) = spec_run fs M1 in (r # rs, M2))"

text \<open>
  \<open>exact\<close>: the results the commit guarantees to the value. It leaves out the searches that find
  a key the transaction has not written, and the puts on a key it has written.
\<close>

fun exact_result :: "list_op \<Rightarrow> list_result \<Rightarrow> (list_id \<times> key_t) set \<Rightarrow> bool" where
  "exact_result (Put l k v) r D \<longleftrightarrow> (l, k) \<notin> D"
| "exact_result (PutIfAbsent l k v) r D \<longleftrightarrow> (l, k) \<notin> D"
| "exact_result (Remove l k) r D \<longleftrightarrow> True"
| "exact_result (Get l k) r D \<longleftrightarrow> (l, k) \<in> D \<or> r = Value None"
| "exact_result (ContainsKey l k) r D \<longleftrightarrow> (l, k) \<in> D \<or> r = Truth False"

fun exact :: "(list_op \<times> list_result) list \<Rightarrow> (list_id \<times> key_t) set \<Rightarrow> bool" where
  "exact [] D \<longleftrightarrow> True"
| "exact ((f, r) # tr) D \<longleftrightarrow> exact_result f r D \<and> exact tr (D \<union> op_writes f r)"

lemma guaranteed_exact:
  "guaranteed f r D M \<Longrightarrow> exact_result f r D \<Longrightarrow> r = fst (spec_op f M)"
  by (cases f; cases r) auto

text \<open>A replay ends with the contents the specification computes.\<close>

lemma replay_final:
  "replay tr D M = Some M' \<Longrightarrow> snd (spec_run (map fst tr) M) = M'"
  by (induction tr D M rule: replay.induct) (auto simp: case_prod_beta Let_def split: if_splits)

text \<open>A replay of exact results is a run of the specification with the same results.\<close>

lemma replay_exact:
  "replay tr D M = Some M' \<Longrightarrow> exact tr D \<Longrightarrow> spec_run (map fst tr) M = (map snd tr, M')"
proof (induction tr D M rule: replay.induct)
  case (2 f r tr D M)
  then have g: "guaranteed f r D M" by (simp split: if_splits)
  with 2 have "spec_run (map fst tr) (snd (spec_op f M)) = (map snd tr, M')" by simp
  moreover have "r = fst (spec_op f M)" using guaranteed_exact [OF g] 2(3) by simp
  ultimately show ?case by (simp add: case_prod_beta Let_def)
qed simp

end
