(* ===== verification/TxThread.thy ===== *)
theory TxThread
  imports TxOps ListSpec
begin

text \<open>
  The invariant of a running transaction. Either some node of its read set is newer than its read
  version, and then it cannot commit; or its view is what its operations have made of the lists,
  and everything its commit validates still holds.
\<close>

section \<open>Local storage\<close>

definition adds :: "local_storage \<Rightarrow> list_id \<Rightarrow> addr list" where
  "adds st l = (case map_of (indexAdd st) l of None \<Rightarrow> [] | Some ns \<Rightarrow> ns)"

definition rems :: "local_storage \<Rightarrow> list_id \<Rightarrow> addr list" where
  "rems st l = (case map_of (indexRemove st) l of None \<Rightarrow> [] | Some ns \<Rightarrow> ns)"

definition new_nodes :: "local_storage \<Rightarrow> addr set" where
  "new_nodes st = (\<Union>l. set (adds st l))"

lemma putIntoWriteSet_sel [simp]:
  "writeSet (putIntoWriteSet a nx v d st) =
     alist_put a \<lparr>we_next = nx, we_val = v, we_deleted = d\<rparr> (writeSet st)"
  "readSet (putIntoWriteSet a nx v d st) = readSet st"
  "indexAdd (putIntoWriteSet a nx v d st) = indexAdd st"
  "indexRemove (putIntoWriteSet a nx v d st) = indexRemove st"
  by (simp_all add: putIntoWriteSet_def Let_def)

lemma emplaceReadSet_sel [simp]:
  "writeSet (emplaceReadSet a st) = writeSet st"
  "set (readSet (emplaceReadSet a st)) = insert a (set (readSet st))"
  "indexAdd (emplaceReadSet a st) = indexAdd st"
  "indexRemove (emplaceReadSet a st) = indexRemove st"
  by (simp_all add: emplaceReadSet_def)

lemma addToIndexAdd_sel [simp]:
  "writeSet (addToIndexAdd l a st) = writeSet st"
  "readSet (addToIndexAdd l a st) = readSet st"
  "indexAdd (addToIndexAdd l a st) = alist_put l (adds st l @ [a]) (indexAdd st)"
  "indexRemove (addToIndexAdd l a st) = indexRemove st"
  by (simp_all add: addToIndexAdd_def Let_def adds_def)

lemma addToIndexRemove_sel [simp]:
  "writeSet (addToIndexRemove l a st) = writeSet st"
  "readSet (addToIndexRemove l a st) = readSet st"
  "indexAdd (addToIndexRemove l a st) = indexAdd st"
  "indexRemove (addToIndexRemove l a st) = alist_put l (rems st l @ [a]) (indexRemove st)"
  by (simp_all add: addToIndexRemove_def Let_def rems_def)

lemma adds_sel [simp]:
  "adds (putIntoWriteSet a nx v d st) = adds st"
  "adds (emplaceReadSet a st) = adds st"
  "adds (addToIndexRemove l a st) = adds st"
  "adds (addToIndexAdd l a st) = (adds st)(l := adds st l @ [a])"
  by (auto simp: adds_def fun_eq_iff split: option.splits)

lemma rems_sel [simp]:
  "rems (putIntoWriteSet a nx v d st) = rems st"
  "rems (emplaceReadSet a st) = rems st"
  "rems (addToIndexAdd l a st) = rems st"
  "rems (addToIndexRemove l a st) = (rems st)(l := rems st l @ [a])"
  by (auto simp: rems_def fun_eq_iff split: option.splits)

lemma new_nodes_sel [simp]:
  "new_nodes (putIntoWriteSet a nx v d st) = new_nodes st"
  "new_nodes (emplaceReadSet a st) = new_nodes st"
  "new_nodes (addToIndexRemove l a st) = new_nodes st"
  "new_nodes (addToIndexAdd l a st) = insert a (new_nodes st)"
  by (auto simp: new_nodes_def split: if_splits)

section \<open>The value at a place\<close>

lemma chain_gap:
  assumes "sorted_chain h V" and "V = xs @ p # ys" and "b \<in> set (tl V)"
    and "xs = [] \<or> nkey h p < k" and "\<And>m zs. ys = m # zs \<Longrightarrow> k \<le> nkey h m" and "nkey h b = k"
  shows "\<exists>zs. ys = b # zs"
proof -
  have "b \<in> set ys"
  proof (rule ccontr)
    assume "b \<notin> set ys"
    with assms(2,3) obtain x xs' where xs: "xs = x # xs'" and "b \<in> set (xs' @ [p])"
      by (cases xs) auto
    moreover have "sorted_wrt (\<lambda>a b. nkey h a < nkey h b) (xs' @ [p])"
      using assms(1,2) xs by (simp add: sorted_chain_def sorted_wrt_append)
    ultimately have "nkey h b \<le> nkey h p" by (auto simp: sorted_wrt_append)
    with assms(4,6) xs show False by auto
  qed
  moreover have "sorted_wrt (\<lambda>a b. nkey h a < nkey h b) ys"
    using assms(1,2) by (cases xs) (auto simp: sorted_chain_def sorted_wrt_append)
  ultimately show ?thesis using assms(5,6) by (cases ys) fastforce+
qed

lemma contents_place:
  assumes "path (vnext h W) (Some hda) V None" and "sorted_chain h V" and "p \<in> set V"
    and "p = hda \<or> nkey h p < k" and "\<And>m. vnext h W p = Some m \<Longrightarrow> k \<le> nkey h m"
  shows "contents h W V k =
    (case vnext h W p of None \<Rightarrow> None | Some m \<Rightarrow> if nkey h m = k then vval h W m else None)"
proof -
  from assms(3) obtain xs ys where V: "V = xs @ p # ys" by (auto simp: in_set_conv_decomp)
  have nx: "vnext h W p = (case ys of [] \<Rightarrow> None | y # _ \<Rightarrow> Some y)"
    by (rule path_split_next) (use assms(1) V in auto)
  have "distinct V" using assms(1) by (rule path_distinct)
  with assms(1,4) V have before: "xs = [] \<or> nkey h p < k" by (cases xs) auto
  have after: "k \<le> nkey h m" if "ys = m # zs" for m zs using that nx assms(5) by simp
  have gap: "\<exists>zs. ys = b # zs" if "b \<in> set (tl V)" "nkey h b = k" for b
    using chain_gap [OF assms(2) V that(1) before _ that(2)] after by blast
  have "contents h W V k = Some v \<longleftrightarrow>
      (case vnext h W p of None \<Rightarrow> None | Some m \<Rightarrow> if nkey h m = k then vval h W m else None) = Some v" for v
  proof (cases ys)
    case Nil
    with nx gap show ?thesis by (auto simp: contents_Some_iff [OF assms(2)])
  next
    case (Cons m zs)
    then have "m \<in> set (tl V)" using V by (cases xs) auto
    moreover have "a = m" if "a \<in> set (tl V)" "nkey h a = k" for a using gap [OF that] Cons by simp
    ultimately have "(\<exists>a\<in>set (tl V). nkey h a = k \<and> vval h W a = Some v) \<longleftrightarrow>
        nkey h m = k \<and> vval h W m = Some v" by blast
    with Cons nx show ?thesis unfolding contents_Some_iff [OF assms(2)] by simp
  qed
  then show ?thesis by (rule option_eqI)
qed

section \<open>Validated reads\<close>

definition reads_ok ::
  "list_id set \<Rightarrow> (list_id \<Rightarrow> addr) \<Rightarrow> (addr \<Rightarrow> lnode option) \<Rightarrow> footprint \<Rightarrow> addr set \<Rightarrow> updates \<Rightarrow> bool" where
  "reads_ok L hds h F N R \<longleftrightarrow>
     (\<forall>h' C. later h h' \<longrightarrow> lists_ok L hds h' C \<longrightarrow> agree L h' C F N \<longrightarrow>
        (\<forall>l\<in>L. \<forall>k x. R l k = Some x \<longrightarrow> contents h' Map.empty (C l) k = x)) \<and>
     (\<forall>l k. R l k \<noteq> None \<longrightarrow> l \<in> L)"

text \<open>The contents of the lists, as maps.\<close>

definition maps_of ::
  "list_id set \<Rightarrow> (addr \<Rightarrow> lnode option) \<Rightarrow> (list_id \<Rightarrow> addr list) \<Rightarrow> maps" where
  "maps_of L h C l = (if l \<in> L then contents h Map.empty (C l) else Map.empty)"

lemma reads_ok_meets:
  assumes "reads_ok L hds h F N R" and "lists_ok L hds h C" and "agree L h C F N"
  shows "meets (maps_of L h C) R"
proof -
  have "maps_of L h C l k = x" if "R l k = Some x" for l k x
  proof -
    have "l \<in> L" using assms(1) that unfolding reads_ok_def by blast
    with assms(1) [unfolded reads_ok_def, THEN conjunct1, rule_format, OF later_refl assms(2,3)] that
    show ?thesis by (simp add: maps_of_def)
  qed
  then show ?thesis by (simp add: meets_def)
qed

lemma reads_ok_later: "reads_ok L hds h F N R \<Longrightarrow> later h h' \<Longrightarrow> reads_ok L hds h' F N R"
  unfolding reads_ok_def by (meson later_trans)

lemma reads_ok_mono:
  assumes "reads_ok L hds h F N R" and "F \<subseteq>\<^sub>m F'" and "N' \<inter> dom F = N" and "N \<subseteq> dom F"
  shows "reads_ok L hds h F' N' R"
proof -
  have "agree L h' C F N" if "agree L h' C F' N'" for h' C
    using that assms(2-4) by (rule agree_mono)
  with assms(1) show ?thesis unfolding reads_ok_def by blast
qed

lemma reads_ok_upd:
  assumes "reads_ok L hds h F N R" and "l \<in> L"
    and "\<And>h' C. later h h' \<Longrightarrow> lists_ok L hds h' C \<Longrightarrow> agree L h' C F N \<Longrightarrow>
      contents h' Map.empty (C l) k = x"
  shows "reads_ok L hds h F N (log_upd l k x R)"
  using assms unfolding reads_ok_def log_upd_def
  by (auto split: if_splits)

text \<open>
  The value of a key is fixed by the nodes read: by the node that holds it, or, for a key that is
  absent, by the node before its place.
\<close>

lemma reads_ok_value:
  assumes T: "tx_view L hds h W F N U"
    and R: "reads_ok L hds h F N R" and l: "l \<in> L" and V: "view_ok hds h W F N U C l V"
    and ext: "F \<subseteq>\<^sub>m F1" "N1 \<inter> dom F = N"
    and val: "\<And>h' C' V'. later h h' \<Longrightarrow> view_ok hds h' W F N U C' l V' \<Longrightarrow>
        (\<And>a. a \<in> set V \<Longrightarrow> known h F1 l a \<Longrightarrow> (a \<in> N1 \<Longrightarrow> a \<in> N) \<Longrightarrow>
          a \<in> set V' \<and> nkey h' a = nkey h a \<and> vnext h' W a = vnext h W a \<and> vval h' W a = vval h W a) \<Longrightarrow>
        contents h' W V' k = contents h W V k"
  shows "reads_ok L hds h F1 N1 (read_upd l k (maps_of L h C l k) U R)"
proof -
  have R1: "reads_ok L hds h F1 N1 R" by (rule reads_ok_mono [OF R ext tx_viewD(2) [OF T]])
  show ?thesis
  proof (cases "U l k")
    case None
    have "contents h' Map.empty (C' l) k = maps_of L h C l k"
      if h': "later h h'" "lists_ok L hds h' C'" and ag: "agree L h' C' F1 N1" for h' C'
    proof -
      obtain V' where V': "view_ok hds h' W F N U C' l V'"
        and st: "\<And>a. a \<in> set V \<Longrightarrow> known h F1 l a \<Longrightarrow> (a \<in> N1 \<Longrightarrow> a \<in> N) \<Longrightarrow>
          a \<in> set V' \<and> nkey h' a = nkey h a \<and> vnext h' W a = vnext h W a \<and> vval h' W a = vval h W a"
        using tx_view_same [OF T h' ag ext l V] by metis
      have "contents h' W V' k = contents h W V k" using h'(1) V' st by (rule val)
      with V V' None l show ?thesis by (simp add: view_ok_def overlay_def maps_of_def)
    qed
    then have "reads_ok L hds h F1 N1 (log_upd l k (maps_of L h C l k) R)"
      by (intro reads_ok_upd [OF R1 l])
    with None show ?thesis by (simp add: read_upd_def)
  next
    case (Some x)
    with R1 show ?thesis by (simp add: read_upd_def)
  qed
qed

lemma reads_ok_absent:
  assumes T: "tx_view L hds h W F N U"
    and R: "reads_ok L hds h F N R" and l: "l \<in> L" and V: "view_ok hds h W F N U C l V"
    and ext: "F \<subseteq>\<^sub>m F1" "N1 \<inter> dom F = N"
    and p: "p \<in> set V" "p = hds l \<or> nkey h p < k" "known h F1 l p" "p \<in> N1 \<Longrightarrow> p \<in> N"
    and c: "\<And>m. vnext h W p = Some m \<Longrightarrow> h m \<noteq> None \<and> k < nkey h m"
  shows "reads_ok L hds h F1 N1 (read_upd l k (maps_of L h C l k) U R)"
proof (rule reads_ok_value [OF T R l V ext])
  fix h' C' V'
  assume h': "later h h'" and V': "view_ok hds h' W F N U C' l V'"
    and st: "\<And>a. a \<in> set V \<Longrightarrow> known h F1 l a \<Longrightarrow> (a \<in> N1 \<Longrightarrow> a \<in> N) \<Longrightarrow>
      a \<in> set V' \<and> nkey h' a = nkey h a \<and> vnext h' W a = vnext h W a \<and> vval h' W a = vval h W a"
  have p': "p \<in> set V'" "nkey h' p = nkey h p" "vnext h' W p = vnext h W p"
    using st [OF p(1,3,4)] by auto
  have mk: "nkey h' m = nkey h m" if "vnext h W p = Some m" for m
    using later_nkey [OF h'] c [OF that] by blast
  have "contents h' W V' k =
    (case vnext h' W p of None \<Rightarrow> None | Some m \<Rightarrow> if nkey h' m = k then vval h' W m else None)"
    by (rule contents_place [where hda = "hds l"])
      (use V' p' p(2) c mk in \<open>auto simp: view_ok_def intro: less_imp_le\<close>)
  moreover have "contents h W V k =
    (case vnext h W p of None \<Rightarrow> None | Some m \<Rightarrow> if nkey h m = k then vval h W m else None)"
    by (rule contents_place [where hda = "hds l"])
      (use V p(1,2) c in \<open>auto simp: view_ok_def intro: less_imp_le\<close>)
  ultimately show "contents h' W V' k = contents h W V k"
    using p'(3) mk c by (auto split: option.splits)
qed

lemma view_value:
  assumes "view_ok hds h W F N U C l V" and "m \<in> set V" and "m \<noteq> hds l"
  shows "contents h W V (nkey h m) = vval h W m"
proof -
  obtain ys where "V = hds l # ys" using assms(1) path_head by (fastforce simp: view_ok_def)
  with assms(2,3) have "m \<in> set (tl V)" by simp
  with assms show ?thesis by (intro contents_node) (auto simp: view_ok_def)
qed

lemma reads_ok_found:
  assumes T: "tx_view L hds h W F N U"
    and R: "reads_ok L hds h F N R" and l: "l \<in> L" and V: "view_ok hds h W F N U C l V"
    and ext: "F \<subseteq>\<^sub>m F1" "N1 \<inter> dom F = N"
    and m: "m \<in> set V" "m \<noteq> hds l" "nkey h m = k" "known h F1 l m" "m \<in> N1 \<Longrightarrow> m \<in> N"
  shows "reads_ok L hds h F1 N1 (read_upd l k (maps_of L h C l k) U R)"
proof (rule reads_ok_value [OF T R l V ext])
  fix h' C' V'
  assume V': "view_ok hds h' W F N U C' l V'"
    and st: "\<And>a. a \<in> set V \<Longrightarrow> known h F1 l a \<Longrightarrow> (a \<in> N1 \<Longrightarrow> a \<in> N) \<Longrightarrow>
      a \<in> set V' \<and> nkey h' a = nkey h a \<and> vnext h' W a = vnext h W a \<and> vval h' W a = vval h W a"
  from st [OF m(1,4,5)] m(3) view_value [OF V' _ m(2)] view_value [OF V m(1,2)]
  show "contents h' W V' k = contents h W V k" by auto
qed

section \<open>The invariant of a transaction\<close>

definition doomed :: "(addr \<Rightarrow> lnode option) \<Rightarrow> local_transaction \<Rightarrow> local_storage \<Rightarrow> bool" where
  "doomed h t st \<longleftrightarrow>
     (\<exists>a\<in>set (readSet st). \<exists>n. h a = Some n \<and> readVersion t < getVersion (m_version_mask n))"

definition storage_ok ::
  "list_id set \<Rightarrow> (list_id \<Rightarrow> addr set) \<Rightarrow> (addr \<Rightarrow> lnode option) \<Rightarrow> local_storage \<Rightarrow> footprint \<Rightarrow> bool" where
  "storage_ok L A h st F \<longleftrightarrow>
     dom F = set (readSet st) \<union> new_nodes st \<and>
     (\<forall>l. set (adds st l) = own F (new_nodes st) l \<and> distinct (adds st l)) \<and>
     (\<forall>l. set (rems st l) \<subseteq> wdels (map_of (writeSet st)) \<inter> (A l \<union> own F (new_nodes st) l)) \<and>
     (\<forall>a\<in>new_nodes st. \<exists>n. h a = Some n \<and> m_version_mask n = 0 \<and> m_val n \<noteq> None)"

text \<open>Every key whose node the transaction has deleted is among its updates.\<close>

definition dels_ok ::
  "(addr \<Rightarrow> lnode option) \<Rightarrow> (addr \<Rightarrow> write_element option) \<Rightarrow> footprint \<Rightarrow> updates \<Rightarrow> bool" where
  "dels_ok h W F U \<longleftrightarrow>
     (\<forall>a l n. a \<in> wdels W \<longrightarrow> F a = Some (l, n) \<longrightarrow> U l (nkey h a) \<noteq> None)"

definition valid ::
  "list_id set \<Rightarrow> (list_id \<Rightarrow> addr set) \<Rightarrow> (list_id \<Rightarrow> addr) \<Rightarrow> (addr \<Rightarrow> lnode option) \<Rightarrow>
   (list_id \<Rightarrow> addr list) \<Rightarrow> local_transaction \<Rightarrow> local_storage \<Rightarrow>
   (list_op \<times> list_result) list \<Rightarrow> footprint \<Rightarrow> updates \<Rightarrow> updates \<Rightarrow> bool" where
  "valid L A hds h C t st tr F U R \<longleftrightarrow>
     tx_view L hds h (map_of (writeSet st)) F (new_nodes st) U \<and>
     agree L h C F (new_nodes st) \<and> storage_ok L A h st F \<and>
     dels_ok h (map_of (writeSet st)) F U \<and>
     reads_ok L hds h F (new_nodes st) R \<and> trace_ok tr R U \<and>
     (readOnly t \<longrightarrow> writeSet st = [] \<and> U = (\<lambda>_. Map.empty))"

text \<open>What holds of every transaction, whether it can still commit or not.\<close>

definition tables_ok :: "list_id set \<Rightarrow> local_storage \<Rightarrow> bool" where
  "tables_ok L st \<longleftrightarrow> distinct (map fst (writeSet st)) \<and>
     distinct (map fst (indexAdd st)) \<and> fst ` set (indexAdd st) \<subseteq> L \<and>
     distinct (map fst (indexRemove st)) \<and> fst ` set (indexRemove st) \<subseteq> L"

definition thread_ok ::
  "list_id set \<Rightarrow> (list_id \<Rightarrow> addr set) \<Rightarrow> (list_id \<Rightarrow> addr) \<Rightarrow> (addr \<Rightarrow> lnode option) \<Rightarrow>
   (list_id \<Rightarrow> addr list) \<Rightarrow> local_transaction \<Rightarrow> local_storage \<Rightarrow>
   (list_op \<times> list_result) list \<Rightarrow> bool" where
  "thread_ok L A hds h C t st tr \<longleftrightarrow>
     ws_ok (hds ` L) h (map_of (writeSet st)) \<and> tables_ok L st \<and>
     set (readSet st) \<subseteq> dom h \<and> new_nodes st \<subseteq> dom h \<and>
     (doomed h t st \<or> (\<exists>F U R. valid L A hds h C t st tr F U R))"

lemma tables_ok_sel [simp]:
  "tables_ok L st \<Longrightarrow> tables_ok L (putIntoWriteSet a nx v d st)"
  "tables_ok L st \<Longrightarrow> tables_ok L (emplaceReadSet a st)"
  "tables_ok L st \<Longrightarrow> l \<in> L \<Longrightarrow> tables_ok L (addToIndexAdd l a st)"
  "tables_ok L st \<Longrightarrow> l \<in> L \<Longrightarrow> tables_ok L (addToIndexRemove l a st)"
  by (simp_all add: tables_ok_def)

lemma doomed_mono:
  assumes "doomed h t st" and "set (readSet st) \<subseteq> set (readSet st')"
    and "readVersion t' = readVersion t" and "\<And>a. a \<in> set (readSet st) \<Longrightarrow> h' a = h a"
  shows "doomed h' t' st'"
  using assms by (fastforce simp: doomed_def)

end
