(* ===== verification/TxSteps.thy ===== *)
theory TxSteps
  imports TxThread
begin

text \<open>
  The operations keep the invariant of their transaction: a lemma per effect (read, update,
  insertion, deletion) on the view, and the commands of the list reduced to these effects.
\<close>

section \<open>A fresh node\<close>

lemma nkey_fresh: "h n = None \<Longrightarrow> a \<noteq> n \<Longrightarrow> nkey (h(n \<mapsto> nd)) a = nkey h a"
  by (simp add: nkey_def)

lemma contents_fresh:
  assumes "n \<notin> set V"
  shows "contents (h(n \<mapsto> nd)) W V = contents h W V"
proof -
  have "nkey (h(n \<mapsto> nd)) a = nkey h a \<and> vval (h(n \<mapsto> nd)) W a = vval h W a" if "a \<in> set (tl V)" for a
    using assms in_set_tl [OF that] by (auto simp: nkey_def vval_def split: option.splits)
  then have "map (\<lambda>a. (nkey (h(n \<mapsto> nd)) a, vval (h(n \<mapsto> nd)) W a)) (tl V) =
      map (\<lambda>a. (nkey h a, vval h W a)) (tl V)" by simp
  then show ?thesis by (simp only: contents_def fun_eq_iff simp_thms)
qed

lemma lists_ok_alloc: "lists_ok L hds h C \<Longrightarrow> l \<in> L \<Longrightarrow> a \<in> set (C l) \<Longrightarrow> h a \<noteq> None"
  by (fastforce simp: lists_ok_def)

lemma lists_ok_fresh:
  assumes "lists_ok L hds h C" and "h n = None"
  shows "lists_ok L hds (h(n \<mapsto> nd)) C"
proof -
  have n: "n \<notin> set (C l)" if "l \<in> L" for l
    using lists_ok_alloc [OF assms(1) that] assms(2) by blast
  have "path (vnext (h(n \<mapsto> nd)) Map.empty) p (C l) None = path (vnext h Map.empty) p (C l) None"
    if "l \<in> L" for l p
    by (rule path_cong) (use n [OF that] in \<open>auto simp: vnext_def\<close>)
  moreover have "sorted_chain (h(n \<mapsto> nd)) (C l) = sorted_chain h (C l)" if "l \<in> L" for l
    by (rule sorted_chain_cong) (use n [OF that] in \<open>auto simp: nkey_def\<close>)
  moreover have "(h(n \<mapsto> nd)) a = h a" if "l \<in> L" "a \<in> set (C l)" for l a
    using n [OF that(1)] that(2) by auto
  ultimately show ?thesis using assms(1) unfolding lists_ok_def by simp
qed

lemma maps_of_fresh:
  assumes "lists_ok L hds h C" and "h n = None"
  shows "maps_of L (h(n \<mapsto> nd)) C = maps_of L h C"
proof -
  have "n \<notin> set (C l)" if "l \<in> L" for l
    using lists_ok_alloc [OF assms(1) that] assms(2) by blast
  then show ?thesis by (auto simp: maps_of_def fun_eq_iff contents_fresh)
qed

lemma agree_fresh:
  assumes "agree L h C F N" and "dom F \<subseteq> dom h" and "h n = None"
  shows "agree L (h(n \<mapsto> nd)) C F N"
proof -
  have "a \<noteq> n" if "F a = Some x" for a x using that assms(2,3) by blast
  then show ?thesis using assms(1) unfolding agree_def by (auto split: if_splits)
qed

section \<open>The current view of a valid transaction\<close>

lemma validD:
  assumes "valid L A hds h C t st tr F U R"
  shows "tx_view L hds h (map_of (writeSet st)) F (new_nodes st) U"
    and "agree L h C F (new_nodes st)" and "storage_ok L A h st F"
    and "dels_ok h (map_of (writeSet st)) F U" and "reads_ok L hds h F (new_nodes st) R" and "trace_ok tr R U"
    and "readOnly t \<Longrightarrow> writeSet st = []" and "readOnly t \<Longrightarrow> U = (\<lambda>_. Map.empty)"
  using assms by (auto simp: valid_def)

lemma valid_view:
  assumes "valid L A hds h C t st tr F U R" and "lists_ok L hds h C" and "l \<in> L"
  obtains V where "view_ok hds h (map_of (writeSet st)) F (new_nodes st) U C l V"
  using validD(1,2) [OF assms(1)] assms(2,3) unfolding tx_view_def
  by (meson later_refl)

lemma valid_meets:
  assumes "valid L A hds h C t st tr F U R" and "lists_ok L hds h C"
  shows "meets (maps_of L h C) R"
  using reads_ok_meets [OF validD(5) [OF assms(1)] assms(2) validD(2) [OF assms(1)]] .

text \<open>The value of a key in the view is the committed one with the updates on top.\<close>

lemma view_maps:
  assumes "view_ok hds h W F N U C l V" and "l \<in> L"
  shows "contents h W V k = overlay (U l) (maps_of L h C l) k"
  using assms by (simp add: view_ok_def maps_of_def)

lemma storage_ok_read:
  assumes "storage_ok L A h st F" and "N = new_nodes st" and "N \<subseteq> dom F"
  shows "storage_ok L A h (emplaceReadSet a st) (fp_add a l n F)"
  using assms own_fp_add [of "new_nodes st" F a l n] by (auto simp: storage_ok_def)

text \<open>The deletions stay logged when the footprint, the heap or the updates grow.\<close>

lemma dels_ok_mono:
  assumes "dels_ok h W F U" and "F \<subseteq>\<^sub>m F'" and "later h h'" and "dom F \<subseteq> dom h" and "wdels W' \<subseteq> wdels W"
    and "wdels W \<subseteq> dom F" and "\<And>l k. U l k \<noteq> None \<Longrightarrow> U' l k \<noteq> None"
  shows "dels_ok h' W' F' U'"
  unfolding dels_ok_def
proof (intro allI impI)
  fix a l n assume a: "a \<in> wdels W'" and F': "F' a = Some (l, n)"
  with assms(5,6) obtain x where x: "F a = Some x" by blast
  with assms(2) F' have "F a = Some (l, n)" by (auto dest: map_le_ran)
  with assms(1,5) a have "U l (nkey h a) \<noteq> None" by (auto simp: dels_ok_def)
  moreover have "nkey h' a = nkey h a"
    by (rule later_nkey [OF assms(3)]) (use x assms(4) in auto)
  ultimately show "U' l (nkey h' a) \<noteq> None" using assms(7) by simp
qed

lemma wdels_dom: "wdels W \<subseteq> dom W"
  by (auto simp: wdels_def)

lemma log_upd_mono: "U l k \<noteq> None \<Longrightarrow> log_upd j q x U l k \<noteq> None"
  by (auto simp: log_upd_def)

text \<open>A search for an absent key: the node before its place is read.\<close>

lemma valid_read_absent:
  assumes v: "valid L A hds h C t st tr F U R" and ok: "lists_ok L hds h C" and l: "l \<in> L"
    and V: "view_ok hds h (map_of (writeSet st)) F (new_nodes st) U C l V"
    and p: "p \<in> set V" "p = hds l \<or> nkey h p < k" "h p = Some pd"
    and c: "\<And>m. vnext h (map_of (writeSet st)) p = Some m \<Longrightarrow> h m \<noteq> None \<and> k < nkey h m"
    and ro: "readOnly t' \<longrightarrow> readOnly t"
    and tr: "trace_ok tr' (read_upd l k (maps_of L h C l k) U R) U"
  shows "valid L A hds h C t' (emplaceReadSet p st) tr' (fp_add p l pd F) U
    (read_upd l k (maps_of L h C l k) U R)"
proof -
  note d = validD [OF v] and vn = view_node_list [OF V validD(1) [OF v] validD(2) [OF v] ok l p(1)]
  note D = tx_viewD [OF d(1)]
  have kn: "known h (fp_add p l pd F) l p" by (rule known_fp_add [OF d(2) p(3) vn(1)])
  have "tx_view L hds h (map_of (writeSet st)) (fp_add p l pd F) (new_nodes st) U"
    by (rule tx_view_read [OF d(1) l p(3)])
  moreover have "agree L h C (fp_add p l pd F) (new_nodes st)"
    by (rule agree_fp_add [OF d(2) D(2) p(3) vn(2)])
  moreover have "storage_ok L A h (emplaceReadSet p st) (fp_add p l pd F)"
    by (rule storage_ok_read [OF d(3) refl D(2)])
  moreover have "reads_ok L hds h (fp_add p l pd F) (new_nodes st) (read_upd l k (maps_of L h C l k) U R)"
    by (rule reads_ok_absent [OF d(1,5) l V fp_add_le _ p(1,2) kn _ c]) (use D in auto)
  moreover have dels: "dels_ok h (map_of (writeSet st)) (fp_add p l pd F) U"
    by (rule dels_ok_mono [OF d(4) fp_add_le later_refl D(3)]) (use subset_trans [OF wdels_dom D(1)] in auto)
  ultimately show ?thesis using ro tr d(7,8) dels by (simp add: valid_def)
qed

text \<open>A search that finds its key reads a node without validating a value.\<close>

lemma valid_read_node:
  assumes v: "valid L A hds h C t st tr F U R" and ok: "lists_ok L hds h C" and l: "l \<in> L"
    and V: "view_ok hds h (map_of (writeSet st)) F (new_nodes st) U C l V"
    and p: "p \<in> set V" "h p = Some pd"
    and ro: "readOnly t' \<longrightarrow> readOnly t" and tr: "trace_ok tr' R U"
  shows "valid L A hds h C t' (emplaceReadSet p st) tr' (fp_add p l pd F) U R"
proof -
  note d = validD [OF v] and vn = view_node_list [OF V validD(1) [OF v] validD(2) [OF v] ok l p(1)]
  note D = tx_viewD [OF d(1)]
  have "tx_view L hds h (map_of (writeSet st)) (fp_add p l pd F) (new_nodes st) U"
    by (rule tx_view_read [OF d(1) l p(2)])
  moreover have "agree L h C (fp_add p l pd F) (new_nodes st)"
    by (rule agree_fp_add [OF d(2) D(2) p(2) vn(2)])
  moreover have "storage_ok L A h (emplaceReadSet p st) (fp_add p l pd F)"
    by (rule storage_ok_read [OF d(3) refl D(2)])
  moreover have "reads_ok L hds h (fp_add p l pd F) (new_nodes st) R"
    by (rule reads_ok_mono [OF d(5) fp_add_le]) (use D in auto)
  moreover have dels: "dels_ok h (map_of (writeSet st)) (fp_add p l pd F) U"
    by (rule dels_ok_mono [OF d(4) fp_add_le later_refl D(3)]) (use subset_trans [OF wdels_dom D(1)] in auto)
  ultimately show ?thesis using ro tr d(7,8) dels by (simp add: valid_def)
qed

text \<open>\<open>putIfAbsent\<close> on a present key reads the node that holds it.\<close>

lemma valid_read_found:
  assumes v: "valid L A hds h C t st tr F U R" and ok: "lists_ok L hds h C" and l: "l \<in> L"
    and V: "view_ok hds h (map_of (writeSet st)) F (new_nodes st) U C l V"
    and m: "m \<in> set V" "m \<noteq> hds l" "nkey h m = k" "h m = Some md"
    and ro: "readOnly t' \<longrightarrow> readOnly t"
    and tr: "trace_ok tr' (read_upd l k (maps_of L h C l k) U R) U"
  shows "valid L A hds h C t' (emplaceReadSet m st) tr' (fp_add m l md F) U
    (read_upd l k (maps_of L h C l k) U R)"
proof -
  note d = validD [OF v] and vn = view_node_list [OF V validD(1) [OF v] validD(2) [OF v] ok l m(1)]
  note D = tx_viewD [OF d(1)]
  have kn: "known h (fp_add m l md F) l m" by (rule known_fp_add [OF d(2) m(4) vn(1)])
  have "tx_view L hds h (map_of (writeSet st)) (fp_add m l md F) (new_nodes st) U"
    by (rule tx_view_read [OF d(1) l m(4)])
  moreover have "agree L h C (fp_add m l md F) (new_nodes st)"
    by (rule agree_fp_add [OF d(2) D(2) m(4) vn(2)])
  moreover have "storage_ok L A h (emplaceReadSet m st) (fp_add m l md F)"
    by (rule storage_ok_read [OF d(3) refl D(2)])
  moreover have "reads_ok L hds h (fp_add m l md F) (new_nodes st) (read_upd l k (maps_of L h C l k) U R)"
    by (rule reads_ok_found [OF d(1,5) l V fp_add_le _ m(1-3) kn]) (use D in auto)
  moreover have dels: "dels_ok h (map_of (writeSet st)) (fp_add m l md F) U"
    by (rule dels_ok_mono [OF d(4) fp_add_le later_refl D(3)]) (use subset_trans [OF wdels_dom D(1)] in auto)
  ultimately show ?thesis using ro tr d(7,8) dels by (simp add: valid_def)
qed

text \<open>\<open>put\<close> on a present key.\<close>

lemma valid_update:
  assumes v: "valid L A hds h C t st tr F U R" and ok: "lists_ok L hds h C" and l: "l \<in> L"
    and V: "view_ok hds h (map_of (writeSet st)) F (new_nodes st) U C l V"
    and m: "m \<in> set V" "m \<noteq> hds l" "nkey h m = k" "h m = Some md"
    and ro: "\<not> readOnly t'"
    and tr: "trace_ok tr' (read_upd l k (maps_of L h C l k) U R) (log_upd l k (Some x) U)"
  shows "valid L A hds h C t'
    (emplaceReadSet m (putIntoWriteSet m (vnext h (map_of (writeSet st)) m) (Some x) False st)) tr'
    (fp_add m l md F) (log_upd l k (Some x) U) (read_upd l k (maps_of L h C l k) U R)"
proof -
  let ?W = "map_of (writeSet st)"
  note d = validD [OF v] and vn = view_node_list [OF V validD(1) [OF v] validD(2) [OF v] ok l m(1)]
  note D = tx_viewD [OF d(1)]
  have kn: "known h (fp_add m l md F) l m" by (rule known_fp_add [OF d(2) m(4) vn(1)])
  have mdel: "m \<notin> wdels ?W" using V m(1) by (auto simp: view_ok_def)
  let ?we = "\<lparr>we_next = vnext h ?W m, we_val = Some x, we_deleted = False\<rparr>"
  have "tx_view L hds h (?W(m \<mapsto> ?we)) (fp_add m l md F) (new_nodes st) (log_upd l k (Some x) U)"
    by (rule tx_view_update [OF d(1) ok d(2) l V m]) simp_all
  moreover have "agree L h C (fp_add m l md F) (new_nodes st)"
    by (rule agree_fp_add [OF d(2) D(2) m(4) vn(2)])
  moreover have "storage_ok L A h
      (emplaceReadSet m (putIntoWriteSet m (vnext h ?W m) (Some x) False st)) (fp_add m l md F)"
    using storage_ok_read [OF d(3) refl D(2), of m l md] mdel
    by (auto simp: storage_ok_def wdels_upd)
  moreover have "reads_ok L hds h (fp_add m l md F) (new_nodes st) (read_upd l k (maps_of L h C l k) U R)"
    by (rule reads_ok_found [OF d(1,5) l V fp_add_le _ m(1-3) kn]) (use D in auto)
  moreover have "dels_ok h (?W(m \<mapsto> ?we)) (fp_add m l md F) (log_upd l k (Some x) U)"
    by (rule dels_ok_mono [OF d(4) fp_add_le later_refl D(3)])
      (use subset_trans [OF wdels_dom D(1)] log_upd_mono in \<open>auto simp: wdels_upd\<close>)
  ultimately show ?thesis using ro tr by (simp add: valid_def)
qed

text \<open>The insertion of an absent key.\<close>

lemma storage_ok_insert:
  assumes "storage_ok L A h st F" and "new_nodes st \<subseteq> dom F" and "dom F \<subseteq> dom h" and "h n = None"
    and "p \<notin> wdels (map_of (writeSet st))" and "p \<noteq> n" and "m_version_mask nd = 0" and "m_val nd \<noteq> None"
  shows "storage_ok L A (h(n \<mapsto> nd))
    (emplaceReadSet p (addToIndexAdd l n (putIntoWriteSet p (Some n) x False st)))
    ((fp_add p l pd F)(n \<mapsto> (l, nd)))"
proof -
  let ?F = "(fp_add p l pd F)(n \<mapsto> (l, nd))" and ?N = "new_nodes st"
  have n: "n \<notin> dom F" "n \<notin> ?N" using assms(2-4) by auto
  have own: "own ?F (insert n ?N) l' = (if l' = l then insert n (own F ?N l) else own F ?N l')" for l'
    using n own_fp_add [OF assms(2), of p l pd l'] by (auto simp: own_def)
  have fresh: "n \<notin> set (adds st l)" using n(2) by (auto simp: new_nodes_def)
  from assms(1) have s: "dom F = set (readSet st) \<union> ?N" "\<And>l. set (adds st l) = own F ?N l"
    "\<And>l. distinct (adds st l)" "\<And>l. set (rems st l) \<subseteq> wdels (map_of (writeSet st)) \<inter> (A l \<union> own F ?N l)"
    "\<And>a. a \<in> ?N \<Longrightarrow> \<exists>n. h a = Some n \<and> m_version_mask n = 0 \<and> m_val n \<noteq> None"
    unfolding storage_ok_def by blast+
  show ?thesis
    unfolding storage_ok_def
  proof (intro conjI allI ballI)
    let ?st = "emplaceReadSet p (addToIndexAdd l n (putIntoWriteSet p (Some n) x False st))"
    show "dom ?F = set (readSet ?st) \<union> new_nodes ?st" using s(1) by auto
    show "set (adds ?st l') = own ?F (new_nodes ?st) l'" for l' using s(2) own by simp
    show "distinct (adds ?st l')" for l' using s(3) fresh by simp
    show "set (rems ?st l') \<subseteq> wdels (map_of (writeSet ?st)) \<inter> (A l' \<union> own ?F (new_nodes ?st) l')" for l'
      using s(4) [of l'] assms(5) own [of l'] by (auto simp: wdels_upd)
    show "\<exists>n'. (h(n \<mapsto> nd)) a = Some n' \<and> m_version_mask n' = 0 \<and> m_val n' \<noteq> None"
      if "a \<in> new_nodes ?st" for a
      using that s(5) assms(7,8) by (cases "a = n") auto
  qed
qed

lemma valid_insert:
  assumes v: "valid L A hds h C t st tr F U R" and ok: "lists_ok L hds h C" and l: "l \<in> L"
    and V: "view_ok hds h (map_of (writeSet st)) F (new_nodes st) U C l V"
    and p: "p \<in> set V" "p = hds l \<or> nkey h p < k" "h p = Some pd"
    and c: "\<And>m. vnext h (map_of (writeSet st)) p = Some m \<Longrightarrow> h m \<noteq> None \<and> k < nkey h m"
    and n: "h n = None" "m_key nd = k" "m_val nd = Some x"
      "m_next nd = vnext h (map_of (writeSet st)) p" "m_version_mask nd = 0"
    and ro: "\<not> readOnly t'"
    and tr: "trace_ok tr' (read_upd l k (maps_of L h C l k) U R) (log_upd l k (Some x) U)"
  shows "valid L A hds (h(n \<mapsto> nd)) C t'
    (emplaceReadSet p (addToIndexAdd l n
      (putIntoWriteSet p (Some n) (vval h (map_of (writeSet st)) p) False st))) tr'
    ((fp_add p l pd F)(n \<mapsto> (l, nd))) (log_upd l k (Some x) U) (read_upd l k (maps_of L h C l k) U R)"
proof -
  let ?W = "map_of (writeSet st)" and ?F = "(fp_add p l pd F)(n \<mapsto> (l, nd))" and ?N = "new_nodes st"
  note d = validD [OF v] and vn = view_node_list [OF V validD(1) [OF v] validD(2) [OF v] ok l p(1)]
  note D = tx_viewD [OF d(1)]
  let ?we = "\<lparr>we_next = Some n, we_val = vval h ?W p, we_deleted = False\<rparr>"
  have view: "tx_view L hds (h(n \<mapsto> nd)) (?W(p \<mapsto> ?we)) ?F (insert n ?N) (log_upd l k (Some x) U)"
    and agr: "agree L (h(n \<mapsto> nd)) C ?F (insert n ?N)"
    by (rule tx_view_insert [OF d(1) ok d(2) l V p c n(1-4), where we = ?we]; simp)+
  have np: "p \<noteq> n" using p(3) n(1) by auto
  have pdel: "p \<notin> wdels ?W" using V p(1) by (auto simp: view_ok_def)
  have st: "storage_ok L A (h(n \<mapsto> nd))
    (emplaceReadSet p (addToIndexAdd l n (putIntoWriteSet p (Some n) (vval h ?W p) False st))) ?F"
    by (rule storage_ok_insert [OF d(3) D(2,3) n(1) pdel np n(5)]) (simp add: n(3))
  have nF: "n \<notin> dom F" using D(3) n(1) by auto
  have le: "F \<subseteq>\<^sub>m ?F" using nF by (auto simp: map_le_def fp_add_def)
  have kn: "known h ?F l p"
    by (rule known_mono [OF known_fp_add [OF d(2) p(3) vn(1)]])
      (use np nF in \<open>auto simp: map_le_def\<close>)
  have "reads_ok L hds h ?F (insert n ?N) (read_upd l k (maps_of L h C l k) U R)"
    by (rule reads_ok_absent [OF d(1,5) l V le _ p(1,2) kn _ c]) (use D nF np in auto)
  then have "reads_ok L hds (h(n \<mapsto> nd)) ?F (insert n ?N) (read_upd l k (maps_of L h C l k) U R)"
    using later_fresh [of h n nd] n(1) by (blast intro: reads_ok_later)
  moreover have "dels_ok (h(n \<mapsto> nd)) (?W(p \<mapsto> ?we)) ?F (log_upd l k (Some x) U)"
    by (rule dels_ok_mono [OF d(4) le _ D(3)])
      (use subset_trans [OF wdels_dom D(1)] log_upd_mono later_fresh [of h n nd] n(1) in \<open>auto simp: wdels_upd\<close>)
  ultimately show ?thesis using view agr st ro tr by (simp add: valid_def)
qed

text \<open>\<open>remove\<close> of a present key.\<close>

lemma storage_ok_delete:
  assumes "storage_ok L A h st F" and "new_nodes st \<subseteq> dom F" and "p \<notin> wdels (map_of (writeSet st))"
    and "m \<in> A l \<union> own F (new_nodes st) l" and "p \<noteq> m"
  shows "storage_ok L A h
    (addToIndexRemove l m (emplaceReadSet m (putIntoWriteSet m None y True
      (putIntoWriteSet p nx x False (emplaceReadSet p st))))) (fp_add m l md (fp_add p l pd F))"
proof -
  have own: "own (fp_add m l md (fp_add p l pd F)) (new_nodes st) l' = own F (new_nodes st) l'" for l'
    using assms(2) own_fp_add [of "new_nodes st" "fp_add p l pd F"] own_fp_add [OF assms(2)]
    by (simp add: subset_insertI2)
  let ?e = "\<lambda>nx v d. \<lparr>we_next = nx, we_val = v, we_deleted = d\<rparr>"
  let ?W = "(map_of (writeSet st))(p \<mapsto> ?e nx x False, m \<mapsto> ?e None y True)"
  have W: "wdels (map_of (writeSet st)) \<subseteq> wdels ?W" "m \<in> wdels ?W"
    using assms(3) by (auto simp: wdels_upd)
  from assms(1) have s: "dom F = set (readSet st) \<union> new_nodes st"
    "\<And>l. set (adds st l) = own F (new_nodes st) l" "\<And>l. distinct (adds st l)"
    "\<And>l. set (rems st l) \<subseteq> wdels (map_of (writeSet st)) \<inter> (A l \<union> own F (new_nodes st) l)"
    "\<And>a. a \<in> new_nodes st \<Longrightarrow> \<exists>n. h a = Some n \<and> m_version_mask n = 0 \<and> m_val n \<noteq> None"
    unfolding storage_ok_def by blast+
  have rems: "set (((rems st)(l := rems st l @ [m])) l') \<subseteq>
      wdels ?W \<inter> (A l' \<union> own F (new_nodes st) l')" for l'
    using s(4) [of l'] W assms(4) by (cases "l' = l") auto
  show ?thesis using s rems by (simp add: storage_ok_def own)
qed

lemma dels_ok_delete:
  assumes "dels_ok h W F U" and "F \<subseteq>\<^sub>m F'" and "dom F \<subseteq> dom h" and "wdels W \<subseteq> dom F"
    and "known h F' l m" and "nkey h m = k" and "wdels W' \<subseteq> insert m (wdels W)"
  shows "dels_ok h W' F' (log_upd l k x U)"
  unfolding dels_ok_def
proof (intro allI impI)
  fix a j n assume a: "a \<in> wdels W'" and F': "F' a = Some (j, n)"
  show "log_upd l k x U j (nkey h a) \<noteq> None"
  proof (cases "a = m")
    case True
    with assms(5,6) F' show ?thesis by (auto simp: known_def log_upd_def)
  next
    case False
    have "dels_ok h W F' U"
      by (rule dels_ok_mono [OF assms(1,2) later_refl assms(3) subset_refl assms(4)])
    with False a assms(7) F' have "U j (nkey h a) \<noteq> None" by (auto simp: dels_ok_def)
    then show ?thesis by (rule log_upd_mono)
  qed
qed

lemma valid_delete:
  assumes v: "valid L A hds h C t st tr F U R" and ok: "lists_ok L hds h C" and l: "l \<in> L"
    and CA: "set (C l) \<subseteq> A l"
    and V: "view_ok hds h (map_of (writeSet st)) F (new_nodes st) U C l V"
    and p: "p \<in> set V" "vnext h (map_of (writeSet st)) p = Some m" "h p = Some pd" "h m = Some md"
    and m: "m \<noteq> hds l" "nkey h m = k" and ro: "\<not> readOnly t'"
    and tr: "trace_ok tr' (read_upd l k (maps_of L h C l k) U R) (log_upd l k None U)"
  shows "valid L A hds h C t'
    (addToIndexRemove l m (emplaceReadSet m (putIntoWriteSet m None y True
      (putIntoWriteSet p (vnext h (map_of (writeSet st)) m) (vval h (map_of (writeSet st)) p) False
        (emplaceReadSet p st))))) tr'
    (fp_add m l md (fp_add p l pd F)) (log_upd l k None U) (read_upd l k (maps_of L h C l k) U R)"
proof -
  let ?W = "map_of (writeSet st)" and ?G = "fp_add p l pd F" and ?N = "new_nodes st"
  let ?F = "fp_add m l md ?G"
  note d = validD [OF v] and vp = view_node_list [OF V validD(1) [OF v] validD(2) [OF v] ok l p(1)]
  note D = tx_viewD [OF d(1)]
  have pV: "path (vnext h ?W) (Some (hds l)) V None" using V by (simp add: view_ok_def)
  have mV: "m \<in> set V" using pV p(1,2) by (rule path_next_in)
  note vm = view_node_list [OF V validD(1) [OF v] validD(2) [OF v] ok l mV]
  have pm: "p \<noteq> m" using path_next_neq [OF pV p(1)] p(2) by auto
  have pdel: "p \<notin> wdels ?W" and mA: "m \<in> A l \<union> own F ?N l"
    using V p(1) mV CA by (auto simp: view_ok_def)
  have ag0: "agree L h C ?G ?N" by (rule agree_fp_add [OF d(2) D(2) p(3) vp(2)])
  have agr: "agree L h C ?F ?N"
    by (rule agree_fp_add [OF ag0 _ p(4)]) (use D(2) vm(2) in \<open>auto simp: fp_add_def\<close>)
  have knm: "known h ?F l m"
    by (rule known_fp_add [OF ag0 p(4)]) (use vm(1) in \<open>auto simp: fp_add_def split: if_splits\<close>)
  have le: "F \<subseteq>\<^sub>m ?F" by (rule map_le_trans [OF fp_add_le fp_add_le])
  have "reads_ok L hds h ?F ?N (read_upd l k (maps_of L h C l k) U R)"
    by (rule reads_ok_found [OF d(1,5) l V le _ mV m knm]) (use D in auto)
  moreover have "tx_view L hds h
      (?W(p \<mapsto> \<lparr>we_next = vnext h ?W m, we_val = vval h ?W p, we_deleted = False\<rparr>,
          m \<mapsto> \<lparr>we_next = None, we_val = y, we_deleted = True\<rparr>)) ?F ?N (log_upd l k None U)"
    unfolding m(2) [symmetric] by (rule tx_view_delete [OF d(1) ok d(2) l V p]) simp_all
  moreover have "dels_ok h
      (?W(p \<mapsto> \<lparr>we_next = vnext h ?W m, we_val = vval h ?W p, we_deleted = False\<rparr>,
          m \<mapsto> \<lparr>we_next = None, we_val = y, we_deleted = True\<rparr>)) ?F (log_upd l k None U)"
    by (rule dels_ok_delete [OF d(4) le D(3) _ knm m(2)]) (use subset_trans [OF wdels_dom D(1)] in \<open>auto simp: wdels_upd\<close>)
  moreover note storage_ok_delete [OF d(3) D(2) pdel mA pm]
  ultimately show ?thesis using agr ro tr by (simp add: valid_def)
qed

end
