(* ===== verification/TxMethods.thy ===== *)
theory TxMethods
  imports TxSteps
begin

text \<open>
  The methods of the list inside a transaction: from a state in which the shared data and the
  transaction are well formed, each method returns or aborts, never fails an assertion, follows a
  null pointer or runs past its bound, and keeps both invariants.
\<close>

section \<open>Pointers in a growing heap\<close>

lemma ptr_ok_later:
  assumes "ptr_ok h H a p" and "later h h'" and "h a \<noteq> None"
  shows "ptr_ok h' H a p"
  unfolding ptr_ok_def
proof (intro allI impI)
  fix b assume "p = Some b"
  with assms(1) have b: "h b \<noteq> None" "b \<notin> H" "a \<in> H \<or> nkey h a < nkey h b"
    by (auto dest: ptr_okD)
  from b(1) assms(2) have "h' b \<noteq> None" by (fastforce simp: later_def)
  with b later_nkey [OF assms(2) b(1)] later_nkey [OF assms(2,3)]
  show "h' b \<noteq> None \<and> b \<notin> H \<and> (a \<in> H \<or> nkey h' a < nkey h' b)" by simp
qed

lemma ws_ok_later:
  assumes "ws_ok H h W" and "later h h'"
  shows "ws_ok H h' W"
  unfolding ws_ok_def
proof (intro allI impI)
  fix a we assume W: "W a = Some we"
  note d = ws_okD [OF assms(1) W]
  have "h' a \<noteq> None" using d(1) assms(2) by (fastforce simp: later_def)
  with d ptr_ok_later [OF d(2) assms(2) d(1)]
  show "h' a \<noteq> None \<and> ptr_ok h' H a (we_next we) \<and> (we_deleted we \<longrightarrow> a \<notin> H)" by simp
qed

lemma ws_ok_upd:
  assumes "ws_ok H h W" and "h a \<noteq> None" and "ptr_ok h H a nx" and "d \<Longrightarrow> a \<notin> H"
  shows "ws_ok H h (W(a \<mapsto> \<lparr>we_next = nx, we_val = v, we_deleted = d\<rparr>))"
  using assms by (auto simp: ws_ok_def)

lemma ptr_ok_skip:
  assumes "ptr_ok h H p (Some m)" and "ptr_ok h H m c"
  shows "ptr_ok h H p c"
  using assms by (auto simp: ptr_ok_def)

lemma heap_ok_fresh:
  assumes "heap_ok H h nx" and "ptr_ok (h(nx \<mapsto> nd)) H nx (m_next nd)" and "m_version_mask nd = 0"
    and "\<not> w_deleted nd"
  shows "heap_ok H (h(nx \<mapsto> nd)) (Suc nx)"
proof -
  note d = heap_okD [OF assms(1)]
  have fresh: "h nx = None" using d(1) by auto
  have lat: "later h (h(nx \<mapsto> nd))" using fresh by (rule later_fresh)
  have zero: "\<not> isLocked 0" "\<not> isSingleton 0" by (simp_all add: isLocked_def isSingleton_def)
  have "ptr_ok (h(nx \<mapsto> nd)) H a (m_next n)" if "h a = Some n" for a n
    using ptr_ok_later [OF d(3) [OF that] lat] that by simp
  with d assms(2-4) zero show ?thesis unfolding heap_ok_def by (auto split: if_splits)
qed

text \<open>What a method has to show of its transaction.\<close>

lemma thread_ok_step:
  assumes th: "thread_ok L A hds h C t st tr"
    and ws: "ws_ok (hds ` L) h' (map_of (writeSet st'))" and tab: "tables_ok L st'"
    and rs: "set (readSet st) \<subseteq> set (readSet st')" "set (readSet st') \<subseteq> dom h'"
    and nn: "new_nodes st' \<subseteq> dom h'" and rv: "readVersion t' = readVersion t"
    and h': "\<And>a. a \<in> set (readSet st) \<Longrightarrow> h' a = h a"
    and v: "\<And>F U R. valid L A hds h C t st tr F U R \<Longrightarrow> \<exists>F' U' R'. valid L A hds h' C t' st' tr' F' U' R'"
  shows "thread_ok L A hds h' C t' st' tr'"
proof -
  have "doomed h' t' st'" if "doomed h t st" using that rs(1) rv h' by (rule doomed_mono)
  with th v have "doomed h' t' st' \<or> (\<exists>F U R. valid L A hds h' C t' st' tr' F U R)"
    unfolding thread_ok_def by blast
  with ws tab rs nn show ?thesis by (simp add: thread_ok_def)
qed

section \<open>The shared invariant\<close>

text \<open>\<open>grows\<close>: what a method does to the shared heap, the allocation of at most one node.\<close>

definition grows :: "'ix state \<Rightarrow> 'ix state \<Rightarrow> bool" where
  "grows s s' \<longleftrightarrow>
     (heap s' = heap s \<and> next_addr s' = next_addr s \<or>
      (\<exists>nd. heap s' = (heap s)(next_addr s \<mapsto> nd) \<and> next_addr s' = Suc (next_addr s))) \<and>
     gvc s' = gvc s \<and> (\<forall>l. head_of s' l = head_of s l) \<and> rng s' = rng s \<and> retired s' = retired s"

context list_index
begin

definition shared_ok :: "list_id set \<Rightarrow> (list_id \<Rightarrow> addr set) \<Rightarrow> (list_id \<Rightarrow> addr list) \<Rightarrow> 'ix state \<Rightarrow> bool" where
  "shared_ok L A C s \<longleftrightarrow>
     heap_ok (heads L s) (heap s) (next_addr s) \<and> index_ok L A s \<and>
     lists_ok L (head_of s) (heap s) C \<and>
     (\<forall>l\<in>L. set (C l) = {a \<in> A l. live (heap s) a} \<and> A l \<subseteq> dom (heap s)) \<and>
     (\<forall>a n. heap s a = Some n \<longrightarrow> getVersion (m_version_mask n) \<le> gvc s) \<and> gvc s < 2 ^ 60"

abbreviation running ::
  "list_id set \<Rightarrow> (list_id \<Rightarrow> addr set) \<Rightarrow> (list_id \<Rightarrow> addr list) \<Rightarrow> 'ix state \<Rightarrow>
   (list_op \<times> list_result) list \<Rightarrow> bool" where
  "running L A C s tr \<equiv> thread_ok L A (head_of s) (heap s) C (lt s) (ls s) tr"

lemma shared_okD:
  assumes "shared_ok L A C s"
  shows "heap_ok (heads L s) (heap s) (next_addr s)" and "index_ok L A s"
    and "lists_ok L (head_of s) (heap s) C"
    and "l \<in> L \<Longrightarrow> set (C l) = {a \<in> A l. live (heap s) a}" and "l \<in> L \<Longrightarrow> A l \<subseteq> dom (heap s)"
    and "heap s a = Some n \<Longrightarrow> getVersion (m_version_mask n) \<le> gvc s" and "gvc s < 2 ^ 60"
  using assms unfolding shared_ok_def by blast+

lemma shared_safe: "shared_ok L A C s \<Longrightarrow> running L A C s tr \<Longrightarrow> safe L A s"
  by (simp add: shared_ok_def thread_ok_def safe_def)

lemma searched_shared:
  assumes "shared_ok L A C s" and "searched A l s s'"
  shows "shared_ok L A C s'"
proof -
  note sel = searched_sel [OF assms(2)]
  have "index_ok L A s'"
    using shared_okD(2) [OF assms(1)] assms(2)
    by (auto simp: index_ok_def searched_def ll_index_set_index)
  with assms(1) show ?thesis by (simp add: shared_ok_def sel)
qed

lemma stop_tx_sel [simp]:
  "heap (stop_tx s) = heap s" "next_addr (stop_tx s) = next_addr s" "gvc (stop_tx s) = gvc s"
  "lists (stop_tx s) = lists s" "ls (stop_tx s) = ls s" "rng (stop_tx s) = rng s"
  "retired (stop_tx s) = retired s" "readVersion (lt (stop_tx s)) = readVersion (lt s)"
  by (simp_all add: stop_tx_def)

lemma shared_ok_cong:
  assumes "shared_ok L A C s" and "heap s' = heap s" and "next_addr s' = next_addr s"
    and "gvc s' = gvc s" and "lists s' = lists s"
  shows "shared_ok L A C s'"
  using assms by (simp add: shared_ok_def index_ok_def)

text \<open>The search of a method, from the two invariants.\<close>

lemma find_place:
  assumes sh: "shared_ok L A C s" and th: "running L A C s tr" and l: "l \<in> L"
  obtains (abort) s1 where "searched A l s s1"
      and "find_node i l k s = (Throw TxAbortException, stop_tx s1)"
    | (found) s1 found p c where "searched A l s s1"
      and "find_node i l k s = (Ok (found, p, c), s1)" and "place s l k found p c"
      and "\<And>F U R V. valid L A (head_of s) (heap s) C (lt s) (ls s) tr F U R \<Longrightarrow>
        view_ok (head_of s) (heap s) (ws s) F (new_nodes (ls s)) U C l V \<Longrightarrow> p \<in> set V"
proof -
  let ?P = "{p. \<forall>F U R V. valid L A (head_of s) (heap s) C (lt s) (ls s) tr F U R \<longrightarrow>
      view_ok (head_of s) (heap s) (ws s) F (new_nodes (ls s)) U C l V \<longrightarrow> p \<in> set V}"
  have "\<exists>s'. searched A l s s' \<and>
    (find_node i l k s = (Throw TxAbortException, stop_tx s') \<or>
     (\<exists>found p c. find_node i l k s = (Ok (found, p, c), s') \<and> place s l k found p c \<and> p \<in> ?P))"
  proof (rule find_node_run [OF shared_safe [OF sh th] l])
    fix a assume "a \<in> A l" "live (heap s) a" "a \<notin> wdels (ws s)"
    with shared_okD(4) [OF sh l] show "a \<in> ?P" by (auto simp: view_ok_def)
  next
    fix a b assume a: "a \<in> ?P" and b: "vnext (heap s) (ws s) a = Some b"
    show "b \<in> ?P"
    proof (intro CollectI allI impI)
      fix F U R V
      assume v: "valid L A (head_of s) (heap s) C (lt s) (ls s) tr F U R"
        and V: "view_ok (head_of s) (heap s) (ws s) F (new_nodes (ls s)) U C l V"
      then have "path (vnext (heap s) (ws s)) (Some (head_of s l)) V None" by (simp add: view_ok_def)
      moreover have "a \<in> set V" using a v V by blast
      ultimately show "b \<in> set V" using b by (rule path_next_in)
    qed
  qed
  then show ?thesis using abort found by blast
qed

text \<open>
  The result of a method: the shared invariant holds again; a method that throws has aborted the
  transaction; a method that returns has kept the transaction's invariant.
\<close>

definition method_ok ::
  "list_id set \<Rightarrow> (list_id \<Rightarrow> addr set) \<Rightarrow> (list_id \<Rightarrow> addr list) \<Rightarrow> 'ix state \<Rightarrow>
   ('a \<Rightarrow> (list_op \<times> list_result) list) \<Rightarrow> 'a outcome \<times> 'ix state \<Rightarrow> bool" where
  "method_ok L A C s tr' res \<longleftrightarrow> (case res of (r, s') \<Rightarrow>
     shared_ok L A C s' \<and> grows s s' \<and> readVersion (lt s') = readVersion (lt s) \<and>
     (case r of
        Throw e \<Rightarrow> e = TxAbortException \<and> new_nodes (ls s') = new_nodes (ls s) \<and> tables_ok L (ls s')
      | Ok x \<Rightarrow> TX (lt s') = TX (lt s) \<and> running L A C s' (tr' x) \<and>
          new_nodes (ls s') \<subseteq> new_nodes (ls s) \<union> {next_addr s}))"

lemma grows_searched: "searched A l s s' \<Longrightarrow> grows s s'"
  by (simp add: grows_def searched_sel)

lemma method_ok_abort:
  assumes "shared_ok L A C s" and "searched A l s s1" and "heap s' = heap s1"
    and "next_addr s' = next_addr s1" and "gvc s' = gvc s1" and "lists s' = lists s1"
    and "rng s' = rng s1" and "retired s' = retired s1"
    and "readVersion (lt s') = readVersion (lt s)" and "tables_ok L (ls s')"
    and "new_nodes (ls s') = new_nodes (ls s)"
  shows "method_ok L A C s tr' (Throw TxAbortException, s')"
proof -
  have "shared_ok L A C s'"
    by (rule shared_ok_cong [OF searched_shared [OF assms(1,2)]]) (use assms in auto)
  moreover have "grows s s'"
    using grows_searched [OF assms(2)] assms by (simp add: grows_def)
  ultimately show ?thesis using assms(9-11) by (simp add: method_ok_def)
qed

lemma method_ok_stop:
  assumes "shared_ok L A C s" and "searched A l s s1" and "tables_ok L (ls s)"
  shows "method_ok L A C s tr' (Throw TxAbortException, stop_tx s1)"
  by (rule method_ok_abort [OF assms(1,2)]) (use assms(3) in \<open>simp_all add: searched_sel [OF assms(2)]\<close>)

lemma method_ok_from:
  assumes "method_ok L A C (s\<lparr>lt := t\<rparr>) tr' res" and "readVersion t = readVersion (lt s)"
    and "TX t = TX (lt s)"
  shows "method_ok L A C s tr' res"
  using assms by (auto simp: method_ok_def grows_def split: prod.splits outcome.splits)

text \<open>A method that returns without allocating.\<close>

lemma method_ok_return:
  assumes "shared_ok L A C s" and "searched A l s s1" and "s' = s1\<lparr>ls := st, lt := t\<rparr>"
    and "readVersion t = readVersion (lt s)" and "TX t = TX (lt s)"
    and "new_nodes st = new_nodes (ls s)"
    and "thread_ok L A (head_of s) (heap s) C t st (tr' x)"
  shows "method_ok L A C s tr' (Ok x, s')"
proof -
  have "shared_ok L A C s'"
    by (rule shared_ok_cong [OF searched_shared [OF assms(1,2)]]) (use assms in auto)
  moreover have "grows s s'"
    using grows_searched [OF assms(2)] assms by (simp add: grows_def)
  ultimately show ?thesis using assms searched_sel [OF assms(2)] by (auto simp: method_ok_def)
qed

lemma place_next:
  assumes sh: "shared_ok L A C s" and th: "running L A C s tr" and pl: "place s l k found p (Some m)"
  shows "heap s m \<noteq> None" and "m \<notin> heads L s" and "ptr_ok (heap s) (heads L s) p (Some m)"
proof -
  have "heap_ok (heads L s) (heap s) (next_addr s)" and "ws_ok (heads L s) (heap s) (ws s)"
    using shared_okD(1) [OF sh] th by (auto simp: thread_ok_def)
  from vnext_ok [OF this, of p] pl show "ptr_ok (heap s) (heads L s) p (Some m)"
    by (simp add: place_def)
  then show "heap s m \<noteq> None" and "m \<notin> heads L s" by (auto dest: ptr_okD)
qed

text \<open>The view around the place, for a transaction that can commit.\<close>

lemma place_view:
  assumes sh: "shared_ok L A C s" and th: "running L A C s tr" and l: "l \<in> L"
    and pl: "place s l k found p c"
    and v: "valid L A (head_of s) (heap s) C (lt s) (ls s) tr F U R"
    and V: "view_ok (head_of s) (heap s) (ws s) F (new_nodes (ls s)) U C l V" and p: "p \<in> set V"
  shows "\<not> found \<Longrightarrow> overlay (U l) (maps_of L (heap s) C l) k = None"
    and "\<not> found \<Longrightarrow> vnext (heap s) (ws s) p = Some m \<Longrightarrow> heap s m \<noteq> None \<and> k < nkey (heap s) m"
    and "found \<Longrightarrow> \<exists>m. c = Some m \<and> m \<in> set V \<and> m \<noteq> head_of s l \<and> nkey (heap s) m = k \<and>
      overlay (U l) (maps_of L (heap s) C l) k = vval (heap s) (ws s) m \<and> vval (heap s) (ws s) m \<noteq> None"
proof -
  let ?h = "heap s" and ?W = "ws s"
  have pV: "path (vnext ?h ?W) (Some (head_of s l)) V None" using V by (simp add: view_ok_def)
  have val: "contents ?h ?W V k = overlay (U l) (maps_of L ?h C l) k" by (rule view_maps [OF V l])
  have c: "contents ?h ?W V k =
      (case vnext ?h ?W p of None \<Rightarrow> None | Some m \<Rightarrow> if nkey ?h m = k then vval ?h ?W m else None)"
    by (rule contents_place [OF pV _ p]) (use V pl in \<open>auto simp: view_ok_def place_def\<close>)
  show "overlay (U l) (maps_of L ?h C l) k = None" if "\<not> found"
    using that pl c val by (auto simp: place_def split: option.splits)
  show "?h m \<noteq> None \<and> k < nkey ?h m" if "\<not> found" "vnext ?h ?W p = Some m"
  proof -
    have "place s l k found p (Some m)" using pl that(2) by (auto simp: place_def)
    from place_next(1) [OF sh th this] that pl show ?thesis
      by (auto simp: place_def order.strict_iff_order)
  qed
  show "\<exists>m. c = Some m \<and> m \<in> set V \<and> m \<noteq> head_of s l \<and> nkey ?h m = k \<and>
      overlay (U l) (maps_of L ?h C l) k = vval ?h ?W m \<and> vval ?h ?W m \<noteq> None" if "found"
  proof -
    from that pl obtain m where m: "c = Some m" "nkey ?h m = k" "vnext ?h ?W p = Some m"
      by (auto simp: place_def)
    have mV: "m \<in> set V" using pV p m(3) by (rule path_next_in)
    have "m \<notin> heads L s" using place_next(2) [OF sh th] pl m(1) by blast
    then have "m \<noteq> head_of s l" using l by auto
    moreover have "vval ?h ?W m \<noteq> None" using V mV by (simp add: view_ok_def)
    ultimately show ?thesis using m mV c val by auto
  qed
qed

lemma thread_reads:
  assumes "running L A C s tr"
  shows "ws_ok (heads L s) (heap s) (ws s)" and "tables_ok L (ls s)"
    and "set (readSet (ls s)) \<subseteq> dom (heap s)" and "new_nodes (ls s) \<subseteq> dom (heap s)"
  using assms by (simp_all add: thread_ok_def)

section \<open>get\<close>

lemma get_TX_eq:
  assumes "find_node i l k s = (Ok (found, p, c), s1)" and "searched A l s s1"
    and "place s l k found p c" and "\<And>m. c = Some m \<Longrightarrow> heap s m \<noteq> None"
  shows "get_TX i l k s =
    (Ok (if found then vval (heap s) (ws s) (the c) else None), s1\<lparr>ls := emplaceReadSet p (ls s)\<rparr>)"
proof (cases found)
  case True
  with assms(3) obtain m where c: "c = Some m" and key: "nkey (heap s) m = k" by (auto simp: place_def)
  with assms(4) obtain md where md: "heap s m = Some md" by auto
  with key have "m_key md = k" by (simp add: nkey_def)
  with True c md assms(1) searched_sel [OF assms(2)] show ?thesis
    by (auto simp: get_TX_def run_simps modifyLS_def vval_def split: option.splits)
next
  case False
  with assms(1) searched_sel [OF assms(2)] show ?thesis
    by (auto simp: get_TX_def run_simps modifyLS_def split: option.splits)
qed

lemma get_TX_run:
  assumes sh: "shared_ok L A C s" and th: "running L A C s tr" and l: "l \<in> L"
    and tr1: "\<And>R U x. trace_ok tr R U \<Longrightarrow> meets (maps_of L (heap s) C) R \<Longrightarrow>
      overlay (U l) (maps_of L (heap s) C l) k = None \<Longrightarrow>
      trace_ok (tr' None) (read_upd l k (maps_of L (heap s) C l k) U R) U"
    and tr2: "\<And>R U x. trace_ok tr R U \<Longrightarrow> x = overlay (U l) (maps_of L (heap s) C l) k \<Longrightarrow>
      x \<noteq> None \<Longrightarrow> trace_ok (tr' x) R U"
  shows "method_ok L A C s tr' (get_TX i l k s)"
proof -
  from sh th l show ?thesis
  proof (cases rule: find_place [where k = k])
    case (abort s1)
    then have "get_TX i l k s = (Throw TxAbortException, stop_tx s1)"
      by (simp add: get_TX_def run_simps)
    with method_ok_stop [OF sh abort(1) thread_reads(2) [OF th]] show ?thesis by simp
  next
    case (found s1 found p c)
    note se = found(1) and ok = found(2-4)
    let ?x = "if found then vval (heap s) (ws s) (the c) else None"
    have run: "get_TX i l k s = (Ok ?x, s1\<lparr>ls := emplaceReadSet p (ls s)\<rparr>)"
      by (rule get_TX_eq [OF ok(1) se ok(2)]) (use place_next(1) [OF sh th] ok(2) in blast)
    obtain pd where pd: "heap s p = Some pd" using ok(2) by (auto simp: place_def)
    have "thread_ok L A (head_of s) (heap s) C (lt s) (emplaceReadSet p (ls s)) (tr' ?x)"
    proof (rule thread_ok_step [OF th])
      fix F U R
      assume v: "valid L A (head_of s) (heap s) C (lt s) (ls s) tr F U R"
      obtain V where V: "view_ok (head_of s) (heap s) (ws s) F (new_nodes (ls s)) U C l V"
        by (rule valid_view [OF v shared_okD(3) [OF sh] l])
      note p = ok(3) [OF v V] and lok = shared_okD(3) [OF sh]
      note pv = place_view [OF sh th l ok(2) v V p]
      show "\<exists>F' U' R'. valid L A (head_of s) (heap s) C (lt s) (emplaceReadSet p (ls s)) (tr' ?x) F' U' R'"
      proof (cases found)
        case True
        with pv(3) have "?x = overlay (U l) (maps_of L (heap s) C l) k" "?x \<noteq> None" by auto
        then have "trace_ok (tr' ?x) R U" by (rule tr2 [OF validD(6) [OF v]])
        with valid_read_node [OF v lok l V p pd, of "lt s" "tr' ?x"] show ?thesis by blast
      next
        case False
        have "valid L A (head_of s) (heap s) C (lt s) (emplaceReadSet p (ls s)) (tr' None)
            (fp_add p l pd F) U (read_upd l k (maps_of L (heap s) C l k) U R)"
          by (rule valid_read_absent [OF v lok l V p _ pd])
            (use ok(2) pv(2) False tr1 [OF validD(6) [OF v] valid_meets [OF v lok] pv(1)]
              in \<open>auto simp: place_def\<close>)
        with False show ?thesis by auto
      qed
    qed (use thread_reads [OF th] pd in auto)
    then show ?thesis unfolding run
      by (intro method_ok_return [OF sh se]) (simp_all add: searched_sel [OF se])
  qed
qed

section \<open>Insertion\<close>

lemma shared_ok_fresh:
  assumes sh: "shared_ok L A C s" and h': "heap s' = (heap s)(next_addr s \<mapsto> nd)"
    and nx: "next_addr s' = Suc (next_addr s)" and g: "gvc s' = gvc s" and ls: "lists s' = lists s"
    and ptr: "ptr_ok (heap s') (heads L s) (next_addr s) (m_next nd)" and w: "m_version_mask nd = 0"
    and d: "\<not> w_deleted nd"
  shows "shared_ok L A C s'"
proof -
  note D = shared_okD [OF sh]
  have fresh: "heap s (next_addr s) = None" using heap_okD(1) [OF D(1)] by auto
  have lat: "later (heap s) (heap s')" unfolding h' using fresh by (rule later_fresh)
  have same: "heap s' b = heap s b" if "l \<in> L" "b \<in> A l" for l b
    using D(5) [OF that(1)] that(2) fresh h' by auto
  have lv: "live (heap s') b = live (heap s) b" if "l \<in> L" "b \<in> A l" for l b
    using same [OF that] by (simp add: live_def)
  have hd: "head_of s l \<in> A l" if "l \<in> L" for l using D(2) that by (simp add: index_ok_def)
  have "index_ok L A s'"
    using D(2) same lv hd ix_later [OF _ lat] unfolding index_ok_def ls by (simp add: nkey_def)
  moreover have "heap_ok (heads L s') (heap s') (next_addr s')"
    using heap_ok_fresh [OF D(1) ptr [unfolded h'] w d] by (simp add: ls nx h')
  moreover have "lists_ok L (head_of s') (heap s') C"
    using lists_ok_fresh [OF D(3) fresh] by (simp add: ls h')
  moreover have "set (C l) = {a \<in> A l. live (heap s') a} \<and> A l \<subseteq> dom (heap s')" if "l \<in> L" for l
    using D(4,5) [OF that] lv [OF that] h' by auto
  moreover have "getVersion (m_version_mask n) \<le> gvc s'" if "heap s' a = Some n" for a n
    using that D(6) w h' g by (auto simp: getVersion_def split: if_splits)
  ultimately show ?thesis using D(7) g by (simp add: shared_ok_def)
qed

lemma insert_new_node_eq:
  assumes "heap s p \<noteq> None" and "heap s (next_addr s) = None"
  shows "insert_new_node l k v p c s = (Ok None,
    s\<lparr>heap := (heap s)(next_addr s \<mapsto>
        \<lparr>m_key = k, m_val = Some v, m_next = c, m_version_mask = 0, w_deleted = False\<rparr>),
      next_addr := Suc (next_addr s),
      ls := emplaceReadSet p (addToIndexAdd l (next_addr s)
        (putIntoWriteSet p (Some (next_addr s)) (vval (heap s) (ws s) p) False (ls s)))\<rparr>)"
proof -
  have "p \<noteq> next_addr s" using assms by auto
  with assms show ?thesis
    by (auto simp: insert_new_node_def get_new_node_def get_new_node_key_def new_LNode_def updE_def
        derefE_def modifyLS_def getVal_run vval_def run_simps split: option.splits)
qed

lemma insert_ptrs:
  assumes sh: "shared_ok L A C s" and th: "running L A C s tr" and pl: "place s l k False p c"
    and l: "l \<in> L" and nd: "m_key nd = k" and h': "h' = (heap s)(next_addr s \<mapsto> nd)"
  shows "ptr_ok h' (heads L s) (next_addr s) c" and "ptr_ok h' (heads L s) p (Some (next_addr s))"
proof -
  have fresh: "heap s (next_addr s) = None" using heap_okD(1) [OF shared_okD(1) [OF sh]] by auto
  have lat: "later (heap s) h'" unfolding h' using fresh by (rule later_fresh)
  have nH: "next_addr s \<notin> heads L s" using fresh heap_okD(2) [OF shared_okD(1) [OF sh]] by auto
  have kn: "nkey h' (next_addr s) = k" using nd h' by (simp add: nkey_def)
  show "ptr_ok h' (heads L s) (next_addr s) c"
  proof (cases c)
    case (Some m)
    note pm = place_next [OF sh th pl [unfolded Some]]
    have "k < nkey (heap s) m" using pl Some by (auto simp: place_def order.strict_iff_order)
    moreover have "h' m \<noteq> None" using lat pm(1) by (fastforce simp: later_def)
    ultimately show ?thesis using pm(2) later_nkey [OF lat pm(1)] kn Some
      by (auto simp: ptr_ok_def)
  qed (simp add: ptr_ok_def)
  have p: "heap s p \<noteq> None" "p = head_of s l \<or> nkey (heap s) p < k" using pl by (auto simp: place_def)
  with later_nkey [OF lat p(1)] kn nH l show "ptr_ok h' (heads L s) p (Some (next_addr s))"
    by (auto simp: ptr_ok_def h')
qed

lemma insert_new_node_run:
  assumes sh: "shared_ok L A C s" and th: "running L A C s tr" and l: "l \<in> L"
    and se: "searched A l s s1" and pl: "place s l k False p c" and ro: "\<not> readOnly (lt s)"
    and P: "\<And>F U R V. valid L A (head_of s) (heap s) C (lt s) (ls s) tr F U R \<Longrightarrow>
        view_ok (head_of s) (heap s) (ws s) F (new_nodes (ls s)) U C l V \<Longrightarrow> p \<in> set V"
    and tr1: "\<And>R U. trace_ok tr R U \<Longrightarrow> meets (maps_of L (heap s) C) R \<Longrightarrow>
      overlay (U l) (maps_of L (heap s) C l) k = None \<Longrightarrow>
      trace_ok (tr' None) (read_upd l k (maps_of L (heap s) C l k) U R) (log_upd l k (Some v) U)"
  shows "method_ok L A C s tr' (insert_new_node l k v p c s1)"
proof -
  let ?n = "next_addr s"
  let ?nd = "\<lparr>m_key = k, m_val = Some v, m_next = c, m_version_mask = 0, w_deleted = False\<rparr>"
  let ?h = "(heap s)(?n \<mapsto> ?nd)"
  let ?st = "emplaceReadSet p (addToIndexAdd l ?n
        (putIntoWriteSet p (Some ?n) (vval (heap s) (ws s) p) False (ls s)))"
  let ?s = "s1\<lparr>heap := ?h, next_addr := Suc ?n, ls := ?st\<rparr>"
  note sel = searched_sel [OF se] and D = shared_okD [OF sh] and T = thread_reads [OF th]
  have fresh: "heap s ?n = None" using heap_okD(1) [OF D(1)] by auto
  have lat: "later (heap s) ?h" using fresh by (rule later_fresh)
  obtain pd where pd: "heap s p = Some pd" using pl by (auto simp: place_def)
  have run: "insert_new_node l k v p c s1 = (Ok None, ?s)"
    using insert_new_node_eq [of s1 p l k v c] pd fresh by (simp add: sel)
  have ptrs: "ptr_ok ?h (heads L s) ?n c" "ptr_ok ?h (heads L s) p (Some ?n)"
    by (rule insert_ptrs [OF sh th pl l _ refl], simp)+
  have sh': "shared_ok L A C ?s"
    by (rule shared_ok_fresh [OF searched_shared [OF sh se], where nd = ?nd])
      (use ptrs(1) in \<open>simp_all add: sel\<close>)
  have th': "thread_ok L A (head_of s) ?h C (lt s) ?st (tr' None)"
  proof (rule thread_ok_step [OF th])
    show "ws_ok (heads L s) ?h (map_of (writeSet ?st))"
      using ws_ok_upd [OF ws_ok_later [OF T(1) lat], of p "Some ?n" False] ptrs(2) pd fresh by auto
    show "tables_ok L ?st" using T(2) l by simp
    show "set (readSet (ls s)) \<subseteq> set (readSet ?st)" and "set (readSet ?st) \<subseteq> dom ?h"
      and "new_nodes ?st \<subseteq> dom ?h" using T pd by auto
    show "?h a = heap s a" if "a \<in> set (readSet (ls s))" for a using that T(3) fresh by auto
  next
    fix F U R
    assume v: "valid L A (head_of s) (heap s) C (lt s) (ls s) tr F U R"
    obtain V where V: "view_ok (head_of s) (heap s) (ws s) F (new_nodes (ls s)) U C l V"
      by (rule valid_view [OF v D(3) l])
    note pv = place_view [OF sh th l pl v V P [OF v V]]
    have "valid L A (head_of s) ?h C (lt s) ?st (tr' None) ((fp_add p l pd F)(?n \<mapsto> (l, ?nd)))
        (log_upd l k (Some v) U) (read_upd l k (maps_of L (heap s) C l k) U R)"
      by (rule valid_insert [OF v D(3) l V P [OF v V] _ pd])
        (use pl pv(2) fresh ro tr1 [OF validD(6) [OF v] valid_meets [OF v D(3)] pv(1)]
          in \<open>auto simp: place_def\<close>)
    then show "\<exists>F' U' R'. valid L A (head_of s) ?h C (lt s) ?st (tr' None) F' U' R'" by blast
  qed simp
  have "grows s ?s" by (auto simp: grows_def sel)
  with sh' th' show ?thesis unfolding run by (auto simp: method_ok_def sel)
qed

section \<open>put and putIfAbsent\<close>

text \<open>The value in the heap of a node of the view.\<close>

lemma view_heap_value:
  assumes sh: "shared_ok L A C s" and l: "l \<in> L"
    and v: "valid L A (head_of s) (heap s) C (lt s) (ls s) tr F U R"
    and V: "view_ok (head_of s) (heap s) (ws s) F (new_nodes (ls s)) U C l V"
    and m: "m \<in> set V" "m \<noteq> head_of s l" "nkey (heap s) m = k" "heap s m = Some md"
  shows "m_val md \<noteq> None" and "U l k = None \<Longrightarrow> m_val md = maps_of L (heap s) C l k"
proof -
  let ?h = "heap s" and ?N = "new_nodes (ls s)"
  note D = shared_okD [OF sh] and d = validD [OF v]
  have mC: "m \<in> set (C l) \<or> m \<in> own F ?N l" using V m(1) by (auto simp: view_ok_def)
  show "m_val md \<noteq> None"
  proof (cases "m \<in> ?N")
    case True
    with d(3) m(4) show ?thesis unfolding storage_ok_def by force
  next
    case False
    with mC D(4) [OF l] m(4) show ?thesis by (auto simp: own_def live_def)
  qed
  show "m_val md = maps_of L ?h C l k" if U: "U l k = None"
  proof -
    have "maps_of L ?h C l k = contents ?h (ws s) V k"
      using view_maps [OF V l, of k] U by (simp add: overlay_def)
    also have "\<dots> = vval ?h (ws s) m" using view_value [OF V m(1,2)] m(3) by simp
    finally have "maps_of L ?h C l k \<noteq> None" using V m(1) by (simp add: view_ok_def)
    then obtain x where x: "contents ?h Map.empty (C l) k = Some x" using l by (auto simp: maps_of_def)
    have srt: "sorted_chain ?h (C l)" using D(3) l by (simp add: lists_ok_def)
    from x obtain a where a: "a \<in> set (tl (C l))" "nkey ?h a = k" "vval ?h Map.empty a = Some x"
      by (auto simp: contents_Some_iff [OF srt])
    obtain zs where C: "C l = head_of s l # zs"
      using D(3) l path_head by (fastforce simp: lists_ok_def)
    have aC: "a \<in> set (C l)" "a \<noteq> head_of s l"
      using a(1) C path_distinct [of "vnext ?h Map.empty" "Some (head_of s l)" "C l"] D(3) l
      by (auto simp: lists_ok_def)
    have "a \<notin> wdels (ws s)"
    proof
      assume del: "a \<in> wdels (ws s)"
      then have "a \<in> dom F" using wdels_dom tx_viewD(1) [OF d(1)] by blast
      then obtain l' n where F: "F a = Some (l', n)" by auto
      have "l' = l"
      proof (cases "a \<in> ?N")
        case True
        with agree_new [OF d(2) F _ l] aC(1) show ?thesis by blast
      next
        case False
        moreover have "l' \<in> L" using tx_viewD(4) [OF d(1)] F by (force simp: ran_def)
        ultimately show ?thesis using agree_old [OF d(2) F] lists_disjoint [OF D(3) _ l _ aC(1)] by blast
      qed
      with d(4) del F a(2) U show False by (auto simp: dels_ok_def)
    qed
    with aC V have aV: "a \<in> set V" by (simp add: view_ok_def)
    obtain ys where ys: "V = head_of s l # ys" using V path_head by (fastforce simp: view_ok_def)
    have "distinct (map (nkey ?h) (tl V))" using V by (auto simp: view_ok_def intro: sorted_chain_distinct)
    with aV aC(2) m a(2) ys have "a = m" by (auto simp: distinct_map inj_on_def)
    with a(3) x m(4) l show ?thesis by (simp add: vval_def maps_of_def)
  qed
qed

lemma not_readonly:
  assumes "thread_ok L A hds h C t st tr"
  shows "thread_ok L A hds h C (t\<lparr>readOnly := False\<rparr>) st tr"
proof -
  have "doomed h (t\<lparr>readOnly := False\<rparr>) st = doomed h t st" by (simp add: doomed_def)
  with assms show ?thesis by (fastforce simp: thread_ok_def valid_def)
qed

definition put_found :: "addr \<Rightarrow> val_t \<Rightarrow> 'ix state \<Rightarrow> local_storage" where
  "put_found m v s = emplaceReadSet m (putIntoWriteSet m (vnext (heap s) (ws s) m) (Some v)
     (case ws s m of Some w \<Rightarrow> we_deleted w | None \<Rightarrow> False) (ls s))"

lemma put_TX_eq:
  assumes "find_node i l k (s\<lparr>lt := (lt s)\<lparr>readOnly := False\<rparr>\<rparr>) = (Ok (found, p, c), s1)"
    and "\<And>m. c = Some m \<Longrightarrow> heap s1 m \<noteq> None" and "found \<Longrightarrow> c \<noteq> None"
  shows "put_TX i l k v s =
    (if found then (Ok (m_val (the (heap s1 (the c)))), s1\<lparr>ls := put_found (the c) v s1\<rparr>)
     else insert_new_node l k v p c s1)"
proof (cases found)
  case True
  with assms(2,3) obtain m md where "c = Some m" "heap s1 m = Some md" by fastforce
  with True assms(1) show ?thesis
    by (auto simp: put_TX_def run_simps modifyLT_def modifyLS_def put_found_def vnext_def
        split: option.splits)
qed (use assms(1) in \<open>auto simp: put_TX_def run_simps modifyLT_def\<close>)

lemma put_TX_run:
  assumes sh0: "shared_ok L A C s0" and th0: "running L A C s0 tr" and l: "l \<in> L"
  shows "method_ok L A C s0 (\<lambda>x. tr @ [(Put l k v, Value x)]) (put_TX i l k v s0)"
proof -
  define s where "s = s0\<lparr>lt := (lt s0)\<lparr>readOnly := False\<rparr>\<rparr>"
  have sh: "shared_ok L A C s" by (rule shared_ok_cong [OF sh0]) (simp_all add: s_def)
  have th: "running L A C s tr" using not_readonly [OF th0] by (simp add: s_def)
  let ?tr = "\<lambda>x. tr @ [(Put l k v, Value x)]" and ?M = "maps_of L (heap s) C"
  from sh th l have "method_ok L A C s ?tr (put_TX i l k v s0)"
  proof (cases rule: find_place [where k = k])
    case (abort s1)
    then have "put_TX i l k v s0 = (Throw TxAbortException, stop_tx s1)"
      by (simp add: put_TX_def run_simps modifyLT_def s_def)
    with method_ok_stop [OF sh abort(1) thread_reads(2) [OF th]] show ?thesis by simp
  next
    case (found s1 found p c)
    note se = found(1) and pl = found(3) and P = found(4) and sel = searched_sel [OF found(1)]
    note D = shared_okD [OF sh] and T = thread_reads [OF th]
    have cn: "heap s1 m \<noteq> None" if "c = Some m" for m
      using place_next(1) [OF sh th pl [unfolded that]] by (simp add: sel)
    have run: "put_TX i l k v s0 =
      (if found then (Ok (m_val (the (heap s1 (the c)))), s1\<lparr>ls := put_found (the c) v s1\<rparr>)
       else insert_new_node l k v p c s1)"
      by (rule put_TX_eq) (use found(2) cn pl in \<open>auto simp: s_def place_def\<close>)
    show ?thesis
    proof (cases found)
      case False
      have "trace_ok (?tr None) (read_upd l k (?M l k) U R) (log_upd l k (Some v) U)"
        if "trace_ok tr R U" "meets ?M R" "overlay (U l) (?M l) k = None" for R U
        by (rule trace_ok_Put [OF that(1,2)]) (use that(3) in \<open>auto simp: overlay_def\<close>)
      moreover have "place s l k False p c" using pl False by simp
      moreover have "\<not> readOnly (lt s)" by (simp add: s_def)
      ultimately have "method_ok L A C s ?tr (insert_new_node l k v p c s1)"
        using P by (intro insert_new_node_run [OF sh th l se])
      with False run show ?thesis by simp
    next
      case True
      with pl obtain m where c: "c = Some m" by (auto simp: place_def)
      obtain md where md: "heap s m = Some md" using cn [OF c] by (auto simp: sel)
      note pm = place_next [OF sh th pl [unfolded c]]
      let ?st = "put_found m v s"
      have wok: "ptr_ok (heap s) (heads L s) m (vnext (heap s) (ws s) m)"
        by (rule vnext_ok [OF D(1) T(1) pm(1)])
      have "thread_ok L A (head_of s) (heap s) C (lt s) ?st (?tr (m_val md))"
      proof (rule thread_ok_step [OF th])
        show "ws_ok (heads L s) (heap s) (map_of (writeSet ?st))"
          using ws_ok_upd [OF T(1) pm(1) wok] pm(2) by (simp add: put_found_def)
        fix F U R
        assume v: "valid L A (head_of s) (heap s) C (lt s) (ls s) tr F U R"
        obtain V where V: "view_ok (head_of s) (heap s) (ws s) F (new_nodes (ls s)) U C l V"
          by (rule valid_view [OF v D(3) l])
        note pv = place_view(3) [OF sh th l pl v V P [OF v V] True]
        from pv c have m: "m \<in> set V" "m \<noteq> head_of s l" "nkey (heap s) m = k"
          and ov: "overlay (U l) (?M l) k \<noteq> None" by auto
        have "m \<notin> wdels (ws s)" using V m(1) by (auto simp: view_ok_def)
        then have st: "?st = emplaceReadSet m
            (putIntoWriteSet m (vnext (heap s) (ws s) m) (Some v) False (ls s))"
          by (auto simp: put_found_def wdels_def split: option.splits)
        note hv = view_heap_value [OF sh l v V m md]
        have "trace_ok (?tr (m_val md)) (read_upd l k (?M l k) U R) (log_upd l k (Some v) U)"
          by (rule trace_ok_Put [OF validD(6) [OF v] valid_meets [OF v D(3)]]) (use ov hv in auto)
        moreover have "\<not> readOnly (lt s)" by (simp add: s_def)
        ultimately show "\<exists>F' U' R'. valid L A (head_of s) (heap s) C (lt s) ?st (?tr (m_val md)) F' U' R'"
          unfolding st using valid_update [OF v D(3) l V m md] by blast
      qed (use T md in \<open>auto simp: put_found_def\<close>)
      then have "method_ok L A C s ?tr (Ok (m_val md), s1\<lparr>ls := ?st\<rparr>)"
        by (intro method_ok_return [OF sh se]) (simp_all add: sel put_found_def)
      with run True c md show ?thesis by (simp add: sel put_found_def)
    qed
  qed
  then show ?thesis unfolding s_def by (rule method_ok_from) simp_all
qed

lemma putIfAbsent_TX_eq:
  assumes "find_node i l k (s\<lparr>lt := (lt s)\<lparr>readOnly := False\<rparr>\<rparr>) = (Ok (found, p, c), s1)"
    and "\<And>m. c = Some m \<Longrightarrow> heap s1 m \<noteq> None" and "found \<Longrightarrow> c \<noteq> None"
  shows "putIfAbsent_TX i l k v s =
    (if found then (Ok (m_val (the (heap s1 (the c)))), s1\<lparr>ls := emplaceReadSet (the c) (ls s1)\<rparr>)
     else insert_new_node l k v p c s1)"
proof (cases found)
  case True
  with assms(2,3) obtain m md where "c = Some m" "heap s1 m = Some md" by fastforce
  with True assms(1) show ?thesis
    by (auto simp: putIfAbsent_TX_def run_simps modifyLT_def modifyLS_def)
qed (use assms(1) in \<open>auto simp: putIfAbsent_TX_def run_simps modifyLT_def\<close>)

lemma putIfAbsent_TX_run:
  assumes sh0: "shared_ok L A C s0" and th0: "running L A C s0 tr" and l: "l \<in> L"
  shows "method_ok L A C s0 (\<lambda>x. tr @ [(PutIfAbsent l k v, Value x)]) (putIfAbsent_TX i l k v s0)"
proof -
  define s where "s = s0\<lparr>lt := (lt s0)\<lparr>readOnly := False\<rparr>\<rparr>"
  have sh: "shared_ok L A C s" by (rule shared_ok_cong [OF sh0]) (simp_all add: s_def)
  have th: "running L A C s tr" using not_readonly [OF th0] by (simp add: s_def)
  let ?tr = "\<lambda>x. tr @ [(PutIfAbsent l k v, Value x)]" and ?M = "maps_of L (heap s) C"
  from sh th l have "method_ok L A C s ?tr (putIfAbsent_TX i l k v s0)"
  proof (cases rule: find_place [where k = k])
    case (abort s1)
    then have "putIfAbsent_TX i l k v s0 = (Throw TxAbortException, stop_tx s1)"
      by (simp add: putIfAbsent_TX_def run_simps modifyLT_def s_def)
    with method_ok_stop [OF sh abort(1) thread_reads(2) [OF th]] show ?thesis by simp
  next
    case (found s1 found p c)
    note se = found(1) and pl = found(3) and P = found(4) and sel = searched_sel [OF found(1)]
    note D = shared_okD [OF sh] and T = thread_reads [OF th]
    have cn: "heap s1 m \<noteq> None" if "c = Some m" for m
      using place_next(1) [OF sh th pl [unfolded that]] by (simp add: sel)
    have run: "putIfAbsent_TX i l k v s0 =
      (if found then (Ok (m_val (the (heap s1 (the c)))), s1\<lparr>ls := emplaceReadSet (the c) (ls s1)\<rparr>)
       else insert_new_node l k v p c s1)"
      by (rule putIfAbsent_TX_eq) (use found(2) cn pl in \<open>auto simp: s_def place_def\<close>)
    show ?thesis
    proof (cases found)
      case False
      have "trace_ok (?tr None) (read_upd l k (?M l k) U R) (log_upd l k (Some v) U)"
        if "trace_ok tr R U" "meets ?M R" "overlay (U l) (?M l) k = None" for R U
        using that by (rule trace_ok_PutIfAbsent)
      moreover have "place s l k False p c" using pl False by simp
      moreover have "\<not> readOnly (lt s)" by (simp add: s_def)
      ultimately have "method_ok L A C s ?tr (insert_new_node l k v p c s1)"
        using P by (intro insert_new_node_run [OF sh th l se])
      with False run show ?thesis by simp
    next
      case True
      with pl obtain m where c: "c = Some m" by (auto simp: place_def)
      obtain md where md: "heap s m = Some md" using cn [OF c] by (auto simp: sel)
      have "thread_ok L A (head_of s) (heap s) C (lt s) (emplaceReadSet m (ls s)) (?tr (m_val md))"
      proof (rule thread_ok_step [OF th])
        fix F U R
        assume v: "valid L A (head_of s) (heap s) C (lt s) (ls s) tr F U R"
        obtain V where V: "view_ok (head_of s) (heap s) (ws s) F (new_nodes (ls s)) U C l V"
          by (rule valid_view [OF v D(3) l])
        note pv = place_view(3) [OF sh th l pl v V P [OF v V] True]
        from pv c have m: "m \<in> set V" "m \<noteq> head_of s l" "nkey (heap s) m = k"
          and ov: "overlay (U l) (?M l) k \<noteq> None" by auto
        note hv = view_heap_value [OF sh l v V m md]
        have "trace_ok (?tr (m_val md)) (read_upd l k (?M l k) U R) U"
          by (rule trace_ok_PutIfAbsent_found [OF validD(6) [OF v] valid_meets [OF v D(3)] ov])
            (use hv in auto)
        with valid_read_found [OF v D(3) l V m md, of "lt s"]
        show "\<exists>F' U' R'. valid L A (head_of s) (heap s) C (lt s) (emplaceReadSet m (ls s))
            (?tr (m_val md)) F' U' R'" by blast
      qed (use T md in auto)
      then have "method_ok L A C s ?tr (Ok (m_val md), s1\<lparr>ls := emplaceReadSet m (ls s)\<rparr>)"
        by (intro method_ok_return [OF sh se]) (simp_all add: sel)
      with run True c md show ?thesis by (simp add: sel)
    qed
  qed
  then show ?thesis unfolding s_def by (rule method_ok_from) simp_all
qed

section \<open>remove\<close>

definition remove_found :: "addr \<Rightarrow> addr \<Rightarrow> list_id \<Rightarrow> 'ix state \<Rightarrow> local_storage" where
  "remove_found p m l s = addToIndexRemove l m (emplaceReadSet m
     (putIntoWriteSet m None (vval (heap s) (ws s) m) True
       (putIntoWriteSet p (vnext (heap s) (ws s) m) (vval (heap s) (ws s) p) False
         (emplaceReadSet p (ls s)))))"

text \<open>The order of its steps: \<open>pred\<close> is read first, so an abort leaves it in the read set.\<close>

lemma remove_TX_eq:
  assumes "find_node i l k (s\<lparr>lt := (lt s)\<lparr>readOnly := False\<rparr>\<rparr>) = (Ok (found, p, c), s1)"
    and "heap s1 p \<noteq> None" and "\<And>m. c = Some m \<Longrightarrow> heap s1 m \<noteq> None \<and> m \<noteq> p"
    and "found \<Longrightarrow> c \<noteq> None"
    and "heap_ok H (heap s1) (next_addr s1)" and "ws_ok H (heap s1) (ws s1)"
  shows "\<not> found \<Longrightarrow> remove_TX i l k s = (Ok None, s1\<lparr>ls := emplaceReadSet p (ls s1)\<rparr>)"
    and "found \<Longrightarrow> c = Some m \<Longrightarrow>
      remove_TX i l k s = (Throw TxAbortException, stop_tx (s1\<lparr>ls := emplaceReadSet p (ls s1)\<rparr>)) \<or>
      remove_TX i l k s = (Ok (vval (heap s1) (ws s1) m), s1\<lparr>ls := remove_found p m l s1\<rparr>)"
proof -
  show "remove_TX i l k s = (Ok None, s1\<lparr>ls := emplaceReadSet p (ls s1)\<rparr>)" if "\<not> found"
    using that assms(1) by (auto simp: remove_TX_def run_simps modifyLT_def modifyLS_def)
  assume f: "found" "c = Some m"
  let ?s = "s1\<lparr>ls := emplaceReadSet p (ls s1)\<rparr>"
  have run: "remove_TX i l k s = bindE (getNext m) (\<lambda>mnext. bindE (getVal p) (\<lambda>pval.
      thenE (modifyLS (putIntoWriteSet p mnext pval False))
     (bindE (getVal m) (\<lambda>mval.
      thenE (modifyLS (putIntoWriteSet m None mval True))
     (thenE (modifyLS (emplaceReadSet m))
     (thenE (modifyLS (addToIndexRemove l m))
     (bindE (findWriteSet m) (\<lambda>we.
      case we of
        Some w \<Rightarrow> returnE (we_val w)
      | None \<Rightarrow> bindE (derefE (Some m)) (\<lambda>nd. returnE (m_val nd)))))))))) ?s"
    using f assms(1) by (simp add: remove_TX_def run_simps modifyLT_def modifyLS_def)
  have m: "heap ?s m \<noteq> None" "m \<noteq> p" using assms(3) [OF f(2)] by auto
  from getNext_run [of H ?s m] assms(5,6) m
  have gn: "getNext m ?s = (Throw TxAbortException, stop_tx ?s) \<or>
      getNext m ?s = (Ok (vnext (heap s1) (ws s1) m), ?s)" by simp
  then show "remove_TX i l k s = (Throw TxAbortException, stop_tx ?s) \<or>
      remove_TX i l k s = (Ok (vval (heap s1) (ws s1) m), s1\<lparr>ls := remove_found p m l s1\<rparr>)"
  proof
    assume "getNext m ?s = (Throw TxAbortException, stop_tx ?s)"
    then show ?thesis by (simp add: run run_simps)
  next
    assume ok: "getNext m ?s = (Ok (vnext (heap s1) (ws s1) m), ?s)"
    have "getVal m (s1\<lparr>ls := st\<rparr>) = (Ok (vval (heap s1) (map_of (writeSet st)) m), s1\<lparr>ls := st\<rparr>)" for st
      using getVal_run [of "s1\<lparr>ls := st\<rparr>" m] m by simp
    moreover have "getVal p ?s = (Ok (vval (heap s1) (ws s1) p), ?s)"
      using getVal_run [of ?s p] assms(2) by simp
    moreover have "vval (heap s1) ((ws s1)(p \<mapsto> w)) m = vval (heap s1) (ws s1) m" for w
      using m(2) by (simp add: vval_def)
    ultimately show ?thesis using ok by (simp add: run run_simps modifyLS_def remove_found_def)
  qed
qed

lemma remove_TX_run:
  assumes sh0: "shared_ok L A C s0" and th0: "running L A C s0 tr" and l: "l \<in> L"
  shows "method_ok L A C s0 (\<lambda>x. tr @ [(Remove l k, Value x)]) (remove_TX i l k s0)"
proof -
  define s where "s = s0\<lparr>lt := (lt s0)\<lparr>readOnly := False\<rparr>\<rparr>"
  have sh: "shared_ok L A C s" by (rule shared_ok_cong [OF sh0]) (simp_all add: s_def)
  have th: "running L A C s tr" using not_readonly [OF th0] by (simp add: s_def)
  let ?tr = "\<lambda>x. tr @ [(Remove l k, Value x)]" and ?M = "maps_of L (heap s) C"
  note D = shared_okD [OF sh] and T = thread_reads [OF th]
  from sh th l have "method_ok L A C s ?tr (remove_TX i l k s0)"
  proof (cases rule: find_place [where k = k])
    case (abort s1)
    then have "remove_TX i l k s0 = (Throw TxAbortException, stop_tx s1)"
      by (simp add: remove_TX_def run_simps modifyLT_def s_def)
    with method_ok_stop [OF sh abort(1) T(2)] show ?thesis by simp
  next
    case (found s1 found p c)
    note se = found(1) and pl = found(3) and P = found(4) and sel = searched_sel [OF found(1)]
    obtain pd where pd: "heap s p = Some pd" using pl by (auto simp: place_def)
    have cn: "heap s m \<noteq> None \<and> m \<noteq> p" if "c = Some m" for m
      using place_next [OF sh th pl [unfolded that]] by (auto dest: ptr_okD)
    have "find_node i l k (s0\<lparr>lt := (lt s0)\<lparr>readOnly := False\<rparr>\<rparr>) = (Ok (found, p, c), s1)"
      using found(2) by (simp add: s_def)
    note runs = remove_TX_eq [OF this, where H = "heads L s", unfolded sel, OF _ cn _ D(1) T(1)]
    have rs: "s1\<lparr>ls := remove_found p m l s1\<rparr> = s1\<lparr>ls := remove_found p m l s\<rparr>" for m
      by (simp add: remove_found_def sel)
    show ?thesis
    proof (cases found)
      case False
      have run: "remove_TX i l k s0 = (Ok None, s1\<lparr>ls := emplaceReadSet p (ls s)\<rparr>)"
        by (rule runs(1)) (use pd pl False in \<open>auto simp: place_def\<close>)
      have "thread_ok L A (head_of s) (heap s) C (lt s) (emplaceReadSet p (ls s)) (?tr None)"
      proof (rule thread_ok_step [OF th])
        fix F U R
        assume v: "valid L A (head_of s) (heap s) C (lt s) (ls s) tr F U R"
        obtain V where V: "view_ok (head_of s) (heap s) (ws s) F (new_nodes (ls s)) U C l V"
          by (rule valid_view [OF v D(3) l])
        note pv = place_view [OF sh th l pl v V P [OF v V]]
        have tr: "trace_ok (?tr None) (read_upd l k (?M l k) U R) U"
          by (rule trace_ok_Remove_absent [OF validD(6) [OF v] valid_meets [OF v D(3)]])
            (use pv(1) False in simp)
        have "valid L A (head_of s) (heap s) C (lt s) (emplaceReadSet p (ls s)) (?tr None)
            (fp_add p l pd F) U (read_upd l k (?M l k) U R)"
          by (rule valid_read_absent [OF v D(3) l V P [OF v V] _ pd _ _ tr])
            (use pl pv(2) False in \<open>auto simp: place_def\<close>)
        then show "\<exists>F' U' R'. valid L A (head_of s) (heap s) C (lt s) (emplaceReadSet p (ls s))
            (?tr None) F' U' R'" by blast
      qed (use T pd in auto)
      then show ?thesis unfolding run
        by (intro method_ok_return [OF sh se]) (simp_all add: sel)
    next
      case True
      with pl obtain m where c: "c = Some m" by (auto simp: place_def)
      obtain md where md: "heap s m = Some md" using cn [OF c] by auto
      note pm = place_next [OF sh th pl [unfolded c]]
      let ?st = "remove_found p m l s"
      have "remove_TX i l k s0 = (Throw TxAbortException, stop_tx (s1\<lparr>ls := emplaceReadSet p (ls s)\<rparr>)) \<or>
        remove_TX i l k s0 = (Ok (vval (heap s) (ws s) m), s1\<lparr>ls := ?st\<rparr>)"
        unfolding rs [symmetric] by (rule runs(2)) (use pd True c in auto)
      then show ?thesis
      proof
        assume run: "remove_TX i l k s0 =
          (Throw TxAbortException, stop_tx (s1\<lparr>ls := emplaceReadSet p (ls s)\<rparr>))"
        show ?thesis unfolding run
          by (rule method_ok_abort [OF sh se]) (use T(2) in \<open>simp_all add: sel\<close>)
      next
        assume run: "remove_TX i l k s0 = (Ok (vval (heap s) (ws s) m), s1\<lparr>ls := ?st\<rparr>)"
        have "thread_ok L A (head_of s) (heap s) C (lt s) ?st (?tr (vval (heap s) (ws s) m))"
        proof (rule thread_ok_step [OF th])
          have "ptr_ok (heap s) (heads L s) p (vnext (heap s) (ws s) m)"
            by (rule ptr_ok_skip [OF pm(3) vnext_ok [OF D(1) T(1) pm(1)]])
          with ws_ok_upd [OF ws_ok_upd [OF T(1)] pm(1), of p _ False None True] pd pm(2)
          show "ws_ok (heads L s) (heap s) (map_of (writeSet ?st))"
            by (simp add: remove_found_def ptr_ok_def [of _ _ _ None])
          fix F U R
          assume v: "valid L A (head_of s) (heap s) C (lt s) (ls s) tr F U R"
          obtain V where V: "view_ok (head_of s) (heap s) (ws s) F (new_nodes (ls s)) U C l V"
            by (rule valid_view [OF v D(3) l])
          note pv = place_view(3) [OF sh th l pl v V P [OF v V] True]
          have tr: "trace_ok (?tr (vval (heap s) (ws s) m)) (read_upd l k (?M l k) U R) (log_upd l k None U)"
            by (rule trace_ok_Remove [OF validD(6) [OF v] valid_meets [OF v D(3)]]) (use pv c in auto)
          have "vnext (heap s) (ws s) p = Some m" and "\<not> readOnly (lt s)" and "set (C l) \<subseteq> A l"
            using pl c D(4) [OF l] by (auto simp: place_def s_def)
          then have "valid L A (head_of s) (heap s) C (lt s) ?st (?tr (vval (heap s) (ws s) m))
              (fp_add m l md (fp_add p l pd F)) (log_upd l k None U) (read_upd l k (?M l k) U R)"
            unfolding remove_found_def
            by (intro valid_delete [OF v D(3) l _ V P [OF v V] _ pd md _ _ _ tr]) (use pv c in auto)
          then show "\<exists>F' U' R'. valid L A (head_of s) (heap s) C (lt s) ?st
              (?tr (vval (heap s) (ws s) m)) F' U' R'" by blast
        qed (use T l pd md in \<open>auto simp: remove_found_def\<close>)
        then show ?thesis unfolding run
          by (intro method_ok_return [OF sh se]) (simp_all add: sel remove_found_def)
      qed
    qed
  qed
  then show ?thesis unfolding s_def by (rule method_ok_from) simp_all
qed

end

end
