(* ===== verification/TxCommit.thy ===== *)
theory TxCommit
  imports TxMethods
begin

text \<open>
  \<open>TXend\<close>: locking, validation, publication, unlocking and the update of the index, each
  phase reduced to what it does to the heap; then the two outcomes. A transaction with a read-set
  node newer than its read version aborts and leaves the heap as it was; every other one commits.
\<close>

section \<open>Locking and unlocking\<close>

definition map_words :: "(u64 \<Rightarrow> u64) \<Rightarrow> addr set \<Rightarrow> (addr \<Rightarrow> lnode option) \<Rightarrow> addr \<Rightarrow> lnode option" where
  "map_words f S h a =
     (if a \<in> S then map_option (\<lambda>n. n\<lparr>m_version_mask := f (m_version_mask n)\<rparr>) (h a) else h a)"

abbreviation lock_word :: "u64 \<Rightarrow> u64" where
  "lock_word w \<equiv> w OR LOCK_MASK"

abbreviation unlock_word :: "u64 \<Rightarrow> u64" where
  "unlock_word w \<equiv> w AND NOT LOCK_MASK"

lemma map_words_empty [simp]: "map_words f {} h = h"
  by (simp add: map_words_def fun_eq_iff)

lemma map_words_insert:
  "a \<notin> S \<Longrightarrow> map_words f S (map_words f {a} h) = map_words f (insert a S) h"
  by (auto simp: map_words_def fun_eq_iff)

lemma map_words_single:
  "h a = Some n \<Longrightarrow> map_words f {a} h = h(a \<mapsto> n\<lparr>m_version_mask := f (m_version_mask n)\<rparr>)"
  by (auto simp: map_words_def fun_eq_iff)

lemma updE_run: "heap s a = Some n \<Longrightarrow> updE a f s = (Ok (), s\<lparr>heap := (heap s)(a \<mapsto> f n)\<rparr>)"
  by (simp add: updE_def run_simps)

lemma writeWord_run:
  "heap s a = Some n \<Longrightarrow> f (m_version_mask n) = Ok w \<Longrightarrow>
   writeWord a f s = (Ok (), s\<lparr>heap := (heap s)(a \<mapsto> n\<lparr>m_version_mask := w\<rparr>)\<rparr>)"
  by (simp add: writeWord_def run_simps updE_run)

lemma node_tryLock_run:
  assumes "heap s a = Some n" and "\<not> isLocked (m_version_mask n)"
  shows "node_tryLock a s = (Ok True, s\<lparr>heap := map_words lock_word {a} (heap s)\<rparr>)"
  using assms by (simp add: node_tryLock_def run_simps updE_run tryLock_eq map_words_single)

lemma node_unlock_run:
  assumes "heap s a = Some n" and "isLocked (m_version_mask n)"
  shows "node_unlock a s = (Ok (), s\<lparr>heap := map_words unlock_word {a} (heap s)\<rparr>)"
  using assms by (simp add: node_unlock_def writeWord_run unlock_eq map_words_single)

lemma lockWriteSet_run:
  assumes "distinct (map fst ps)" and "fst ` set ps \<inter> set acc = {}" and "distinct acc"
    and "\<And>a. a \<in> fst ` set ps \<Longrightarrow> \<exists>n. heap s a = Some n \<and> \<not> isLocked (m_version_mask n)"
  shows "\<exists>locked. lockWriteSet ps acc s =
      (Ok (False, locked), s\<lparr>heap := map_words lock_word (fst ` set ps) (heap s)\<rparr>) \<and>
    distinct locked \<and> set locked = fst ` set ps \<union> set acc"
  using assms
proof (induction ps arbitrary: acc s)
  case Nil
  then show ?case by (simp add: run_simps)
next
  case (Cons p ps)
  from Cons.prems(4) [of "fst p"]
  obtain n where n: "heap s (fst p) = Some n" "\<not> isLocked (m_version_mask n)" by auto
  let ?s = "s\<lparr>heap := map_words lock_word {fst p} (heap s)\<rparr>"
  have ins: "List.insert (fst p) acc = fst p # acc" using Cons.prems(2) by simp
  have "\<exists>locked. lockWriteSet ps (fst p # acc) ?s =
      (Ok (False, locked), ?s\<lparr>heap := map_words lock_word (fst ` set ps) (heap ?s)\<rparr>) \<and>
    distinct locked \<and> set locked = fst ` set ps \<union> set (fst p # acc)"
  proof (rule Cons.IH)
    show "distinct (map fst ps)" using Cons.prems(1) by simp
    show "fst ` set ps \<inter> set (fst p # acc) = {}" and "distinct (fst p # acc)"
      using Cons.prems(1-3) by auto
    show "\<exists>n. heap ?s a = Some n \<and> \<not> isLocked (m_version_mask n)" if a: "a \<in> fst ` set ps" for a
    proof -
      have "fst p \<notin> fst ` set ps" using Cons.prems(1) by simp
      with a have "a \<noteq> fst p" by blast
      with a Cons.prems(4) [of a] show ?thesis by (simp add: map_words_def)
    qed
  qed
  moreover have "fst p \<notin> fst ` set ps" using Cons.prems(1) by simp
  ultimately show ?case
    using node_tryLock_run [OF n] ins by (auto simp: run_simps map_words_insert)
qed

lemma unlock_run:
  assumes "distinct as"
    and "\<And>a. a \<in> set as \<Longrightarrow> \<exists>n. heap s a = Some n \<and> isLocked (m_version_mask n)"
  shows "forE as node_unlock s = (Ok (), s\<lparr>heap := map_words unlock_word (set as) (heap s)\<rparr>)"
  using assms
proof (induction as arbitrary: s)
  case Nil
  then show ?case by (simp add: run_simps)
next
  case (Cons a as)
  then obtain n where n: "heap s a = Some n" "isLocked (m_version_mask n)" by fastforce
  let ?s = "s\<lparr>heap := map_words unlock_word {a} (heap s)\<rparr>"
  have "forE as node_unlock ?s = (Ok (), ?s\<lparr>heap := map_words unlock_word (set as) (heap ?s)\<rparr>)"
    by (rule Cons.IH) (use Cons.prems in \<open>auto simp: map_words_def\<close>)
  with node_unlock_run [OF n] Cons.prems(1) show ?case by (simp add: run_simps map_words_insert)
qed

text \<open>Unlocking after locking restores the heap.\<close>

lemma unlock_lock_heap:
  assumes "\<And>a n. a \<in> S \<Longrightarrow> h a = Some n \<Longrightarrow> \<not> isLocked (m_version_mask n)"
  shows "map_words unlock_word S (map_words lock_word S h) = h"
proof
  fix a
  show "map_words unlock_word S (map_words lock_word S h) a = h a"
    using assms by (cases "h a") (auto simp: map_words_def unlock_lock_id)
qed

section \<open>Validation\<close>

lemma validateReadSet_run:
  assumes "\<And>a. a \<in> set as \<Longrightarrow> \<exists>n. heap s a = Some n \<and> (a \<in> set locked \<or> \<not> isLocked (m_version_mask n)) \<and>
      \<not> isSingleton (m_version_mask n)"
  shows "validateReadSet locked as s =
    (Ok (\<exists>a\<in>set as. \<exists>n. heap s a = Some n \<and> readVersion (lt s) < getVersion (m_version_mask n)), s)"
  using assms
proof (induction as)
  case Nil
  then show ?case by (simp add: run_simps)
next
  case (Cons a as)
  then obtain n where n: "heap s a = Some n" "a \<in> set locked \<or> \<not> isLocked (m_version_mask n)"
    "\<not> isSingleton (m_version_mask n)" by fastforce
  with Cons show ?case by (auto simp: run_simps)
qed

section \<open>Publication\<close>

definition committed :: "u64 \<Rightarrow> write_element \<Rightarrow> lnode \<Rightarrow> lnode \<Rightarrow> bool" where
  "committed wv we n n' \<longleftrightarrow>
     m_key n' = m_key n \<and> m_next n' = we_next we \<and>
     m_val n' = (if we_deleted we then None else we_val we) \<and> w_deleted n' = w_deleted n \<and>
     isDeleted (m_version_mask n') = (we_deleted we \<or> isDeleted (m_version_mask n)) \<and>
     \<not> isSingleton (m_version_mask n') \<and> getVersion (m_version_mask n') = getVersion wv"

lemma setter_Ok:
  assumes "isLocked w"
  obtains w1 where "setDeleted b w = Ok w1" "isLocked w1" "isDeleted w1 = b"
  using assms setters_assert(1) [of b w] setters_keep_lock(1) [OF assms] fieldsD [OF setDeleted_fields]
  by fastforce

lemma setVersion_setSingleton:
  assumes "isLocked w"
  obtains w1 w2 where "setVersion v w = Ok w1" "setSingleton False w1 = Ok w2" "isLocked w2"
    "\<not> isSingleton w2" "isDeleted w2 = isDeleted w" "getVersion w2 = getVersion v"
proof -
  obtain w1 where w1: "setVersion v w = Ok w1" using setters_assert(3) [of v w] assms by auto
  note f1 = fieldsD [OF setVersion_fields [OF w1]]
  have l1: "isLocked w1" using f1 assms by simp
  then have w2: "setSingleton False w1 = Ok (setSingletonNoLockAssert False w1)"
    by (rule locked_word_setters)
  show ?thesis
    by (rule that [OF w1 w2]) (use fieldsD [OF setSingletonNoLockAssert_fields [of False w1]] f1 assms in simp_all)
qed

lemma commitNode_run:
  assumes "heap s a = Some n" and "isLocked (m_version_mask n)"
  obtains n' where "commitNode wv (a, we) s = (Ok (), s\<lparr>heap := (heap s)(a \<mapsto> n')\<rparr>)"
    and "committed wv we n n'" and "isLocked (m_version_mask n')"
proof (cases "we_deleted we")
  case True
  obtain w where w: "setDeleted True (m_version_mask n) = Ok w" "isLocked w" "isDeleted w = True"
    by (rule setter_Ok [OF assms(2)])
  obtain w1 w2 where w12: "setVersion wv w = Ok w1" "setSingleton False w1 = Ok w2" "isLocked w2"
    "\<not> isSingleton w2" "isDeleted w2 = isDeleted w" "getVersion w2 = getVersion wv"
    by (rule setVersion_setSingleton [OF w(2)])
  show ?thesis
    by (rule that [of "n\<lparr>m_next := we_next we, m_val := None, m_version_mask := w2\<rparr>"])
      (use True w w12 assms in \<open>auto simp: commitNode_def Let_def run_simps updE_run writeWord_run committed_def\<close>)
next
  case False
  obtain w1 w2 where w12: "setVersion wv (m_version_mask n) = Ok w1" "setSingleton False w1 = Ok w2"
    "isLocked w2" "\<not> isSingleton w2" "isDeleted w2 = isDeleted (m_version_mask n)"
    "getVersion w2 = getVersion wv"
    by (rule setVersion_setSingleton [OF assms(2)])
  show ?thesis
    by (rule that [of "n\<lparr>m_next := we_next we, m_val := we_val we, m_version_mask := w2\<rparr>"])
      (use False w12 assms in \<open>auto simp: commitNode_def Let_def run_simps updE_run writeWord_run committed_def\<close>)
qed

lemma commit_all_run:
  assumes "distinct (map fst ps)"
    and "\<And>a. a \<in> fst ` set ps \<Longrightarrow> \<exists>n. heap s a = Some n \<and> isLocked (m_version_mask n)"
  shows "\<exists>h'. forE ps (commitNode wv) s = (Ok (), s\<lparr>heap := h'\<rparr>) \<and>
    (\<forall>a. case map_of ps a of
       None \<Rightarrow> h' a = heap s a
     | Some we \<Rightarrow> \<exists>n n'. heap s a = Some n \<and> h' a = Some n' \<and> committed wv we n n' \<and>
         isLocked (m_version_mask n'))"
  using assms
proof (induction ps arbitrary: s)
  case Nil
  show ?case by (rule exI [of _ "heap s"]) (simp add: run_simps)
next
  case (Cons p ps)
  obtain a we where p: "p = (a, we)" by (cases p)
  from Cons.prems(2) [of a] p obtain n where n: "heap s a = Some n" "isLocked (m_version_mask n)" by auto
  obtain n' where n': "commitNode wv (a, we) s = (Ok (), s\<lparr>heap := (heap s)(a \<mapsto> n')\<rparr>)"
    "committed wv we n n'" "isLocked (m_version_mask n')"
    by (rule commitNode_run [OF n])
  let ?s = "s\<lparr>heap := (heap s)(a \<mapsto> n')\<rparr>"
  have notin: "a \<notin> fst ` set ps" using Cons.prems(1) p by simp
  have "\<exists>h'. forE ps (commitNode wv) ?s = (Ok (), ?s\<lparr>heap := h'\<rparr>) \<and>
    (\<forall>b. case map_of ps b of
       None \<Rightarrow> h' b = heap ?s b
     | Some we \<Rightarrow> \<exists>n n'. heap ?s b = Some n \<and> h' b = Some n' \<and> committed wv we n n' \<and>
         isLocked (m_version_mask n'))"
    by (rule Cons.IH) (use Cons.prems notin p in auto)
  then obtain h' where run: "forE ps (commitNode wv) ?s = (Ok (), ?s\<lparr>heap := h'\<rparr>)" and
    h': "\<And>b. case map_of ps b of
       None \<Rightarrow> h' b = heap ?s b
     | Some we \<Rightarrow> \<exists>n n'. heap ?s b = Some n \<and> h' b = Some n' \<and> committed wv we n n' \<and>
         isLocked (m_version_mask n')" by blast
  have none: "map_of ps a = None" using notin by (simp add: map_of_eq_None_iff)
  have "case map_of (p # ps) b of
       None \<Rightarrow> h' b = heap s b
     | Some we \<Rightarrow> \<exists>n n'. heap s b = Some n \<and> h' b = Some n' \<and> committed wv we n n' \<and>
         isLocked (m_version_mask n')" for b
    using h' [of b] h' [of a] none n n' p by (cases "b = a") (auto split: option.splits)
  moreover have "forE (p # ps) (commitNode wv) s = (Ok (), s\<lparr>heap := h'\<rparr>)"
    using run n'(1) p by (simp add: run_simps)
  ultimately show ?case by blast
qed

section \<open>The heap after a commit\<close>

text \<open>
  \<open>commits wv W h h'\<close>: the heap before and after a committed transaction with write set \<open>W\<close>.
  It is a publication of the write set that stamps what it changes with the new version.
\<close>

definition commits ::
  "u64 \<Rightarrow> (addr \<Rightarrow> write_element option) \<Rightarrow> (addr \<Rightarrow> lnode option) \<Rightarrow> (addr \<Rightarrow> lnode option) \<Rightarrow> bool" where
  "commits wv W h h' \<longleftrightarrow>
     (\<forall>a. case W a of
        None \<Rightarrow> h' a = h a
      | Some we \<Rightarrow> \<exists>n n'. h a = Some n \<and> h' a = Some n' \<and> committed wv we n n' \<and>
          \<not> isLocked (m_version_mask n'))"

lemma commits_other: "commits wv W h h' \<Longrightarrow> W a = None \<Longrightarrow> h' a = h a"
  by (drule iffD1 [OF commits_def, THEN spec, of _ _ _ _ a]) simp

lemma commits_node:
  assumes "commits wv W h h'" and "W a = Some we"
  obtains n n' where "h a = Some n" "h' a = Some n'" "committed wv we n n'" "\<not> isLocked (m_version_mask n')"
  using assms(1) [unfolded commits_def, THEN spec, of a] assms(2) by auto

lemma commits_published: "commits wv W h h' \<Longrightarrow> published h W h'"
  unfolding published_def
proof
  fix a
  assume c: "commits wv W h h'"
  show "case h a of
        None \<Rightarrow> h' a = None
      | Some n \<Rightarrow> (\<exists>n'. h' a = Some n' \<and> m_key n' = m_key n \<and>
          (case W a of
             None \<Rightarrow> m_next n' = m_next n \<and> m_val n' = m_val n \<and>
                isDeleted (m_version_mask n') = isDeleted (m_version_mask n)
           | Some we \<Rightarrow> m_next n' = we_next we \<and>
                m_val n' = (if we_deleted we then None else we_val we) \<and>
                isDeleted (m_version_mask n') = (we_deleted we \<or> isDeleted (m_version_mask n))))"
  proof (cases "W a")
    case None
    with commits_other [OF c] show ?thesis by (auto split: option.splits)
  next
    case (Some we)
    from c Some obtain n n' where "h a = Some n" "h' a = Some n'" "committed wv we n n'"
      by (rule commits_node)
    with Some show ?thesis by (simp add: committed_def)
  qed
qed

lemma commits_later:
  assumes "commits wv W h h'"
  shows "later h h'" and "later h' h" and "dom h' = dom h"
proof -
  have "\<exists>n'. h' a = Some n' \<and> m_key n' = m_key n" if "h a = Some n" for a n
    using commits_published [OF assms, unfolded published_def, THEN spec, of a] that by auto
  then show "later h h'" by (simp add: later_def)
  have "\<exists>n. h a = Some n \<and> m_key n = m_key n'" if "h' a = Some n'" for a n'
    using commits_published [OF assms, unfolded published_def, THEN spec, of a] that
    by (auto split: option.splits)
  then show "later h' h" by (simp add: later_def)
  then have "dom h' \<subseteq> dom h" by (fastforce simp: later_def)
  moreover have "dom h \<subseteq> dom h'" using \<open>later h h'\<close> by (fastforce simp: later_def)
  ultimately show "dom h' = dom h" by blast
qed

lemma commits_heap_ok:
  assumes c: "commits wv W h h'" and ok: "heap_ok H h nx" and ws: "ws_ok H h W"
  shows "heap_ok H h' nx"
proof -
  note d = heap_okD [OF ok] and l = commits_later [OF c]
  have "ptr_ok h' H a (m_next n') \<and> \<not> isLocked (m_version_mask n') \<and>
      \<not> isSingleton (m_version_mask n') \<and> \<not> w_deleted n'" if n': "h' a = Some n'" for a n'
  proof (cases "W a")
    case None
    with commits_other [OF c] n' have n: "h a = Some n'" by simp
    with d(3-6) [OF n] ptr_ok_later [OF d(3) [OF n] l(1)] show ?thesis by simp
  next
    case (Some we)
    from c Some obtain n m where n: "h a = Some n" "h' a = Some m" "committed wv we n m"
      "\<not> isLocked (m_version_mask m)" by (rule commits_node)
    with d(6) [OF n(1)] ptr_ok_later [OF ws_okD(2) [OF ws Some] l(1)] n' show ?thesis
      by (simp add: committed_def)
  qed
  with d(1,2) l(3) show ?thesis by (simp add: heap_ok_def)
qed

text \<open>The publication under the locks, then the unlocking.\<close>

lemma commits_unlock:
  assumes "\<And>a. case W a of
       None \<Rightarrow> h' a = map_words lock_word (dom W) h a
     | Some we \<Rightarrow> \<exists>n n'. map_words lock_word (dom W) h a = Some n \<and> h' a = Some n' \<and>
         committed wv we n n' \<and> isLocked (m_version_mask n')"
  shows "commits wv W h (map_words unlock_word (dom W) h')"
  unfolding commits_def
proof
  fix a
  show "case W a of
        None \<Rightarrow> map_words unlock_word (dom W) h' a = h a
      | Some we \<Rightarrow> \<exists>n n'. h a = Some n \<and> map_words unlock_word (dom W) h' a = Some n' \<and>
          committed wv we n n' \<and> \<not> isLocked (m_version_mask n')"
  proof (cases "W a")
    case None
    with assms [of a] show ?thesis by (simp add: map_words_def dom_def)
  next
    case (Some we)
    with assms [of a] obtain n n' where n: "map_words lock_word (dom W) h a = Some n" "h' a = Some n'"
      "committed wv we n n'" by auto
    from n(1) Some obtain m where "h a = Some m" "n = m\<lparr>m_version_mask := lock_word (m_version_mask m)\<rparr>"
      by (auto simp: map_words_def dom_def)
    with Some n(2,3) show ?thesis by (auto simp: map_words_def dom_def committed_def lock_word_simps)
  qed
qed

lemma forE_Cons_Ok: "f x s = (Ok u, s1) \<Longrightarrow> forE (x # xs) f s = forE xs f s1"
  by (simp add: thenE_eval)

section \<open>The index\<close>

text \<open>\<open>index_only\<close>: nothing but the indices, the random seed and the retired nodes differ.\<close>

definition index_only :: "'ix state \<Rightarrow> 'ix state \<Rightarrow> bool" where
  "index_only s s' \<longleftrightarrow> heap s' = heap s \<and> next_addr s' = next_addr s \<and> gvc s' = gvc s \<and>
     lt s' = lt s \<and> ls s' = ls s \<and> (\<forall>l. head_of s' l = head_of s l)"

lemma index_only_refl [simp]: "index_only s s"
  by (simp add: index_only_def)

lemma index_only_trans: "index_only s s' \<Longrightarrow> index_only s' s'' \<Longrightarrow> index_only s s''"
  by (simp add: index_only_def)

lemma retire_node_run:
  assumes "heap s a = Some n" and "\<not> w_deleted n"
  shows "retire_node a s = (Ok (), s\<lparr>retired := retired s @ [a]\<rparr>)"
proof -
  have "n\<lparr>w_deleted := False\<rparr> = n" using assms(2) by simp
  then show ?thesis
    using assms by (simp add: retire_node_def delete_wrapped_node_def run_simps updE_run fun_upd_idem)
qed

lemma retire_all_run:
  assumes "\<And>a. a \<in> set as \<Longrightarrow> \<exists>n. heap s a = Some n \<and> \<not> w_deleted n"
  shows "forE as retire_node s = (Ok (), s\<lparr>retired := retired s @ as\<rparr>)"
  using assms
proof (induction as arbitrary: s)
  case (Cons a as)
  then obtain n where n: "heap s a = Some n" "\<not> w_deleted n" by fastforce
  have "forE as retire_node (s\<lparr>retired := retired s @ [a]\<rparr>) =
      (Ok (), (s\<lparr>retired := retired s @ [a]\<rparr>)\<lparr>retired := (retired s @ [a]) @ as\<rparr>)"
    using Cons.IH [of "s\<lparr>retired := retired s @ [a]\<rparr>"] Cons.prems by simp
  with retire_node_run [OF n] show ?case by (simp add: run_simps)
qed (simp add: run_simps)

context list_index
begin

definition indexed :: "list_id set \<Rightarrow> (list_id \<Rightarrow> addr set) \<Rightarrow> 'ix state \<Rightarrow> bool" where
  "indexed L A s \<longleftrightarrow> flags_clear (heap s) \<and> (\<forall>l\<in>L. ix_inv (heap s) (head_of s l) (A l) (ll_index (lists s l)) \<and>
     live (heap s) (head_of s l))"

lemma index_add_step:
  assumes "indexed L A s" and "l \<in> L" and "heap s a \<noteq> None" and "a \<notin> A l"
  shows "\<exists>s'. index_add i l a s = (Ok (), s') \<and> index_only s s' \<and>
    indexed L (A(l := insert a (A l))) s'"
proof -
  have pre: "ix_inv (heap s) (head_of s l) (A l) (ll_index (lists s l))" "flags_clear (heap s)"
    "live (heap s) (head_of s l)"
    using assms(1,2) by (auto simp: indexed_def)
  obtain r' ix' where run: "index_add i l a s = (Ok (), (set_index l ix' s)\<lparr>rng := r'\<rparr>)"
    and inv: "ix_inv (heap s) (head_of s l) (insert a (A l)) ix'"
    by (rule index_add_run [OF pre assms(3,4)])
  let ?s = "(set_index l ix' s)\<lparr>rng := r'\<rparr>"
  have "index_only s ?s" by (simp add: index_only_def)
  moreover have "indexed L (A(l := insert a (A l))) ?s"
    using assms(1) inv by (auto simp: indexed_def ll_index_set_index)
  ultimately show ?thesis using run by blast
qed

lemma index_add_nodes:
  assumes "indexed L A s" and "l \<in> L" and "distinct as" and "set as \<inter> A l = {}"
    and "\<And>a. a \<in> set as \<Longrightarrow> heap s a \<noteq> None"
  shows "\<exists>s'. forE as (index_add i l) s = (Ok (), s') \<and> index_only s s' \<and>
    indexed L (A(l := A l \<union> set as)) s'"
  using assms
proof (induction as arbitrary: s A)
  case Nil
  then show ?case by (auto simp: run_simps)
next
  case (Cons a as)
  obtain s1 where s1: "index_add i l a s = (Ok (), s1)" "index_only s s1"
    "indexed L (A(l := insert a (A l))) s1"
    using index_add_step [OF Cons.prems(1,2), of a] Cons.prems(4,5) by auto
  let ?A = "A(l := insert a (A l))"
  have hs: "heap s1 = heap s" using s1(2) by (simp add: index_only_def)
  have "set as \<inter> ?A l = {}" and "distinct as" using Cons.prems(3,4) by auto
  moreover have "heap s1 b \<noteq> None" if "b \<in> set as" for b using Cons.prems(5) that hs by simp
  ultimately obtain s2 where s2: "forE as (index_add i l) s1 = (Ok (), s2)" "index_only s1 s2"
    "indexed L (?A(l := ?A l \<union> set as)) s2"
    using Cons.IH [OF s1(3) Cons.prems(2)] by blast
  have eq: "?A(l := ?A l \<union> set as) = A(l := A l \<union> set (a # as))" by (auto simp: fun_eq_iff)
  have "forE (a # as) (index_add i l) s = (Ok (), s2)" using forE_Cons_Ok [of "index_add i l", OF s1(1)] s2(1) by simp
  with s2(3) index_only_trans [OF s1(2) s2(2)] show ?case unfolding eq by blast
qed

lemma index_add_lists:
  assumes "indexed L A s" and "fst ` set ps \<subseteq> L" and "distinct (map fst ps)"
    and "\<And>l as. (l, as) \<in> set ps \<Longrightarrow> distinct as \<and> set as \<inter> A l = {} \<and> (\<forall>a\<in>set as. heap s a \<noteq> None)"
  shows "\<exists>s'. forE ps (\<lambda>(l, nodes). forE nodes (\<lambda>node. index_add i l node)) s = (Ok (), s') \<and>
    index_only s s' \<and>
    indexed L (\<lambda>l. A l \<union> set (case map_of ps l of None \<Rightarrow> [] | Some as \<Rightarrow> as)) s'"
  using assms
proof (induction ps arbitrary: s A)
  case Nil
  then show ?case by (auto simp: run_simps)
next
  case (Cons p ps)
  obtain l as where p: "p = (l, as)" by (cases p)
  from Cons.prems(4) [of l as] p have as: "distinct as" "set as \<inter> A l = {}"
    "\<And>a. a \<in> set as \<Longrightarrow> heap s a \<noteq> None" by auto
  have lL: "l \<in> L" using Cons.prems(2) p by simp
  obtain s1 where s1: "forE as (index_add i l) s = (Ok (), s1)" "index_only s s1"
    "indexed L (A(l := A l \<union> set as)) s1"
    using index_add_nodes [OF Cons.prems(1) lL as] by blast
  let ?A = "A(l := A l \<union> set as)"
  have notin: "l \<notin> fst ` set ps" using Cons.prems(3) p by simp
  have hs: "heap s1 = heap s" using s1(2) by (simp add: index_only_def)
  have "fst ` set ps \<subseteq> L" and "distinct (map fst ps)" using Cons.prems(2,3) by auto
  moreover have "distinct bs \<and> set bs \<inter> ?A j = {} \<and> (\<forall>a\<in>set bs. heap s1 a \<noteq> None)"
    if "(j, bs) \<in> set ps" for j bs
  proof -
    have "j \<noteq> l" using that notin by force
    with Cons.prems(4) [of j bs] that hs show ?thesis by simp
  qed
  ultimately obtain s2 where s2:
    "forE ps (\<lambda>(l, nodes). forE nodes (\<lambda>node. index_add i l node)) s1 = (Ok (), s2)" "index_only s1 s2"
    "indexed L (\<lambda>l. ?A l \<union> set (case map_of ps l of None \<Rightarrow> [] | Some as \<Rightarrow> as)) s2"
    using Cons.IH [OF s1(3)] by blast
  have "(\<lambda>j. ?A j \<union> set (case map_of ps j of None \<Rightarrow> [] | Some as \<Rightarrow> as)) =
      (\<lambda>j. A j \<union> set (case map_of (p # ps) j of None \<Rightarrow> [] | Some as \<Rightarrow> as))"
    using notin p by (auto simp: fun_eq_iff map_of_eq_None_iff [THEN iffD2])
  with s1(1) s2 index_only_trans [OF s1(2) s2(2)] p show ?case by (auto simp: run_simps)
qed

lemma index_remove_nodes:
  assumes "indexed L A s" and "l \<in> L" and "set as \<subseteq> A l"
    and "\<And>a. a \<in> set as \<Longrightarrow> \<exists>n. heap s a = Some n \<and> \<not> w_deleted n"
  shows "\<exists>s'. forE as (\<lambda>node. thenE (index_remove i l node) (retire_node node)) s = (Ok (), s') \<and>
    index_only s s' \<and> indexed L A s'"
  using assms
proof (induction as arbitrary: s)
  case Nil
  then show ?case by (auto simp: run_simps)
next
  case (Cons a as)
  have pre: "ix_inv (heap s) (head_of s l) (A l) (ll_index (lists s l))" "flags_clear (heap s)"
    "live (heap s) (head_of s l)"
    "a \<in> A l" using Cons.prems(1-3) by (auto simp: indexed_def)
  obtain ix' where run: "index_remove i l a s = (Ok (), set_index l ix' s)"
    and inv: "ix_inv (heap s) (head_of s l) (A l) ix'"
    by (rule index_remove_run [OF pre])
  obtain n where n: "heap s a = Some n" "\<not> w_deleted n" using Cons.prems(4) [of a] by auto
  let ?s = "(set_index l ix' s)\<lparr>retired := retired s @ [a]\<rparr>"
  have step: "thenE (index_remove i l a) (retire_node a) s = (Ok (), ?s)"
    using run n retire_node_run [of "set_index l ix' s" a n] by (simp add: run_simps)
  have s1: "index_only s ?s" by (simp add: index_only_def)
  have "indexed L A ?s" using Cons.prems(1) inv by (auto simp: indexed_def ll_index_set_index)
  then obtain s2 where s2:
    "forE as (\<lambda>node. thenE (index_remove i l node) (retire_node node)) ?s = (Ok (), s2)"
    "index_only ?s s2" "indexed L A s2"
    using Cons.IH [of ?s] Cons.prems(2-4) by auto
  have run2: "forE (a # as) (\<lambda>node. thenE (index_remove i l node) (retire_node node)) s = (Ok (), s2)"
    using forE_Cons_Ok [of "\<lambda>node. thenE (index_remove i l node) (retire_node node)", OF step] s2(1)
    by simp
  with s2(3) index_only_trans [OF s1 s2(2)] show ?case by blast
qed

lemma index_remove_lists:
  assumes "indexed L A s" and "fst ` set ps \<subseteq> L"
    and "\<And>l as a. (l, as) \<in> set ps \<Longrightarrow> a \<in> set as \<Longrightarrow>
      a \<in> A l \<and> (\<exists>n. heap s a = Some n \<and> \<not> w_deleted n)"
  shows "\<exists>s'. forE ps (\<lambda>(l, nodes). forE nodes (\<lambda>node.
      thenE (index_remove i l node) (retire_node node))) s = (Ok (), s') \<and>
    index_only s s' \<and> indexed L A s'"
  using assms
proof (induction ps arbitrary: s)
  case Nil
  then show ?case by (auto simp: run_simps)
next
  case (Cons p ps)
  obtain l as where p: "p = (l, as)" by (cases p)
  have lL: "l \<in> L" and sub: "set as \<subseteq> A l" using Cons.prems(2,3) p by auto
  have al: "\<exists>n. heap s a = Some n \<and> \<not> w_deleted n" if "a \<in> set as" for a
    using Cons.prems(3) p that by auto
  obtain s1 where s1: "forE as (\<lambda>node. thenE (index_remove i l node) (retire_node node)) s = (Ok (), s1)"
    "index_only s s1" "indexed L A s1"
    using index_remove_nodes [OF Cons.prems(1) lL sub al] by blast
  have hs: "heap s1 = heap s" using s1(2) by (simp add: index_only_def)
  obtain s2 where s2: "forE ps (\<lambda>(l, nodes). forE nodes (\<lambda>node.
      thenE (index_remove i l node) (retire_node node))) s1 = (Ok (), s2)"
    "index_only s1 s2" "indexed L A s2"
  proof -
    have "fst ` set ps \<subseteq> L" using Cons.prems(2) by simp
    moreover have "a \<in> A l \<and> (\<exists>n. heap s1 a = Some n \<and> \<not> w_deleted n)"
      if "(l, as) \<in> set ps" "a \<in> set as" for l as a
      using Cons.prems(3) [of l as a] that hs by simp
    ultimately show thesis using Cons.IH [OF s1(3)] that by blast
  qed
  have "forE (p # ps) (\<lambda>(l, nodes). forE nodes (\<lambda>node.
      thenE (index_remove i l node) (retire_node node))) s = (Ok (), s2)"
    using forE_Cons_Ok [of "\<lambda>(l, nodes). forE nodes (\<lambda>node.
      thenE (index_remove i l node) (retire_node node))" p s "()" s1 ps] s1(1) s2(1) p by simp
  with s2(3) index_only_trans [OF s1(2) s2(2)] show ?case by blast
qed

text \<open>The whole update: the new nodes are added, then the removed ones are unlinked and retired.\<close>

lemma updateIndex_run:
  assumes ix: "indexed L A s" and tab: "tables_ok L (ls s)"
    and add: "\<And>l. distinct (adds (ls s) l) \<and> set (adds (ls s) l) \<inter> A l = {} \<and>
      (\<forall>a\<in>set (adds (ls s) l). heap s a \<noteq> None)"
    and rem: "\<And>l a. a \<in> set (rems (ls s) l) \<Longrightarrow>
      a \<in> A l \<union> set (adds (ls s) l) \<and> (\<exists>n. heap s a = Some n \<and> \<not> w_deleted n)"
  shows "\<exists>s'. updateIndex i s = (Ok (), s') \<and> index_only s s' \<and>
    indexed L (\<lambda>l. A l \<union> set (adds (ls s) l)) s'"
proof -
  have mem: "map_of ps l = Some as" if "(l, as) \<in> set ps" "distinct (map fst ps)" for l as and ps :: "(list_id \<times> addr list) list"
    using that by simp
  have adds: "adds (ls s) l = as" if "(l, as) \<in> set (indexAdd (ls s))" for l as
    using mem [OF that] tab by (simp add: adds_def tables_ok_def)
  have rems: "rems (ls s) l = as" if "(l, as) \<in> set (indexRemove (ls s))" for l as
    using mem [OF that] tab by (simp add: rems_def tables_ok_def)
  obtain s1 where s1: "forE (indexAdd (ls s)) (\<lambda>(l, nodes). forE nodes (\<lambda>node. index_add i l node)) s = (Ok (), s1)"
    "index_only s s1" "indexed L (\<lambda>l. A l \<union> set (adds (ls s) l)) s1"
  proof -
    have "\<exists>s'. forE (indexAdd (ls s)) (\<lambda>(l, nodes). forE nodes (\<lambda>node. index_add i l node)) s = (Ok (), s') \<and>
      index_only s s' \<and>
      indexed L (\<lambda>l. A l \<union> set (case map_of (indexAdd (ls s)) l of None \<Rightarrow> [] | Some as \<Rightarrow> as)) s'"
    proof (rule index_add_lists [OF ix])
      show "distinct as \<and> set as \<inter> A l = {} \<and> (\<forall>a\<in>set as. heap s a \<noteq> None)"
        if "(l, as) \<in> set (indexAdd (ls s))" for l as
        using add [of l] adds [OF that] by simp
    qed (use tab in \<open>auto simp: tables_ok_def\<close>)
    then show thesis using that unfolding adds_def by blast
  qed
  have sel: "heap s1 = heap s" "ls s1 = ls s" using s1(2) by (auto simp: index_only_def)
  have "\<exists>s'. forE (indexRemove (ls s)) (\<lambda>(l, nodes). forE nodes (\<lambda>node.
      thenE (index_remove i l node) (retire_node node))) s1 = (Ok (), s') \<and>
    index_only s1 s' \<and> indexed L (\<lambda>l. A l \<union> set (adds (ls s) l)) s'"
  proof (rule index_remove_lists [OF s1(3)])
    show "a \<in> A l \<union> set (adds (ls s) l) \<and> (\<exists>n. heap s1 a = Some n \<and> \<not> w_deleted n)"
      if "(l, as) \<in> set (indexRemove (ls s))" "a \<in> set as" for l as a
      using rem [of a l] rems [OF that(1)] that(2) sel by simp
  qed (use tab in \<open>auto simp: tables_ok_def\<close>)
  then obtain s2 where "forE (indexRemove (ls s)) (\<lambda>(l, nodes). forE nodes (\<lambda>node.
      thenE (index_remove i l node) (retire_node node))) s1 = (Ok (), s2)"
    "index_only s1 s2" "indexed L (\<lambda>l. A l \<union> set (adds (ls s) l)) s2" by blast
  with s1 index_only_trans [OF s1(2)] show ?thesis by (auto simp: updateIndex_def run_simps)
qed

section \<open>TXend\<close>

lemma clear_storage_eq: "clear_storage st = initial_storage"
  by (simp add: clear_storage_def initial_storage_def)

lemma lock_phase:
  assumes sh: "shared_ok L A C s" and th: "running L A C s tr" and tx: "TX (lt s)"
  obtains locked where "distinct locked" and "set locked = dom (ws s)"
    and "TXend i s =
      (let bad = doomed (heap s) (lt s) (ls s) in
       thenE (commitWrites bad)
        (thenE (forE locked node_unlock)
        (bindE (getsE (\<lambda>s. readOnly (lt s))) (\<lambda>ro.
         thenE (if \<not> bad \<and> \<not> ro then updateIndex i else returnE ())
        (thenE cleanup
         (if bad then throwE TxAbortException else returnE True)))))
       (s\<lparr>heap := map_words lock_word (dom (ws s)) (heap s)\<rparr>))"
proof -
  note D = shared_okD [OF sh] and T = thread_reads [OF th]
  let ?W = "writeSet (ls s)"
  have dW: "fst ` set ?W = dom (ws s)" by (simp add: dom_map_of_conv_image_fst)
  have alloc: "\<exists>n. heap s a = Some n \<and> \<not> isLocked (m_version_mask n)" if "a \<in> fst ` set ?W" for a
  proof -
    from that dW obtain we where "ws s a = Some we" by auto
    then obtain n where "heap s a = Some n" using ws_okD(1) [OF T(1)] by blast
    with heap_okD(4) [OF D(1)] show ?thesis by blast
  qed
  have "distinct (map fst ?W)" using T(2) by (simp add: tables_ok_def)
  from lockWriteSet_run [OF this, of "[]" s] alloc dW
  obtain locked where lk: "lockWriteSet ?W [] s =
      (Ok (False, locked), s\<lparr>heap := map_words lock_word (dom (ws s)) (heap s)\<rparr>)"
    "distinct locked" "set locked = dom (ws s)" by auto
  let ?s = "s\<lparr>heap := map_words lock_word (dom (ws s)) (heap s)\<rparr>"
  have node: "\<exists>m. heap ?s a = Some m \<and> getVersion (m_version_mask m) = getVersion (m_version_mask n) \<and>
      (a \<in> set locked \<or> \<not> isLocked (m_version_mask m)) \<and> \<not> isSingleton (m_version_mask m)"
    if "heap s a = Some n" for a n
    using that heap_okD(4,5) [OF D(1) that] lk(3) by (auto simp: map_words_def lock_word_simps)
  have "validateReadSet locked (readSet (ls s)) ?s =
    (Ok (\<exists>a\<in>set (readSet (ls s)). \<exists>n. heap ?s a = Some n \<and>
       readVersion (lt ?s) < getVersion (m_version_mask n)), ?s)"
    by (rule validateReadSet_run) (use T(3) node in blast)
  moreover have "(\<exists>a\<in>set (readSet (ls s)). \<exists>n. heap ?s a = Some n \<and>
       readVersion (lt ?s) < getVersion (m_version_mask n)) = doomed (heap s) (lt s) (ls s)"
  proof -
    have "(\<exists>n. heap ?s a = Some n \<and> readVersion (lt ?s) < getVersion (m_version_mask n)) =
      (\<exists>n. heap s a = Some n \<and> readVersion (lt s) < getVersion (m_version_mask n))" for a
      by (cases "heap s a") (auto simp: map_words_def lock_word_simps)
    then show ?thesis by (simp add: doomed_def)
  qed
  ultimately have val: "validateReadSet locked (readSet (ls s)) ?s =
    (Ok (doomed (heap s) (lt s) (ls s)), ?s)" by simp
  show ?thesis
    by (rule that [OF lk(2,3)]) (simp add: TXend_def bindE_eval getsE_apply tx lk(1) val Let_def)
qed

lemma TXend_abort:
  assumes sh: "shared_ok L A C s" and th: "running L A C s tr" and tx: "TX (lt s)"
    and doom: "doomed (heap s) (lt s) (ls s)"
  shows "TXend i s = (Throw TxAbortException,
    s\<lparr>ls := initial_storage, lt := (lt s)\<lparr>TX := False, readOnly := True\<rparr>\<rparr>)"
proof -
  note D = shared_okD [OF sh] and T = thread_reads [OF th]
  let ?s = "s\<lparr>heap := map_words lock_word (dom (ws s)) (heap s)\<rparr>"
  obtain locked where lk: "distinct locked" "set locked = dom (ws s)"
    and run: "TXend i s =
      (let bad = doomed (heap s) (lt s) (ls s) in
       thenE (commitWrites bad)
        (thenE (forE locked node_unlock)
        (bindE (getsE (\<lambda>s. readOnly (lt s))) (\<lambda>ro.
         thenE (if \<not> bad \<and> \<not> ro then updateIndex i else returnE ())
        (thenE cleanup
         (if bad then throwE TxAbortException else returnE True))))) ?s)"
    by (rule lock_phase [OF sh th tx])
  have alloc: "\<exists>n. heap s a = Some n \<and> \<not> isLocked (m_version_mask n)" if "a \<in> dom (ws s)" for a
    using that ws_okD(1) [OF T(1)] heap_okD(4) [OF D(1)] by blast
  have "forE locked node_unlock ?s = (Ok (), ?s\<lparr>heap := map_words unlock_word (set locked) (heap ?s)\<rparr>)"
    by (rule unlock_run [OF lk(1)]) (use alloc lk(2) in \<open>force simp: map_words_def lock_word_simps\<close>)
  moreover have "map_words unlock_word (dom (ws s)) (map_words lock_word (dom (ws s)) (heap s)) = heap s"
    by (rule unlock_lock_heap) (use alloc in fastforce)
  ultimately have un: "forE locked node_unlock ?s = (Ok (), s)" by (simp add: lk(2))
  show ?thesis unfolding run
    by (simp add: doom run_simps commitWrites_def un cleanup_def modifyLS_def modifyLT_def clear_storage_eq
        del: forE.simps)
qed

lemma clock_fits:
  assumes "v < (2 :: u64) ^ 60"
  shows "getVersion v = v"
proof -
  have "take_bit 60 v = v" using assms by (simp add: less_mask_eq take_bit_eq_mask)
  then have "\<not> bit v n" if "60 \<le> n" for n using that by (metis bit_take_bit_iff leD)
  then show ?thesis by (intro bit_word_eqI) auto
qed

lemma clock_step:
  assumes "v < (2 :: u64) ^ 60"
  shows "v < v + 1"
proof -
  have "unat v < 2 ^ 60" using assms by (simp add: word_less_nat_alt)
  then have "unat (v + 1) = unat v + 1" by (simp add: unat_word_ariths)
  then show ?thesis by (simp add: word_less_nat_alt)
qed

text \<open>The commit phase, for a transaction that is not read-only.\<close>

lemma TXend_publish:
  assumes sh: "shared_ok L A C s" and th: "running L A C s tr" and tx: "TX (lt s)"
    and good: "\<not> doomed (heap s) (lt s) (ls s)" and ro: "\<not> readOnly (lt s)"
    and clock: "readVersion (lt s) \<le> gvc s" "gvc s + 1 < 2 ^ 60"
  obtains h' where "commits (gvc s + 1) (ws s) (heap s) h'"
    and "TXend i s = thenE (updateIndex i) (thenE cleanup (returnE True))
      (s\<lparr>gvc := gvc s + 1, lt := (lt s)\<lparr>writeVersion := gvc s + 1\<rparr>, heap := h'\<rparr>)"
proof -
  note D = shared_okD [OF sh] and T = thread_reads [OF th]
  let ?W = "writeSet (ls s)" and ?wv = "gvc s + 1"
  let ?s = "s\<lparr>heap := map_words lock_word (dom (ws s)) (heap s)\<rparr>"
  let ?t = "?s\<lparr>gvc := ?wv, lt := (lt s)\<lparr>writeVersion := ?wv\<rparr>\<rparr>"
  obtain locked where lk: "distinct locked" "set locked = dom (ws s)"
    and run: "TXend i s =
      (let bad = doomed (heap s) (lt s) (ls s) in
       thenE (commitWrites bad)
        (thenE (forE locked node_unlock)
        (bindE (getsE (\<lambda>s. readOnly (lt s))) (\<lambda>ro.
         thenE (if \<not> bad \<and> \<not> ro then updateIndex i else returnE ())
        (thenE cleanup
         (if bad then throwE TxAbortException else returnE True))))) ?s)"
    by (rule lock_phase [OF sh th tx])
  have dW: "fst ` set ?W = dom (ws s)" by (simp add: dom_map_of_conv_image_fst)
  have alloc: "\<exists>n. heap ?t a = Some n \<and> isLocked (m_version_mask n)" if "a \<in> dom (ws s)" for a
  proof -
    from that obtain n where "heap s a = Some n" using ws_okD(1) [OF T(1)] by blast
    with that show ?thesis by (simp add: map_words_def lock_word_simps)
  qed
  have "distinct (map fst ?W)" using T(2) by (simp add: tables_ok_def)
  from commit_all_run [OF this, of ?t ?wv] alloc dW
  obtain h1 where pub: "forE ?W (commitNode ?wv) ?t = (Ok (), ?t\<lparr>heap := h1\<rparr>)"
    and h1: "\<And>a. case ws s a of
       None \<Rightarrow> h1 a = heap ?t a
     | Some we \<Rightarrow> \<exists>n n'. heap ?t a = Some n \<and> h1 a = Some n' \<and> committed ?wv we n n' \<and>
         isLocked (m_version_mask n')" by blast
  let ?h = "map_words unlock_word (dom (ws s)) h1"
  have hp: "heap ?t = map_words lock_word (dom (ws s)) (heap s)" by simp
  have com: "commits ?wv (ws s) (heap s) ?h" by (rule commits_unlock) (rule h1 [unfolded hp])
  have "\<exists>n. h1 a = Some n \<and> isLocked (m_version_mask n)" if "a \<in> set locked" for a
    using h1 [of a] that lk(2) by auto
  then have un: "forE locked node_unlock (?t\<lparr>heap := h1\<rparr>) = (Ok (), ?t\<lparr>heap := ?h\<rparr>)"
    using unlock_run [OF lk(1), of "?t\<lparr>heap := h1\<rparr>"] lk(2) by simp
  have lt: "readVersion (lt s) < ?wv"
  proof -
    have "gvc s < ?wv" using D(7) by (rule clock_step)
    with clock(1) show ?thesis by (rule le_less_trans)
  qed
  have cw: "commitWrites False ?s = (Ok (), ?t\<lparr>heap := h1\<rparr>)"
    using pub lt ro by (simp add: commitWrites_def incrementAndGetVersion_def modifyLT_def run_simps del: forE.simps)
  show ?thesis
  proof (rule that [OF com])
    show "TXend i s = thenE (updateIndex i) (thenE cleanup (returnE True))
      (s\<lparr>gvc := ?wv, lt := (lt s)\<lparr>writeVersion := ?wv\<rparr>, heap := ?h\<rparr>)"
      unfolding run Let_def using good ro
      by (simp add: thenE_Ok [of "commitWrites False", OF cw]
          thenE_Ok [of "forE locked node_unlock", OF un [simplified]] bindE_Ok [of "getsE f" for f, OF getsE_apply])
  qed
qed

text \<open>The nodes of a valid transaction, against the nodes of the lists.\<close>

lemma valid_new_nodes:
  assumes sh: "shared_ok L A C s" and v: "valid L A (head_of s) (heap s) C t st tr F U R"
    and l: "l \<in> L"
  shows "new_nodes st \<inter> A l = {}"
proof -
  have False if a: "a \<in> new_nodes st" "a \<in> A l" for a
  proof -
    have "live (heap s) a" using validD(3) [OF v] a(1) unfolding storage_ok_def live_def by blast
    with a(2) shared_okD(4) [OF sh l] have "a \<in> set (C l)" by blast
    moreover obtain j n where "F a = Some (j, n)"
      using tx_viewD(2) [OF validD(1) [OF v]] a(1) by auto
    ultimately show False using agree_new [OF validD(2) [OF v] _ a(1) l] by blast
  qed
  then show ?thesis by blast
qed

lemma valid_write_nodes:
  assumes sh: "shared_ok L A C s" and v: "valid L A (head_of s) (heap s) C t st tr F U R"
    and l: "l \<in> L" and a: "map_of (writeSet st) a \<noteq> None" "a \<in> A l"
  shows "a \<in> set (C l)"
proof -
  obtain j n where F: "F a = Some (j, n)" using tx_viewD(1) [OF validD(1) [OF v]] a(1) by auto
  have "a \<notin> new_nodes st" using valid_new_nodes [OF sh v l] a(2) by blast
  then have "a \<in> set (C j)" by (rule agree_old [OF validD(2) [OF v] F])
  moreover have "j \<in> L" using tx_viewD(4) [OF validD(1) [OF v]] F by (force simp: ran_def)
  ultimately have "live (heap s) a" using shared_okD(4) [OF sh] by blast
  with a(2) shared_okD(4) [OF sh l] show ?thesis by blast
qed

text \<open>The shared invariant after a commit.\<close>

lemma commit_shared:
  assumes sh: "shared_ok L A C s" and th: "running L A C s tr"
    and v: "valid L A (head_of s) (heap s) C (lt s) (ls s) tr F U R"
    and com: "commits (gvc s + 1) (ws s) (heap s) (heap s')"
    and s': "next_addr s' = next_addr s" "gvc s' = gvc s + 1" "\<And>l. head_of s' l = head_of s l"
    and ix: "indexed L (\<lambda>l. A l \<union> set (adds (ls s) l)) s'" and clock: "gvc s + 1 < 2 ^ 60"
  obtains C' where "shared_ok L (\<lambda>l. A l \<union> set (adds (ls s) l)) C' s'"
    and "\<And>l. l \<in> L \<Longrightarrow> set (C' l) = set (C l) \<union> set (adds (ls s) l) - wdels (ws s)"
    and "\<And>l. l \<in> L \<Longrightarrow> maps_of L (heap s') C' l = overlay (U l) (maps_of L (heap s) C l)"
proof -
  note D = shared_okD [OF sh] and T = thread_reads [OF th] and d = validD [OF v]
  let ?N = "new_nodes (ls s)" and ?W = "ws s" and ?h = "heap s" and ?h' = "heap s'"
  let ?A = "\<lambda>l. A l \<union> set (adds (ls s) l)"
  have own: "own F ?N l = set (adds (ls s) l)" for l using d(3) by (simp add: storage_ok_def)
  have zero: "\<exists>n. ?h a = Some n \<and> m_version_mask n = 0 \<and> m_val n \<noteq> None" if "a \<in> ?N" for a
    using d(3) that unfolding storage_ok_def by blast
  have nd0: "\<not> isDeleted 0" by (simp add: isDeleted_def)
  have new: "\<not> isDeleted (m_version_mask n)" if "a \<in> ?N" "?h a = Some n" for a n
    using zero [OF that(1)] that(2) nd0 by auto
  obtain C' where C': "lists_ok L (head_of s) ?h' C'"
    and setC: "\<And>l. l \<in> L \<Longrightarrow> set (C' l) = set (C l) \<union> own F ?N l - wdels ?W"
    and cont: "\<And>l. l \<in> L \<Longrightarrow> contents ?h' Map.empty (C' l) = overlay (U l) (contents ?h Map.empty (C l))"
    by (rule tx_view_publish [OF d(1) D(3) d(2) _ commits_published [OF com]]) (use new in blast)+
  have AN: "a \<in> ?N" if "a \<in> set (adds (ls s) l)" for a l using that by (auto simp: new_nodes_def)
  have live': "live ?h' a \<longleftrightarrow> a \<in> set (C' l)" if l: "l \<in> L" and a: "a \<in> ?A l" for l a
  proof
    assume "a \<in> set (C' l)"
    then show "live ?h' a" using C' l unfolding lists_ok_def live_def by blast
  next
    assume lv: "live ?h' a"
    have "a \<notin> wdels ?W"
    proof
      assume "a \<in> wdels ?W"
      then obtain we where we: "?W a = Some we" "we_deleted we" by (auto simp: wdels_def)
      from com we(1) obtain n n' where "?h' a = Some n'" "committed (gvc s + 1) we n n'"
        by (rule commits_node)
      with we lv show False by (simp add: live_def committed_def)
    qed
    moreover have "a \<in> set (C l) \<union> own F ?N l"
    proof (cases "a \<in> A l")
      case True
      show ?thesis
      proof (cases "?W a")
        case None
        with commits_other [OF com] lv have "live ?h a" by (simp add: live_def)
        with True D(4) [OF l] show ?thesis by blast
      next
        case (Some we)
        then show ?thesis using valid_write_nodes [OF sh v l _ True] by simp
      qed
    next
      case False
      with a own show ?thesis by simp
    qed
    ultimately show "a \<in> set (C' l)" using setC [OF l] by blast
  qed
  have subC: "set (C' l) \<subseteq> ?A l" if "l \<in> L" for l
    using setC [OF that] D(4) [OF that] own by auto
  have "index_ok L ?A s'"
    unfolding index_ok_def
  proof (intro ballI conjI allI impI)
    fix l assume l: "l \<in> L"
    show "ix_inv ?h' (head_of s' l) (?A l) (ll_index (lists s' l))" and "live ?h' (head_of s' l)"
      using ix l by (auto simp: indexed_def)
    show "head_of s' l \<in> ?A l" using D(2) l s'(3) by (simp add: index_ok_def)
    show "nkey ?h' (head_of s' l) = 0"
      using D(2) l s'(3) later_nkey [OF commits_later(1) [OF com]]
      by (auto simp: index_ok_def live_def)
    fix b n assume b: "b \<in> ?A l" "?h' b = Some n" "m_val n \<noteq> None"
    then have "b \<in> set (C' l)" using live' [OF l b(1)] by (auto simp: live_def)
    with C' l b(2) show "\<not> isDeleted (m_version_mask n)" unfolding lists_ok_def by fastforce
  qed
  moreover have "heap_ok (heads L s') ?h' (next_addr s')"
    using commits_heap_ok [OF com D(1) T(1)] s'(1,3) by simp
  moreover have "lists_ok L (head_of s') ?h' C'"
    using C' s'(3) by (simp add: lists_ok_def)
  moreover have "set (C' l) = {a \<in> ?A l. live ?h' a} \<and> ?A l \<subseteq> dom ?h'" if "l \<in> L" for l
  proof -
    have "?A l \<subseteq> dom ?h" using D(5) [OF that] AN T(4) by blast
    with commits_later(3) [OF com] live' [OF that] subC [OF that] show ?thesis by blast
  qed
  moreover have "getVersion (m_version_mask n) \<le> gvc s'" if n: "?h' a = Some n" for a n
  proof (cases "?W a")
    case None
    with commits_other [OF com] n D(6) [of a n] have "getVersion (m_version_mask n) \<le> gvc s" by simp
    also have "gvc s \<le> gvc s + 1" using clock_step [OF D(7)] by simp
    finally show ?thesis using s'(2) by simp
  next
    case (Some we)
    from com Some obtain m n' where "?h' a = Some n'" "committed (gvc s + 1) we m n'"
      by (rule commits_node)
    with n clock_fits [OF clock] s'(2) show ?thesis by (simp add: committed_def)
  qed
  ultimately have "shared_ok L ?A C' s'" using clock s'(2) by (simp add: shared_ok_def)
  moreover have "maps_of L ?h' C' l = overlay (U l) (maps_of L ?h C l)" if "l \<in> L" for l
    using cont [OF that] that by (simp add: maps_of_def fun_eq_iff)
  ultimately show ?thesis using that setC own by simp
qed

text \<open>
  Another transaction after the commit: if a node it has read was written, the new version dooms
  it; otherwise everything it relies on is as it was.
\<close>

lemma commit_doomed:
  assumes com: "commits wv W h h'" and rv: "readVersion t < getVersion wv"
    and old: "doomed h t st \<or> set (readSet st) \<inter> dom W \<noteq> {}"
  shows "doomed h' t st"
proof -
  have hit: "doomed h' t st" if "a \<in> set (readSet st)" "W a = Some we" for a we
  proof -
    from com that(2) obtain n n' where "h' a = Some n'" "committed wv we n n'" by (rule commits_node)
    then have "readVersion t < getVersion (m_version_mask n')" using rv by (simp add: committed_def)
    with that(1) \<open>h' a = Some n'\<close> show ?thesis unfolding doomed_def by blast
  qed
  show ?thesis
  proof (cases "set (readSet st) \<inter> dom W = {}")
    case True
    with old have d: "doomed h t st" by blast
    have "h' a = h a" if "a \<in> set (readSet st)" for a
    proof -
      have "a \<notin> dom W" using True that by blast
      then show ?thesis using commits_other [OF com] by (simp add: domIff)
    qed
    with d show ?thesis by (auto intro: doomed_mono)
  next
    case False
    with hit show ?thesis by blast
  qed
qed

lemma commit_other:
  assumes sh: "shared_ok L A C s"
    and v: "valid L A (head_of s) (heap s) C (lt s) (ls s) tr F U R"
    and com: "commits wv (ws s) (heap s) h'"
    and setC: "\<And>l. l \<in> L \<Longrightarrow> set (C' l) = set (C l) \<union> set (adds (ls s) l) - wdels (ws s)"
    and v2: "valid L A (head_of s) (heap s) C t st tr2 F2 U2 R2"
    and sep: "new_nodes st \<inter> new_nodes (ls s) = {}" and miss: "set (readSet st) \<inter> dom (ws s) = {}"
  shows "valid L (\<lambda>l. A l \<union> set (adds (ls s) l)) (head_of s) h' C' t st tr2 F2 U2 R2"
proof -
  note d = validD [OF v] and e = validD [OF v2]
  let ?N = "new_nodes st"
  have dF: "dom F2 = set (readSet st) \<union> ?N" using e(3) by (simp add: storage_ok_def)
  have WN: "a \<notin> dom (ws s)" if aN: "a \<in> ?N" for a
  proof
    assume "a \<in> dom (ws s)"
    then obtain j n where F: "F a = Some (j, n)" using tx_viewD(1) [OF d(1)] by auto
    have "a \<notin> new_nodes (ls s)" using sep aN by blast
    then have "a \<in> set (C j)" by (rule agree_old [OF d(2) F])
    moreover have "j \<in> L" using tx_viewD(4) [OF d(1)] F by (force simp: ran_def)
    moreover have "a \<in> dom F2" using dF aN by blast
    then obtain j' n' where "F2 a = Some (j', n')" by auto
    ultimately show False using agree_new [OF e(2) _ aN] by blast
  qed
  have same: "h' a = heap s a" if "a \<in> dom F2" for a
    using that dF miss WN commits_other [OF com, of a] by auto
  have agr: "agree L h' C' F2 ?N"
    unfolding agree_def
  proof (intro allI impI conjI)
    fix a l n assume F2: "F2 a = Some (l, n)"
    then have "h' a = heap s a" by (intro same) auto
    then show "\<exists>n'. h' a = Some n' \<and> same_content n n'" using agree_content [OF e(2) F2] by simp
    show "if a \<in> ?N then \<forall>l'\<in>L. a \<notin> set (C' l') else a \<in> set (C' l)"
    proof (cases "a \<in> ?N")
      case True
      then have "a \<notin> new_nodes (ls s)" using sep by blast
      then have "a \<notin> set (adds (ls s) l')" for l' by (auto simp: new_nodes_def)
      with True agree_new [OF e(2) F2 True] setC show ?thesis by auto
    next
      case False
      moreover have "l \<in> L" using tx_viewD(4) [OF e(1)] F2 by (force simp: ran_def)
      moreover have "a \<notin> wdels (ws s)" using wdels_dom miss False dF F2 by blast
      ultimately show ?thesis using agree_old [OF e(2) F2] setC by simp
    qed
  qed
  have lat: "later (heap s) h'" by (rule commits_later [OF com])
  have "storage_ok L (\<lambda>l. A l \<union> set (adds (ls s) l)) h' st F2"
  proof -
    have "h' a = heap s a" if "a \<in> ?N" for a using same dF that by blast
    with e(3) show ?thesis unfolding storage_ok_def by fastforce
  qed
  moreover have "dels_ok h' (map_of (writeSet st)) F2 U2"
    by (rule dels_ok_mono [OF e(4) map_le_refl lat tx_viewD(3) [OF e(1)] subset_refl])
      (use subset_trans [OF wdels_dom tx_viewD(1) [OF e(1)]] in auto)
  ultimately show ?thesis
    using agr tx_view_later [OF e(1) lat] reads_ok_later [OF e(5) lat] e(6-8) by (simp add: valid_def)
qed

lemma commit_thread:
  assumes sh: "shared_ok L A C s"
    and v: "valid L A (head_of s) (heap s) C (lt s) (ls s) tr F U R"
    and com: "commits wv (ws s) (heap s) h'"
    and setC: "\<And>l. l \<in> L \<Longrightarrow> set (C' l) = set (C l) \<union> set (adds (ls s) l) - wdels (ws s)"
    and th2: "thread_ok L A (head_of s) (heap s) C t st tr2"
    and sep: "new_nodes st \<inter> new_nodes (ls s) = {}" and rv: "readVersion t < getVersion wv"
  shows "thread_ok L (\<lambda>l. A l \<union> set (adds (ls s) l)) (head_of s) h' C' t st tr2"
proof -
  have "valid L (\<lambda>l. A l \<union> set (adds (ls s) l)) (head_of s) h' C' t st tr2 F2 U2 R2"
    if "valid L A (head_of s) (heap s) C t st tr2 F2 U2 R2" "set (readSet st) \<inter> dom (ws s) = {}"
    for F2 U2 R2
    using setC by (intro commit_other [OF sh v com _ that(1) sep that(2)])
  then have "doomed h' t st \<or> (\<exists>F U R. valid L (\<lambda>l. A l \<union> set (adds (ls s) l)) (head_of s) h' C' t st tr2 F U R)"
    using th2 commit_doomed [OF com rv, of st] unfolding thread_ok_def by blast
  moreover have "ws_ok (heads L s) h' (map_of (writeSet st))"
    using th2 ws_ok_later [OF _ commits_later(1) [OF com]] by (simp add: thread_ok_def)
  ultimately show ?thesis
    using th2 commits_later(3) [OF com] by (simp add: thread_ok_def)
qed

lemma commit_heads_live:
  assumes sh: "shared_ok L A C s" and th: "running L A C s tr"
    and v: "valid L A (head_of s) (heap s) C (lt s) (ls s) tr F U R"
    and com: "commits wv (ws s) (heap s) h'" and l: "l \<in> L"
  shows "live h' (head_of s l)"
proof -
  note D = shared_okD [OF sh]
  obtain V where V: "view_ok (head_of s) (heap s) (ws s) F (new_nodes (ls s)) U C l V"
    by (rule valid_view [OF v D(3) l])
  then have hV: "head_of s l \<in> set V" using path_head by (fastforce simp: view_ok_def)
  have nd: "head_of s l \<notin> wdels (ws s)" and val: "vval (heap s) (ws s) (head_of s l) \<noteq> None"
    using V hV by (auto simp: view_ok_def)
  have alloc: "heap s (head_of s l) \<noteq> None" using heap_okD(2) [OF D(1)] l by auto
  have "vval h' Map.empty (head_of s l) = vval (heap s) (ws s) (head_of s l)"
    by (rule published_vval [OF commits_published [OF com] alloc nd])
  with val show ?thesis by (auto simp: live_def vval_def split: option.splits)
qed

lemma commit_index:
  assumes sh: "shared_ok L A C s" and th: "running L A C s tr"
    and v: "valid L A (head_of s) (heap s) C (lt s) (ls s) tr F U R"
    and com: "commits wv (ws s) (heap s) (heap s1)"
    and s1: "lists s1 = lists s" "ls s1 = ls s"
  shows "\<exists>s'. updateIndex i s1 = (Ok (), s') \<and> index_only s1 s' \<and>
    indexed L (\<lambda>l. A l \<union> set (adds (ls s) l)) s'"
proof -
  note D = shared_okD [OF sh] and T = thread_reads [OF th] and d = validD [OF v]
  have lat: "later (heap s) (heap s1)" and domh: "dom (heap s1) = dom (heap s)"
    by (rule commits_later [OF com])+
  have hok: "heap_ok (heads L s) (heap s1) (next_addr s)" by (rule commits_heap_ok [OF com D(1) T(1)])
  have ix: "indexed L A s1"
    unfolding indexed_def s1(1)
    using D(2) ix_later [OF _ lat] commit_heads_live [OF sh th v com] hok
    by (auto simp: index_ok_def heap_ok_def flags_clear_def)
  have st: "distinct (adds (ls s) l)" "set (adds (ls s) l) = own F (new_nodes (ls s)) l"
    "set (rems (ls s) l) \<subseteq> wdels (ws s) \<inter> (A l \<union> own F (new_nodes (ls s)) l)" for l
    using d(3) by (auto simp: storage_ok_def)
  have inL: "l \<in> L" if "a \<in> set (adds (ls s) l)" for a l
    using that st(2) tx_viewD(4) [OF d(1)] by (force simp: own_def ran_def)
  have new: "a \<in> new_nodes (ls s)" if "a \<in> set (adds (ls s) l)" for a l
    using that by (auto simp: new_nodes_def)
  have "set (adds (ls s) l) \<inter> A l = {}" for l
    using inL new valid_new_nodes [OF sh v] by blast
  moreover have "heap s1 a \<noteq> None" if "a \<in> set (adds (ls s) l)" for a l
    using new [OF that] T(4) domh by blast
  ultimately have add: "distinct (adds (ls s1) l) \<and> set (adds (ls s1) l) \<inter> A l = {} \<and>
      (\<forall>a\<in>set (adds (ls s1) l). heap s1 a \<noteq> None)" for l using st(1) s1(2) by simp
  have rem: "a \<in> A l \<union> set (adds (ls s1) l) \<and> (\<exists>n. heap s1 a = Some n \<and> \<not> w_deleted n)"
    if "a \<in> set (rems (ls s1) l)" for a l
  proof -
    have a: "a \<in> set (rems (ls s) l)" using that s1(2) by simp
    then have "a \<in> dom (ws s)" using st(3) wdels_dom by blast
    then have "a \<in> dom (heap s1)" using ws_okD(1) [OF T(1)] domh by blast
    moreover have "a \<in> A l \<union> set (adds (ls s1) l)" using st(3) [of l] a st(2) [of l] s1(2) by auto
    ultimately show ?thesis using heap_okD(6) [OF hok] by blast
  qed
  have "tables_ok L (ls s1)" using T(2) s1(2) by simp
  from updateIndex_run [OF ix this add rem] show ?thesis by (simp add: s1(2))
qed

text \<open>A transaction that is not doomed commits, atomically.\<close>

lemma TXend_commit:
  assumes sh: "shared_ok L A C s" and th: "running L A C s tr" and tx: "TX (lt s)"
    and good: "\<not> doomed (heap s) (lt s) (ls s)"
    and clock: "readVersion (lt s) \<le> gvc s" "gvc s + 1 < 2 ^ 60"
  obtains s' A' C' M' where "TXend i s = (Ok True, s')" and "shared_ok L A' C' s'"
    and "ls s' = initial_storage" and "\<not> TX (lt s')" and "readOnly (lt s')"
    and "readVersion (lt s') = readVersion (lt s)" and "gvc s \<le> gvc s'"
    and "next_addr s' = next_addr s" and "\<And>l. head_of s' l = head_of s l"
    and "replay tr {} (maps_of L (heap s) C) = Some M'"
    and "\<And>l. l \<in> L \<Longrightarrow> maps_of L (heap s') C' l = M' l"
    and "\<And>t st tr2. thread_ok L A (head_of s) (heap s) C t st tr2 \<Longrightarrow>
      new_nodes st \<inter> new_nodes (ls s) = {} \<Longrightarrow> readVersion t \<le> gvc s \<Longrightarrow>
      thread_ok L A' (head_of s) (heap s') C' t st tr2"
proof -
  note D = shared_okD [OF sh] and T = thread_reads [OF th]
  from th good obtain F U R where v: "valid L A (head_of s) (heap s) C (lt s) (ls s) tr F U R"
    by (auto simp: thread_ok_def)
  have rep: "replay tr {} (maps_of L (heap s) C) = Some (\<lambda>l. overlay (U l) (maps_of L (heap s) C l))"
    using validD(6) [OF v] valid_meets [OF v D(3)] by (simp add: trace_ok_def)
  show ?thesis
  proof (cases "readOnly (lt s)")
    case True
    let ?s = "s\<lparr>ls := initial_storage, lt := (lt s)\<lparr>TX := False, readOnly := True\<rparr>\<rparr>"
    have U: "U = (\<lambda>_. Map.empty)" and W: "writeSet (ls s) = []"
      using validD(7,8) [OF v True] by auto
    have run: "TXend i s = (Ok True, ?s)"
    proof -
      let ?s1 = "s\<lparr>heap := map_words lock_word (dom (ws s)) (heap s)\<rparr>"
      obtain locked where lk: "distinct locked" "set locked = dom (ws s)"
        and run: "TXend i s =
          (let bad = doomed (heap s) (lt s) (ls s) in
           thenE (commitWrites bad)
            (thenE (forE locked node_unlock)
            (bindE (getsE (\<lambda>s. readOnly (lt s))) (\<lambda>ro.
             thenE (if \<not> bad \<and> \<not> ro then updateIndex i else returnE ())
            (thenE cleanup
             (if bad then throwE TxAbortException else returnE True))))) ?s1)"
        by (rule lock_phase [OF sh th tx])
      from lk(2) W have "locked = []" by simp
      with run good True W show ?thesis
        by (simp add: run_simps commitWrites_def cleanup_def modifyLS_def modifyLT_def clear_storage_eq)
    qed
    show ?thesis
    proof (rule that [OF run, of A C])
      show "shared_ok L A C ?s" by (rule shared_ok_cong [OF sh]) simp_all
      show "replay tr {} (maps_of L (heap s) C) = Some (maps_of L (heap s) C)" using rep U by simp
    qed simp_all
  next
    case False
    let ?A = "\<lambda>l. A l \<union> set (adds (ls s) l)"
    obtain h' where com: "commits (gvc s + 1) (ws s) (heap s) h'"
      and run: "TXend i s = thenE (updateIndex i) (thenE cleanup (returnE True))
        (s\<lparr>gvc := gvc s + 1, lt := (lt s)\<lparr>writeVersion := gvc s + 1\<rparr>, heap := h'\<rparr>)"
      by (rule TXend_publish [OF sh th tx good False clock])
    let ?s1 = "s\<lparr>gvc := gvc s + 1, lt := (lt s)\<lparr>writeVersion := gvc s + 1\<rparr>, heap := h'\<rparr>"
    obtain s2 where s2: "updateIndex i ?s1 = (Ok (), s2)" "index_only ?s1 s2" "indexed L ?A s2"
      using commit_index [OF sh th v, of "gvc s + 1" ?s1] com by auto
    let ?s = "s2\<lparr>ls := initial_storage, lt := (lt s2)\<lparr>TX := False, readOnly := True\<rparr>\<rparr>"
    have run': "TXend i s = (Ok True, ?s)"
      unfolding run using s2(1)
      by (simp add: run_simps cleanup_def modifyLS_def modifyLT_def clear_storage_eq)
    have sel: "heap s2 = h'" "next_addr s2 = next_addr s" "gvc s2 = gvc s + 1" "\<And>l. head_of s2 l = head_of s l"
      "readVersion (lt s2) = readVersion (lt s)"
      using s2(2) by (auto simp: index_only_def)
    have com': "commits (gvc s + 1) (ws s) (heap s) (heap ?s)" using com sel by simp
    have ix': "indexed L ?A ?s" using s2(3) by (simp add: indexed_def)
    obtain C' where C': "shared_ok L ?A C' ?s"
      and setC: "\<And>l. l \<in> L \<Longrightarrow> set (C' l) = set (C l) \<union> set (adds (ls s) l) - wdels (ws s)"
      and maps: "\<And>l. l \<in> L \<Longrightarrow> maps_of L (heap ?s) C' l = overlay (U l) (maps_of L (heap s) C l)"
      by (rule commit_shared [OF sh th v com' _ _ _ ix' clock(2)]) (simp_all add: sel)
    show ?thesis
    proof (rule that [OF run' C' _ _ _ _ _ _ _ rep maps])
      show "gvc s \<le> gvc ?s" using clock_step [OF D(7)] sel by simp
      fix t st tr2
      assume o: "thread_ok L A (head_of s) (heap s) C t st tr2" "new_nodes st \<inter> new_nodes (ls s) = {}"
        and rv: "readVersion t \<le> gvc s"
      have "readVersion t < getVersion (gvc s + 1)"
        using rv clock_step [OF D(7)] clock_fits [OF clock(2)] by simp
      with commit_thread [OF sh v com setC o] show "thread_ok L ?A (head_of s) (heap ?s) C' t st tr2"
        using sel by simp
    qed (simp_all add: sel)
  qed
qed

end

end
