(* ===== verification/TxSystem.thy ===== *)
theory TxSystem
  imports TxCommit
begin

text \<open>
  The system: any number of threads run transactions on the lists of one \<open>TX\<close> object, each
  method as one step. A thread that catches \<open>TxAbortException\<close> calls \<open>handle_abort\<close>, as the
  workers of \<^verbatim>\<open>main.cpp\<close> do. Any other exception is the event \<open>Crashed\<close>. The clock is
  bounded so that versions fit their field.
\<close>

section \<open>Threads and steps\<close>

record thread =
  th_lt :: local_transaction
  th_ls :: local_storage
  th_rng :: u64
  th_trace :: "(list_op \<times> list_result) list"

record 'ix system =
  shared :: "'ix state"
  threads :: "nat \<Rightarrow> thread"

definition load :: "nat \<Rightarrow> 'ix system \<Rightarrow> 'ix state" where
  "load t S = (shared S)\<lparr>lt := th_lt (threads S t), ls := th_ls (threads S t), rng := th_rng (threads S t)\<rparr>"

definition store :: "nat \<Rightarrow> 'ix state \<Rightarrow> (list_op \<times> list_result) list \<Rightarrow> 'ix system \<Rightarrow> 'ix system" where
  "store t s tr S = S\<lparr>shared := s, threads := (threads S)(t :=
     \<lparr>th_lt = lt s, th_ls = ls s, th_rng = rng s, th_trace = tr\<rparr>)\<rparr>"

primrec run_op :: "'ix index_ops \<Rightarrow> list_op \<Rightarrow> ('ix state, list_result) cmd" where
  "run_op i (Put l k v) = bindE (put i l k v) (\<lambda>x. returnE (Value x))"
| "run_op i (PutIfAbsent l k v) = bindE (putIfAbsent i l k v) (\<lambda>x. returnE (Value x))"
| "run_op i (Remove l k) = bindE (remove i l k) (\<lambda>x. returnE (Value x))"
| "run_op i (Get l k) = bindE (get i l k) (\<lambda>x. returnE (Value x))"
| "run_op i (ContainsKey l k) = bindE (containsKey i l k) (\<lambda>b. returnE (Truth b))"

text \<open>The caller's handler for \<open>TxAbortException\<close>.\<close>

definition catch_abort :: "('ix state, 'a) cmd \<Rightarrow> ('ix state, 'a option) cmd" where
  "catch_abort c = (\<lambda>s. case c s of
       (Ok x, s') \<Rightarrow> (Ok (Some x), s')
     | (Throw e, s') \<Rightarrow>
         (if e = TxAbortException then thenE handle_abort (returnE None) s' else (Throw e, s')))"

datatype event =
    Began nat
  | Returned nat list_op list_result
  | Committed nat
  | Aborted nat
  | Crashed nat exn

inductive tx_step :: "'ix index_ops \<Rightarrow> list_id set \<Rightarrow> 'ix system \<Rightarrow> event \<Rightarrow> 'ix system \<Rightarrow> bool"
  for i L where
  begin_step:
    "\<not> TX (th_lt (threads S t)) \<Longrightarrow> TXbegin (load t S) = (Ok (), s') \<Longrightarrow>
     tx_step i L S (Began t) (store t s' [] S)"
| return_step:
    "TX (th_lt (threads S t)) \<Longrightarrow> op_list f \<in> L \<Longrightarrow>
     catch_abort (run_op i f) (load t S) = (Ok (Some r), s') \<Longrightarrow>
     tx_step i L S (Returned t f r) (store t s' (th_trace (threads S t) @ [(f, r)]) S)"
| abort_step:
    "TX (th_lt (threads S t)) \<Longrightarrow> op_list f \<in> L \<Longrightarrow>
     catch_abort (run_op i f) (load t S) = (Ok None, s') \<Longrightarrow>
     tx_step i L S (Aborted t) (store t s' [] S)"
| crash_step:
    "TX (th_lt (threads S t)) \<Longrightarrow> op_list f \<in> L \<Longrightarrow>
     catch_abort (run_op i f) (load t S) = (Throw e, s') \<Longrightarrow>
     tx_step i L S (Crashed t e) (store t s' [] S)"
| commit_step:
    "TX (th_lt (threads S t)) \<Longrightarrow> gvc (shared S) + 1 < 2 ^ 60 \<Longrightarrow>
     catch_abort (TXend i) (load t S) = (Ok (Some b), s') \<Longrightarrow>
     tx_step i L S (Committed t) (store t s' [] S)"
| end_abort_step:
    "TX (th_lt (threads S t)) \<Longrightarrow> gvc (shared S) + 1 < 2 ^ 60 \<Longrightarrow>
     catch_abort (TXend i) (load t S) = (Ok None, s') \<Longrightarrow>
     tx_step i L S (Aborted t) (store t s' [] S)"
| end_crash_step:
    "TX (th_lt (threads S t)) \<Longrightarrow> gvc (shared S) + 1 < 2 ^ 60 \<Longrightarrow>
     catch_abort (TXend i) (load t S) = (Throw e, s') \<Longrightarrow>
     tx_step i L S (Crashed t e) (store t s' [] S)"

text \<open>The start: the lists \<open>0, \<dots>, n - 1\<close> are constructed one after the other.\<close>

definition empty_state :: "'ix index_ops \<Rightarrow> 'ix state" where
  "empty_state i = \<lparr>heap = Map.empty, next_addr = 0, gvc = 0,
     lists = (\<lambda>_. \<lparr>ll_head = 0, ll_index = ix_init i 0\<rparr>), retired = [],
     lt = initial_transaction, ls = initial_storage, rng = 0\<rparr>"

definition initial_thread :: thread where
  "initial_thread = \<lparr>th_lt = initial_transaction, th_ls = initial_storage, th_rng = 0, th_trace = []\<rparr>"

definition initial_system :: "'ix index_ops \<Rightarrow> nat \<Rightarrow> 'ix system" where
  "initial_system i n =
     \<lparr>shared = snd (forE [0..<n] (LinkedList_init i) (empty_state i)), threads = (\<lambda>_. initial_thread)\<rparr>"

inductive tx_reach :: "'ix index_ops \<Rightarrow> nat \<Rightarrow> 'ix system \<Rightarrow> bool" for i n where
  reach_init: "tx_reach i n (initial_system i n)"
| reach_step: "tx_reach i n S \<Longrightarrow> tx_step i {..<n} S e S' \<Longrightarrow> tx_reach i n S'"

section \<open>What a state of the lists means\<close>

primrec chain :: "nat \<Rightarrow> (addr \<Rightarrow> lnode option) \<Rightarrow> addr option \<Rightarrow> addr list" where
  "chain 0 h p = []"
| "chain (Suc fuel) h p =
     (case p of
        None \<Rightarrow> []
      | Some a \<Rightarrow> (case h a of None \<Rightarrow> [] | Some n \<Rightarrow> a # chain fuel h (m_next n)))"

definition nodes_of :: "'ix state \<Rightarrow> list_id \<Rightarrow> addr list" where
  "nodes_of s l = chain (next_addr s) (heap s) (Some (head_of s l))"

definition list_maps :: "nat \<Rightarrow> 'ix state \<Rightarrow> maps" where
  "list_maps n s l = (if l < n then contents (heap s) Map.empty (nodes_of s l) else Map.empty)"

lemma chain_path:
  assumes "path (vnext h Map.empty) p V None" and "set V \<subseteq> dom h" and "length V \<le> fuel"
  shows "chain fuel h p = V"
  using assms
proof (induction V arbitrary: p fuel)
  case Nil
  then show ?case by (cases fuel) auto
next
  case (Cons a V)
  then obtain fuel' n where "fuel = Suc fuel'" "h a = Some n" by (cases fuel) auto
  with Cons show ?case by (auto simp: vnext_def)
qed

section \<open>The system invariant\<close>

lemma new_nodes_initial [simp]: "new_nodes initial_storage = {}"
  by (simp add: new_nodes_def adds_def initial_storage_def)

lemma thread_ok_initial: "thread_ok L A hds h C t initial_storage []"
proof -
  have "valid L A hds h C t initial_storage [] Map.empty (\<lambda>_. Map.empty) (\<lambda>_. Map.empty)"
    using tx_view_begin [of L hds h] trace_ok_Nil
    by (auto simp: valid_def agree_def storage_ok_def dels_ok_def reads_ok_def own_def rems_def adds_def
        initial_storage_def new_nodes_def)
  moreover have "ws_ok (hds ` L) h (map_of (writeSet initial_storage))" "tables_ok L initial_storage"
    "readSet initial_storage = []"
    by (auto simp: ws_ok_def tables_ok_def initial_storage_def)
  ultimately show ?thesis by (auto simp: thread_ok_def)
qed

lemma thread_ok_grows:
  assumes th: "thread_ok L A hds h C t st tr" and ok: "lists_ok L hds h C"
    and h': "h' = h \<or> (\<exists>n nd. h n = None \<and> h' = h(n \<mapsto> nd))"
  shows "thread_ok L A hds h' C t st tr"
  using h'
proof
  assume "\<exists>n nd. h n = None \<and> h' = h(n \<mapsto> nd)"
  then obtain n nd where n: "h n = None" and eq: "h' = h(n \<mapsto> nd)" by blast
  have lat: "later h h'" unfolding eq using n by (rule later_fresh)
  have same: "h' a = h a" if "a \<in> dom h" for a using that n eq by auto
  show ?thesis
  proof (rule thread_ok_step [OF th])
    show "ws_ok (hds ` L) h' (map_of (writeSet st))" "tables_ok L st" "set (readSet st) \<subseteq> dom h'"
      "new_nodes st \<subseteq> dom h'"
      using th ws_ok_later [OF _ lat] eq by (auto simp: thread_ok_def)
    have "set (readSet st) \<subseteq> dom h" using th by (simp add: thread_ok_def)
    then show "h' a = h a" if "a \<in> set (readSet st)" for a using that same by blast
    fix F U R assume v: "valid L A hds h C t st tr F U R"
    note d = validD [OF v] and D = tx_viewD [OF validD(1) [OF v]]
    have "storage_ok L A h' st F"
    proof -
      have "h' a = h a" if "a \<in> new_nodes st" for a using that D same by blast
      with d(3) show ?thesis unfolding storage_ok_def by fastforce
    qed
    moreover have "dels_ok h' (map_of (writeSet st)) F U"
      by (rule dels_ok_mono [OF d(4) map_le_refl lat D(3) subset_refl])
        (use subset_trans [OF wdels_dom D(1)] in auto)
    moreover have "agree L h' C F (new_nodes st)" unfolding eq by (rule agree_fresh [OF d(2) D(3) n])
    ultimately show "\<exists>F U R. valid L A hds h' C t st tr F U R"
      using tx_view_later [OF d(1) lat] reads_ok_later [OF d(5) lat] d(6-8) unfolding valid_def by blast
  qed simp_all
qed (use th in simp)

section \<open>The handler of an abort\<close>

lemma retire_lists_run:
  assumes "\<And>l as a. (l, as) \<in> set ps \<Longrightarrow> a \<in> set as \<Longrightarrow> \<exists>n. heap s a = Some n \<and> \<not> w_deleted n"
  shows "forE ps (\<lambda>(l, nodes). forE nodes retire_node) s =
    (Ok (), s\<lparr>retired := retired s @ concat (map snd ps)\<rparr>)"
  using assms
proof (induction ps arbitrary: s)
  case Nil
  then show ?case by (simp add: run_simps)
next
  case (Cons p ps)
  obtain l as where p: "p = (l, as)" by (cases p)
  let ?s = "s\<lparr>retired := retired s @ as\<rparr>"
  have "(\<lambda>(l, nodes). forE nodes retire_node) p s = (Ok (), ?s)"
    using retire_all_run [of as s] Cons.prems p by auto
  then have "forE (p # ps) (\<lambda>(l, nodes). forE nodes retire_node) s =
      forE ps (\<lambda>(l, nodes). forE nodes retire_node) ?s"
    by (rule forE_Cons_Ok)
  also have "\<dots> = (Ok (), ?s\<lparr>retired := retired ?s @ concat (map snd ps)\<rparr>)"
    by (rule Cons.IH) (use Cons.prems in auto)
  finally show ?case using p by simp
qed

lemma handle_abort_run:
  assumes "tables_ok L (ls s)" and "new_nodes (ls s) \<subseteq> dom (heap s)" and "heap_ok H (heap s) nx"
  shows "handle_abort s = (Ok (), s\<lparr>retired := retired s @ concat (map snd (indexAdd (ls s))),
    ls := initial_storage, lt := (lt s)\<lparr>TX := False, readOnly := True\<rparr>\<rparr>)"
proof -
  have "\<exists>n. heap s a = Some n \<and> \<not> w_deleted n" if "(l, as) \<in> set (indexAdd (ls s))" "a \<in> set as" for l as a
  proof -
    have "adds (ls s) l = as" using that(1) assms(1) by (simp add: adds_def tables_ok_def)
    with that(2) have "a \<in> new_nodes (ls s)" by (auto simp: new_nodes_def)
    then have "a \<in> dom (heap s)" using assms(2) by blast
    then show ?thesis using heap_okD(6) [OF assms(3)] by blast
  qed
  then have "forE (indexAdd (ls s)) (\<lambda>(l, nodes). forE nodes retire_node) s =
      (Ok (), s\<lparr>retired := retired s @ concat (map snd (indexAdd (ls s)))\<rparr>)"
    by (intro retire_lists_run)
  then show ?thesis
    by (simp add: handle_abort_def run_simps cleanup_def modifyLS_def modifyLT_def clear_storage_def
        initial_storage_def)
qed

context list_index
begin

lemma method_ok_map:
  assumes "method_ok L A C s (\<lambda>x. tr' (g x)) (c s)"
  shows "method_ok L A C s tr' (bindE c (\<lambda>x. returnE (g x)) s)"
  using assms by (auto simp: method_ok_def run_simps split: prod.splits outcome.splits)

lemma run_op_ok:
  assumes "shared_ok L A C s" and "running L A C s tr" and "TX (lt s)" and "op_list f \<in> L"
  shows "method_ok L A C s (\<lambda>r. tr @ [(f, r)]) (run_op i f s)"
proof (cases f)
  case (Put l k v)
  with assms put_TX_run [OF assms(1,2), of l k v] show ?thesis
    unfolding Put run_op.simps
    by (intro method_ok_map) (simp add: put_def bindE_eval getsE_apply)
next
  case (PutIfAbsent l k v)
  with assms putIfAbsent_TX_run [OF assms(1,2), of l k v] show ?thesis
    unfolding PutIfAbsent run_op.simps
    by (intro method_ok_map) (simp add: putIfAbsent_def bindE_eval getsE_apply)
next
  case (Remove l k)
  with assms remove_TX_run [OF assms(1,2), of l k] show ?thesis
    unfolding Remove run_op.simps
    by (intro method_ok_map) (simp add: remove_def bindE_eval getsE_apply)
next
  case (Get l k)
  have "method_ok L A C s (\<lambda>x. tr @ [(Get l k, Value x)]) (get_TX i l k s)"
    by (rule get_TX_run [OF assms(1,2)])
      (use assms(4) Get trace_ok_Get_absent(1) trace_ok_Get_found(1) in auto)
  with assms show ?thesis
    unfolding Get run_op.simps
    by (intro method_ok_map) (simp add: get_def bindE_eval getsE_apply)
next
  case (ContainsKey l k)
  have "method_ok L A C s (\<lambda>x. tr @ [(ContainsKey l k, Truth (x \<noteq> None))]) (get_TX i l k s)"
    by (rule get_TX_run [OF assms(1,2)])
      (use assms(4) ContainsKey trace_ok_Get_absent(2) trace_ok_Get_found(2) in auto)
  then have "method_ok L A C s (\<lambda>x. tr @ [(ContainsKey l k, Truth (x \<noteq> None))]) (get i l k s)"
    using assms(3) by (simp add: get_def bindE_eval getsE_apply)
  then have "method_ok L A C s (\<lambda>b. tr @ [(ContainsKey l k, Truth b)]) (containsKey i l k s)"
    unfolding containsKey_def by (rule method_ok_map)
  then show ?thesis unfolding ContainsKey run_op.simps by (rule method_ok_map)
qed

definition thread_inv ::
  "list_id set \<Rightarrow> (list_id \<Rightarrow> addr set) \<Rightarrow> (list_id \<Rightarrow> addr list) \<Rightarrow> 'ix state \<Rightarrow> thread \<Rightarrow> bool" where
  "thread_inv L A C s th \<longleftrightarrow>
     thread_ok L A (head_of s) (heap s) C (th_lt th) (th_ls th) (th_trace th) \<and>
     readVersion (th_lt th) \<le> gvc s \<and>
     (\<not> TX (th_lt th) \<longrightarrow> th_ls th = initial_storage \<and> th_trace th = [])"

definition sys_ok ::
  "list_id set \<Rightarrow> (list_id \<Rightarrow> addr set) \<Rightarrow> (list_id \<Rightarrow> addr list) \<Rightarrow> 'ix system \<Rightarrow> bool" where
  "sys_ok L A C S \<longleftrightarrow> shared_ok L A C (shared S) \<and> (\<forall>t. thread_inv L A C (shared S) (threads S t)) \<and>
     (\<forall>t t'. t \<noteq> t' \<longrightarrow> new_nodes (th_ls (threads S t)) \<inter> new_nodes (th_ls (threads S t')) = {})"

lemma load_sel [simp]:
  "heap (load t S) = heap (shared S)" "next_addr (load t S) = next_addr (shared S)"
  "gvc (load t S) = gvc (shared S)" "lists (load t S) = lists (shared S)"
  "lt (load t S) = th_lt (threads S t)" "ls (load t S) = th_ls (threads S t)"
  by (simp_all add: load_def)

lemma sys_okD:
  assumes "sys_ok L A C S"
  shows "shared_ok L A C (load t S)"
    and "running L A C (load t S) (th_trace (threads S t))"
    and "readVersion (th_lt (threads S t)) \<le> gvc (shared S)"
    and "\<not> TX (th_lt (threads S t)) \<Longrightarrow> th_ls (threads S t) = initial_storage"
    and "t \<noteq> t' \<Longrightarrow> new_nodes (th_ls (threads S t)) \<inter> new_nodes (th_ls (threads S t')) = {}"
    and "new_nodes (th_ls (threads S t)) \<subseteq> dom (heap (shared S))"
proof -
  show "shared_ok L A C (load t S)"
    by (rule shared_ok_cong [where s = "shared S"]) (use assms in \<open>simp_all add: sys_ok_def\<close>)
  show th: "running L A C (load t S) (th_trace (threads S t))"
    using assms by (simp add: sys_ok_def thread_inv_def)
  show "readVersion (th_lt (threads S t)) \<le> gvc (shared S)"
    and "\<not> TX (th_lt (threads S t)) \<Longrightarrow> th_ls (threads S t) = initial_storage"
    and "t \<noteq> t' \<Longrightarrow> new_nodes (th_ls (threads S t)) \<inter> new_nodes (th_ls (threads S t')) = {}"
    using assms by (auto simp: sys_ok_def thread_inv_def)
  show "new_nodes (th_ls (threads S t)) \<subseteq> dom (heap (shared S))"
    using thread_reads(4) [OF th] by simp
qed

lemma sys_ok_store:
  assumes S: "sys_ok L A C S" and sh: "shared_ok L A' C' s'"
    and others: "\<And>t'. t' \<noteq> t \<Longrightarrow> thread_ok L A' (head_of s') (heap s') C'
      (th_lt (threads S t')) (th_ls (threads S t')) (th_trace (threads S t'))"
    and clock: "gvc (shared S) \<le> gvc s'"
    and own: "thread_ok L A' (head_of s') (heap s') C' (lt s') (ls s') tr" "readVersion (lt s') \<le> gvc s'"
      "\<not> TX (lt s') \<Longrightarrow> ls s' = initial_storage \<and> tr = []"
    and sep: "\<And>t'. t' \<noteq> t \<Longrightarrow> new_nodes (ls s') \<inter> new_nodes (th_ls (threads S t')) = {}"
  shows "sys_ok L A' C' (store t s' tr S)"
proof -
  have "thread_inv L A' C' s' (threads (store t s' tr S) t')" for t'
  proof (cases "t' = t")
    case True
    with own show ?thesis by (simp add: store_def thread_inv_def)
  next
    case False
    have "thread_inv L A C (shared S) (threads S t')" using S by (simp add: sys_ok_def)
    with False others [OF False] clock show ?thesis
      by (auto simp: store_def thread_inv_def intro: order_trans)
  qed
  moreover have "new_nodes (th_ls (threads (store t s' tr S) u)) \<inter>
      new_nodes (th_ls (threads (store t s' tr S) u')) = {}" if "u \<noteq> u'" for u u'
    using that sys_okD(5) [OF S, of u u'] sep [of u] sep [of u'] by (auto simp: store_def)
  ultimately show ?thesis using sh by (simp add: sys_ok_def store_def)
qed

text \<open>After a step that grows the heap, the other transactions are as they were.\<close>

lemma grows_others:
  assumes S: "sys_ok L A C S" and g: "grows (load t S) s'"
  shows "thread_ok L A (head_of s') (heap s') C
      (th_lt (threads S t')) (th_ls (threads S t')) (th_trace (threads S t'))"
proof -
  have ok: "lists_ok L (head_of (shared S)) (heap (shared S)) C"
    and hok: "heap_ok (heads L (shared S)) (heap (shared S)) (next_addr (shared S))"
    using S by (auto simp: sys_ok_def shared_ok_def)
  have fresh: "heap (shared S) (next_addr (shared S)) = None" using heap_okD(1) [OF hok] by auto
  have "thread_ok L A (head_of (shared S)) (heap s') C
      (th_lt (threads S t')) (th_ls (threads S t')) (th_trace (threads S t'))"
    by (rule thread_ok_grows [OF _ ok])
      (use sys_okD(2) [OF S, of t'] g fresh in \<open>auto simp: grows_def\<close>)
  moreover have "head_of s' = head_of (shared S)" using g by (simp add: grows_def fun_eq_iff)
  ultimately show ?thesis by simp
qed

text \<open>
  What a step does, for each kind of event. \<open>abs L C S\<close> are the contents of the lists; they
  change by commits only, and a commit applies the transaction's trace to them.
\<close>

definition step_ok ::
  "list_id set \<Rightarrow> (list_id \<Rightarrow> addr list) \<Rightarrow> 'ix system \<Rightarrow> event \<Rightarrow> (list_id \<Rightarrow> addr list) \<Rightarrow> 'ix system \<Rightarrow> bool" where
  "step_ok L C S e C' S' \<longleftrightarrow>
     (case e of
        Committed t \<Rightarrow> \<exists>M'. replay (th_trace (threads S t)) {} (maps_of L (heap (shared S)) C) = Some M' \<and>
          (\<forall>l\<in>L. maps_of L (heap (shared S')) C' l = M' l)
      | Crashed t x \<Rightarrow> False
      | _ \<Rightarrow> maps_of L (heap (shared S')) C' = maps_of L (heap (shared S)) C)"

lemma grows_maps:
  assumes sh: "shared_ok L A C s" and g: "grows s s'"
  shows "maps_of L (heap s') C = maps_of L (heap s) C"
proof -
  have "heap s (next_addr s) = None" using heap_okD(1) [OF shared_okD(1) [OF sh]] by auto
  with g maps_of_fresh [OF shared_okD(3) [OF sh]] show ?thesis by (auto simp: grows_def)
qed

lemma catch_abort_run:
  assumes "shared_ok L A C s'" and "tables_ok L (ls s')" and "new_nodes (ls s') \<subseteq> dom (heap s')"
    and "c s = (Throw TxAbortException, s')"
  shows "catch_abort c s = (Ok None, s'\<lparr>retired := retired s' @ concat (map snd (indexAdd (ls s'))),
    ls := initial_storage, lt := (lt s')\<lparr>TX := False, readOnly := True\<rparr>\<rparr>)"
  using handle_abort_run [OF assms(2,3) shared_okD(1) [OF assms(1)]] assms(4)
  by (simp add: catch_abort_def run_simps)

text \<open>A method call: it returns, or it aborts and the transaction is cleared.\<close>

lemma op_step:
  assumes S: "sys_ok L A C S" and tx: "TX (th_lt (threads S t))" and l: "op_list f \<in> L"
    and run: "catch_abort (run_op i f) (load t S) = (r, s')"
  shows "case r of
      Ok (Some x) \<Rightarrow> sys_ok L A C (store t s' (th_trace (threads S t) @ [(f, x)]) S)
    | Ok None \<Rightarrow> sys_ok L A C (store t s' [] S)
    | Throw e \<Rightarrow> False"
    and "maps_of L (heap s') C = maps_of L (heap (shared S)) C"
    and "gvc s' = gvc (shared S)"
proof -
  let ?s = "load t S" and ?tr = "th_trace (threads S t)"
  note D = sys_okD [OF S]
  obtain q s1 where q: "run_op i f ?s = (q, s1)" by (cases "run_op i f ?s")
  have m: "method_ok L A C ?s (\<lambda>r. ?tr @ [(f, r)]) (q, s1)"
    using run_op_ok [OF D(1) [of t] D(2) [of t] _ l] tx q by simp
  then have sh1: "shared_ok L A C s1" and g: "grows ?s s1"
    and rv: "readVersion (lt s1) = readVersion (th_lt (threads S t))" by (auto simp: method_ok_def)
  have gv: "gvc s1 = gvc (shared S)" using g by (simp add: grows_def)
  have fresh: "next_addr (shared S) \<notin> new_nodes (th_ls (threads S t'))" for t'
    using D(6) [of t'] heap_okD(1) [OF shared_okD(1) [OF D(1)]] by auto
  show "case r of
      Ok (Some x) \<Rightarrow> sys_ok L A C (store t s' (?tr @ [(f, x)]) S)
    | Ok None \<Rightarrow> sys_ok L A C (store t s' [] S)
    | Throw e \<Rightarrow> False"
  proof (cases q)
    case (Ok x)
    with run q have rs: "r = Ok (Some x)" "s' = s1" by (auto simp: catch_abort_def)
    from m Ok have th: "running L A C s1 (?tr @ [(f, x)])" and tx1: "TX (lt s1)"
      and nn: "new_nodes (ls s1) \<subseteq> new_nodes (th_ls (threads S t)) \<union> {next_addr (shared S)}"
      using tx by (auto simp: method_ok_def)
    have sep: "new_nodes (ls s1) \<inter> new_nodes (th_ls (threads S t')) = {}" if "t' \<noteq> t" for t'
      using nn fresh [of t'] D(5) [of t t'] that by blast
    have "sys_ok L A C (store t s1 (?tr @ [(f, x)]) S)"
      by (rule sys_ok_store [OF S sh1 grows_others [OF S g]])
        (use th tx1 D(3) rv gv sep in auto)
    with rs show ?thesis by simp
  next
    case (Throw e)
    with m have e: "e = TxAbortException" and nn: "new_nodes (ls s1) = new_nodes (th_ls (threads S t))"
      and tab: "tables_ok L (ls s1)" by (auto simp: method_ok_def)
    have "dom (heap (shared S)) \<subseteq> dom (heap s1)" using g by (auto simp: grows_def)
    with nn D(6) have sub: "new_nodes (ls s1) \<subseteq> dom (heap s1)" by blast
    let ?s2 = "s1\<lparr>retired := retired s1 @ concat (map snd (indexAdd (ls s1))),
      ls := initial_storage, lt := (lt s1)\<lparr>TX := False, readOnly := True\<rparr>\<rparr>"
    have rs: "r = Ok None" "s' = ?s2"
      using catch_abort_run [OF sh1 tab sub, of "run_op i f" ?s] run q Throw e by auto
    have "sys_ok L A C (store t ?s2 [] S)"
      by (rule sys_ok_store [OF S shared_ok_cong [OF sh1]])
        (use grows_others [OF S g] thread_ok_initial D(3) rv gv in auto)
    with rs show ?thesis by simp
  qed
  have "heap s' = heap s1 \<and> gvc s' = gvc s1"
  proof (cases q)
    case (Ok x)
    with run q show ?thesis by (auto simp: catch_abort_def)
  next
    case (Throw e)
    with m have e: "e = TxAbortException" and nn: "new_nodes (ls s1) = new_nodes (th_ls (threads S t))"
      and tab: "tables_ok L (ls s1)" by (auto simp: method_ok_def)
    have "dom (heap (shared S)) \<subseteq> dom (heap s1)" using g by (auto simp: grows_def)
    with nn D(6) have sub: "new_nodes (ls s1) \<subseteq> dom (heap s1)" by blast
    show ?thesis using catch_abort_run [OF sh1 tab sub, of "run_op i f" ?s] run q Throw e by auto
  qed
  with grows_maps [OF D(1) g] gv show "maps_of L (heap s') C = maps_of L (heap (shared S)) C"
    and "gvc s' = gvc (shared S)" by simp_all
qed

text \<open>\<open>TXend\<close>: a doomed transaction aborts, every other one commits.\<close>

lemma end_step:
  assumes S: "sys_ok L A C S" and tx: "TX (th_lt (threads S t))" and clock: "gvc (shared S) + 1 < 2 ^ 60"
    and run: "catch_abort (TXend i) (load t S) = (r, s')"
  shows "case r of
      Ok (Some b) \<Rightarrow> b \<and> \<not> doomed (heap (shared S)) (th_lt (threads S t)) (th_ls (threads S t)) \<and>
        (\<exists>A' C' M'. sys_ok L A' C' (store t s' [] S) \<and>
          replay (th_trace (threads S t)) {} (maps_of L (heap (shared S)) C) = Some M' \<and>
          (\<forall>l\<in>L. maps_of L (heap s') C' l = M' l))
    | Ok None \<Rightarrow> doomed (heap (shared S)) (th_lt (threads S t)) (th_ls (threads S t)) \<and>
        sys_ok L A C (store t s' [] S) \<and> heap s' = heap (shared S)
    | Throw e \<Rightarrow> False"
proof -
  let ?s = "load t S" and ?tr = "th_trace (threads S t)"
  note D = sys_okD [OF S]
  show ?thesis
  proof (cases "doomed (heap (shared S)) (th_lt (threads S t)) (th_ls (threads S t))")
    case True
    let ?s1 = "?s\<lparr>ls := initial_storage, lt := (lt ?s)\<lparr>TX := False, readOnly := True\<rparr>\<rparr>"
    have end1: "TXend i ?s = (Throw TxAbortException, ?s1)"
      by (rule TXend_abort [OF D(1,2)]) (use tx True in simp_all)
    have sh1: "shared_ok L A C ?s1" by (rule shared_ok_cong [OF D(1) [of t]]) simp_all
    have tab: "tables_ok L initial_storage" by (simp add: tables_ok_def initial_storage_def)
    have rs: "r = Ok None" "heap s' = heap ?s" "gvc s' = gvc ?s" "lists s' = lists ?s"
      "next_addr s' = next_addr ?s" "ls s' = initial_storage" "\<not> TX (lt s')"
      "readVersion (lt s') = readVersion (lt ?s)"
      using catch_abort_run [OF sh1, of "TXend i" ?s] end1 tab run by auto
    have "sys_ok L A C (store t s' [] S)"
    proof (rule sys_ok_store [OF S])
      show "shared_ok L A C s'" by (rule shared_ok_cong [OF D(1) [of t]]) (use rs in auto)
      show "thread_ok L A (head_of s') (heap s') C (th_lt (threads S t')) (th_ls (threads S t'))
        (th_trace (threads S t'))" for t'
        using D(2) [of t'] rs by simp
    qed (use rs D(3) thread_ok_initial in auto)
    with rs True show ?thesis by simp
  next
    case False
    obtain s1 A' C' M' where e: "TXend i ?s = (Ok True, s1)" "shared_ok L A' C' s1"
      "ls s1 = initial_storage" "\<not> TX (lt s1)" "gvc ?s \<le> gvc s1" "\<And>l. head_of s1 l = head_of ?s l"
      "replay ?tr {} (maps_of L (heap ?s) C) = Some M'"
      "\<And>l. l \<in> L \<Longrightarrow> maps_of L (heap s1) C' l = M' l"
      and rv: "readVersion (lt s1) = readVersion (lt ?s)"
      and oth: "\<And>t st tr2. thread_ok L A (head_of ?s) (heap ?s) C t st tr2 \<Longrightarrow>
      new_nodes st \<inter> new_nodes (ls ?s) = {} \<Longrightarrow> readVersion t \<le> gvc ?s \<Longrightarrow>
      thread_ok L A' (head_of ?s) (heap s1) C' t st tr2"
      by (rule TXend_commit [OF D(1,2), of t]) (use tx False clock D(3) in auto)
    have rs: "r = Ok (Some True)" "s' = s1" using run e(1) by (auto simp: catch_abort_def)
    have hd: "head_of s1 = head_of (shared S)" using e(6) by (simp add: fun_eq_iff)
    have "sys_ok L A' C' (store t s1 [] S)"
    proof (rule sys_ok_store [OF S e(2)])
      show "thread_ok L A' (head_of s1) (heap s1) C' (th_lt (threads S t')) (th_ls (threads S t'))
        (th_trace (threads S t'))" if "t' \<noteq> t" for t'
        using oth [of "th_lt (threads S t')" "th_ls (threads S t')" "th_trace (threads S t')"]
          D(2) [of t'] D(3) [of t'] D(5) [OF that] hd by simp
    qed (use e rv D(3) [of t] thread_ok_initial in \<open>auto intro: order_trans\<close>)
    with rs False e(7,8) show ?thesis by auto
  qed
qed

lemma tx_step_ok:
  assumes S: "sys_ok L A C S" and step: "tx_step i L S e S'"
  shows "\<exists>A' C'. sys_ok L A' C' S' \<and> step_ok L C S e C' S'"
  using step
proof cases
  case (begin_step t s')
  note D = sys_okD [OF S]
  have s': "s' = (load t S)\<lparr>lt := (th_lt (threads S t))\<lparr>TX := True, readVersion := gvc (shared S)\<rparr>\<rparr>"
    using begin_step(4) by (simp add: TXbegin_def TX_getVersion_def modifyLT_def run_simps)
  have "sys_ok L A C (store t s' [] S)"
  proof (rule sys_ok_store [OF S])
    show "shared_ok L A C s'" by (rule shared_ok_cong [OF D(1) [of t]]) (simp_all add: s')
    show "thread_ok L A (head_of s') (heap s') C (th_lt (threads S t')) (th_ls (threads S t'))
      (th_trace (threads S t'))" for t' using D(2) [of t'] by (simp add: s')
    show "thread_ok L A (head_of s') (heap s') C (lt s') (ls s') []"
      using D(4) [OF begin_step(3)] thread_ok_initial by (simp add: s')
    show "new_nodes (ls s') \<inter> new_nodes (th_ls (threads S t')) = {}" for t'
      using D(4) [OF begin_step(3)] by (simp add: s')
  qed (simp_all add: s')
  moreover have "step_ok L C S e C S'" using begin_step by (simp add: step_ok_def store_def s')
  ultimately show ?thesis using begin_step by blast
next
  case (return_step t f r s')
  from op_step [OF S return_step(3-5)] return_step(1,2) show ?thesis
    by (auto simp: step_ok_def store_def)
next
  case (abort_step t f s')
  from op_step [OF S abort_step(3-5)] abort_step(1,2) show ?thesis
    by (auto simp: step_ok_def store_def)
next
  case (crash_step t f e' s')
  from op_step(1) [OF S crash_step(3-5)] show ?thesis by simp
next
  case (commit_step t b s')
  from end_step [OF S commit_step(3-5)] commit_step(1,2) show ?thesis
    by (auto simp: step_ok_def store_def)
next
  case (end_abort_step t s')
  from end_step [OF S end_abort_step(3-5)] end_abort_step(1,2) show ?thesis
    by (auto simp: step_ok_def store_def)
next
  case (end_crash_step t e' s')
  from end_step [OF S end_crash_step(3-5)] show ?thesis by simp
qed

section \<open>The initial state\<close>

lemma LinkedList_init_run:
  assumes "heap s (next_addr s) = None"
  shows "LinkedList_init i l s = (Ok (),
    s\<lparr>heap := (heap s)(next_addr s \<mapsto> (new_LNode 0)\<lparr>m_val := Some 0\<rparr>), next_addr := Suc (next_addr s),
      lists := (lists s)(l := \<lparr>ll_head = next_addr s, ll_index = ix_init i (next_addr s)\<rparr>)\<rparr>)"
  by (simp add: LinkedList_init_def get_new_node_def get_new_node_key_def run_simps updE_run)

definition start_ok :: "nat \<Rightarrow> 'ix state \<Rightarrow> bool" where
  "start_ok n s \<longleftrightarrow> heap s = (\<lambda>a. if a < n then Some ((new_LNode 0)\<lparr>m_val := Some 0\<rparr>) else None) \<and>
     next_addr s = n \<and> gvc s = 0 \<and>
     (\<forall>l<n. lists s l = \<lparr>ll_head = l, ll_index = ix_init i l\<rparr>)"

lemma start_run: "\<exists>s. forE [0..<n] (LinkedList_init i) (empty_state i) = (Ok (), s) \<and> start_ok n s"
proof (induction n)
  case 0
  show ?case by (simp add: run_simps start_ok_def empty_state_def)
next
  case (Suc n)
  then obtain s where s: "forE [0..<n] (LinkedList_init i) (empty_state i) = (Ok (), s)" "start_ok n s"
    by blast
  let ?s = "s\<lparr>heap := (heap s)(n \<mapsto> (new_LNode 0)\<lparr>m_val := Some 0\<rparr>), next_addr := Suc n,
      lists := (lists s)(n := \<lparr>ll_head = n, ll_index = ix_init i n\<rparr>)\<rparr>"
  have "LinkedList_init i n s = (Ok (), ?s)"
    using LinkedList_init_run [of s n] s(2) by (simp add: start_ok_def)
  then have "forE ([0..<n] @ [n]) (LinkedList_init i) (empty_state i) = (Ok (), ?s)"
    using s(1) by (simp add: forE_append run_simps)
  moreover have "start_ok (Suc n) ?s" using s(2) by (auto simp: start_ok_def fun_eq_iff less_Suc_eq)
  ultimately show ?case by auto
qed

lemma initial_ok:
  "sys_ok {..<n} (\<lambda>l. {l}) (\<lambda>l. [l]) (initial_system i n)"
proof -
  obtain s where run: "forE [0..<n] (LinkedList_init i) (empty_state i) = (Ok (), s)" and s: "start_ok n s"
    using start_run by blast
  let ?nd = "(new_LNode 0)\<lparr>m_val := Some 0\<rparr>"
  have hp: "heap s a = (if a < n then Some ?nd else None)" for a using s by (simp add: start_ok_def)
  have hd: "head_of s l = l" if "l < n" for l using s that by (simp add: start_ok_def)
  have lv: "live (heap s) l" if "l < n" for l using that by (simp add: live_def hp)
  have zero: "\<not> isLocked 0" "\<not> isSingleton 0" "\<not> isDeleted 0" "getVersion 0 = 0"
    by (simp_all add: isLocked_def isSingleton_def isDeleted_def getVersion_def)
  have "heap_ok (heads {..<n} s) (heap s) (next_addr s)"
    using s hd zero by (auto simp: heap_ok_def hp start_ok_def ptr_ok_def new_LNode_def split: if_splits)
  moreover have "index_ok {..<n} (\<lambda>l. {l}) s"
    using s ix_init [OF lv] hd lv zero by (auto simp: index_ok_def hp start_ok_def new_LNode_def nkey_def)
  moreover have "lists_ok {..<n} (head_of s) (heap s) (\<lambda>l. [l])"
    using hd zero by (auto simp: lists_ok_def vnext_def hp sorted_chain_def new_LNode_def)
  ultimately have "shared_ok {..<n} (\<lambda>l. {l}) (\<lambda>l. [l]) s"
    using lv zero s by (auto simp: shared_ok_def hp new_LNode_def start_ok_def split: if_splits)
  moreover have "thread_inv {..<n} (\<lambda>l. {l}) (\<lambda>l. [l]) s initial_thread"
    using thread_ok_initial
    by (simp add: thread_inv_def initial_thread_def initial_transaction_def)
  ultimately show ?thesis
    by (simp add: sys_ok_def initial_system_def run initial_thread_def)
qed

lemma tx_reach_ok: "tx_reach i n S \<Longrightarrow> \<exists>A C. sys_ok {..<n} A C S"
proof (induction rule: tx_reach.induct)
  case reach_init
  then show ?case using initial_ok by blast
next
  case (reach_step S e S')
  then show ?case using tx_step_ok by blast
qed

end

end
