(* ===== verification/TxHistory.thy ===== *)
theory TxHistory
  imports TxSystem
begin

text \<open>
  What a run of the system means: the shared lists read off the heap, the history of committed
  transactions, and the theorems that every reachable state is well formed, that no method
  crashes, that commits are the only steps that change the lists, and that the lists hold what
  the committed transactions, run one after the other, leave.
\<close>

section \<open>Well-formed lists\<close>

text \<open>\<open>linked h p V\<close>: following \<open>m_next\<close> from \<open>p\<close> visits \<open>V\<close> and ends at null.\<close>

primrec linked :: "(addr \<Rightarrow> lnode option) \<Rightarrow> addr option \<Rightarrow> addr list \<Rightarrow> bool" where
  "linked h p [] \<longleftrightarrow> p = None"
| "linked h p (a # V) \<longleftrightarrow> p = Some a \<and> (case h a of None \<Rightarrow> False | Some n \<Rightarrow> linked h (m_next n) V)"

definition node_ok :: "'ix state \<Rightarrow> addr \<Rightarrow> bool" where
  "node_ok s a \<longleftrightarrow> (case heap s a of
       None \<Rightarrow> False
     | Some n \<Rightarrow> m_val n \<noteq> None \<and> \<not> isLocked (m_version_mask n) \<and> \<not> isDeleted (m_version_mask n) \<and>
         \<not> isSingleton (m_version_mask n) \<and> getVersion (m_version_mask n) \<le> gvc s \<and> \<not> w_deleted n)"

definition list_ok :: "'ix state \<Rightarrow> list_id \<Rightarrow> bool" where
  "list_ok s l \<longleftrightarrow> (let V = nodes_of s l in
     linked (heap s) (Some (head_of s l)) V \<and> (\<forall>a\<in>set V. node_ok s a) \<and>
     sorted_wrt (\<lambda>a b. nkey (heap s) a < nkey (heap s) b) (tl V))"

lemma path_linked:
  "path (vnext h Map.empty) p V None \<Longrightarrow> set V \<subseteq> dom h \<Longrightarrow> linked h p V"
  by (induction V arbitrary: p) (auto simp: vnext_def)

section \<open>Histories\<close>

type_synonym trace = "(list_op \<times> list_result) list"

text \<open>The transactions of a history, each replayed on what the ones before it have left.\<close>

fun serial :: "trace list \<Rightarrow> maps \<Rightarrow> maps option" where
  "serial [] M = Some M"
| "serial (tr # trs) M = Option.bind (replay tr {} M) (serial trs)"

lemma serial_append: "serial (trs @ trs') M = Option.bind (serial trs M) (serial trs')"
  by (induction trs arbitrary: M) (auto simp: Option.bind_assoc intro: Option.bind_cong)

inductive tx_history :: "'ix index_ops \<Rightarrow> nat \<Rightarrow> trace list \<Rightarrow> 'ix system \<Rightarrow> bool" for i n where
  history_init: "tx_history i n [] (initial_system i n)"
| history_commit:
    "tx_history i n H S \<Longrightarrow> tx_step i {..<n} S (Committed t) S' \<Longrightarrow>
     tx_history i n (H @ [th_trace (threads S t)]) S'"
| history_other:
    "tx_history i n H S \<Longrightarrow> tx_step i {..<n} S e S' \<Longrightarrow> (\<And>t. e \<noteq> Committed t) \<Longrightarrow>
     tx_history i n H S'"

lemma history_reach: "tx_history i n H S \<Longrightarrow> tx_reach i n S"
  by (induction rule: tx_history.induct) (auto intro: tx_reach.intros)

text \<open>A thread calls the lists of the system only, so the other maps stay empty.\<close>

lemma tx_step_trace:
  assumes "tx_step i L S e S'" and "\<And>t f r. (f, r) \<in> set (th_trace (threads S t)) \<Longrightarrow> op_list f \<in> L"
    and "(f, r) \<in> set (th_trace (threads S' t))"
  shows "op_list f \<in> L"
  using assms by (cases rule: tx_step.cases) (auto simp: store_def split: if_splits)

lemma tx_reach_trace:
  "tx_reach i n S \<Longrightarrow> (f, r) \<in> set (th_trace (threads S t)) \<Longrightarrow> op_list f < n"
proof (induction arbitrary: f r t rule: tx_reach.induct)
  case reach_init
  then show ?case by (simp add: initial_system_def initial_thread_def)
next
  case (reach_step S e S')
  then show ?case using tx_step_trace [of i "{..<n}" S e S' f r t] by auto
qed

lemma spec_op_outside: "op_list f \<noteq> l \<Longrightarrow> snd (spec_op f M) l = M l"
  by (cases f) (auto simp: map_upd_def)

lemma replay_outside:
  "replay tr D M = Some M' \<Longrightarrow> \<forall>(f, r)\<in>set tr. op_list f \<noteq> l \<Longrightarrow> M' l = M l"
proof (induction tr D M rule: replay.induct)
  case (2 f r tr D M)
  then have "M' l = snd (spec_op f M) l" by (simp split: if_splits)
  also have "\<dots> = M l" using spec_op_outside 2(3) by simp
  finally show ?case .
qed simp

section \<open>Theorems for any index\<close>

context list_index
begin

lemma nodes_of_eq:
  assumes sh: "shared_ok L A C s" and "l \<in> L"
  shows "nodes_of s l = C l"
proof -
  have ok: "path (vnext (heap s) Map.empty) (Some (head_of s l)) (C l) None" "sorted_chain (heap s) (C l)"
    and sub: "set (C l) \<subseteq> dom (heap s)" and fin: "dom (heap s) = {..<next_addr s}"
    using sh assms(2) heap_okD(1) [OF shared_okD(1) [OF sh]] by (auto simp: shared_ok_def lists_ok_def)
  have "length (C l) = card (set (C l))" using distinct_card [OF path_distinct [OF ok(1)]] by simp
  also have "\<dots> \<le> next_addr s" using card_mono [OF _ sub] fin by simp
  finally show ?thesis unfolding nodes_of_def using chain_path [OF ok(1) sub] by simp
qed

lemma list_maps_eq:
  assumes "shared_ok {..<n} A C s"
  shows "list_maps n s = maps_of {..<n} (heap s) C"
  using nodes_of_eq [OF assms] by (auto simp: list_maps_def maps_of_def fun_eq_iff)

lemma list_ok_sys:
  assumes "sys_ok {..<n} A C S" and "l < n"
  shows "list_ok (shared S) l"
proof -
  have sh: "shared_ok {..<n} A C (shared S)" using assms(1) by (simp add: sys_ok_def)
  let ?h = "heap (shared S)"
  have ok: "path (vnext ?h Map.empty) (Some (head_of (shared S) l)) (C l) None" "sorted_chain ?h (C l)"
    "\<forall>a\<in>set (C l). \<exists>n. ?h a = Some n \<and> m_val n \<noteq> None \<and> \<not> isDeleted (m_version_mask n)"
    using sh assms(2) by (auto simp: shared_ok_def lists_ok_def)
  then have "linked ?h (Some (head_of (shared S) l)) (C l)" by (intro path_linked) auto
  moreover have "node_ok (shared S) a" if "a \<in> set (C l)" for a
    using ok(3) that sh by (fastforce simp: node_ok_def shared_ok_def heap_ok_def)
  ultimately show ?thesis
    using nodes_of_eq [OF sh] assms(2) ok(2) by (simp add: list_ok_def sorted_chain_def)
qed

lemma list_ok_reach: "tx_reach i n S \<Longrightarrow> l < n \<Longrightarrow> list_ok (shared S) l"
  using tx_reach_ok list_ok_sys by blast

lemma reach_step_ok:
  assumes "tx_reach i n S" and "tx_step i {..<n} S e S'"
  shows "case e of
      Committed t \<Rightarrow> replay (th_trace (threads S t)) {} (list_maps n (shared S)) = Some (list_maps n (shared S'))
    | Crashed t x \<Rightarrow> False
    | _ \<Rightarrow> list_maps n (shared S') = list_maps n (shared S)"
proof -
  obtain A C where S: "sys_ok {..<n} A C S" using tx_reach_ok [OF assms(1)] by blast
  obtain A' C' where S': "sys_ok {..<n} A' C' S'" and st: "step_ok {..<n} C S e C' S'"
    using tx_step_ok [OF S assms(2)] by blast
  have eq: "list_maps n (shared S) = maps_of {..<n} (heap (shared S)) C"
    "list_maps n (shared S') = maps_of {..<n} (heap (shared S')) C'"
    using list_maps_eq S S' by (auto simp: sys_ok_def)
  show ?thesis
  proof (cases e)
    case (Committed t)
    with st obtain M' where r: "replay (th_trace (threads S t)) {} (list_maps n (shared S)) = Some M'"
      and M': "\<forall>l<n. list_maps n (shared S') l = M' l"
      by (auto simp: step_ok_def eq)
    have "M' l = list_maps n (shared S') l" for l
    proof (cases "l < n")
      case False
      then have "M' l = list_maps n (shared S) l"
        by (intro replay_outside [OF r]) (use tx_reach_trace [OF assms(1)] in blast)
      with False show ?thesis by (simp add: list_maps_def)
    qed (use M' in simp)
    with r have "replay (th_trace (threads S t)) {} (list_maps n (shared S)) = Some (list_maps n (shared S'))"
      by (auto simp: fun_eq_iff)
    with Committed show ?thesis by simp
  qed (use st in \<open>auto simp: step_ok_def eq\<close>)
qed

lemma history_serial:
  "tx_history i n H S \<Longrightarrow> serial H (\<lambda>_. Map.empty) = Some (list_maps n (shared S))"
proof (induction rule: tx_history.induct)
  case history_init
  have "list_maps n (shared (initial_system i n)) = maps_of {..<n} (heap (shared (initial_system i n))) (\<lambda>l. [l])"
    by (rule list_maps_eq [where A = "\<lambda>l. {l}"]) (use initial_ok [of n] in \<open>simp add: sys_ok_def\<close>)
  then show ?case by (auto simp: maps_of_def contents_def fun_eq_iff)
next
  case (history_commit H S t S')
  then show ?case using reach_step_ok [OF history_reach [OF history_commit(1)] history_commit(2)]
    by (simp add: serial_append)
next
  case (history_other H S e S')
  then show ?case using reach_step_ok [OF history_reach [OF history_other(1)] history_other(2)]
    by (cases e) auto
qed

text \<open>\<open>TXend\<close> commits exactly the transactions whose read set is still current.\<close>

lemma TXend_outcome:
  assumes "tx_reach i n S" and "TX (th_lt (threads S t))" and "gvc (shared S) + 1 < 2 ^ 60"
  shows "fst (TXend i (load t S)) =
    (if doomed (heap (shared S)) (th_lt (threads S t)) (th_ls (threads S t))
     then Throw TxAbortException else Ok True)"
proof -
  obtain A C where S: "sys_ok {..<n} A C S" using tx_reach_ok [OF assms(1)] by blast
  note D = sys_okD [OF S]
  show ?thesis
  proof (cases "doomed (heap (shared S)) (th_lt (threads S t)) (th_ls (threads S t))")
    case True
    have "TXend i (load t S) = (Throw TxAbortException, (load t S)\<lparr>ls := initial_storage,
      lt := (lt (load t S))\<lparr>TX := False, readOnly := True\<rparr>\<rparr>)"
      by (rule TXend_abort [OF D(1,2)]) (use assms(2) True in simp_all)
    with True show ?thesis by simp
  next
    case False
    obtain s1 where "TXend i (load t S) = (Ok True, s1)"
      by (rule TXend_commit [OF D(1,2), of t]) (use assms(2,3) False D(3) in auto)
    with False show ?thesis by simp
  qed
qed

text \<open>A method of a running transaction returns or aborts: it neither fails nor runs forever.\<close>

lemma method_outcome:
  assumes "tx_reach i n S" and "TX (th_lt (threads S t))" and "op_list f < n"
  shows "case fst (run_op i f (load t S)) of Ok r \<Rightarrow> True | Throw e \<Rightarrow> e = TxAbortException"
proof -
  obtain A C where S: "sys_ok {..<n} A C S" using tx_reach_ok [OF assms(1)] by blast
  note D = sys_okD [OF S]
  have "method_ok {..<n} A C (load t S) (\<lambda>r. th_trace (threads S t) @ [(f, r)]) (run_op i f (load t S))"
    by (rule run_op_ok [OF D(1,2)]) (use assms(2,3) in auto)
  then show ?thesis by (auto simp: method_ok_def split: prod.splits outcome.splits)
qed

text \<open>An aborted transaction leaves nothing behind in its thread.\<close>

lemma abort_clears:
  assumes "tx_reach i n S" and "tx_step i {..<n} S (Aborted t) S'"
  shows "\<not> TX (th_lt (threads S' t)) \<and> th_ls (threads S' t) = initial_storage \<and> th_trace (threads S' t) = []"
proof -
  obtain A' C' where S': "sys_ok {..<n} A' C' S'"
    using tx_reach_ok [OF tx_reach.reach_step [OF assms]] by blast
  have tx: "\<not> TX (lt s')" if "catch_abort c s = (Ok None, s')" for c :: "('a state, 'b) cmd" and s s'
    using that by (auto simp: catch_abort_def handle_abort_def cleanup_def modifyLT_def run_simps
        split: prod.splits outcome.splits if_splits)
  from assms(2) have "\<not> TX (th_lt (threads S' t)) \<and> th_trace (threads S' t) = []"
    by cases (auto simp: store_def dest: tx)
  with sys_okD(4) [OF S'] show ?thesis by blast
qed

end

end
