(* ===== verification/ListWalks.thy ===== *)
theory ListWalks
  imports TxHistory
begin

text \<open>
  The walks over a whole list that \<^verbatim>\<open>main.cpp\<close> calls before and after its threads run:
  \<open>get_size\<close>, \<open>get_sum_key\<close> and \<open>deinit_list\<close>.
\<close>

lemma linked_length: "linked h p V \<Longrightarrow> dom h = {..<n} \<Longrightarrow> length V \<le> n"
proof -
  assume V: "linked h p V" and dom: "dom h = {..<n}"
  have path: "path (vnext h Map.empty) p V None" and sub: "set V \<subseteq> dom h"
    using V by (induction V arbitrary: p) (auto simp: vnext_def split: option.splits)
  have "length V = card (set V)" using distinct_card [OF path_distinct [OF path]] by simp
  with card_mono [OF _ sub] dom show ?thesis by simp
qed

lemma size_loop_run:
  "linked (heap s) p V \<Longrightarrow> length V < fuel \<Longrightarrow>
   size_loop fuel p res s = (Ok (res + of_nat (length V)), s)"
proof (induction V arbitrary: p fuel res)
  case Nil
  then obtain f where "fuel = Suc f" by (cases fuel) auto
  with Nil show ?case by (simp add: run_simps)
next
  case (Cons a V)
  then obtain f n where "fuel = Suc f" "heap s a = Some n" by (cases fuel) (auto split: option.splits)
  with Cons show ?case by (simp add: run_simps derefE_def algebra_simps)
qed

lemma sum_loop_run:
  "linked (heap s) p V \<Longrightarrow> length V < fuel \<Longrightarrow>
   sum_loop fuel p res s = (Ok (res + sum_list (map (nkey (heap s)) V)), s)"
proof (induction V arbitrary: p fuel res)
  case Nil
  then obtain f where "fuel = Suc f" by (cases fuel) auto
  with Nil show ?case by (simp add: run_simps)
next
  case (Cons a V)
  then obtain f n where "fuel = Suc f" "heap s a = Some n" by (cases fuel) (auto split: option.splits)
  with Cons show ?case by (simp add: run_simps derefE_def nkey_def algebra_simps)
qed

lemma deinit_loop_run:
  "linked (heap s) p V \<Longrightarrow> length V < fuel \<Longrightarrow> heap s prev \<noteq> None \<Longrightarrow>
   (\<And>a n. heap s a = Some n \<Longrightarrow> \<not> w_deleted n) \<Longrightarrow>
   deinit_loop fuel prev p s = (Ok (), s\<lparr>retired := retired s @ butlast (prev # V)\<rparr>)"
proof (induction V arbitrary: p prev fuel s)
  case Nil
  then obtain f where "fuel = Suc f" by (cases fuel) auto
  with Nil show ?case by (simp add: run_simps)
next
  case (Cons a V)
  then obtain f n where f: "fuel = Suc f" "heap s a = Some n" by (cases fuel) (auto split: option.splits)
  obtain m where m: "heap s prev = Some m" "\<not> w_deleted m" using Cons.prems(3,4) by blast
  then have upd: "(heap s)(prev \<mapsto> m\<lparr>w_deleted := False\<rparr>) = heap s" by auto
  let ?s = "s\<lparr>retired := retired s @ [prev]\<rparr>"
  have "deinit_loop f a (m_next n) ?s = (Ok (), ?s\<lparr>retired := retired ?s @ butlast (a # V)\<rparr>)"
    by (rule Cons.IH) (use Cons.prems f in auto)
  moreover have "retire_node prev s = (Ok (), ?s)"
    using m upd by (simp add: retire_node_def delete_wrapped_node_def updE_def derefE_def run_simps)
  ultimately show ?case using f Cons.prems(1) by (simp add: run_simps derefE_def)
qed

text \<open>The contents of a well-formed list have one key for every node after the head.\<close>

lemma contents_card:
  assumes "sorted_wrt (\<lambda>a b. nkey h a < nkey h b) (tl V)" and "\<forall>a\<in>set V. \<exists>v. vval h Map.empty a = Some v"
  shows "dom (contents h Map.empty V) = nkey h ` set (tl V)"
    and "card (dom (contents h Map.empty V)) = length (tl V)"
    and "(\<Sum>k\<in>dom (contents h Map.empty V). k) = sum_list (map (nkey h) (tl V))"
proof -
  have sc: "sorted_chain h V" using assms(1) by (simp add: sorted_chain_def)
  show dom: "dom (contents h Map.empty V) = nkey h ` set (tl V)"
  proof (intro set_eqI iffI)
    fix k assume "k \<in> nkey h ` set (tl V)"
    then obtain a where a: "a \<in> set (tl V)" "k = nkey h a" by blast
    then have "a \<in> set V" by (metis list.set_sel(2) tl_Nil)
    with assms(2) obtain v where "vval h Map.empty a = Some v" by blast
    with a have "contents h Map.empty V k = Some v" unfolding contents_Some_iff [OF sc] by blast
    then show "k \<in> dom (contents h Map.empty V)" by blast
  qed (auto simp: contents_Some_iff [OF sc] dom_def)
  have dist: "distinct (map (nkey h) (tl V))" by (rule sorted_chain_distinct [OF sc])
  show "card (dom (contents h Map.empty V)) = length (tl V)"
    using distinct_card [OF dist] by (simp add: dom)
  show "(\<Sum>k\<in>dom (contents h Map.empty V). k) = sum_list (map (nkey h) (tl V))"
    using sum_list_distinct_conv_sum_set [OF dist, of id] by (simp add: dom)
qed

context list_index
begin

lemma sys_walk:
  assumes "sys_ok {..<n} A C S" and "l < n"
  obtains V where "nodes_of (shared S) l = head_of (shared S) l # V"
    and "linked (heap (shared S)) (Some (head_of (shared S) l)) (head_of (shared S) l # V)"
    and "length V < next_addr (shared S)" and "nkey (heap (shared S)) (head_of (shared S) l) = 0"
    and "card (dom (list_maps n (shared S) l)) = length V"
    and "(\<Sum>k\<in>dom (list_maps n (shared S) l). k) = sum_list (map (nkey (heap (shared S))) V)"
    and "\<And>a n. heap (shared S) a = Some n \<Longrightarrow> \<not> w_deleted n"
proof -
  let ?s = "shared S"
  have sh: "shared_ok {..<n} A C ?s" using assms(1) by (simp add: sys_ok_def)
  have ok: "list_ok ?s l" by (rule list_ok_sys [OF assms])
  then have ln: "linked (heap ?s) (Some (head_of ?s l)) (nodes_of ?s l)"
    and so: "sorted_wrt (\<lambda>a b. nkey (heap ?s) a < nkey (heap ?s) b) (tl (nodes_of ?s l))"
    and vv: "\<forall>a\<in>set (nodes_of ?s l). \<exists>v. vval (heap ?s) Map.empty a = Some v"
    by (auto simp: list_ok_def Let_def node_ok_def vval_def split: option.splits)
  then obtain V where V: "nodes_of ?s l = head_of ?s l # V" by (cases "nodes_of ?s l") auto
  have "length (nodes_of ?s l) \<le> next_addr ?s"
    by (rule linked_length [OF ln]) (use heap_okD(1) [OF shared_okD(1) [OF sh]] in auto)
  then have len: "length V < next_addr ?s" by (simp add: V)
  have k0: "nkey (heap ?s) (head_of ?s l) = 0" using sh assms(2) by (simp add: shared_ok_def index_ok_def)
  note cc = contents_card [OF so vv]
  show thesis
  proof (rule that [OF V _ len k0])
    show "linked (heap ?s) (Some (head_of ?s l)) (head_of ?s l # V)" using ln V by simp
    show "card (dom (list_maps n ?s l)) = length V"
      using cc(2) assms(2) V by (simp add: list_maps_def)
    show "(\<Sum>k\<in>dom (list_maps n ?s l). k) = sum_list (map (nkey (heap ?s)) V)"
      using cc(3) assms(2) V by (simp add: list_maps_def)
    show "\<And>a n. heap ?s a = Some n \<Longrightarrow> \<not> w_deleted n"
      using shared_okD(1) [OF sh] by (auto simp: heap_ok_def)
  qed
qed

lemma get_size_sys:
  assumes "sys_ok {..<n} A C S" and "l < n"
  shows "get_size l (shared S) = (Ok (of_nat (card (dom (list_maps n (shared S) l)))), shared S)"
  using assms
  by (rule sys_walk) (simp add: get_size_def run_simps size_loop_run del: linked.simps size_loop.simps)

lemma get_sum_key_sys:
  assumes "sys_ok {..<n} A C S" and "l < n"
  shows "get_sum_key l (shared S) = (Ok (\<Sum>k\<in>dom (list_maps n (shared S) l). k), shared S)"
  using assms
  by (rule sys_walk) (simp add: get_sum_key_def run_simps sum_loop_run del: linked.simps sum_loop.simps)

lemma deinit_list_sys:
  assumes "sys_ok {..<n} A C S" and "l < n"
  shows "deinit_list l (shared S) =
    (Ok (), (shared S)\<lparr>retired := retired (shared S) @ butlast (nodes_of (shared S) l)\<rparr>)"
  using assms
proof (rule sys_walk)
  fix V
  let ?s = "shared S" let ?hd = "head_of ?s l"
  assume V: "nodes_of ?s l = ?hd # V" "linked (heap ?s) (Some ?hd) (?hd # V)" "length V < next_addr ?s"
    and nd: "\<And>a n. heap ?s a = Some n \<Longrightarrow> \<not> w_deleted n"
  from V(2) obtain n where n: "heap ?s ?hd = Some n" "linked (heap ?s) (m_next n) V"
    by (auto split: option.splits)
  have "deinit_loop (Suc (next_addr ?s)) ?hd (m_next n) ?s =
    (Ok (), ?s\<lparr>retired := retired ?s @ butlast (?hd # V)\<rparr>)"
    by (rule deinit_loop_run [OF n(2)]) (use V(3) n nd in auto)
  with n V(1) show ?thesis by (simp add: deinit_list_def derefE_def run_simps del: deinit_loop.simps butlast.simps)
qed

lemma get_size_reach:
  "tx_reach i n S \<Longrightarrow> l < n \<Longrightarrow>
   get_size l (shared S) = (Ok (of_nat (card (dom (list_maps n (shared S) l)))), shared S)"
  using tx_reach_ok get_size_sys by blast

lemma get_sum_key_reach:
  "tx_reach i n S \<Longrightarrow> l < n \<Longrightarrow>
   get_sum_key l (shared S) = (Ok (\<Sum>k\<in>dom (list_maps n (shared S) l). k), shared S)"
  using tx_reach_ok get_sum_key_sys by blast

lemma deinit_list_reach:
  "tx_reach i n S \<Longrightarrow> l < n \<Longrightarrow> deinit_list l (shared S) =
    (Ok (), (shared S)\<lparr>retired := retired (shared S) @ butlast (nodes_of (shared S) l)\<rparr>)"
  using tx_reach_ok deinit_list_sys by blast

end

end
