(* ===== verification/DummyIndex.thy ===== *)
theory DummyIndex
  imports ListWalks
begin

text \<open>
  The dummy index, \<^verbatim>\<open>datatypes/dummyIndex.h\<close>: it remembers the head of the list, ignores
  \<open>add\<close> and \<open>remove\<close>, and answers every search with the head.
\<close>

definition DummyIndex_init :: "addr \<Rightarrow> addr" where
  "DummyIndex_init head_node = head_node"

definition DummyIndex_add ::
  "(addr \<Rightarrow> lnode option) \<Rightarrow> addr \<Rightarrow> u64 \<Rightarrow> addr \<Rightarrow> (u64 \<times> addr) outcome" where
  "DummyIndex_add h node seed ix = Ok (seed, ix)"

definition DummyIndex_remove :: "(addr \<Rightarrow> lnode option) \<Rightarrow> addr \<Rightarrow> addr \<Rightarrow> addr outcome" where
  "DummyIndex_remove h node ix = Ok ix"

definition DummyIndex_getPred ::
  "(addr \<Rightarrow> lnode option) \<Rightarrow> key_t \<Rightarrow> addr \<Rightarrow> (addr \<times> addr) outcome" where
  "DummyIndex_getPred h key ix = Ok (ix, ix)"

definition dummy_index :: "addr index_ops" where
  "dummy_index = \<lparr>ix_init = DummyIndex_init, ix_add = DummyIndex_add,
     ix_remove = DummyIndex_remove, ix_getPred = DummyIndex_getPred\<rparr>"

text \<open>The dummy index meets the interface: it refers to the head only.\<close>

definition dummy_inv :: "(addr \<Rightarrow> lnode option) \<Rightarrow> addr \<Rightarrow> addr set \<Rightarrow> addr \<Rightarrow> bool" where
  "dummy_inv h head A ix \<longleftrightarrow> ix = head \<and> head \<in> A"

interpretation dummy: list_index dummy_index dummy_inv
  by unfold_locales
    (simp_all add: dummy_index_def dummy_inv_def DummyIndex_init_def DummyIndex_add_def
      DummyIndex_remove_def DummyIndex_getPred_def)

end
