(* ===== verification/SkipList.thy ===== *)
theory SkipList
  imports IndexSpec "HOL-Library.Sublist"
begin

text \<open>
  The skip-list index of a list, \<^verbatim>\<open>nodes/Index.h\<close>, with the random level of
  \<^verbatim>\<open>nodes/utils.h\<close>. Index nodes live in a heap of their own; a \<open>HeadIndex\<close> is an index
  node whose \<open>m_level\<close> and \<open>m_up\<close> are in use. Every operation runs as one step of its thread, so
  a compare-and-set fails only when its comparison does. The retry loops carry a bound taken from
  the number of index nodes, and \<open>Diverges\<close> is the value of a loop that passes it.
\<close>

section \<open>Random levels\<close>

text \<open>\<open>RandomFNV1A::next\<close>: the value drawn is the new seed.\<close>

definition random_next :: "u64 \<Rightarrow> u64" where
  "random_next seed = (14695981039346656037 XOR seed) * 1099511628211"

definition get_random_in_range :: "u64 \<Rightarrow> u64 \<Rightarrow> u64 \<Rightarrow> u64 \<times> u64" where
  "get_random_in_range min_range max_range seed =
     (let x = random_next seed in (x mod (max_range - min_range) + min_range, x))"

text \<open>The loop \<open>while (((rnd >>= 1) & 1) != 0) ++level\<close>.\<close>

function trailing_ones :: "u64 \<Rightarrow> nat" where
  "trailing_ones rnd =
     (let rnd' = drop_bit 1 rnd in if rnd' AND 1 \<noteq> 0 then Suc (trailing_ones rnd') else 0)"
  by auto

lemma drop_bit_less: "drop_bit 1 (rnd :: u64) AND 1 \<noteq> 0 \<Longrightarrow> unat (drop_bit 1 rnd) < unat rnd"
proof -
  assume "drop_bit 1 rnd AND 1 \<noteq> 0"
  then have "drop_bit 1 rnd \<noteq> 0" by auto
  then have "unat (drop_bit 1 rnd) \<noteq> 0" by (simp add: unat_eq_zero)
  moreover have "unat (drop_bit 1 rnd) = unat rnd div 2" by (simp add: drop_bit_eq_div unat_div)
  ultimately show ?thesis by simp
qed

termination trailing_ones
  by (relation "measure unat") (use drop_bit_less in auto)

declare trailing_ones.simps [simp del]

section \<open>Index nodes\<close>

record index_node =
  m_right :: "addr option"
  m_down :: "addr option"
  m_node :: addr
  m_level :: nat
  m_up :: "addr option"

record skip_list =
  ix_nodes :: "addr \<Rightarrow> index_node option"
  ix_fresh :: addr
  m_head_top :: addr
  m_head_bottom :: addr

definition HeadIndex :: "addr \<Rightarrow> addr option \<Rightarrow> addr option \<Rightarrow> nat \<Rightarrow> index_node" where
  "HeadIndex node down right level =
     \<lparr>m_right = right, m_down = down, m_node = node, m_level = level, m_up = None\<rparr>"

definition IndexNode :: "addr \<Rightarrow> addr option \<Rightarrow> addr option \<Rightarrow> index_node" where
  "IndexNode node down right =
     \<lparr>m_right = right, m_down = down, m_node = node, m_level = 0, m_up = None\<rparr>"

definition Index_init :: "addr \<Rightarrow> skip_list" where
  "Index_init head_node =
     \<lparr>ix_nodes = [0 \<mapsto> HeadIndex head_node None None 0], ix_fresh = 1, m_head_top = 0, m_head_bottom = 0\<rparr>"

definition ixE :: "addr \<Rightarrow> (skip_list, index_node) cmd" where
  "ixE p = (\<lambda>ix. case ix_nodes ix p of None \<Rightarrow> (Throw NullPointer, ix) | Some n \<Rightarrow> (Ok n, ix))"

definition ptrE :: "addr option \<Rightarrow> (skip_list, addr) cmd" where
  "ptrE p = (case p of None \<Rightarrow> throwE NullPointer | Some a \<Rightarrow> returnE a)"

definition updIxE :: "addr \<Rightarrow> (index_node \<Rightarrow> index_node) \<Rightarrow> (skip_list, unit) cmd" where
  "updIxE p f = bindE (ixE p) (\<lambda>n. modifyE (\<lambda>ix. ix\<lparr>ix_nodes := (ix_nodes ix)(p \<mapsto> f n)\<rparr>))"

definition newIxE :: "index_node \<Rightarrow> (skip_list, addr) cmd" where
  "newIxE n = (\<lambda>ix. (Ok (ix_fresh ix),
     ix\<lparr>ix_nodes := (ix_nodes ix)(ix_fresh ix \<mapsto> n), ix_fresh := Suc (ix_fresh ix)\<rparr>))"

text \<open>The list node behind an index node, in the heap \<open>h\<close> of the list.\<close>

definition lnodeE :: "(addr \<Rightarrow> lnode option) \<Rightarrow> addr \<Rightarrow> (skip_list, lnode) cmd" where
  "lnodeE h a = (case h a of None \<Rightarrow> throwE NullPointer | Some n \<Rightarrow> returnE n)"

definition is_gone :: "lnode \<Rightarrow> bool" where
  "is_gone n \<longleftrightarrow> w_deleted n \<or> m_val n = None"

definition goneE :: "(addr \<Rightarrow> lnode option) \<Rightarrow> addr \<Rightarrow> (skip_list, bool) cmd" where
  "goneE h p = bindE (ixE p) (\<lambda>n. bindE (lnodeE h (m_node n)) (\<lambda>nd. returnE (is_gone nd)))"

definition casRight :: "addr \<Rightarrow> addr option \<Rightarrow> addr option \<Rightarrow> (skip_list, bool) cmd" where
  "casRight p cmp val = bindE (ixE p) (\<lambda>n.
     if m_right n = cmp then thenE (updIxE p (\<lambda>n. n\<lparr>m_right := val\<rparr>)) (returnE True)
     else returnE False)"

definition link ::
  "(addr \<Rightarrow> lnode option) \<Rightarrow> addr \<Rightarrow> addr option \<Rightarrow> addr \<Rightarrow> (skip_list, bool) cmd" where
  "link h p succ new_succ =
     thenE (updIxE new_succ (\<lambda>n. n\<lparr>m_right := succ\<rparr>))
       (bindE (goneE h p) (\<lambda>g. if g then returnE False else casRight p succ (Some new_succ)))"

definition unlink :: "(addr \<Rightarrow> lnode option) \<Rightarrow> addr \<Rightarrow> addr option \<Rightarrow> (skip_list, bool) cmd" where
  "unlink h p succ =
     (case succ of
        None \<Rightarrow> returnE True
      | Some r \<Rightarrow> bindE (goneE h p) (\<lambda>g.
          if g then returnE False
          else bindE (ixE r) (\<lambda>rn. casRight p (Some r) (m_right rn))))"

section \<open>Searching\<close>

text \<open>The tuple of \<open>walkLevel\<close>; \<open>None\<close> is the result with \<open>finish == false\<close>.\<close>

primrec walk_loop ::
  "nat \<Rightarrow> (addr \<Rightarrow> lnode option) \<Rightarrow> key_t \<Rightarrow> addr \<Rightarrow> addr option \<Rightarrow>
   (skip_list, (addr \<times> addr option) option) cmd" where
  "walk_loop 0 h key q r = throwE Diverges"
| "walk_loop (Suc fuel) h key q r =
     (case r of
        None \<Rightarrow> returnE (Some (q, r))
      | Some ra \<Rightarrow>
          bindE (ixE ra) (\<lambda>rn.
          bindE (lnodeE h (m_node rn)) (\<lambda>n.
          let c = key > m_key n in
          if is_gone n then
            bindE (unlink h q r) (\<lambda>ok.
              if \<not> ok then returnE None
              else bindE (ixE q) (\<lambda>qn. walk_loop fuel h key q (m_right qn)))
          else if c then bindE (ixE ra) (\<lambda>qn. walk_loop fuel h key ra (m_right qn))
          else returnE (Some (q, r)))))"

definition walkLevel ::
  "(addr \<Rightarrow> lnode option) \<Rightarrow> addr option \<Rightarrow> key_t \<Rightarrow> (skip_list, (addr \<times> addr option) option) cmd" where
  "walkLevel h start key =
     (case start of
        None \<Rightarrow> throwE InvalidArgument
      | Some q \<Rightarrow> bindE (getsE ix_fresh) (\<lambda>n. bindE (ixE q) (\<lambda>qn. walk_loop (Suc n) h key q (m_right qn))))"

text \<open>The innermost loop of \<open>findInsertionPoints\<close>: a failed walk starts again at the level head.\<close>

primrec walk_retry ::
  "nat \<Rightarrow> (addr \<Rightarrow> lnode option) \<Rightarrow> key_t \<Rightarrow> addr option \<Rightarrow> addr option \<Rightarrow>
   (skip_list, addr option \<times> addr \<times> addr option) cmd" where
  "walk_retry 0 h key level_head cur = throwE Diverges"
| "walk_retry (Suc fuel) h key level_head cur =
     bindE (walkLevel h cur key) (\<lambda>res.
       case res of
         Some (prev, next) \<Rightarrow> returnE (cur, prev, next)
       | None \<Rightarrow> walk_retry fuel h key level_head level_head)"

text \<open>
  The loop over the levels. \<open>None\<close> is the value with which it is left to start all over; the
  vectors are indexed by the level.
\<close>

primrec level_loop ::
  "nat \<Rightarrow> (addr \<Rightarrow> lnode option) \<Rightarrow> key_t \<Rightarrow> addr option \<Rightarrow> addr option \<Rightarrow> int \<Rightarrow>
   addr option list \<Rightarrow> addr option list \<Rightarrow>
   (skip_list, (addr option list \<times> addr option list) option) cmd" where
  "level_loop 0 h key level_head cur level prevs nexts = throwE Diverges"
| "level_loop (Suc fuel) h key level_head cur level prevs nexts =
     (if \<not> level > -1 then returnE None
      else
        bindE (ptrE cur) (\<lambda>c.
        bindE (goneE h c) (\<lambda>g.
        if g then returnE None
        else
          bindE (getsE ix_fresh) (\<lambda>n.
          bindE (walk_retry (Suc n) h key level_head cur) (\<lambda>(cur, prev, next).
          bindE (goneE h prev) (\<lambda>g.
          if g then level_loop fuel h key level_head cur level prevs nexts
          else
            let prevs = prevs[nat level := Some prev]; nexts = nexts[nat level := next] in
            bindE (ixE prev) (\<lambda>pn.
              case m_down pn of
                None \<Rightarrow> thenE (assertE (level = 0)) (returnE (Some (prevs, nexts)))
              | Some d \<Rightarrow>
                  bindE (ptrE level_head) (\<lambda>lh.
                  bindE (ixE lh) (\<lambda>lhn.
                    level_loop fuel h key (m_down lhn) (Some d) (level - 1) prevs nexts)))))))))"

primrec find_retry ::
  "nat \<Rightarrow> (addr \<Rightarrow> lnode option) \<Rightarrow> key_t \<Rightarrow> (skip_list, addr option list \<times> addr option list) cmd" where
  "find_retry 0 h key = throwE Diverges"
| "find_retry (Suc fuel) h key =
     bindE (getsE m_head_top) (\<lambda>top.
     bindE (ixE top) (\<lambda>tn.
     bindE (getsE ix_fresh) (\<lambda>n.
     bindE (level_loop (Suc n) h key (Some top) (Some top) (int (m_level tn))
              (replicate (Suc (m_level tn)) None) (replicate (Suc (m_level tn)) None)) (\<lambda>res.
       case res of Some pn \<Rightarrow> returnE pn | None \<Rightarrow> find_retry fuel h key))))"

definition findInsertionPoints ::
  "(addr \<Rightarrow> lnode option) \<Rightarrow> key_t \<Rightarrow> (skip_list, addr option list \<times> addr option list) cmd" where
  "findInsertionPoints h key = bindE (getsE ix_fresh) (\<lambda>n. find_retry (Suc n) h key)"

definition findPredecessor :: "(addr \<Rightarrow> lnode option) \<Rightarrow> key_t \<Rightarrow> (skip_list, addr) cmd" where
  "findPredecessor h key =
     bindE (findInsertionPoints h key) (\<lambda>(prevs, nexts).
       thenE (assertE (length prevs \<ge> 1))
         (bindE (ptrE (prevs ! 0)) (\<lambda>p. bindE (ixE p) (\<lambda>pn. returnE (m_node pn)))))"

primrec getPred_retry :: "nat \<Rightarrow> (addr \<Rightarrow> lnode option) \<Rightarrow> key_t \<Rightarrow> (skip_list, addr) cmd" where
  "getPred_retry 0 h key = throwE Diverges"
| "getPred_retry (Suc fuel) h key =
     bindE (findPredecessor h key) (\<lambda>b.
     bindE (lnodeE h b) (\<lambda>nd.
       if \<not> is_gone nd then returnE b else getPred_retry fuel h key))"

definition Index_getPred :: "(addr \<Rightarrow> lnode option) \<Rightarrow> key_t \<Rightarrow> (skip_list, addr) cmd" where
  "Index_getPred h key = bindE (getsE ix_fresh) (\<lambda>n. getPred_retry (Suc n) h key)"

section \<open>Changing the height\<close>

definition levelUp :: "addr \<Rightarrow> addr \<Rightarrow> (skip_list, unit) cmd" where
  "levelUp cmp val =
     bindE (ixE val) (\<lambda>vn.
     thenE (assertE (m_down vn = Some cmp \<and> m_up vn = None))
    (thenE (updIxE cmp (\<lambda>n. n\<lparr>m_up := Some val\<rparr>))
           (modifyE (\<lambda>ix. ix\<lparr>m_head_top := val\<rparr>))))"

definition levelDown :: "addr \<Rightarrow> addr \<Rightarrow> (skip_list, unit) cmd" where
  "levelDown cmp val =
     thenE (updIxE val (\<lambda>n. n\<lparr>m_up := None\<rparr>)) (modifyE (\<lambda>ix. ix\<lparr>m_head_top := val\<rparr>))"

definition casHead :: "addr \<Rightarrow> addr \<Rightarrow> bool \<Rightarrow> (skip_list, bool) cmd" where
  "casHead cmp val up =
     bindE (getsE m_head_top) (\<lambda>top.
       if top = cmp then thenE (if up then levelUp cmp val else levelDown cmp val) (returnE True)
       else returnE False)"

definition tryReduceLevel :: "(skip_list, unit) cmd" where
  "tryReduceLevel =
     bindE (getsE m_head_top) (\<lambda>h.
     bindE (ixE h) (\<lambda>hn.
       if m_level hn < 3 then returnE ()
       else
         bindE (ptrE (m_down hn)) (\<lambda>d.
         bindE (ixE d) (\<lambda>dn.
           case m_down dn of
             None \<Rightarrow> returnE ()
           | Some e \<Rightarrow>
               bindE (ixE e) (\<lambda>en.
                 if m_right en = None \<and> m_right dn = None \<and> m_right hn = None then
                   bindE (casHead h d False) (\<lambda>ok.
                     if \<not> ok then returnE ()
                     else bindE (ixE h) (\<lambda>hn.
                       if m_right hn \<noteq> None then thenE (casHead d h True) (returnE ())
                       else returnE ()))
                 else returnE ())))))"

section \<open>Adding and removing\<close>

text \<open>\<open>mk_tower\<close>: the loop of \<open>createNewIndexNode\<close> that makes the nodes, each on top of the last.\<close>

primrec mk_tower :: "nat \<Rightarrow> addr \<Rightarrow> addr option \<Rightarrow> (skip_list, addr list) cmd" where
  "mk_tower 0 node idx = returnE []"
| "mk_tower (Suc k) node idx =
     bindE (newIxE (IndexNode node idx None)) (\<lambda>a.
     bindE (mk_tower k node (Some a)) (\<lambda>as. returnE (a # as)))"

definition new_level :: "u64 \<Rightarrow> nat \<Rightarrow> nat \<times> u64" where
  "new_level seed max_level =
     (let (rnd, seed) = get_random_in_range 2 (2 ^ 30 - 1) seed
      in (min (trailing_ones rnd) (max_level + 1), seed))"

text \<open>
  The end of the first loop of \<open>insert_in_level\<close>: after a failed \<open>link\<close> the call gives up when
  the new node still has a value; otherwise it walks the level again.
\<close>

primrec insert_in_level ::
  "nat \<Rightarrow> (addr \<Rightarrow> lnode option) \<Rightarrow> addr \<Rightarrow> addr option \<Rightarrow> addr option \<Rightarrow> addr \<Rightarrow> (skip_list, bool) cmd" where
  "insert_in_level 0 h new_node prev next head = throwE Diverges"
| "insert_in_level (Suc fuel) h new_node prev next head =
     bindE (ptrE prev) (\<lambda>p.
     bindE (link h p next new_node) (\<lambda>ok.
       if ok then returnE True
       else
         bindE (ixE new_node) (\<lambda>nn.
         bindE (lnodeE h (m_node nn)) (\<lambda>nd.
           if w_deleted nd \<or> m_val nd \<noteq> None then returnE False
           else
             bindE (getsE ix_fresh) (\<lambda>n.
             bindE (walk_retry (Suc n) h (m_key nd) (Some head) (Some head)) (\<lambda>(_, prev, next).
               insert_in_level fuel h new_node (Some prev) next head))))))"

text \<open>
  The loop of \<open>add\<close> over the existing levels, from the bottom: the number of levels entered, or
  \<open>None\<close> when it gives up.
\<close>

primrec insert_levels ::
  "nat \<Rightarrow> (addr \<Rightarrow> lnode option) \<Rightarrow> addr option \<Rightarrow> nat \<Rightarrow> addr list \<Rightarrow> addr option list \<Rightarrow>
   addr option list \<Rightarrow> nat \<Rightarrow> (skip_list, nat option) cmd" where
  "insert_levels 0 h head level idxs prevs nexts insertion_level = throwE Diverges"
| "insert_levels (Suc fuel) h head level idxs prevs nexts insertion_level =
     (case head of
        None \<Rightarrow> returnE (Some insertion_level)
      | Some hi \<Rightarrow>
          bindE (ixE hi) (\<lambda>hn.
            let curr_level = m_level hn in
            if curr_level < level + 1 \<and> curr_level < length prevs then
              bindE (getsE ix_fresh) (\<lambda>n.
              bindE (insert_in_level (Suc n) h (idxs ! curr_level) (prevs ! curr_level) (nexts ! curr_level) hi)
                (\<lambda>ok.
                  if \<not> ok then returnE None
                  else bindE (ixE hi) (\<lambda>hn.
                    insert_levels fuel h (m_up hn) level idxs prevs nexts (Suc insertion_level))))
            else returnE (Some insertion_level)))"

definition Index_add :: "(addr \<Rightarrow> lnode option) \<Rightarrow> addr \<Rightarrow> u64 \<Rightarrow> (skip_list, u64) cmd" where
  "Index_add h node_to_add seed =
     bindE (getsE m_head_bottom) (\<lambda>bottom.
     bindE (lnodeE h node_to_add) (\<lambda>nd.
     bindE (findInsertionPoints h (m_key nd)) (\<lambda>(prevs, nexts).
     let size = length prevs; (level, seed) = new_level seed size in
     bindE (mk_tower (level + 1) node_to_add None) (\<lambda>idxs.
     bindE (getsE ix_fresh) (\<lambda>n.
     bindE (insert_levels (Suc n) h (Some bottom) level idxs prevs nexts 0) (\<lambda>res.
       case res of
         None \<Rightarrow> returnE seed
       | Some insertion_level \<Rightarrow>
           if insertion_level = level + 1 then returnE seed
           else
             bindE (getsE m_head_top) (\<lambda>head.
             bindE (ixE head) (\<lambda>hn.
               let old_level = m_level hn in
               if old_level > insertion_level then returnE seed
               else if old_level < level then
                 bindE (newIxE (HeadIndex (m_node hn) (Some head) (Some (idxs ! (old_level + 1))) (old_level + 1)))
                   (\<lambda>newh. thenE (casHead head newh True) (returnE seed))
               else returnE seed))))))))"

definition Index_remove :: "(addr \<Rightarrow> lnode option) \<Rightarrow> addr \<Rightarrow> (skip_list, unit) cmd" where
  "Index_remove h node =
     bindE (lnodeE h node) (\<lambda>nd.
     thenE (findPredecessor h (m_key nd))
    (bindE (getsE m_head_top) (\<lambda>top.
     bindE (ixE top) (\<lambda>tn.
       if m_right tn = None then tryReduceLevel else returnE ()))))"

text \<open>The operations as the list calls them.\<close>

definition skip_index :: "skip_list index_ops" where
  "skip_index = \<lparr>
     ix_init = Index_init,
     ix_add = (\<lambda>h a seed ix. case Index_add h a seed ix of (Ok r, ix') \<Rightarrow> Ok (r, ix') | (Throw e, _) \<Rightarrow> Throw e),
     ix_remove = (\<lambda>h a ix. case Index_remove h a ix of (Ok _, ix') \<Rightarrow> Ok ix' | (Throw e, _) \<Rightarrow> Throw e),
     ix_getPred = (\<lambda>h k ix. case Index_getPred h k ix of (Ok b, ix') \<Rightarrow> Ok (b, ix') | (Throw e, _) \<Rightarrow> Throw e)\<rparr>"

end
