(* ===== verification/SkipWalk.thy ===== *)
theory SkipWalk
  imports SkipList
begin

text \<open>
  The walk along one level of the skip list: it unlinks the index nodes of deleted list nodes it
  passes and stops before the first live node whose key is not less than the one searched for.
\<close>

section \<open>Embeddings of lists\<close>

lemma subseq_sorted_wrt: "subseq xs ys \<Longrightarrow> sorted_wrt P ys \<Longrightarrow> sorted_wrt P xs"
proof (induction rule: list_emb.induct)
  case (list_emb_Cons2 x y xs ys)
  then have "set xs \<subseteq> set ys" by (auto elim: list_emb_set)
  with list_emb_Cons2 show ?case by auto
qed auto

lemma subseq_emb: "list_emb P ys zs \<Longrightarrow> subseq xs ys \<Longrightarrow> list_emb P xs zs"
proof (induction arbitrary: xs rule: list_emb.induct)
  case (list_emb_Cons2 x y ys zs)
  show ?case
  proof (cases xs)
    case (Cons x' xs')
    with list_emb_Cons2.prems have "x' = x \<and> subseq xs' ys \<or> subseq xs ys"
      by (cases "x' = x") auto
    with list_emb_Cons2 Cons show ?thesis by auto
  qed simp
qed (auto dest: list_emb_Nil2)

lemma emb_split:
  assumes "list_emb P (xs @ x # ys) zs" and "\<And>y. P x y \<Longrightarrow> y = c"
  obtains u v where "zs = u @ c # v" and "list_emb P (xs @ [x]) (u @ [c])" and "list_emb P ys v"
proof -
  obtain a b where zs: "zs = a @ b" "list_emb P xs a" "list_emb P (x # ys) b"
    using list_emb_appendD [OF assms(1)] by blast
  from list_emb_ConsD [OF zs(3)] obtain p y v where b: "b = p @ y # v" "P x y" "list_emb P ys v" by blast
  then have y: "y = c" using assms(2) by blast
  show thesis
  proof (rule that [of "a @ p" v])
    show "zs = (a @ p) @ c # v" using zs(1) b(1) y by simp
    have "list_emb P [x] [c]" using b(2) y by blast
    then have "list_emb P [x] (p @ [c])" by (rule list_emb_append2)
    with zs(2) show "list_emb P (xs @ [x]) ((a @ p) @ [c])"
      using list_emb_append_mono by fastforce
  qed (rule b(3))
qed

lemma emb_drop:
  "list_emb P xs (D @ N) \<Longrightarrow> (xs \<noteq> [] \<Longrightarrow> \<forall>y\<in>set D. \<not> P (hd xs) y) \<Longrightarrow> list_emb P xs N"
proof (induction D)
  case (Cons d D)
  show ?case
  proof (cases xs)
    case (Cons x xs')
    with Cons.prems have "list_emb P (x # xs') (D @ N)" by simp
    then show ?thesis using Cons Cons.IH Cons.prems(2) by simp
  qed simp
qed simp

section \<open>Reading an index\<close>

definition right :: "skip_list \<Rightarrow> addr \<Rightarrow> addr option" where
  "right ix x = (case ix_nodes ix x of Some n \<Rightarrow> m_right n | None \<Rightarrow> None)"

definition down :: "skip_list \<Rightarrow> addr \<Rightarrow> addr option" where
  "down ix x = (case ix_nodes ix x of Some n \<Rightarrow> m_down n | None \<Rightarrow> None)"

definition inode :: "skip_list \<Rightarrow> addr \<Rightarrow> addr" where
  "inode ix x = (case ix_nodes ix x of Some n \<Rightarrow> m_node n | None \<Rightarrow> 0)"

abbreviation ilive :: "(addr \<Rightarrow> lnode option) \<Rightarrow> skip_list \<Rightarrow> addr \<Rightarrow> bool" where
  "ilive h ix x \<equiv> live h (inode ix x)"

abbreviation ikey :: "(addr \<Rightarrow> lnode option) \<Rightarrow> skip_list \<Rightarrow> addr \<Rightarrow> key_t" where
  "ikey h ix x \<equiv> nkey h (inode ix x)"

text \<open>A change of \<open>m_right\<close> fields only, of the nodes \<open>Z\<close>.\<close>

definition right_only :: "addr set \<Rightarrow> skip_list \<Rightarrow> skip_list \<Rightarrow> bool" where
  "right_only Z ix ix' \<longleftrightarrow> ix_fresh ix' = ix_fresh ix \<and> m_head_top ix' = m_head_top ix \<and>
     m_head_bottom ix' = m_head_bottom ix \<and> dom (ix_nodes ix') = dom (ix_nodes ix) \<and>
     (\<forall>x. x \<notin> Z \<longrightarrow> ix_nodes ix' x = ix_nodes ix x) \<and>
     (\<forall>x n. ix_nodes ix x = Some n \<longrightarrow> (\<exists>r. ix_nodes ix' x = Some (n\<lparr>m_right := r\<rparr>)))"

lemma right_only_refl [simp]: "right_only Z ix ix"
proof -
  have "\<exists>r. n = n\<lparr>m_right := r\<rparr>" for n :: index_node by (rule exI [of _ "m_right n"]) simp
  then show ?thesis by (simp add: right_only_def)
qed

lemma right_only_upd:
  "ix_nodes ix p = Some n \<Longrightarrow> p \<in> Z \<Longrightarrow>
   right_only Z ix (ix\<lparr>ix_nodes := (ix_nodes ix)(p \<mapsto> n\<lparr>m_right := r\<rparr>)\<rparr>)"
  using right_only_refl [of Z ix] unfolding right_only_def by auto

lemma right_only_mono: "right_only Z ix ix' \<Longrightarrow> Z \<subseteq> Z' \<Longrightarrow> right_only Z' ix ix'"
  unfolding right_only_def by blast

lemma right_only_trans:
  assumes "right_only Z ix ix'" and "right_only Z' ix' ix''" and "Z \<union> Z' \<subseteq> Y"
  shows "right_only Y ix ix''"
proof -
  have "\<exists>r. ix_nodes ix'' x = Some (n\<lparr>m_right := r\<rparr>)" if n: "ix_nodes ix x = Some n" for x n
  proof -
    obtain r where "ix_nodes ix' x = Some (n\<lparr>m_right := r\<rparr>)" using assms(1) n unfolding right_only_def by blast
    then obtain r' where "ix_nodes ix'' x = Some (n\<lparr>m_right := r\<rparr>\<lparr>m_right := r'\<rparr>)"
      using assms(2) unfolding right_only_def by blast
    then show ?thesis by auto
  qed
  moreover have "ix_nodes ix'' x = ix_nodes ix x" if "x \<notin> Y" for x
    using assms that unfolding right_only_def by (metis UnI1 UnI2 subsetD)
  ultimately show ?thesis using assms(1,2) by (simp add: right_only_def)
qed

lemma right_only_sel:
  assumes "right_only Z ix ix'"
  shows "inode ix' x = inode ix x" and "down ix' x = down ix x" and "x \<notin> Z \<Longrightarrow> right ix' x = right ix x"
    and "dom (ix_nodes ix') = dom (ix_nodes ix)" and "ix_fresh ix' = ix_fresh ix"
    and "m_head_top ix' = m_head_top ix" and "m_head_bottom ix' = m_head_bottom ix"
proof -
  have d: "dom (ix_nodes ix') = dom (ix_nodes ix)" using assms by (simp add: right_only_def)
  have "inode ix' x = inode ix x \<and> down ix' x = down ix x"
  proof (cases "ix_nodes ix x")
    case None
    with d have "ix_nodes ix' x = None" by blast
    with None show ?thesis by (simp add: inode_def down_def)
  next
    case (Some n)
    with assms obtain r where "ix_nodes ix' x = Some (n\<lparr>m_right := r\<rparr>)" unfolding right_only_def by blast
    with Some show ?thesis by (simp add: inode_def down_def)
  qed
  then show "inode ix' x = inode ix x" "down ix' x = down ix x" by simp_all
qed (use assms in \<open>simp_all add: right_only_def right_def\<close>)

section \<open>Accesses\<close>

lemma ixE_run [run_simps]: "ix_nodes ix p = Some n \<Longrightarrow> ixE p ix = (Ok n, ix)"
  by (simp add: ixE_def)

lemma lnodeE_run [run_simps]: "h a = Some n \<Longrightarrow> lnodeE h a ix = (Ok n, ix)"
  by (simp add: lnodeE_def run_simps)

lemma updIxE_run [run_simps]:
  "ix_nodes ix p = Some n \<Longrightarrow> updIxE p f ix = (Ok (), ix\<lparr>ix_nodes := (ix_nodes ix)(p \<mapsto> f n)\<rparr>)"
  by (simp add: updIxE_def run_simps)

lemma ptrE_run [run_simps]: "ptrE (Some a) ix = (Ok a, ix)"
  by (simp add: ptrE_def run_simps)

lemma is_gone_live: "flags_clear h \<Longrightarrow> h a = Some n \<Longrightarrow> is_gone n \<longleftrightarrow> \<not> live h a"
  by (simp add: is_gone_def flags_clear_def live_def)

lemma goneE_run [run_simps]:
  assumes "flags_clear h" and "ix_nodes ix p = Some n" and "h (m_node n) \<noteq> None"
  shows "goneE h p ix = (Ok (\<not> live h (m_node n)), ix)"
  using assms is_gone_live [OF assms(1)] by (auto simp: goneE_def run_simps)

section \<open>One level\<close>

definition first :: "addr list \<Rightarrow> addr option" where
  "first N = (case N of [] \<Rightarrow> None | x # _ \<Rightarrow> Some x)"

definition stop :: "(addr \<Rightarrow> lnode option) \<Rightarrow> skip_list \<Rightarrow> key_t \<Rightarrow> addr list \<Rightarrow> bool" where
  "stop h ix k N \<longleftrightarrow> N = [] \<or> ilive h ix (hd N) \<and> k \<le> ikey h ix (hd N)"

definition well_placed :: "(addr \<Rightarrow> lnode option) \<Rightarrow> skip_list \<Rightarrow> addr set \<Rightarrow> bool" where
  "well_placed h ix Z \<longleftrightarrow> (\<forall>x\<in>Z. \<exists>n. ix_nodes ix x = Some n \<and> h (m_node n) \<noteq> None)"

text \<open>The nodes \<open>D\<close> are passed; the live ones \<open>E\<close> among them stay, \<open>N\<close> is what follows.\<close>

definition walked ::
  "(addr \<Rightarrow> lnode option) \<Rightarrow> key_t \<Rightarrow> addr \<Rightarrow> addr list \<Rightarrow> skip_list \<Rightarrow> addr list \<Rightarrow> addr list \<Rightarrow> skip_list \<Rightarrow> bool" where
  "walked h k q V ix D N ix' \<longleftrightarrow> V = D @ N \<and> right_only (set (q # D)) ix ix' \<and>
     path (right ix') (Some q) (q # filter (ilive h ix) D @ N) None \<and>
     (\<forall>x\<in>set D. ilive h ix x \<longrightarrow> ikey h ix x < k) \<and> stop h ix k N"

lemma unlink_run:
  assumes "flags_clear h" and "ix_nodes ix q = Some qn" and "live h (m_node qn)"
    and "m_right qn = Some a" and "ix_nodes ix a = Some an"
  shows "unlink h q (Some a) ix = (Ok True, ix\<lparr>ix_nodes := (ix_nodes ix)(q \<mapsto> qn\<lparr>m_right := m_right an\<rparr>)\<rparr>)"
  using assms by (auto simp: unlink_def casRight_def run_simps live_def)

lemma walk_loop_run:
  assumes "flags_clear h" and "well_placed h ix (set (q # V))" and "ilive h ix q"
    and "path (right ix) (Some q) (q # V) None" and "length V < fuel"
  shows "\<exists>D N ix'. walk_loop fuel h k q (right ix q) ix =
      (Ok (Some (last (q # filter (ilive h ix) D), first N)), ix') \<and> walked h k q V ix D N ix'"
  using assms
proof (induction V arbitrary: q ix fuel)
  case Nil
  then obtain f where "fuel = Suc f" by (cases fuel) auto
  with Nil show ?case
    by (intro exI [of _ "[]"] exI [of _ ix]) (simp add: run_simps walked_def stop_def first_def)
next
  case (Cons a V)
  then obtain f where f: "fuel = Suc f" by (cases fuel) auto
  obtain qn an nd where qn: "ix_nodes ix q = Some qn" and an: "ix_nodes ix a = Some an" "h (m_node an) = Some nd"
    using Cons.prems(2) by (auto simp: well_placed_def)
  have dist: "distinct (q # a # V)" using path_distinct Cons.prems(4) by blast
  have ra: "right ix q = Some a" "m_right qn = Some a" using Cons.prems(4) qn by (auto simp: right_def)
  have ia: "inode ix a = m_node an" "inode ix q = m_node qn" using qn an by (simp_all add: inode_def)
  have gone: "is_gone nd \<longleftrightarrow> \<not> ilive h ix a" using is_gone_live [OF Cons.prems(1) an(2)] ia by simp
  have ka: "ikey h ix a = m_key nd" using an ia by (simp add: nkey_def)
  consider (dead) "\<not> ilive h ix a" | (pass) "ilive h ix a" "m_key nd < k" | (halt) "ilive h ix a" "k \<le> m_key nd"
    by fastforce
  then show ?case
  proof cases
    case dead
    let ?ix = "ix\<lparr>ix_nodes := (ix_nodes ix)(q \<mapsto> qn\<lparr>m_right := m_right an\<rparr>)\<rparr>"
    have ro: "right_only {q} ix ?ix" by (rule right_only_upd [OF qn]) simp
    note sel = right_only_sel [OF ro]
    have rq: "right ?ix = (right ix)(q := right ix a)" using an by (auto simp: right_def fun_eq_iff)
    have wp: "well_placed h ?ix (set (q # V))"
      using Cons.prems(2) qn by (auto simp: well_placed_def)
    have "path (right ?ix) (Some q) (q # V) None" using Cons.prems(4) dist by (simp add: rq)
    then obtain D N ix' where run: "walk_loop f h k q (right ?ix q) ?ix =
        (Ok (Some (last (q # filter (ilive h ?ix) D), first N)), ix')" and w: "walked h k q V ?ix D N ix'"
      using Cons.IH [OF Cons.prems(1) wp, of f] Cons.prems(3,5) sel(1) f by auto
    have un: "unlink h q (Some a) ix = (Ok True, ?ix)"
      by (rule unlink_run [OF Cons.prems(1) qn _ ra(2) an(1)]) (use Cons.prems(3) ia in simp)
    have "right ?ix q = m_right an" by (simp add: right_def)
    with run un an qn f ra gone dead have "walk_loop fuel h k q (right ix q) ix =
        (Ok (Some (last (q # filter (ilive h ix) (a # D)), first N)), ix')"
      by (simp add: run_simps sel(1) Let_def)
    moreover have "walked h k q (a # V) ix (a # D) N ix'"
      using w dead right_only_trans [OF ro, of "set (q # D)" ix'] unfolding walked_def stop_def sel(1)
      by auto
    ultimately show ?thesis by blast
  next
    case pass
    have wp: "well_placed h ix (set (a # V))" using Cons.prems(2) by (auto simp: well_placed_def)
    have "path (right ix) (Some a) (a # V) None" using Cons.prems(4) by simp
    then obtain D N ix' where run: "walk_loop f h k a (right ix a) ix =
        (Ok (Some (last (a # filter (ilive h ix) D), first N)), ix')" and w: "walked h k a V ix D N ix'"
      using Cons.IH [OF Cons.prems(1) wp pass(1), of f] Cons.prems(5) f by auto
    have "right ix a = m_right an" using an by (simp add: right_def)
    with run an f ra gone pass have "walk_loop fuel h k q (right ix q) ix =
        (Ok (Some (last (q # filter (ilive h ix) (a # D)), first N)), ix')"
      by (simp add: run_simps Let_def)
    moreover have "walked h k q (a # V) ix (a # D) N ix'"
    proof -
      have ro: "right_only (set (a # D)) ix ix'" and V: "V = D @ N" using w by (simp_all add: walked_def)
      have "right ix' q = right ix q"
        by (rule right_only_sel(3) [OF ro]) (use dist V in auto)
      with w pass ra ka right_only_mono [OF ro, of "set (q # a # D)"]
      show ?thesis by (auto simp: walked_def)
    qed
    ultimately show ?thesis by blast
  next
    case halt
    then have "\<not> m_key nd < k" by simp
    with halt f ra an gone have "walk_loop fuel h k q (right ix q) ix = (Ok (Some (q, Some a)), ix)"
      by (simp add: run_simps Let_def)
    with Cons.prems(4) halt ka show ?thesis
      by (intro exI [of _ "[]"] exI [of _ "a # V"] exI [of _ ix]) (simp add: walked_def stop_def first_def)
  qed
qed

lemma walk_retry_run:
  assumes "flags_clear h" and "well_placed h ix (set (q # V))" and "ilive h ix q"
    and "path (right ix) (Some q) (q # V) None" and "dom (ix_nodes ix) = {..<ix_fresh ix}"
  obtains D N ix' where "walk_retry (Suc (ix_fresh ix)) h k lh (Some q) ix =
      (Ok (Some q, last (q # filter (ilive h ix) D), first N), ix')" and "walked h k q V ix D N ix'"
proof -
  have sub: "set V \<subseteq> {..<ix_fresh ix}" using assms(2,5) by (auto simp: well_placed_def)
  have "length V = card (set V)" using path_distinct [OF assms(4)] by (simp add: distinct_card)
  also have "\<dots> \<le> ix_fresh ix" using card_mono [OF _ sub] by simp
  finally obtain D N ix' where run: "walk_loop (Suc (ix_fresh ix)) h k q (right ix q) ix =
      (Ok (Some (last (q # filter (ilive h ix) D), first N)), ix')" and w: "walked h k q V ix D N ix'"
    using walk_loop_run [OF assms(1-4), of "Suc (ix_fresh ix)" k] by auto
  obtain qn where qn: "ix_nodes ix q = Some qn" using assms(2) by (auto simp: well_placed_def)
  then have "m_right qn = right ix q" by (simp add: right_def)
  with run qn have "walkLevel h (Some q) k ix = (Ok (Some (last (q # filter (ilive h ix) D), first N)), ix')"
    by (simp add: walkLevel_def run_simps del: walk_loop.simps)
  then have "walk_retry (Suc (ix_fresh ix)) h k lh (Some q) ix =
      (Ok (Some q, last (q # filter (ilive h ix) D), first N), ix')"
    by (simp add: run_simps)
  with w show thesis using that by blast
qed

end
