(* ===== verification/SkipFind.thy ===== *)
theory SkipFind
  imports SkipWalk
begin

text \<open>
  The invariant of the skip list and the search through its levels. Level \<open>j\<close> is the list
  \<open>X j\<close> of index nodes, its head index first; every level embeds into the one below it through
  \<open>m_down\<close>.
\<close>

definition dn :: "skip_list \<Rightarrow> addr \<Rightarrow> addr \<Rightarrow> bool" where
  "dn ix x y \<longleftrightarrow> down ix x = Some y \<and> inode ix y = inode ix x"

definition head_ok :: "addr \<Rightarrow> skip_list \<Rightarrow> nat \<Rightarrow> (nat \<Rightarrow> addr) \<Rightarrow> nat \<Rightarrow> bool" where
  "head_ok head ix T H j \<longleftrightarrow> (\<exists>n. ix_nodes ix (H j) = Some n \<and> m_node n = head \<and> m_level n = j \<and>
     m_down n = (if j = 0 then None else Some (H (j - 1))) \<and>
     m_up n = (if j = T then None else Some (H (Suc j))))"

definition level_ok ::
  "(addr \<Rightarrow> lnode option) \<Rightarrow> addr set \<Rightarrow> skip_list \<Rightarrow> nat \<Rightarrow> addr list \<Rightarrow> bool" where
  "level_ok h A ix j V \<longleftrightarrow> V \<noteq> [] \<and> path (right ix) (Some (hd V)) V None \<and>
     set V \<subseteq> dom (ix_nodes ix) \<and>
     (\<forall>x\<in>set V. inode ix x \<in> A \<and> (j = 0 \<longrightarrow> down ix x = None)) \<and>
     (\<forall>x\<in>set (tl V). inode ix x \<noteq> inode ix (hd V)) \<and>
     sorted_wrt (\<lambda>x y. ikey h ix x \<le> ikey h ix y) (tl V)"

definition skip_ok ::
  "(addr \<Rightarrow> lnode option) \<Rightarrow> addr \<Rightarrow> addr set \<Rightarrow> skip_list \<Rightarrow> nat \<Rightarrow> (nat \<Rightarrow> addr list) \<Rightarrow> bool" where
  "skip_ok h head A ix T X \<longleftrightarrow>
     dom (ix_nodes ix) = {..<ix_fresh ix} \<and> head \<in> A \<and> A \<subseteq> dom h \<and>
     m_head_top ix = hd (X T) \<and> m_head_bottom ix = hd (X 0) \<and>
     (\<forall>j\<le>T. level_ok h A ix j (X j) \<and> head_ok head ix T (\<lambda>j. hd (X j)) j) \<and>
     (\<forall>j<T. list_emb (dn ix) (X (Suc j)) (X j)) \<and>
     (\<forall>j\<le>T. \<forall>j'\<le>T. j \<noteq> j' \<longrightarrow> set (X j) \<inter> set (X j') = {})"

lemma skip_okD:
  assumes "skip_ok h head A ix T X"
  shows "dom (ix_nodes ix) = {..<ix_fresh ix}" and "head \<in> A" and "A \<subseteq> dom h"
    and "m_head_top ix = hd (X T)" and "m_head_bottom ix = hd (X 0)"
    and "j \<le> T \<Longrightarrow> level_ok h A ix j (X j)" and "j \<le> T \<Longrightarrow> head_ok head ix T (\<lambda>j. hd (X j)) j"
    and "j < T \<Longrightarrow> list_emb (dn ix) (X (Suc j)) (X j)"
    and "j \<le> T \<Longrightarrow> j' \<le> T \<Longrightarrow> j \<noteq> j' \<Longrightarrow> set (X j) \<inter> set (X j') = {}"
  using assms by (simp_all add: skip_ok_def)

lemma skip_well_placed:
  assumes "skip_ok h head A ix T X" and "j \<le> T" and "Z \<subseteq> set (X j)"
  shows "well_placed h ix Z"
  unfolding well_placed_def
proof
  fix x assume "x \<in> Z"
  with assms(3) skip_okD(6) [OF assms(1,2)] have "x \<in> dom (ix_nodes ix)" "inode ix x \<in> A"
    unfolding level_ok_def by blast+
  with skip_okD(3) [OF assms(1)] show "\<exists>n. ix_nodes ix x = Some n \<and> h (m_node n) \<noteq> None"
    by (auto simp: inode_def)
qed

lemma skip_head:
  assumes "skip_ok h head A ix T X" and "j \<le> T"
  shows "inode ix (hd (X j)) = head"
  using skip_okD(7) [OF assms] by (auto simp: head_ok_def inode_def)

lemma dn_right_only: "right_only Z ix ix' \<Longrightarrow> dn ix' = dn ix"
  by (simp add: dn_def right_only_sel fun_eq_iff)

lemma head_ok_right_only:
  assumes "right_only Z ix ix'" and "head_ok head ix T H j"
  shows "head_ok head ix' T H j"
proof -
  obtain n where n: "ix_nodes ix (H j) = Some n" "m_node n = head" "m_level n = j"
     "m_down n = (if j = 0 then None else Some (H (j - 1)))" "m_up n = (if j = T then None else Some (H (Suc j)))"
    using assms(2) by (auto simp: head_ok_def)
  moreover from assms(1) n(1) obtain r where "ix_nodes ix' (H j) = Some (n\<lparr>m_right := r\<rparr>)"
    unfolding right_only_def by blast
  ultimately show ?thesis by (simp add: head_ok_def)
qed

text \<open>A level is replaced, by changes of \<open>m_right\<close> outside the other levels.\<close>

lemma skip_replace_level:
  assumes ok: "skip_ok h head A ix T X" and ro: "right_only Z ix ix'" and j: "j \<le> T"
    and V: "level_ok h A ix' j V" "hd V = hd (X j)"
    and Z: "\<And>i. i \<le> T \<Longrightarrow> i \<noteq> j \<Longrightarrow> (Z \<union> set V) \<inter> set (X i) = {}"
    and below: "0 < j \<Longrightarrow> list_emb (dn ix) V (X (j - 1))"
    and above: "j < T \<Longrightarrow> list_emb (dn ix) (X (Suc j)) V"
  shows "skip_ok h head A ix' T (X(j := V))"
proof -
  note sel = right_only_sel [OF ro] and dn = dn_right_only [OF ro]
  let ?X = "X(j := V)"
  have lv: "level_ok h A ix' i (?X i)" if i: "i \<le> T" for i
  proof (cases "i = j")
    case False
    with Z [OF i False] have "path (right ix') p (X i) q = path (right ix) p (X i) q" for p q
      by (intro path_cong sel(3)) auto
    with skip_okD(6) [OF ok i] False show ?thesis unfolding level_ok_def sel(1,2,4) by simp
  qed (use V(1) in simp)
  have hds: "hd (?X i) = hd (X i)" for i using V(2) by simp
  have emb: "list_emb (dn ix') (?X (Suc i)) (?X i)" if i: "i < T" for i
    using skip_okD(8) [OF ok i] below above i by (auto simp: dn)
  have "set (?X i) \<inter> set (?X i') = {}" if "i \<le> T" "i' \<le> T" "i \<noteq> i'" for i i'
    using skip_okD(9) [OF ok that] Z [of i] Z [of i'] that by auto
  with lv emb skip_okD(1-5,7) [OF ok] head_ok_right_only [OF ro] hds show ?thesis
    unfolding skip_ok_def sel(4-7) by (simp del: fun_upd_apply)
qed

section \<open>Walking one level keeps the invariant\<close>

text \<open>\<open>aligned\<close>: the level above is split where the walk on this level starts.\<close>

definition aligned ::
  "(addr \<Rightarrow> lnode option) \<Rightarrow> key_t \<Rightarrow> skip_list \<Rightarrow> nat \<Rightarrow> (nat \<Rightarrow> addr list) \<Rightarrow> nat \<Rightarrow> addr list \<Rightarrow> addr list \<Rightarrow> bool" where
  "aligned h k ix T X j P N \<longleftrightarrow> (j < T \<longrightarrow> (\<exists>PU NU. X (Suc j) = PU @ NU \<and> stop h ix k NU \<and>
     list_emb (dn ix) PU P \<and> list_emb (dn ix) NU N))"

lemma emb_stop:
  assumes "list_emb (dn ix) NU (D @ N)" and "stop h ix k NU"
    and "\<forall>x\<in>set D. ilive h ix x \<longrightarrow> ikey h ix x < k"
  shows "list_emb (dn ix) NU N"
proof (rule emb_drop [OF assms(1)])
  assume "NU \<noteq> []"
  with assms(2) have "ilive h ix (hd NU)" "k \<le> ikey h ix (hd NU)" by (auto simp: stop_def)
  with assms(3) show "\<forall>y\<in>set D. \<not> dn ix (hd NU) y" by (auto simp: dn_def)
qed

lemma walk_aligned:
  assumes "aligned h k ix T X j (u @ [c]) v" and "v = D @ N"
    and "\<forall>x\<in>set D. ilive h ix x \<longrightarrow> ikey h ix x < k"
  shows "aligned h k ix T X j (u @ c # E) N"
  unfolding aligned_def
proof
  assume "j < T"
  with assms(1) obtain PU NU where U: "X (Suc j) = PU @ NU" "stop h ix k NU"
    "list_emb (dn ix) PU (u @ [c])" "list_emb (dn ix) NU v"
    by (auto simp: aligned_def)
  have "list_emb (dn ix) PU (u @ c # E)" using list_emb_prefix [OF U(3), of E] by simp
  moreover have "list_emb (dn ix) NU N" using emb_stop U(2,4) assms(2,3) by blast
  ultimately show "\<exists>PU NU. X (Suc j) = PU @ NU \<and> stop h ix k NU \<and>
     list_emb (dn ix) PU (u @ c # E) \<and> list_emb (dn ix) NU N"
    using U(1,2) by blast
qed

lemma skip_walk_ok:
  assumes ok: "skip_ok h head A ix T X" and j: "j \<le> T" and X: "X j = u @ c # v"
    and al: "aligned h k ix T X j (u @ [c]) v" and w: "walked h k c v ix D N ix'"
  shows "skip_ok h head A ix' T (X(j := (u @ c # filter (ilive h ix) D) @ N))"
    and "aligned h k ix' T X j (u @ c # filter (ilive h ix) D) N"
proof -
  let ?E = "filter (ilive h ix) D" let ?V = "(u @ c # ?E) @ N"
  have w': "v = D @ N" "right_only (set (c # D)) ix ix'" "path (right ix') (Some c) (c # ?E @ N) None"
    "\<forall>x\<in>set D. ilive h ix x \<longrightarrow> ikey h ix x < k"
    using w by (simp_all add: walked_def)
  note sel = right_only_sel [OF w'(2)] and dn = dn_right_only [OF w'(2)]
  have al': "aligned h k ix T X j (u @ c # ?E) N" by (rule walk_aligned [OF al w'(1,4)])
  then show "aligned h k ix' T X j (u @ c # ?E) N" by (simp add: aligned_def dn stop_def sel)
  have subV: "subseq ?V (X j)" and subT: "subseq (tl ?V) (tl (X j))" and hdV: "hd ?V = hd (X j)"
    using X w'(1) by (cases u; auto intro!: list_emb_append_mono)+
  have lv: "level_ok h A ix j (X j)" using skip_okD(6) [OF ok j] .
  have dist: "distinct (X j)" using lv by (auto simp: level_ok_def intro: path_distinct)
  have "path (right ix') (Some (hd (X j))) ?V None"
  proof -
    have "path (right ix) (Some (hd (X j))) u (Some c)" using lv X by (auto simp: level_ok_def)
    moreover have "path (right ix') p u q = path (right ix) p u q" for p q
      by (rule path_cong, rule sel(3)) (use dist X w'(1) in auto)
    ultimately show ?thesis using w'(3) by auto
  qed
  moreover have "set ?V \<subseteq> set (X j)" using subV by (auto elim: list_emb_set)
  moreover have "set (tl ?V) \<subseteq> set (tl (X j))" using subT by (auto elim: list_emb_set)
  moreover have "sorted_wrt (\<lambda>x y. ikey h ix' x \<le> ikey h ix' y) (tl ?V)"
    using subseq_sorted_wrt [OF subT] lv by (simp add: level_ok_def sel)
  ultimately have lV: "level_ok h A ix' j ?V"
    using lv unfolding level_ok_def sel(1,2,4) hdV by blast
  show "skip_ok h head A ix' T (X(j := ?V))"
  proof (rule skip_replace_level [OF ok w'(2) j lV hdV])
    show "(set (c # D) \<union> set ?V) \<inter> set (X i) = {}" if "i \<le> T" "i \<noteq> j" for i
      using skip_okD(9) [OF ok that(1) j that(2)] \<open>set ?V \<subseteq> set (X j)\<close> X w'(1) by auto
    show "list_emb (dn ix) ?V (X (j - 1))" if "0 < j"
      using subseq_emb [of "dn ix" "X j" "X (j - 1)"] subV skip_okD(8) [OF ok, of "j - 1"] that j by simp
    show "list_emb (dn ix) (X (Suc j)) ?V" if "j < T"
      using al' that list_emb_append_mono by (fastforce simp: aligned_def)
  qed
qed

section \<open>The search\<close>

text \<open>
  The levels up to \<open>j\<close>, each cut at the searched position: \<open>P\<close> ends with the predecessor,
  \<open>N\<close> begins with its right neighbour.
\<close>

definition cut_ok ::
  "(addr \<Rightarrow> lnode option) \<Rightarrow> addr \<Rightarrow> key_t \<Rightarrow> skip_list \<Rightarrow> addr list \<Rightarrow> addr list \<Rightarrow> addr list \<Rightarrow> bool" where
  "cut_ok h head k ix V P N \<longleftrightarrow> V = P @ N \<and> P \<noteq> [] \<and> stop h ix k N \<and> ilive h ix (last P) \<and>
     (inode ix (last P) = head \<or> ikey h ix (last P) < k) \<and>
     (\<forall>x\<in>set (tl P). ikey h ix x \<le> ikey h ix (last P))"

definition cuts ::
  "(addr \<Rightarrow> lnode option) \<Rightarrow> addr \<Rightarrow> key_t \<Rightarrow> skip_list \<Rightarrow> nat \<Rightarrow> (nat \<Rightarrow> addr list) \<Rightarrow>
   (nat \<Rightarrow> addr list) \<Rightarrow> (nat \<Rightarrow> addr list) \<Rightarrow> bool" where
  "cuts h head k ix j X P N \<longleftrightarrow> (\<forall>i\<le>j. cut_ok h head k ix (X i) (P i) (N i)) \<and>
     (\<forall>i<j. list_emb (dn ix) (P (Suc i)) (P i) \<and> list_emb (dn ix) (N (Suc i)) (N i))"

definition points :: "nat \<Rightarrow> (nat \<Rightarrow> addr list) \<Rightarrow> (nat \<Rightarrow> addr list) \<Rightarrow>
    addr option list \<Rightarrow> addr option list \<Rightarrow> addr option list \<times> addr option list" where
  "points j P N ps ns = (map (\<lambda>i. Some (last (P i))) [0..<Suc j] @ drop (Suc j) ps,
     map (\<lambda>i. first (N i)) [0..<Suc j] @ drop (Suc j) ns)"

lemma points_0:
  "0 < length ps \<Longrightarrow> 0 < length ns \<Longrightarrow>
   points 0 P N ps ns = (ps[0 := Some (last (P 0))], ns[0 := first (N 0)])"
  by (cases ps; cases ns) (auto simp: points_def)

lemma points_Suc:
  assumes "Suc j < length ps" and "Suc j < length ns"
  shows "points (Suc j) P N ps ns =
    points j P N (ps[Suc j := Some (last (P (Suc j)))]) (ns[Suc j := first (N (Suc j))])"
proof -
  have "drop (Suc j) (xs[Suc j := x]) = x # drop (Suc (Suc j)) xs" if "Suc j < length xs" for x and xs :: "addr option list"
    using that by (metis Cons_nth_drop_Suc drop_update_cancel length_list_update lessI nth_list_update_eq)
  with assms show ?thesis by (simp add: points_def)
qed

lemma points_cong:
  "(\<And>i. i \<le> j \<Longrightarrow> P i = P' i) \<Longrightarrow> (\<And>i. i \<le> j \<Longrightarrow> N i = N' i) \<Longrightarrow> points j P N ps ns = points j P' N' ps ns"
  by (simp add: points_def)

text \<open>One pass through the body of the loop.\<close>

lemma level_body:
  assumes ok: "skip_ok h head A ix T X" and fl: "flags_clear h" and j: "j \<le> T" and X: "X j = u @ c # v"
    and c: "ilive h ix c" "inode ix c = head \<or> ikey h ix c < k" and al: "aligned h k ix T X j (u @ [c]) v"
  obtains ix' P N D where "walk_retry (Suc (ix_fresh ix)) h k lh (Some c) ix = (Ok (Some c, last P, first N), ix')"
    and "skip_ok h head A ix' T (X(j := P @ N))" and "aligned h k ix' T X j P N"
    and "cut_ok h head k ix' (P @ N) P N" and "right_only (set (X j)) ix ix'"
    and "v = D @ N" and "\<exists>E. P = u @ c # E" and "\<forall>x\<in>set D. ilive h ix x \<longrightarrow> ikey h ix x < k"
proof -
  note D = skip_okD [OF ok]
  have lv: "level_ok h A ix j (X j)" by (rule D(6) [OF j])
  have wp: "well_placed h ix (set (c # v))" by (rule skip_well_placed [OF ok j]) (use X in auto)
  have pa: "path (right ix) (Some c) (c # v) None" using lv X by (auto simp: level_ok_def)
  obtain Q N ix' where run: "walk_retry (Suc (ix_fresh ix)) h k lh (Some c) ix =
      (Ok (Some c, last (c # filter (ilive h ix) Q), first N), ix')" and w: "walked h k c v ix Q N ix'"
    by (rule walk_retry_run [OF fl wp c(1) pa D(1)])
  let ?E = "filter (ilive h ix) Q" let ?P = "u @ c # ?E"
  note w' = w [unfolded walked_def]
  have ro: "right_only (set (c # Q)) ix ix'" and v: "v = Q @ N" using w' by simp_all
  note sel = right_only_sel [OF ro]
  have la: "last ?P = last (c # ?E)" by simp
  have E: "ilive h ix x \<and> (inode ix x = head \<or> ikey h ix x < k)" if "x \<in> set (c # ?E)" for x
    using that c w' by auto
  have "ikey h ix x \<le> ikey h ix (last ?P)" if x: "x \<in> set (tl ?P)" for x
  proof -
    have "sorted_wrt (\<lambda>x y. ikey h ix x \<le> ikey h ix y) (tl ?P)"
    proof (rule subseq_sorted_wrt)
      show "subseq (tl ?P) (tl (X j))"
        using X v subseq_rev_drop_many [OF subseq_filter_left, of _ Q N] by (cases u) (auto simp: subseq_append')
    qed (use lv in \<open>simp add: level_ok_def\<close>)
    moreover have ne: "tl ?P \<noteq> []" using x by auto
    ultimately have "sorted_wrt (\<lambda>x y. ikey h ix x \<le> ikey h ix y) (butlast (tl ?P) @ [last (tl ?P)])" by simp
    moreover have "last (tl ?P) = last ?P" using ne by (cases ?P) auto
    moreover have "x \<in> set (butlast (tl ?P)) \<or> x = last (tl ?P)"
      using x ne by (metis append_butlast_last_id set_append Un_iff empty_iff empty_set set_ConsD)
    ultimately show ?thesis by (auto simp: sorted_wrt_append)
  qed
  moreover have "ilive h ix (last ?P) \<and> (inode ix (last ?P) = head \<or> ikey h ix (last ?P) < k)"
    unfolding la by (rule E, rule last_in_set) simp
  moreover have "stop h ix k N" using w' by simp
  ultimately have "cut_ok h head k ix' (?P @ N) ?P N"
    unfolding cut_ok_def stop_def sel(1) by auto
  moreover have "right_only (set (X j)) ix ix'" by (rule right_only_mono [OF ro]) (use X v in auto)
  ultimately show thesis
    using that [of ?P N ix' Q] run skip_walk_ok [OF ok j X al w] v w' la by auto
qed

text \<open>The loop over the levels, from level \<open>j\<close> down to the bottom.\<close>

lemma aligned_below:
  assumes ok: "skip_ok h head A ix T X" and j: "Suc j \<le> T" and X: "X (Suc j) = P @ N"
    and cut: "cut_ok h head k ix (P @ N) P N"
  obtains u c v where "X j = u @ c # v" and "down ix (last P) = Some c" and "inode ix c = inode ix (last P)"
    and "inode ix c = head \<or> ikey h ix c < k" and "aligned h k ix T X j (u @ [c]) v"
    and "list_emb (dn ix) P (u @ [c])" and "list_emb (dn ix) N v"
proof -
  have emb: "list_emb (dn ix) (P @ N) (X j)" using skip_okD(8) [OF ok, of j] j X by simp
  have P: "P = butlast P @ [last P]" using cut by (simp add: cut_ok_def)
  have "last P \<in> set (X (Suc j))" using X cut by (simp add: cut_ok_def)
  with X emb obtain c where c: "dn ix (last P) c" "c \<in> set (X j)" by (auto elim: list_emb_set)
  have "list_emb (dn ix) (butlast P @ last P # N) (X j)" using emb P by (metis append_Cons append_Nil append_assoc)
  then obtain u v where uv: "X j = u @ c # v" "list_emb (dn ix) (butlast P @ [last P]) (u @ [c])" "list_emb (dn ix) N v"
    by (rule emb_split [where c = c]) (use c in \<open>auto simp: dn_def\<close>)
  have Pu: "list_emb (dn ix) P (u @ [c])" using uv(2) P by simp
  have "inode ix c = head \<or> ikey h ix c < k" using c(1) cut by (auto simp: dn_def cut_ok_def)
  moreover have "aligned h k ix T X j (u @ [c]) v"
    using X cut Pu uv(3) by (auto simp: aligned_def cut_ok_def)
  ultimately show thesis using that [OF uv(1)] c(1) Pu uv(3) by (simp add: dn_def)
qed

lemma cut_ok_right_only: "right_only Z ix ix' \<Longrightarrow> cut_ok h head k ix' V P N = cut_ok h head k ix V P N"
  by (simp add: cut_ok_def stop_def right_only_sel)

lemma level_loop_step:
  assumes "flags_clear h" and "ix_nodes ix c = Some cn" and "live h (m_node cn)"
    and "walk_retry (Suc (ix_fresh ix)) h k lh (Some c) ix = (Ok (Some c, p, nx), ix')"
    and "ix_nodes ix' p = Some pn" and "live h (m_node pn)" and "0 \<le> level"
  shows "level_loop (Suc f) h k lh (Some c) level ps ns ix =
    (case m_down pn of
       None \<Rightarrow> thenE (assertE (level = 0)) (returnE (Some (ps[nat level := Some p], ns[nat level := nx]))) ix'
     | Some d \<Rightarrow> bindE (ptrE lh) (\<lambda>a. bindE (ixE a) (\<lambda>n.
         level_loop f h k (m_down n) (Some d) (level - 1) (ps[nat level := Some p]) (ns[nat level := nx]))) ix')"
  using assms by (cases "m_down pn") (auto simp: run_simps live_def Let_def simp del: walk_retry.simps)

lemma level_loop_run:
  assumes "skip_ok h head A ix T X" and "flags_clear h" and "j \<le> T" and "X j = u @ c # v"
    and "ilive h ix c" and "inode ix c = head \<or> ikey h ix c < k" and "aligned h k ix T X j (u @ [c]) v"
    and "j < fuel" and "j < length ps" and "j < length ns"
  shows "\<exists>ix' X' P N. level_loop fuel h k (Some (hd (X j))) (Some c) (int j) ps ns ix =
      (Ok (Some (points j P N ps ns)), ix') \<and> skip_ok h head A ix' T X' \<and>
      (\<exists>Z. right_only Z ix ix') \<and> (\<forall>i>j. X' i = X i) \<and> cuts h head k ix' j X' P N \<and>
      (\<exists>E. P j = u @ c # E) \<and> (\<exists>D. v = D @ N j \<and> (\<forall>x\<in>set D. ilive h ix x \<longrightarrow> ikey h ix x < k))"
  using assms
proof (induction j arbitrary: ix X u c v ps ns fuel)
  case 0
  then obtain f where f: "fuel = Suc f" by (cases fuel) auto
  obtain ix' P N D where w: "walk_retry (Suc (ix_fresh ix)) h k (Some (hd (X 0))) (Some c) ix = (Ok (Some c, last P, first N), ix')"
    "skip_ok h head A ix' T (X(0 := P @ N))" "cut_ok h head k ix' (P @ N) P N"
    "right_only (set (X 0)) ix ix'" "v = D @ N" "\<exists>E. P = u @ c # E" "\<forall>x\<in>set D. ilive h ix x \<longrightarrow> ikey h ix x < k"
    using level_body [OF "0.prems"(1-7)] by metis
  obtain cn where cn: "ix_nodes ix c = Some cn" "inode ix c = m_node cn"
    using skip_well_placed [OF "0.prems"(1,3), of "{c}"] "0.prems"(4) by (auto simp: well_placed_def inode_def)
  have P: "P \<noteq> []" using w(3) by (simp add: cut_ok_def)
  obtain pn where pn: "ix_nodes ix' (last P) = Some pn" "inode ix' (last P) = m_node pn"
    using skip_well_placed [OF w(2) "0.prems"(3), of "{last P}"] P by (auto simp: well_placed_def inode_def)
  have "down ix' (last P) = None"
    using skip_okD(6) [OF w(2), of 0] P by (simp add: level_ok_def)
  then have dp: "m_down pn = None" using pn by (simp add: down_def)
  have "level_loop fuel h k (Some (hd (X 0))) (Some c) (int 0) ps ns ix =
      (Ok (Some (ps[0 := Some (last P)], ns[0 := first N])), ix')"
    unfolding f by (subst level_loop_step [OF "0.prems"(2) cn(1) _ w(1) pn(1)])
      (use "0.prems"(5) cn pn dp w(3) in \<open>simp_all add: run_simps cut_ok_def\<close>)
  then have "level_loop fuel h k (Some (hd (X 0))) (Some c) (int 0) ps ns ix =
      (Ok (Some (points 0 (\<lambda>_. P) (\<lambda>_. N) ps ns)), ix')"
    using points_0 [of ps ns "\<lambda>_. P" "\<lambda>_. N"] "0.prems"(9,10) by simp
  moreover define X' where "X' = X(0 := P @ N)"
  moreover have "cuts h head k ix' 0 X' (\<lambda>_. P) (\<lambda>_. N)" using w(3) by (simp add: cuts_def X'_def)
  moreover have "\<forall>i>0. X' i = X i" by (simp add: X'_def)
  ultimately show ?case using w(2,4-7)
    by - (rule exI [of _ ix'], rule exI [of _ X'], rule exI [of _ "\<lambda>_. P"], rule exI [of _ "\<lambda>_. N"],
        fold X'_def, blast)
next
  case (Suc j)
  then obtain f where f: "fuel = Suc f" by (cases fuel) auto
  obtain ix1 P N D where w: "walk_retry (Suc (ix_fresh ix)) h k (Some (hd (X (Suc j)))) (Some c) ix = (Ok (Some c, last P, first N), ix1)"
    "skip_ok h head A ix1 T (X(Suc j := P @ N))" "cut_ok h head k ix1 (P @ N) P N"
    "right_only (set (X (Suc j))) ix ix1" "v = D @ N" "\<exists>E. P = u @ c # E" "\<forall>x\<in>set D. ilive h ix x \<longrightarrow> ikey h ix x < k"
    using level_body [OF Suc.prems(1-7)] by metis
  let ?X = "X(Suc j := P @ N)" and ?ps = "ps[Suc j := Some (last P)]" and ?ns = "ns[Suc j := first N]"
  obtain cn where cn: "ix_nodes ix c = Some cn" "inode ix c = m_node cn"
    using skip_well_placed [OF Suc.prems(1,3), of "{c}"] Suc.prems(4) by (auto simp: well_placed_def inode_def)
  have P: "P \<noteq> []" using w(3) by (simp add: cut_ok_def)
  obtain pn where pn: "ix_nodes ix1 (last P) = Some pn" "inode ix1 (last P) = m_node pn"
    using skip_well_placed [OF w(2) Suc.prems(3), of "{last P}"] P by (auto simp: well_placed_def inode_def)
  obtain u' c' v' where b: "?X j = u' @ c' # v'" "down ix1 (last P) = Some c'" "inode ix1 c' = inode ix1 (last P)"
    "inode ix1 c' = head \<or> ikey h ix1 c' < k" "aligned h k ix1 T ?X j (u' @ [c']) v'"
    "list_emb (dn ix1) P (u' @ [c'])" "list_emb (dn ix1) N v'"
    by (rule aligned_below [OF w(2) Suc.prems(3) _ w(3)]) auto
  have dp: "m_down pn = Some c'" using b(2) pn by (simp add: down_def)
  have hX: "hd (?X (Suc j)) = hd (X (Suc j))" using w(6) Suc.prems(4) by (cases u) auto
  obtain hn where hn: "ix_nodes ix1 (hd (X (Suc j))) = Some hn" "m_down hn = Some (hd (?X j))"
    using skip_okD(7) [OF w(2) Suc.prems(3)] hX by (auto simp: head_ok_def simp del: fun_upd_apply)
  have lp: "ilive h ix1 (last P)" using w(3) by (simp add: cut_ok_def)
  have lc: "ilive h ix1 c'" using lp b(3) by simp
  have fuels: "j < f" "j < length ?ps" "j < length ?ns" using Suc.prems(8-10) f by simp_all
  obtain ix' X' P' N' where IH: "level_loop f h k (Some (hd (?X j))) (Some c') (int j) ?ps ?ns ix1 =
      (Ok (Some (points j P' N' ?ps ?ns)), ix')" "skip_ok h head A ix' T X'" "\<exists>Z. right_only Z ix1 ix'"
      "\<forall>i>j. X' i = ?X i" "cuts h head k ix' j X' P' N'" "\<exists>E. P' j = u' @ c' # E"
      "\<exists>D. v' = D @ N' j \<and> (\<forall>x\<in>set D. ilive h ix1 x \<longrightarrow> ikey h ix1 x < k)"
    using Suc.IH [OF w(2) Suc.prems(2) Suc_leD [OF Suc.prems(3)] b(1) lc b(4,5) fuels] by blast
  obtain Z where Z: "right_only Z ix1 ix'" using IH(3) by blast
  define Q where "Q = P'(Suc j := P)"
  define R where "R = N'(Suc j := N)"
  have QR: "Q (Suc j) = P" "R (Suc j) = N" "\<And>i. i \<le> j \<Longrightarrow> Q i = P' i" "\<And>i. i \<le> j \<Longrightarrow> R i = N' i"
    by (simp_all add: Q_def R_def)
  have "level_loop fuel h k (Some (hd (X (Suc j)))) (Some c) (int (Suc j)) ps ns ix =
      (Ok (Some (points j P' N' ?ps ?ns)), ix')"
    unfolding f by (subst level_loop_step [OF Suc.prems(2) cn(1) _ w(1) pn(1)])
      (use Suc.prems(5) cn pn dp lp hn IH(1) in \<open>simp_all add: run_simps nat_add_distrib\<close>)
  moreover have "points j P' N' ?ps ?ns = points (Suc j) Q R ps ns"
    using points_Suc [of j ps ns Q R] points_cong [of j Q P' R N'] Suc.prems(9,10) QR by simp
  moreover have "cuts h head k ix' (Suc j) X' Q R"
  proof -
    have "list_emb (dn ix1) P (P' j)" using IH(6) b(6) list_emb_prefix [of "dn ix1" P "u' @ [c']"] by auto
    moreover have "list_emb (dn ix1) N (N' j)"
      using IH(7) b(7) emb_stop w(3) by (auto simp: cut_ok_def)
    moreover have "cut_ok h head k ix' (X' (Suc j)) P N"
      using w(3) IH(4) cut_ok_right_only [OF Z] by simp
    ultimately show ?thesis using IH(5) QR by (auto simp: cuts_def dn_right_only [OF Z] le_Suc_eq less_Suc_eq)
  qed
  moreover have "right_only (set (X (Suc j)) \<union> Z) ix ix'" by (rule right_only_trans [OF w(4) Z]) simp
  moreover have "\<forall>i>Suc j. X' i = X i" using IH(4) by auto
  ultimately show ?case using IH(2) w(5-7) QR(1,2)
    by - (rule exI [of _ ix'], rule exI [of _ X'], rule exI [of _ Q], rule exI [of _ R], metis)
qed

section \<open>The search from the top\<close>

lemma skip_height: "skip_ok h head A ix T X \<Longrightarrow> j \<le> T \<Longrightarrow> j < ix_fresh ix"
proof -
  assume ok: "skip_ok h head A ix T X" and j: "j \<le> T"
  have inj: "inj_on (\<lambda>i. hd (X i)) {..T}"
  proof (rule inj_onI)
    fix a b assume ab: "a \<in> {..T}" "b \<in> {..T}" "hd (X a) = hd (X b)"
    then have "X a \<noteq> []" "X b \<noteq> []" using skip_okD(6) [OF ok] unfolding level_ok_def by blast+
    then have "hd (X a) \<in> set (X a)" "hd (X b) \<in> set (X b)" by simp_all
    with ab skip_okD(9) [OF ok, of a b] show "a = b" by auto
  qed
  have "(\<lambda>i. hd (X i)) ` {..T} \<subseteq> {..<ix_fresh ix}"
  proof
    fix x assume "x \<in> (\<lambda>i. hd (X i)) ` {..T}"
    then obtain i where "i \<le> T" "x = hd (X i)" by auto
    with skip_okD(7) [OF ok, of i] have "x \<in> dom (ix_nodes ix)" by (auto simp: head_ok_def)
    with skip_okD(1) [OF ok] show "x \<in> {..<ix_fresh ix}" by simp
  qed
  then have "card ((\<lambda>i. hd (X i)) ` {..T}) \<le> card {..<ix_fresh ix}" by (intro card_mono) simp_all
  then have "Suc T \<le> ix_fresh ix" using card_image [OF inj] by simp
  with j show ?thesis by simp
qed

lemma find_run:
  assumes ok: "skip_ok h head A ix T X" and fl: "flags_clear h" and hl: "live h head"
  obtains ix' X' P N Z where "findInsertionPoints h k ix =
      (Ok (map (\<lambda>i. Some (last (P i))) [0..<Suc T], map (\<lambda>i. first (N i)) [0..<Suc T]), ix')"
    and "skip_ok h head A ix' T X'" and "right_only Z ix ix'" and "cuts h head k ix' T X' P N"
proof -
  note D = skip_okD [OF ok]
  obtain n where n: "ix_nodes ix (hd (X T)) = Some n" "m_level n = T" using D(7) [of T] by (auto simp: head_ok_def)
  obtain v where v: "X T = [] @ hd (X T) # v" using D(6) [of T] by (cases "X T") (auto simp: level_ok_def)
  let ?none = "replicate (Suc T) None :: addr option list"
  obtain ix' X' P N Z where run: "level_loop (Suc (ix_fresh ix)) h k (Some (hd (X T))) (Some (hd (X T))) (int T) ?none ?none ix =
      (Ok (Some (points T P N ?none ?none)), ix')" "skip_ok h head A ix' T X'" "right_only Z ix ix'"
      "cuts h head k ix' T X' P N"
    using level_loop_run [OF ok fl le_refl v, of k "Suc (ix_fresh ix)" ?none ?none] hl skip_head [OF ok]
      less_SucI [OF skip_height [OF ok le_refl]]
    by (auto simp: aligned_def)
  have "points T P N ?none ?none =
      (map (\<lambda>i. Some (last (P i))) [0..<Suc T], map (\<lambda>i. first (N i)) [0..<Suc T])"
    by (simp add: points_def)
  with run(1) n D(4) have "findInsertionPoints h k ix =
      (Ok (map (\<lambda>i. Some (last (P i))) [0..<Suc T], map (\<lambda>i. first (N i)) [0..<Suc T]), ix')"
    by (simp add: findInsertionPoints_def run_simps del: level_loop.simps replicate_Suc upt_Suc)
  with run(2-4) show thesis using that by blast
qed

lemma findPredecessor_run:
  assumes ok: "skip_ok h head A ix T X" and fl: "flags_clear h" and hl: "live h head"
  obtains b ix' X' Z where "findPredecessor h k ix = (Ok b, ix')" and "skip_ok h head A ix' T X'"
    and "right_only Z ix ix'" and "b \<in> A" and "live h b" and "b = head \<or> nkey h b < k"
proof -
  obtain ix' X' P N Z where f: "findInsertionPoints h k ix =
      (Ok (map (\<lambda>i. Some (last (P i))) [0..<Suc T], map (\<lambda>i. first (N i)) [0..<Suc T]), ix')"
    "skip_ok h head A ix' T X'" "right_only Z ix ix'" "cuts h head k ix' T X' P N"
    by (rule find_run [OF assms])
  have c: "cut_ok h head k ix' (X' 0) (P 0) (N 0)" using f(4) by (simp add: cuts_def)
  have "last (P 0) \<in> set (X' 0)" using c by (auto simp: cut_ok_def)
  then obtain n where n: "ix_nodes ix' (last (P 0)) = Some n" and A: "inode ix' (last (P 0)) \<in> A"
    using skip_okD(6) [OF f(2), of 0] unfolding level_ok_def by blast
  then have i: "inode ix' (last (P 0)) = m_node n" by (simp add: inode_def)
  have "map (\<lambda>i. Some (last (P i))) [0..<Suc T] ! 0 = Some (last (P 0))" by (simp add: nth_map del: upt_Suc)
  with f(1) n have "findPredecessor h k ix = (Ok (m_node n), ix')"
    by (simp add: findPredecessor_def run_simps del: upt_Suc)
  with that [of "m_node n" ix' X' Z] f(2,3) A i c show thesis by (auto simp: cut_ok_def)
qed

lemma Index_getPred_run:
  assumes ok: "skip_ok h head A ix T X" and fl: "flags_clear h" and hl: "live h head"
  obtains b ix' X' where "Index_getPred h k ix = (Ok b, ix')" and "skip_ok h head A ix' T X'"
    and "b \<in> A" and "live h b" and "b = head \<or> nkey h b < k"
proof -
  obtain b ix' X' where f: "findPredecessor h k ix = (Ok b, ix')" "skip_ok h head A ix' T X'"
    "b \<in> A" "live h b" "b = head \<or> nkey h b < k"
    by (rule findPredecessor_run [OF assms])
  obtain n where n: "h b = Some n" using f(4) by (auto simp: live_def)
  have "\<not> is_gone n" using is_gone_live [OF fl n] f(4) by simp
  with f(1) n have "Index_getPred h k ix = (Ok b, ix')" by (simp add: Index_getPred_def run_simps)
  with that f(2-5) show thesis by blast
qed

end
