(* ===== verification/Bench.thy ===== *)
theory Bench
  imports ListWalks "HOL-Library.Multiset"
begin

text \<open>
  The benchmark program, \<^verbatim>\<open>main.cpp\<close>: the tasks and their distribution over the workers, the loop
  of a worker with its counters, the initial filling of the list, and the sizes that
  \<open>print_results\<close> prints. The drawn numbers of \<open>rand()\<close> and the permutation of
  \<open>std::random_shuffle\<close> are arguments. A worker runs one call per step, so the calls of
  different workers interleave in every order. The \<open>int\<close> counters of a worker are bounded by
  the number of tasks and are integers here.
\<close>

section \<open>Tasks\<close>

datatype TaskType = INSERT | REMOVE | CONTAINS

record task =
  task_type :: TaskType
  task_key :: key_t
  task_val :: val_t

text \<open>
  \<open>rnd j\<close> is the value of the \<open>j\<close>-th call of \<open>rand()\<close> and \<open>p\<close> the number of calls so far;
  \<open>junk\<close> is the value of the uninitialised \<open>val\<close>. \<open>None\<close> is the division by zero when
  \<open>N_INIT_LIST\<close> is \<open>0\<close>.
\<close>

definition get_random_task ::
  "nat \<Rightarrow> (nat \<Rightarrow> nat) \<Rightarrow> val_t \<Rightarrow> TaskType \<Rightarrow> nat \<Rightarrow> (task \<times> nat) option" where
  "get_random_task n_init rnd junk op p =
     (if n_init = 0 then None
      else if op = INSERT
        then Some (\<lparr>task_type = op, task_key = of_nat (rnd p mod (n_init * 10) + 1),
               task_val = of_nat (rnd (p + 1) mod (n_init * 10) + 1)\<rparr>, p + 2)
        else Some (\<lparr>task_type = op, task_key = of_nat (rnd p mod (n_init * 10) + 1),
               task_val = junk\<rparr>, p + 1))"

primrec push_tasks ::
  "nat \<Rightarrow> (nat \<Rightarrow> nat) \<Rightarrow> val_t \<Rightarrow> TaskType \<Rightarrow> nat \<Rightarrow> task list \<times> nat \<Rightarrow> (task list \<times> nat) option" where
  "push_tasks n_init rnd junk op 0 tp = Some tp"
| "push_tasks n_init rnd junk op (Suc n) tp =
     Option.bind (get_random_task n_init rnd junk op (snd tp)) (\<lambda>(tk, p).
       push_tasks n_init rnd junk op n (fst tp @ [tk], p))"

text \<open>The three counts, in \<open>uint32_t\<close> arithmetic.\<close>

definition task_counts :: "32 word \<Rightarrow> 32 word \<Rightarrow> 32 word \<Rightarrow> 32 word \<times> 32 word \<times> 32 word" where
  "task_counts n_tasks x_of_100_inserts x_of_100_removes =
     (let n_inserts = n_tasks * x_of_100_inserts div 100;
          n_removes = n_tasks * x_of_100_removes div 100;
          n_contains = n_tasks - (n_inserts + n_removes)
      in (n_inserts, n_removes, n_contains))"

definition fill_tasks_vector ::
  "nat \<Rightarrow> (nat \<Rightarrow> nat) \<Rightarrow> val_t \<Rightarrow> (task list \<Rightarrow> task list) \<Rightarrow> 32 word \<Rightarrow> 32 word \<Rightarrow> 32 word \<Rightarrow> task list option" where
  "fill_tasks_vector n_init rnd junk random_shuffle n_tasks x y =
     (let (n_inserts, n_removes, n_contains) = task_counts n_tasks x y in
      Option.bind (push_tasks n_init rnd junk INSERT (unat n_inserts) ([], 0)) (\<lambda>tp.
      Option.bind (push_tasks n_init rnd junk REMOVE (unat n_removes) tp) (\<lambda>tp.
      map_option (\<lambda>tp. random_shuffle (fst tp)) (push_tasks n_init rnd junk CONTAINS (unat n_contains) tp))))"

text \<open>The tasks of worker \<open>i\<close> of \<open>n_threads\<close>.\<close>

definition worker_range :: "nat \<Rightarrow> nat \<Rightarrow> nat \<Rightarrow> nat \<times> nat" where
  "worker_range n_tasks n_threads i = (i * n_tasks div n_threads, (i + 1) * n_tasks div n_threads)"

section \<open>Workers\<close>

datatype work_pc = Loop_head | At_task | At_end | Finished

record worker =
  tasks_index_end :: nat
  ops_per_transc :: int
  index_task :: nat
  wk_pc :: work_pc
  ops_in_tx :: int
  inserts_occurred_in_tx :: int
  removes_occurred_in_tx :: int
  succ_ops :: int
  fail_ops :: int
  inserts_occurred :: int
  removes_occurred :: int

definition Worker :: "nat \<Rightarrow> nat \<Rightarrow> int \<Rightarrow> worker" where
  "Worker index_begin index_end ops = \<lparr>tasks_index_end = index_end, ops_per_transc = ops,
     index_task = index_begin, wk_pc = Loop_head, ops_in_tx = 0, inserts_occurred_in_tx = 0,
     removes_occurred_in_tx = 0, succ_ops = 0, fail_ops = 0, inserts_occurred = 0, removes_occurred = 0\<rparr>"

definition task_op :: "list_id \<Rightarrow> task \<Rightarrow> list_op" where
  "task_op l tk = (case task_type tk of
       INSERT \<Rightarrow> Put l (task_key tk) (task_val tk)
     | REMOVE \<Rightarrow> Remove l (task_key tk)
     | CONTAINS \<Rightarrow> ContainsKey l (task_key tk))"

fun count_task :: "TaskType \<Rightarrow> list_result \<Rightarrow> worker \<Rightarrow> worker" where
  "count_task INSERT r w =
     (if r = Value None then w\<lparr>inserts_occurred_in_tx := inserts_occurred_in_tx w + 1\<rparr> else w)"
| "count_task REMOVE r w =
     (if r \<noteq> Value None then w\<lparr>removes_occurred_in_tx := removes_occurred_in_tx w + 1\<rparr> else w)"
| "count_task CONTAINS r w = w"

text \<open>\<open>commit_task_and_update_counters\<close>; \<open>tasks.at\<close> throws for an index out of range.\<close>

definition commit_task_and_update_counters ::
  "'ix index_ops \<Rightarrow> list_id \<Rightarrow> task list \<Rightarrow> worker \<Rightarrow> ('ix state, worker \<times> list_op \<times> list_result) cmd" where
  "commit_task_and_update_counters i l tasks w =
     (if index_task w < length tasks
      then let tk = tasks ! index_task w in
           bindE (run_op i (task_op l tk)) (\<lambda>r. returnE (count_task (task_type tk) r w, task_op l tk, r))
      else throwE InvalidArgument)"

definition next_task :: "worker \<Rightarrow> worker" where
  "next_task w = w\<lparr>index_task := index_task w + 1, wk_pc := Loop_head\<rparr>"

definition reset_tx :: "worker \<Rightarrow> worker" where
  "reset_tx w = w\<lparr>ops_in_tx := 0, inserts_occurred_in_tx := 0, removes_occurred_in_tx := 0\<rparr>"

definition count_commit :: "worker \<Rightarrow> worker" where
  "count_commit w = reset_tx (w\<lparr>inserts_occurred := inserts_occurred w + inserts_occurred_in_tx w,
     removes_occurred := removes_occurred w + removes_occurred_in_tx w, succ_ops := succ_ops w + ops_in_tx w\<rparr>)"

definition count_abort :: "worker \<Rightarrow> worker" where
  "count_abort w = reset_tx (w\<lparr>fail_ops := fail_ops w + ops_in_tx w\<rparr>)"

text \<open>
  One phase of the loop body of \<open>Worker::work\<close>: begin a transaction if none is open, run the
  task, end the transaction after its last task. The trace of the running transaction is carried
  along.
\<close>

definition work_step ::
  "'ix index_ops \<Rightarrow> list_id \<Rightarrow> task list \<Rightarrow> worker \<Rightarrow> trace \<Rightarrow> ('ix state, worker \<times> trace) cmd" where
  "work_step i l tasks w tr =
     (case wk_pc w of
        Loop_head \<Rightarrow>
          if index_task w < tasks_index_end w then
            thenE (if ops_in_tx w = 0 then TXbegin else returnE ())
              (returnE (w\<lparr>ops_in_tx := ops_in_tx w + 1, wk_pc := At_task\<rparr>, tr))
          else returnE (w\<lparr>wk_pc := Finished\<rparr>, tr)
      | At_task \<Rightarrow>
          bindE (catch_abort (commit_task_and_update_counters i l tasks w)) (\<lambda>res.
            case res of
              Some (w', f, r) \<Rightarrow> returnE (w'\<lparr>wk_pc := At_end\<rparr>, tr @ [(f, r)])
            | None \<Rightarrow> returnE (next_task (count_abort w), []))
      | At_end \<Rightarrow>
          if ops_in_tx w = ops_per_transc w \<or> index_task w = tasks_index_end w - 1 then
            bindE (catch_abort (TXend i)) (\<lambda>res.
              case res of
                Some _ \<Rightarrow> returnE (next_task (count_commit w), [])
              | None \<Rightarrow> returnE (next_task (count_abort w), []))
          else returnE (next_task w, tr)
      | Finished \<Rightarrow> returnE (w, tr))"

section \<open>The program\<close>

primrec init_puts :: "'ix index_ops \<Rightarrow> list_id \<Rightarrow> (key_t \<times> val_t) list \<Rightarrow> int \<Rightarrow> ('ix state, int) cmd" where
  "init_puts i l [] init_LL_size = returnE init_LL_size"
| "init_puts i l (p # ps) init_LL_size =
     bindE (put i l (fst p) (snd p)) (\<lambda>r.
       init_puts i l ps (if r = None then init_LL_size + 1 else init_LL_size))"

definition init_linked_list :: "'ix index_ops \<Rightarrow> list_id \<Rightarrow> (key_t \<times> val_t) list \<Rightarrow> ('ix state, int) cmd" where
  "init_linked_list i l ps =
     thenE TXbegin
       (bindE (init_puts i l ps 0) (\<lambda>init_LL_size. thenE (TXend i) (returnE init_LL_size)))"

record 'ix bench =
  bench_sys :: "'ix system"
  workers :: "nat \<Rightarrow> worker"

text \<open>Thread \<open>0\<close> is the main thread; the workers are the threads \<open>1, \<dots>, n\<close>.\<close>

definition start_workers :: "task list \<Rightarrow> nat \<Rightarrow> int \<Rightarrow> nat \<Rightarrow> worker" where
  "start_workers tasks n_threads ops t =
     (let (index_begin, index_end) = worker_range (length tasks) n_threads (t - 1)
      in Worker index_begin index_end ops)"

inductive bench_run ::
  "'ix index_ops \<Rightarrow> task list \<Rightarrow> nat \<Rightarrow> int \<Rightarrow> (key_t \<times> val_t) list \<Rightarrow> int \<Rightarrow> 'ix bench \<Rightarrow> bool"
  for i tasks n_threads ops ps where
  bench_start:
    "init_linked_list i 0 ps (load 0 (initial_system i 1)) = (Ok init_size, s') \<Longrightarrow>
     bench_run i tasks n_threads ops ps init_size
       \<lparr>bench_sys = store 0 s' [] (initial_system i 1), workers = start_workers tasks n_threads ops\<rparr>"
| bench_step:
    "bench_run i tasks n_threads ops ps init_size B \<Longrightarrow> 1 \<le> t \<Longrightarrow> t \<le> n_threads \<Longrightarrow>
     gvc (shared (bench_sys B)) + 1 < 2 ^ 60 \<Longrightarrow>
     work_step i 0 tasks (workers B t) (th_trace (threads (bench_sys B) t)) (load t (bench_sys B)) = (Ok (w', tr'), s') \<Longrightarrow>
     bench_run i tasks n_threads ops ps init_size
       \<lparr>bench_sys = store t s' tr' (bench_sys B), workers = (workers B)(t := w')\<rparr>"

text \<open>The size \<open>print_results\<close> expects.\<close>

definition expected_size :: "int \<Rightarrow> nat \<Rightarrow> (nat \<Rightarrow> worker) \<Rightarrow> int" where
  "expected_size init_size n_threads wk =
     foldl (\<lambda>acc t. acc + inserts_occurred (wk t) - removes_occurred (wk t)) init_size [1..<Suc n_threads]"

section \<open>The tasks\<close>

text \<open>The kinds of the tasks, with their keys in range.\<close>

definition task_ok :: "nat \<Rightarrow> task \<Rightarrow> bool" where
  "task_ok n_init tk \<longleftrightarrow> (\<exists>k. 1 \<le> k \<and> k \<le> n_init * 10 \<and> task_key tk = of_nat k)"

lemma push_tasks_some:
  assumes "0 < n_init"
  shows "\<exists>ts q. push_tasks n_init rnd junk op n (xs, p) = Some (xs @ ts, q) \<and>
    map task_type ts = replicate n op \<and> (\<forall>tk\<in>set ts. task_ok n_init tk)"
proof (induction n arbitrary: xs p)
  case (Suc n)
  obtain tk q where tk: "get_random_task n_init rnd junk op p = Some (tk, q)" and ok: "task_type tk = op" "task_ok n_init tk"
  proof (cases "op = INSERT")
    case True
    with assms show ?thesis by (intro that) (auto simp: get_random_task_def task_ok_def Suc_le_eq
        intro!: exI [of _ "Suc (rnd p mod (n_init * 10))"])
  next
    case False
    with assms show ?thesis by (intro that) (auto simp: get_random_task_def task_ok_def Suc_le_eq
        intro!: exI [of _ "Suc (rnd p mod (n_init * 10))"])
  qed
  obtain ts r where "push_tasks n_init rnd junk op n (xs @ [tk], q) = Some ((xs @ [tk]) @ ts, r)"
    "map task_type ts = replicate n op" "\<forall>tk\<in>set ts. task_ok n_init tk"
    using Suc.IH by blast
  with tk ok show ?case by (intro exI [of _ "tk # ts"] exI [of _ r]) simp
qed simp

lemma push_tasks_none: "push_tasks 0 rnd junk op n tp = (if n = 0 then Some tp else None)"
  by (cases n) (simp_all add: get_random_task_def)

text \<open>The counts add up when the percentages do and the products do not wrap.\<close>

lemma task_counts_sum:
  assumes "unat x + unat y \<le> 100" and "unat n * 100 < 2 ^ 32"
  shows "task_counts n x y = (a, b, c) \<Longrightarrow>
    unat a = unat n * unat x div 100 \<and> unat b = unat n * unat y div 100 \<and> unat a + unat b + unat c = unat n"
proof -
  assume "task_counts n x y = (a, b, c)"
  then have abc: "a = n * x div 100" "b = n * y div 100" "c = n - (a + b)"
    by (auto simp add: task_counts_def Let_def)
  have le: "unat n * unat z < 2 ^ 32" if "unat z \<le> 100" for z :: "32 word"
    using mult_le_mono2 [OF that, of "unat n"] assms(2) by linarith
  have a: "unat a = unat n * unat x div 100" and b: "unat b = unat n * unat y div 100"
    using le [of x] le [of y] assms(1) by (simp_all add: abc unat_div unat_mult_lem [THEN iffD1])
  have "unat n * unat x + unat n * unat y \<le> unat n * 100"
    using assms(1) by (metis add_mult_distrib2 mult_le_mono2)
  then have "(unat n * unat x + unat n * unat y) div 100 \<le> unat n" by simp
  then have ab: "unat a + unat b \<le> unat n"
    unfolding a b using div_add1_eq [of "unat n * unat x" "unat n * unat y" 100] by linarith
  moreover have "unat (a + b) = unat a + unat b"
    using ab assms(2) by (intro unat_add_lem [THEN iffD1]) (simp add: le_less_trans)
  ultimately have "unat c = unat n - (unat a + unat b)"
    unfolding abc(3) by (metis unat_sub word_le_nat_alt)
  with a b ab show ?thesis by simp
qed






text \<open>Every phase brings a worker closer to its end.\<close>

definition work_left :: "worker \<Rightarrow> nat" where
  "work_left w = (case wk_pc w of
      Finished \<Rightarrow> 0
    | Loop_head \<Rightarrow> 1 + 3 * (tasks_index_end w - index_task w)
    | At_task \<Rightarrow> 3 * (tasks_index_end w - index_task w)
    | At_end \<Rightarrow> 3 * (tasks_index_end w - index_task w) - 1)"

section \<open>Sizes\<close>

fun op_delta :: "list_op \<Rightarrow> list_result \<Rightarrow> int" where
  "op_delta (Put l k v) r = (if r = Value None then 1 else 0)"
| "op_delta (PutIfAbsent l k v) r = (if r = Value None then 1 else 0)"
| "op_delta (Remove l k) r = (if r = Value None then 0 else - 1)"
| "op_delta _ r = 0"

definition trace_delta :: "trace \<Rightarrow> int" where
  "trace_delta tr = sum_list (map (\<lambda>(f, r). op_delta f r) tr)"

lemma trace_delta_simps [simp]:
  "trace_delta [] = 0" "trace_delta ((f, r) # tr) = op_delta f r + trace_delta tr"
  "trace_delta (tr @ tr') = trace_delta tr + trace_delta tr'"
  by (simp_all add: trace_delta_def)

lemma card_upd:
  assumes "finite (dom m)"
  shows "int (card (dom (m(k := x)))) =
     int (card (dom m)) + (if x = None then 0 else 1) - (if m k = None then 0 else 1)"
proof (cases "m k")
  case None
  with assms show ?thesis by (cases x) (simp_all add: domIff)
next
  case (Some y)
  then have "Suc (card (dom m - {k})) = card (dom m)"
    using assms by (intro card_Suc_Diff1) auto
  with Some show ?thesis by (cases x) (auto simp: insert_absorb domIff)
qed

lemma map_upd_size:
  "finite (dom (M l)) \<Longrightarrow> finite (dom (map_upd l k x M l))"
  "finite (dom (M l)) \<Longrightarrow> int (card (dom (map_upd l k x M l))) =
     int (card (dom (M l))) + (if x = None then 0 else 1) - (if M l k = None then 0 else 1)"
  using card_upd [of "M l" k x] by (simp_all add: map_upd_def del: dom_fun_upd)

lemma guaranteed_delta:
  assumes "guaranteed f r D M"
  shows "op_delta f r = (case f of
      Put l k v \<Rightarrow> if M l k = None then 1 else 0
    | PutIfAbsent l k v \<Rightarrow> if M l k = None then 1 else 0
    | Remove l k \<Rightarrow> if M l k = None then 0 else - 1
    | _ \<Rightarrow> 0)"
proof -
  have "r = Value None \<longleftrightarrow> M l k = None" if "f = Put l k v \<or> f = PutIfAbsent l k v \<or> f = Remove l k" for l k v
    using assms that by (cases r) auto
  then show ?thesis by (cases f) simp_all
qed

lemma spec_op_size:
  assumes "guaranteed f r D M" and "op_list f = l" and "finite (dom (M l))"
  shows "finite (dom (snd (spec_op f M) l))"
    and "int (card (dom (snd (spec_op f M) l))) = int (card (dom (M l))) + op_delta f r"
  unfolding guaranteed_delta [OF assms(1)]
  using assms(2,3) by (cases f; simp add: map_upd_size)+

lemma replay_size:
  assumes "replay tr D M = Some M'" and "\<forall>(f, r)\<in>set tr. op_list f = l" and "finite (dom (M l))"
  shows "int (card (dom (M' l))) = int (card (dom (M l))) + trace_delta tr"
  using assms
proof (induction tr D M rule: replay.induct)
  case (2 f r tr D M)
  then have g: "guaranteed f r D M" "op_list f = l" by (auto split: if_splits)
  note size = spec_op_size [OF g 2(4)]
  have "int (card (dom (M' l))) = int (card (dom (snd (spec_op f M) l))) + trace_delta tr"
    using 2 g size(1) by auto
  with size(2) show ?case by simp
qed simp

lemma finite_contents: "finite (dom (contents h W V))"
proof -
  have "dom (contents h W V) \<subseteq> nkey h ` set (tl V)"
    by (auto simp: contents_def bind_eq_Some_conv dest!: map_of_SomeD)
  then show ?thesis by (rule finite_subset) simp
qed

lemma finite_maps_of: "finite (dom (maps_of L h C l))"
  by (simp add: maps_of_def finite_contents)

section \<open>The invariant of the benchmark\<close>

lemma load_store [simp]: "load t (store t s tr S) = s"
  by (simp add: load_def store_def)

lemma threads_store [simp]:
  "threads (store t s tr S) t' = (if t' = t then \<lparr>th_lt = lt s, th_ls = ls s, th_rng = rng s, th_trace = tr\<rparr> else threads S t')"
  "shared (store t s tr S) = s"
  by (simp_all add: store_def)

lemma store_store [simp]: "store t s' tr' (store t s tr S) = store t s' tr' S"
  by (simp add: store_def)

lemma catch_abort_bind:
  "catch_abort (bindE m (\<lambda>r. returnE (g r))) s =
    (case catch_abort m s of
       (Ok x, s') \<Rightarrow> (Ok (map_option g x), s')
     | (Throw e, s') \<Rightarrow> (Throw e, s'))"
  by (simp add: catch_abort_def run_simps split: prod.splits outcome.splits)

text \<open>
  Between the calls of a worker: a transaction is open exactly when it has run tasks, its
  counters describe its trace, its indices are in range.
\<close>

definition worker_ok :: "task list \<Rightarrow> thread \<Rightarrow> worker \<Rightarrow> bool" where
  "worker_ok tasks th w \<longleftrightarrow>
     0 \<le> ops_in_tx w \<and> tasks_index_end w \<le> length tasks \<and>
     (wk_pc w \<in> {At_task, At_end} \<longrightarrow> index_task w < tasks_index_end w \<and> TX (th_lt th) \<and> 0 < ops_in_tx w) \<and>
     (wk_pc w = Loop_head \<longrightarrow> (ops_in_tx w = 0 \<longleftrightarrow> \<not> TX (th_lt th))) \<and>
     (\<not> TX (th_lt th) \<longrightarrow> th_trace th = []) \<and>
     inserts_occurred_in_tx w - removes_occurred_in_tx w = trace_delta (th_trace th) \<and>
     (\<forall>(f, r)\<in>set (th_trace th). op_list f = 0)"

lemma task_op_list [simp]: "op_list (task_op l tk) = l"
  by (cases "task_type tk") (auto simp: task_op_def)

lemma count_task_sel [simp]:
  "tasks_index_end (count_task k r w) = tasks_index_end w" "index_task (count_task k r w) = index_task w"
  "ops_in_tx (count_task k r w) = ops_in_tx w" "inserts_occurred (count_task k r w) = inserts_occurred w"
  "removes_occurred (count_task k r w) = removes_occurred w"
  by (cases k; simp)+

lemma count_task_delta:
  "inserts_occurred_in_tx (count_task (task_type tk) r w) - removes_occurred_in_tx (count_task (task_type tk) r w) =
   inserts_occurred_in_tx w - removes_occurred_in_tx w + op_delta (task_op l tk) r"
  by (cases "task_type tk") (auto simp: task_op_def)

text \<open>What is printed as occurred, net of removals.\<close>

abbreviation net :: "worker \<Rightarrow> int" where
  "net w \<equiv> inserts_occurred w - removes_occurred w"

context list_index
begin

text \<open>
  One phase of a worker: it returns, the lists change by the net count it adds to its counters,
  and its own invariant is kept.
\<close>

lemma sys_ok_trace: "sys_ok L A C S \<Longrightarrow> th_trace (threads S t) \<noteq> [] \<Longrightarrow> TX (th_lt (threads S t))"
  unfolding sys_ok_def thread_inv_def by blast

lemma catch_abort_cleared: "catch_abort c s = (Ok None, s') \<Longrightarrow> \<not> TX (lt s')"
  by (auto simp: catch_abort_def handle_abort_def cleanup_def modifyLT_def run_simps
      split: prod.splits outcome.splits if_splits)

lemma TXend_cleared: "TXend i s = (Ok b, s') \<Longrightarrow> \<not> TX (lt s')"
  unfolding TXend_def
  by (elim bindE_OkE) (auto simp: cleanup_def modifyLT_def modifyLS_def run_simps
      split: prod.splits outcome.splits if_splits)

definition phase_ok ::
  "task list \<Rightarrow> (list_id \<Rightarrow> addr list) \<Rightarrow> 'ix system \<Rightarrow> nat \<Rightarrow> worker \<Rightarrow>
   (worker \<times> trace) outcome \<times> 'ix state \<Rightarrow> bool" where
  "phase_ok tasks C S t w res \<longleftrightarrow> (\<exists>w' tr' s' A' C'. res = (Ok (w', tr'), s') \<and>
     sys_ok {..<1} A' C' (store t s' tr' S) \<and> worker_ok tasks (threads (store t s' tr' S) t) w' \<and>
     int (card (dom (maps_of {..<1} (heap s') C' 0))) + net w =
     int (card (dom (maps_of {..<1} (heap (shared S)) C 0))) + net w')"

lemma phase_okI:
  assumes "res = (Ok (w', tr'), s')" and "sys_ok {..<1} A' C' (store t s' tr' S)"
    and "worker_ok tasks (threads (store t s' tr' S) t) w'"
    and "int (card (dom (maps_of {..<1} (heap s') C' 0))) + net w =
         int (card (dom (maps_of {..<1} (heap (shared S)) C 0))) + net w'"
  shows "phase_ok tasks C S t w res"
  using assms unfolding phase_ok_def by blast

text \<open>A phase without a call.\<close>

lemma idle_phase:
  assumes S: "sys_ok {..<1} A C S" and w: "worker_ok tasks (threads S t) w'"
    and "net w' = net w" and "\<not> TX (th_lt (threads S t)) \<Longrightarrow> th_trace (threads S t) = []"
  shows "phase_ok tasks C S t w (Ok (w', th_trace (threads S t)), load t S)"
proof (rule phase_okI)
  note D = sys_okD [OF S]
  show "sys_ok {..<1} A C (store t (load t S) (th_trace (threads S t)) S)"
    by (rule sys_ok_store [OF S D(1)]) (use D(2-6) assms(4) in auto)
  have "threads (store t (load t S) (th_trace (threads S t)) S) t = threads S t" by (simp add: load_def)
  with w show "worker_ok tasks (threads (store t (load t S) (th_trace (threads S t)) S) t) w'" by simp
qed (use assms(3) in simp_all)

lemma head_phase:
  assumes S: "sys_ok {..<1} A C S" and w: "worker_ok tasks (threads S t) w"
    and Loop_head: "wk_pc w = Loop_head"
  shows "phase_ok tasks C S t w (work_step i 0 tasks w (th_trace (threads S t)) (load t S))"
proof -
  let ?tr = "th_trace (threads S t)" let ?sz = "int (card (dom (maps_of {..<1} (heap (shared S)) C 0)))"
  show ?thesis
  proof (cases "index_task w < tasks_index_end w \<and> ops_in_tx w = 0")
    case True
    let ?s = "(load t S)\<lparr>lt := (lt (load t S))\<lparr>TX := True, readVersion := gvc (shared S)\<rparr>\<rparr>"
    let ?w = "w\<lparr>ops_in_tx := ops_in_tx w + 1, wk_pc := At_task\<rparr>"
    have tx: "\<not> TX (th_lt (threads S t))" using w Loop_head True by (simp add: worker_ok_def)
    have run: "TXbegin (load t S) = (Ok (), ?s)"
      by (simp add: TXbegin_def TX_getVersion_def modifyLT_def run_simps)
    have "tx_step i {..<1} S (Began t) (store t ?s [] S)" by (rule begin_step [OF tx run])
    then obtain A' C' where S': "sys_ok {..<1} A' C' (store t ?s [] S)"
      and eq: "maps_of {..<1} (heap ?s) C' = maps_of {..<1} (heap (shared S)) C"
      using tx_step_ok [OF S] by (fastforce simp: step_ok_def)
    have tr: "?tr = []" using w tx by (simp add: worker_ok_def)
    show ?thesis
    proof (rule phase_okI [of _ ?w "[]" ?s A' C'])
      show "work_step i 0 tasks w ?tr (load t S) = (Ok (?w, []), ?s)"
        using Loop_head True run tr by (simp add: work_step_def run_simps)
      show "worker_ok tasks (threads (store t ?s [] S) t) ?w" using w True tr by (simp add: worker_ok_def)
    qed (use S' eq in simp_all)
  next
    case False
    let ?w = "if index_task w < tasks_index_end w then w\<lparr>ops_in_tx := ops_in_tx w + 1, wk_pc := At_task\<rparr>
      else w\<lparr>wk_pc := Finished\<rparr>"
    have "work_step i 0 tasks w ?tr (load t S) = (Ok (?w, ?tr), load t S)"
      using Loop_head False by (auto simp: work_step_def run_simps)
    moreover have "worker_ok tasks (threads S t) ?w"
      using w False Loop_head by (auto simp: worker_ok_def)
    ultimately show ?thesis using idle_phase [OF S, of tasks t ?w w] w by (simp add: worker_ok_def)
  qed
qed

lemma task_phase:
  assumes S: "sys_ok {..<1} A C S" and w: "worker_ok tasks (threads S t) w"
    and At_task: "wk_pc w = At_task"
  shows "phase_ok tasks C S t w (work_step i 0 tasks w (th_trace (threads S t)) (load t S))"
proof -
  let ?tr = "th_trace (threads S t)" let ?sz = "int (card (dom (maps_of {..<1} (heap (shared S)) C 0)))"
  let ?tk = "tasks ! index_task w" let ?f = "task_op 0 ?tk"
  have tx: "TX (th_lt (threads S t))" and ix: "index_task w < length tasks" "index_task w < tasks_index_end w"
    using w At_task by (auto simp: worker_ok_def)
  obtain q s' where run: "catch_abort (run_op i ?f) (load t S) = (q, s')" by fastforce
  note st = op_step [OF S tx _ run]
  have eq: "maps_of {..<1} (heap s') C = maps_of {..<1} (heap (shared S)) C" using st(2) by simp
  have ct: "catch_abort (commit_task_and_update_counters i 0 tasks w) (load t S) =
    (case (q, s') of (Ok x, s') \<Rightarrow> (Ok (map_option (\<lambda>r. (count_task (task_type ?tk) r w, ?f, r)) x), s')
     | (Throw e, s') \<Rightarrow> (Throw e, s'))"
    using run ix(1) by (simp add: commit_task_and_update_counters_def Let_def catch_abort_bind)
  show ?thesis
  proof (cases q)
    case (Ok x)
    show ?thesis
    proof (cases x)
      case None
      let ?w = "next_task (count_abort w)"
      have S': "sys_ok {..<1} A C (store t s' [] S)" using st(1) Ok None by simp
      have ls: "\<not> TX (lt s')"
        using catch_abort_cleared run Ok None by blast
      show ?thesis
      proof (rule phase_okI [of _ ?w "[]" s' A C])
        show "work_step i 0 tasks w ?tr (load t S) = (Ok (?w, []), s')"
          using At_task ct Ok None by (simp add: work_step_def run_simps)
        show "worker_ok tasks (threads (store t s' [] S) t) ?w"
          using w ls by (simp add: worker_ok_def next_task_def count_abort_def reset_tx_def)
      qed (use S' eq in \<open>simp_all add: next_task_def count_abort_def reset_tx_def\<close>)
    next
      case (Some r)
      let ?w = "(count_task (task_type ?tk) r w)\<lparr>wk_pc := At_end\<rparr>"
      have S': "sys_ok {..<1} A C (store t s' (?tr @ [(?f, r)]) S)" using st(1) Ok Some by simp
      have tx': "TX (lt s')" using sys_ok_trace [OF S', of t] by simp
      show ?thesis
      proof (rule phase_okI [of _ ?w "?tr @ [(?f, r)]" s' A C])
        show "work_step i 0 tasks w ?tr (load t S) = (Ok (?w, ?tr @ [(?f, r)]), s')"
          using At_task ct Ok Some by (simp add: work_step_def run_simps)
        show "worker_ok tasks (threads (store t s' (?tr @ [(?f, r)]) S) t) ?w"
          using w tx' ix At_task count_task_delta [of ?tk r w 0] by (auto simp: worker_ok_def)
      qed (use S' eq in simp_all)
    qed
  next
    case (Throw e)
    with st(1) show ?thesis by simp
  qed
qed

lemma end_phase:
  assumes S: "sys_ok {..<1} A C S" and w: "worker_ok tasks (threads S t) w" and clock: "gvc (shared S) + 1 < 2 ^ 60"
    and At_end: "wk_pc w = At_end"
  shows "phase_ok tasks C S t w (work_step i 0 tasks w (th_trace (threads S t)) (load t S))"
proof -
  let ?tr = "th_trace (threads S t)" let ?sz = "int (card (dom (maps_of {..<1} (heap (shared S)) C 0)))"
  have tx: "TX (th_lt (threads S t))" and ix: "index_task w < tasks_index_end w"
    using w At_end by (auto simp: worker_ok_def)
  show ?thesis
  proof (cases "ops_in_tx w = ops_per_transc w \<or> index_task w = tasks_index_end w - 1")
    case False
    have "work_step i 0 tasks w ?tr (load t S) = (Ok (next_task w, ?tr), load t S)"
      using At_end False by (simp add: work_step_def run_simps)
    moreover have "worker_ok tasks (threads S t) (next_task w)"
      using w At_end tx by (auto simp: worker_ok_def next_task_def)
    ultimately show ?thesis using idle_phase [OF S, of tasks t "next_task w" w] w
      by (simp add: worker_ok_def next_task_def)
  next
    case True
    obtain q s' where run: "catch_abort (TXend i) (load t S) = (q, s')" by fastforce
    note st = end_step [OF S tx clock run]
    have ws: "work_step i 0 tasks w ?tr (load t S) = (case q of
        Ok (Some b) \<Rightarrow> (Ok (next_task (count_commit w), []), s')
      | Ok None \<Rightarrow> (Ok (next_task (count_abort w), []), s')
      | Throw e \<Rightarrow> (Throw e, s'))"
      using At_end True run by (simp add: work_step_def run_simps split: outcome.splits option.splits)
    show ?thesis
    proof (cases q)
      case (Ok x)
      show ?thesis
      proof (cases x)
        case None
        have S': "sys_ok {..<1} A C (store t s' [] S)" and eq: "heap s' = heap (shared S)" using st Ok None by auto
        have ls: "\<not> TX (lt s')" using catch_abort_cleared run Ok None by blast
        show ?thesis
        proof (rule phase_okI [of _ "next_task (count_abort w)" "[]" s' A C])
          show "worker_ok tasks (threads (store t s' [] S) t) (next_task (count_abort w))"
            using w ls by (simp add: worker_ok_def next_task_def count_abort_def reset_tx_def)
        qed (use ws Ok None S' eq in \<open>simp_all add: next_task_def count_abort_def reset_tx_def\<close>)
      next
        case (Some b)
        obtain A' C' M' where S': "sys_ok {..<1} A' C' (store t s' [] S)"
          and rep: "replay ?tr {} (maps_of {..<1} (heap (shared S)) C) = Some M'"
          and M': "maps_of {..<1} (heap s') C' 0 = M' 0"
          using st Ok Some by auto
        have "TXend i (load t S) = (Ok b, s')"
          using run Ok Some by (auto simp: catch_abort_def run_simps split: prod.splits outcome.splits if_splits)
        then have ls: "\<not> TX (lt s')" by (rule TXend_cleared)
        have "int (card (dom (M' 0))) = ?sz + trace_delta ?tr"
          by (rule replay_size [OF rep _ finite_maps_of]) (use w in \<open>simp add: worker_ok_def\<close>)
        then have size: "int (card (dom (maps_of {..<1} (heap s') C' 0))) =
            ?sz + (inserts_occurred_in_tx w - removes_occurred_in_tx w)"
          using M' w by (simp add: worker_ok_def)
        show ?thesis
        proof (rule phase_okI [of _ "next_task (count_commit w)" "[]" s' A' C'])
          show "worker_ok tasks (threads (store t s' [] S) t) (next_task (count_commit w))"
            using w ls by (simp add: worker_ok_def next_task_def count_commit_def reset_tx_def)
        qed (use ws Ok Some S' size in \<open>simp_all add: next_task_def count_commit_def reset_tx_def\<close>)
      qed
    next
      case (Throw e)
      with st show ?thesis by simp
    qed
  qed
qed

lemma work_step_ok:
  assumes S: "sys_ok {..<1} A C S" and w: "worker_ok tasks (threads S t) w"
    and clock: "gvc (shared S) + 1 < 2 ^ 60"
  shows "phase_ok tasks C S t w (work_step i 0 tasks w (th_trace (threads S t)) (load t S))"
proof (cases "wk_pc w")
  case Finished
  then have "work_step i 0 tasks w (th_trace (threads S t)) (load t S) = (Ok (w, th_trace (threads S t)), load t S)"
    by (simp add: work_step_def run_simps)
  with idle_phase [OF S w] w show ?thesis by (simp add: worker_ok_def)
qed (use head_phase [OF S w] task_phase [OF S w] end_phase [OF S w clock] in auto)

text \<open>The filling of the list by the main thread, when no exception ends it.\<close>

lemma init_puts_ok:
  assumes "sys_ok {..<1} A C S" and "TX (th_lt (threads S t))" and "init_puts i 0 ps m (load t S) = (Ok m', s')"
    and "\<forall>(f, r)\<in>set (th_trace (threads S t)). op_list f = 0"
  shows "\<exists>tr. sys_ok {..<1} A C (store t s' tr S) \<and> TX (lt s') \<and> gvc s' = gvc (shared S) \<and>
    maps_of {..<1} (heap s') C = maps_of {..<1} (heap (shared S)) C \<and>
    m' = m + trace_delta tr - trace_delta (th_trace (threads S t)) \<and> (\<forall>(f, r)\<in>set tr. op_list f = 0)"
  using assms
proof (induction ps arbitrary: S m)
  case Nil
  note D = sys_okD [OF Nil(1)]
  have "s' = load t S" "m' = m" using Nil(3) by (simp_all add: run_simps)
  moreover have "sys_ok {..<1} A C (store t (load t S) (th_trace (threads S t)) S)"
    by (rule sys_ok_store [OF Nil(1) D(1)]) (use D(2-6) Nil(2) in auto)
  ultimately show ?case using Nil(2,4) by (intro exI [of _ "th_trace (threads S t)"]) auto
next
  case (Cons p ps)
  obtain k v where p: "p = (k, v)" by fastforce
  let ?f = "Put 0 k v" let ?tr = "th_trace (threads S t)"
  obtain r s1 where put: "put i 0 k v (load t S) = (Ok r, s1)"
    and rest: "init_puts i 0 ps (if r = None then m + 1 else m) s1 = (Ok m', s')"
    using Cons.prems(3) p by (auto elim!: bindE_OkE)
  have run: "catch_abort (run_op i ?f) (load t S) = (Ok (Some (Value r)), s1)"
    using put by (simp add: catch_abort_def run_simps)
  let ?S = "store t s1 (?tr @ [(?f, Value r)]) S"
  have S1: "sys_ok {..<1} A C ?S" and eq: "maps_of {..<1} (heap s1) C = maps_of {..<1} (heap (shared S)) C"
    and gv: "gvc s1 = gvc (shared S)"
    using op_step [OF Cons.prems(1,2) _ run] by simp_all
  have tx: "TX (lt s1)" using sys_ok_trace [OF S1, of t] by simp
  obtain tr where tr: "sys_ok {..<1} A C (store t s' tr ?S)" "TX (lt s')" "gvc s' = gvc s1"
    "maps_of {..<1} (heap s') C = maps_of {..<1} (heap s1) C"
    "m' = (if r = None then m + 1 else m) + trace_delta tr - trace_delta (?tr @ [(?f, Value r)])"
    "\<forall>(f, r)\<in>set tr. op_list f = 0"
    using Cons.IH [OF S1, of "if r = None then m + 1 else m"] tx rest Cons.prems(4) by auto
  from tr eq gv show ?case by (intro exI [of _ tr]) auto
qed

lemma init_list_ok:
  assumes "init_linked_list i 0 ps (load 0 (initial_system i 1)) = (Ok init_size, s')"
  shows "\<exists>A C. sys_ok {..<1} A C (store 0 s' [] (initial_system i 1)) \<and>
    init_size = int (card (dom (maps_of {..<1} (heap s') C 0)))"
proof -
  let ?S = "initial_system i 1" let ?A = "\<lambda>l. {l}" let ?C = "\<lambda>l. [l]"
  let ?s = "(load 0 ?S)\<lparr>lt := (lt (load 0 ?S))\<lparr>TX := True, readVersion := gvc (shared ?S)\<rparr>\<rparr>"
  have S: "sys_ok {..<1} ?A ?C ?S" by (rule initial_ok)
  have bg: "TXbegin (load 0 ?S) = (Ok (), ?s)"
    by (simp add: TXbegin_def TX_getVersion_def modifyLT_def run_simps)
  have tx: "\<not> TX (th_lt (threads ?S 0))" by (simp add: initial_system_def initial_thread_def initial_transaction_def)
  have st: "tx_step i {..<1} ?S (Began 0) (store 0 ?s [] ?S)" by (rule begin_step [OF tx bg])
  obtain A C where S1: "sys_ok {..<1} A C (store 0 ?s [] ?S)"
    and eq: "maps_of {..<1} (heap ?s) C = maps_of {..<1} (heap (shared ?S)) ?C"
    using tx_step_ok [OF S st] by (fastforce simp: step_ok_def)
  obtain m s1 b where puts: "init_puts i 0 ps 0 ?s = (Ok m, s1)" and e: "TXend i s1 = (Ok b, s')" and m: "init_size = m"
    using assms bg unfolding init_linked_list_def by (auto simp: run_simps split: prod.splits outcome.splits)
  obtain tr where tr: "sys_ok {..<1} A C (store 0 s1 tr ?S)" "TX (lt s1)" "gvc s1 = gvc (shared ?S)"
    "maps_of {..<1} (heap s1) C = maps_of {..<1} (heap ?s) C" "m = trace_delta tr" "\<forall>(f, r)\<in>set tr. op_list f = 0"
    using init_puts_ok [OF S1, of 0 ps 0 m s1] puts by auto
  let ?S1 = "store 0 s1 tr ?S"
  have "gvc (shared ?S) = 0" using start_run [of 1] by (auto simp: initial_system_def start_ok_def)
  moreover have "catch_abort (TXend i) (load 0 ?S1) = (Ok (Some b), s')" using e by (simp add: catch_abort_def)
  ultimately obtain A' C' M' where S2: "sys_ok {..<1} A' C' (store 0 s' [] ?S1)"
    and rep: "replay tr {} (maps_of {..<1} (heap s1) C) = Some M'" and M': "maps_of {..<1} (heap s') C' 0 = M' 0"
    using end_step [OF tr(1), of 0 "Ok (Some b)" s'] tr(2,3) by auto
  have "maps_of {..<1} (heap s1) C 0 = Map.empty"
    unfolding tr(4) eq by (simp add: maps_of_def contents_def fun_eq_iff)
  with replay_size [OF rep tr(6) finite_maps_of] M' m tr(5)
  have "init_size = int (card (dom (maps_of {..<1} (heap s') C' 0)))" by simp
  with S2 show ?thesis by auto
qed

text \<open>The invariant of a run.\<close>

definition bench_ok :: "task list \<Rightarrow> nat \<Rightarrow> int \<Rightarrow> 'ix bench \<Rightarrow> bool" where
  "bench_ok tasks n init_size B \<longleftrightarrow> (\<exists>A C. sys_ok {..<1} A C (bench_sys B) \<and>
     (\<forall>t\<in>{1..n}. worker_ok tasks (threads (bench_sys B) t) (workers B t)) \<and>
     init_size + (\<Sum>t\<in>{1..n}. net (workers B t)) =
       int (card (dom (maps_of {..<1} (heap (shared (bench_sys B))) C 0))))"

lemma bench_run_ok:
  assumes "bench_run i tasks n ops ps init_size B"
  shows "bench_ok tasks n init_size B"
  using assms
proof (induction rule: bench_run.induct)
  case (bench_start init_size s')
  obtain A C where S: "sys_ok {..<1} A C (store 0 s' [] (initial_system i 1))"
    and sz: "init_size = int (card (dom (maps_of {..<1} (heap s') C 0)))"
    using init_list_ok [OF bench_start] by blast
  have "worker_ok tasks initial_thread (start_workers tasks n ops t)" if "t \<in> {1..n}" for t
  proof -
    have "t * length tasks div n \<le> length tasks"
      using that div_le_mono [of "t * length tasks" "n * length tasks" n] by simp
    then show ?thesis
      using that by (simp add: worker_ok_def start_workers_def worker_range_def Worker_def initial_thread_def
          initial_transaction_def)
  qed
  moreover have "threads (store 0 s' [] (initial_system i 1)) t = initial_thread" if "t \<in> {1..n}" for t
    using that by (simp add: initial_system_def)
  moreover have "net (start_workers tasks n ops t) = 0" for t
    by (simp add: start_workers_def Worker_def case_prod_beta)
  ultimately show ?case using S sz unfolding bench_ok_def
    by (intro exI [of _ A] exI [of _ C]) simp
next
  case (bench_step init_size B t w' tr' s')
  let ?S = "bench_sys B" let ?B = "\<lparr>bench_sys = store t s' tr' ?S, workers = (workers B)(t := w')\<rparr>"
  obtain A C where S: "sys_ok {..<1} A C ?S"
    and wk: "\<forall>t\<in>{1..n}. worker_ok tasks (threads ?S t) (workers B t)"
    and sz: "init_size + (\<Sum>t\<in>{1..n}. net (workers B t)) = int (card (dom (maps_of {..<1} (heap (shared ?S)) C 0)))"
    using bench_step.IH unfolding bench_ok_def by blast
  have t: "t \<in> {1..n}" using bench_step(2,3) by simp
  obtain A' C' where S': "sys_ok {..<1} A' C' (store t s' tr' ?S)"
    and w': "worker_ok tasks (threads (store t s' tr' ?S) t) w'"
    and d: "int (card (dom (maps_of {..<1} (heap s') C' 0))) + net (workers B t) =
        int (card (dom (maps_of {..<1} (heap (shared ?S)) C 0))) + net w'"
    using work_step_ok [OF S _ bench_step(4), of tasks t "workers B t"] wk t bench_step(5)
    by (auto simp: phase_ok_def)
  have "(\<Sum>u\<in>{1..n}. net (((workers B)(t := w')) u)) =
      net w' + (\<Sum>u\<in>{1..n} - {t}. net (workers B u))"
    using t by (subst sum.remove [of _ t]) (auto intro!: sum.cong)
  moreover have "(\<Sum>u\<in>{1..n}. net (workers B u)) =
      net (workers B t) + (\<Sum>u\<in>{1..n} - {t}. net (workers B u))"
    using t by (intro sum.remove) simp_all
  ultimately have "init_size + (\<Sum>u\<in>{1..n}. net (((workers B)(t := w')) u)) =
      int (card (dom (maps_of {..<1} (heap s') C' 0)))"
    using sz d by linarith
  moreover have "worker_ok tasks (threads (store t s' tr' ?S) u) (((workers B)(t := w')) u)" if "u \<in> {1..n}" for u
    using w' wk that by simp
  ultimately have "bench_ok tasks n init_size ?B"
    using S' unfolding bench_ok_def by (intro exI [of _ A'] exI [of _ C']) simp
  then show ?case .
qed

lemma work_step_progress:
  assumes "work_step i l tasks w tr s = (Ok (w', tr'), s')" and "wk_pc w \<noteq> Finished"
    and "wk_pc w \<in> {At_task, At_end} \<Longrightarrow> index_task w < tasks_index_end w"
  shows "work_left w' < work_left w"
proof (cases "wk_pc w")
  case Loop_head
  with assms(1) show ?thesis
    by (auto simp: work_step_def run_simps work_left_def split: if_splits prod.splits outcome.splits)
next
  case At_task
  with assms(1,3) show ?thesis unfolding work_step_def
    by (auto simp: run_simps commit_task_and_update_counters_def Let_def next_task_def count_abort_def reset_tx_def
        work_left_def catch_abort_bind catch_abort_def split: if_splits prod.splits outcome.splits option.splits)
next
  case At_end
  with assms(1,3) show ?thesis unfolding work_step_def
    by (auto simp: run_simps next_task_def count_abort_def count_commit_def reset_tx_def
        work_left_def split: if_splits prod.splits outcome.splits option.splits)
qed (use assms(2) in simp)

lemma expected_size_eq:
  "expected_size m n wk = m + (\<Sum>t\<in>{1..n}. net (wk t))"
proof (induction n)
  case (Suc n)
  have "[1..<Suc (Suc n)] = [1..<Suc n] @ [Suc n]" by simp
  with Suc show ?case unfolding expected_size_def by (simp del: upt_Suc)
qed (simp add: expected_size_def)

lemma bench_size:
  assumes "bench_run i tasks n ops ps init_size B"
  shows "get_size 0 (shared (bench_sys B)) =
    (Ok (of_int (expected_size init_size n (workers B))), shared (bench_sys B))"
proof -
  obtain A C where S: "sys_ok {..<1} A C (bench_sys B)"
    and sz: "init_size + (\<Sum>t\<in>{1..n}. net (workers B t)) =
       int (card (dom (maps_of {..<1} (heap (shared (bench_sys B))) C 0)))"
    using bench_run_ok [OF assms] unfolding bench_ok_def by blast
  have "list_maps 1 (shared (bench_sys B)) = maps_of {..<1} (heap (shared (bench_sys B))) C"
    by (rule list_maps_eq [of 1 A]) (use S in \<open>simp add: sys_ok_def\<close>)
  with get_size_sys [OF S] sz show ?thesis unfolding expected_size_eq by simp
qed

lemma bench_progress:
  assumes "bench_run i tasks n ops ps init_size B" and "t \<in> {1..n}" and "gvc (shared (bench_sys B)) + 1 < 2 ^ 60"
  shows "\<exists>w' tr' s'. work_step i 0 tasks (workers B t) (th_trace (threads (bench_sys B) t)) (load t (bench_sys B)) =
      (Ok (w', tr'), s') \<and> (wk_pc (workers B t) \<noteq> Finished \<longrightarrow> work_left w' < work_left (workers B t))"
proof -
  obtain A C where ok: "sys_ok {..<1} A C (bench_sys B)" "worker_ok tasks (threads (bench_sys B) t) (workers B t)"
    using bench_run_ok [OF assms(1)] assms(2) unfolding bench_ok_def by blast
  obtain w' tr' s' where run: "work_step i 0 tasks (workers B t) (th_trace (threads (bench_sys B) t)) (load t (bench_sys B)) =
      (Ok (w', tr'), s')"
    using work_step_ok [OF ok assms(3)] unfolding phase_ok_def by blast
  moreover have "wk_pc (workers B t) \<noteq> Finished \<longrightarrow> work_left w' < work_left (workers B t)"
    using work_step_progress [OF run] ok(2) by (auto simp: worker_ok_def)
  ultimately show ?thesis by blast
qed

end

end
