(* ===== verification/SoloView.thy ===== *)
theory SoloView
  imports TxHistory
begin

text \<open>
  The lists between two operations outside a transaction: the invariant, the search that finds the
  place of a key in its first attempt, and the effect of an update, an insertion and a deletion in
  the heap on the chain of nodes and on the contents of the lists.
\<close>

section \<open>The walk along the list\<close>

definition front :: "addr list \<Rightarrow> addr option" where
  "front Y = (case Y of [] \<Rightarrow> None | y # _ \<Rightarrow> Some y)"

lemma front_simps [simp]: "front [] = None" "front (y # Y) = Some y"
  by (simp_all add: front_def)

text \<open>A node a search may stand on: allocated, not locked, not deleted.\<close>

definition steady :: "(addr \<Rightarrow> lnode option) \<Rightarrow> addr \<Rightarrow> bool" where
  "steady h a \<longleftrightarrow> (\<exists>n. h a = Some n \<and> \<not> isLocked (m_version_mask n) \<and> \<not> isDeleted (m_version_mask n))"

lemma vnext_heap [simp]: "h a = Some n \<Longrightarrow> vnext h Map.empty a = m_next n"
  by (simp add: vnext_def)

lemma singleton_walk_run:
  assumes "path (vnext (heap s) Map.empty) (Some p) (p # Y) None" and "\<forall>a\<in>set (p # Y). steady (heap s) a"
    and "length Y < fuel"
  shows "\<exists>X q Z. p # Y = X @ q # Z \<and> (X \<noteq> [] \<longrightarrow> nkey (heap s) q < k) \<and>
    (\<forall>m Z'. Z = m # Z' \<longrightarrow> k \<le> nkey (heap s) m) \<and>
    singleton_walk fuel k p (front Y) s = (Ok (Some (\<exists>m Z'. Z = m # Z' \<and> nkey (heap s) m = k, q, front Z)), s)"
  using assms
proof (induction Y arbitrary: p fuel)
  case Nil
  then obtain f where "fuel = Suc f" by (cases fuel) auto
  then show ?case by (intro exI [of _ "[]"] exI [of _ p]) (simp add: run_simps)
next
  case (Cons m Y)
  then obtain f where f: "fuel = Suc f" by (cases fuel) auto
  from Cons.prems(2) obtain pd nd where pd: "heap s p = Some pd"
    and nd: "heap s m = Some nd" "\<not> isLocked (m_version_mask nd)" "\<not> isDeleted (m_version_mask nd)"
    by (auto simp: steady_def)
  have nx: "m_next pd = Some m" and nx': "m_next nd = front Y"
    using Cons.prems(1) pd nd(1) by (auto simp: front_def split: list.splits)
  have free: "\<not> isLockedOrDeleted (m_version_mask nd)" using nd by (simp add: isLockedOrDeleted_iff)
  show ?case
  proof (cases "k \<le> m_key nd")
    case True
    then show ?thesis
      by (intro exI [of _ "[]"] exI [of _ p] exI [of _ "m # Y"])
        (use nd free pd nx in \<open>auto simp: f run_simps nkey_def\<close>)
  next
    case False
    have "singleton_walk fuel k p (front (m # Y)) s = singleton_walk f k m (front Y) s"
      using False nd free pd nx nx' by (auto simp: f run_simps)
    moreover obtain X q Z where "m # Y = X @ q # Z" "X \<noteq> [] \<longrightarrow> nkey (heap s) q < k"
      "\<forall>m Z'. Z = m # Z' \<longrightarrow> k \<le> nkey (heap s) m"
      "singleton_walk f k m (front Y) s = (Ok (Some (\<exists>m Z'. Z = m # Z' \<and> nkey (heap s) m = k, q, front Z)), s)"
      using Cons.IH [of m f] Cons.prems f by auto
    moreover have "nkey (heap s) m < k" using False nd(1) by (simp add: nkey_def)
    ultimately show ?thesis
      by (intro exI [of _ "p # X"] exI [of _ q] exI [of _ Z]) (cases X; auto)
  qed
qed

section \<open>Contents after a change of the heap\<close>

lemma contents_put_heap:
  assumes "sorted_chain h V" and "sorted_chain h' V'" and "set (tl V') = insert n (set (tl V))"
    and "nkey h' n = k" and "vval h' Map.empty n = Some v" and "n \<in> set (tl V) \<Longrightarrow> nkey h n = k"
    and "\<And>a. a \<in> set (tl V) \<Longrightarrow> a \<noteq> n \<Longrightarrow> nkey h' a = nkey h a \<and> vval h' Map.empty a = vval h Map.empty a"
  shows "contents h' Map.empty V' = (contents h Map.empty V)(k := Some v)"
proof
  fix k'
  show "contents h' Map.empty V' k' = ((contents h Map.empty V)(k := Some v)) k'"
  proof (cases "k' = k")
    case True
    with assms(2-5) contents_node [of h' V' n Map.empty] show ?thesis by simp
  next
    case False
    have "contents h' Map.empty V' k' = contents h Map.empty V k'"
    proof (rule contents_eqI [OF assms(2,1)])
      fix v'
      have "a \<in> set (tl V') \<and> nkey h' a = k' \<and> vval h' Map.empty a = Some v' \<longleftrightarrow>
          a \<in> set (tl V) \<and> nkey h a = k' \<and> vval h Map.empty a = Some v'" for a
        using False assms(3,4,6,7) by (cases "a = n") auto
      then show "(\<exists>a\<in>set (tl V'). nkey h' a = k' \<and> vval h' Map.empty a = Some v') \<longleftrightarrow>
          (\<exists>a\<in>set (tl V). nkey h a = k' \<and> vval h Map.empty a = Some v')" by blast
    qed
    with False show ?thesis by simp
  qed
qed

lemma contents_drop_heap:
  assumes "sorted_chain h V" and "sorted_chain h' V'" and "set (tl V') = set (tl V) - {m}"
    and "m \<in> set (tl V)"
    and "\<And>a. a \<in> set (tl V') \<Longrightarrow> nkey h' a = nkey h a \<and> vval h' Map.empty a = vval h Map.empty a"
  shows "contents h' Map.empty V' = (contents h Map.empty V)(nkey h m := None)"
proof
  fix k'
  have inj: "a = m" if "a \<in> set (tl V)" "nkey h a = nkey h m" for a
    using sorted_chain_distinct [OF assms(1)] that assms(4) by (auto simp: distinct_map inj_on_def)
  show "contents h' Map.empty V' k' = ((contents h Map.empty V)(nkey h m := None)) k'"
  proof (cases "k' = nkey h m")
    case True
    have "contents h' Map.empty V' (nkey h m) = None"
      by (rule contents_NoneI) (use assms(3,5) inj in auto)
    with True show ?thesis by simp
  next
    case False
    have "contents h' Map.empty V' k' = contents h Map.empty V k'"
      by (rule contents_eqI [OF assms(2,1)]) (use False assms(3,5) in auto)
    with False show ?thesis by simp
  qed
qed

section \<open>States between two singleton operations\<close>

definition clean :: "(addr \<Rightarrow> lnode option) \<Rightarrow> bool" where
  "clean h \<longleftrightarrow> (\<forall>a n. h a = Some n \<longrightarrow> \<not> isLocked (m_version_mask n) \<and> \<not> w_deleted n)"

lemma clean_flags: "clean h \<Longrightarrow> flags_clear h"
  by (simp add: clean_def flags_clear_def)

lemma clean_upd: "clean h \<Longrightarrow> \<not> isLocked (m_version_mask n) \<Longrightarrow> \<not> w_deleted n \<Longrightarrow> clean (h(a \<mapsto> n))"
  by (auto simp: clean_def)

context list_index
begin

definition solo_ok :: "list_id set \<Rightarrow> (list_id \<Rightarrow> addr set) \<Rightarrow> (list_id \<Rightarrow> addr list) \<Rightarrow> 'ix state \<Rightarrow> bool" where
  "solo_ok L A C s \<longleftrightarrow> dom (heap s) = {..<next_addr s} \<and> clean (heap s) \<and>
     lists_ok L (head_of s) (heap s) C \<and>
     (\<forall>l\<in>L. ix_inv (heap s) (head_of s l) (A l) (ll_index (lists s l)) \<and>
        set (C l) = {a \<in> A l. live (heap s) a} \<and> A l \<subseteq> {..<next_addr s})"

lemma shared_solo:
  assumes "shared_ok L A C s"
  shows "solo_ok L A C s"
proof -
  note D = shared_okD [OF assms]
  note h = heap_okD [OF D(1)]
  have "clean (heap s)" using h(4,6) by (simp add: clean_def)
  moreover have "ix_inv (heap s) (head_of s l) (A l) (ll_index (lists s l))" if "l \<in> L" for l
    using D(2) that by (simp add: index_ok_def)
  ultimately show ?thesis using D(3-5) h(1) unfolding solo_ok_def by simp
qed

lemma solo_okD:
  assumes "solo_ok L A C s"
  shows "dom (heap s) = {..<next_addr s}" and "clean (heap s)" and "lists_ok L (head_of s) (heap s) C"
    and "l \<in> L \<Longrightarrow> ix_inv (heap s) (head_of s l) (A l) (ll_index (lists s l))"
    and "l \<in> L \<Longrightarrow> set (C l) = {a \<in> A l. live (heap s) a}" and "l \<in> L \<Longrightarrow> A l \<subseteq> {..<next_addr s}"
    and "l \<in> L \<Longrightarrow> path (vnext (heap s) Map.empty) (Some (head_of s l)) (C l) None"
    and "l \<in> L \<Longrightarrow> sorted_chain (heap s) (C l)"
    and "l \<in> L \<Longrightarrow> a \<in> set (C l) \<Longrightarrow> \<exists>n. heap s a = Some n \<and> m_val n \<noteq> None \<and>
      \<not> isDeleted (m_version_mask n) \<and> \<not> isLocked (m_version_mask n) \<and> \<not> w_deleted n"
    and "l \<in> L \<Longrightarrow> live (heap s) (head_of s l)"
proof -
  show "dom (heap s) = {..<next_addr s}" and "clean (heap s)" and "lists_ok L (head_of s) (heap s) C"
    and "l \<in> L \<Longrightarrow> ix_inv (heap s) (head_of s l) (A l) (ll_index (lists s l))"
    and "l \<in> L \<Longrightarrow> set (C l) = {a \<in> A l. live (heap s) a}" and "l \<in> L \<Longrightarrow> A l \<subseteq> {..<next_addr s}"
    using assms unfolding solo_ok_def by blast+
  note lists = this(3) and clean = this(2)
  show path: "l \<in> L \<Longrightarrow> path (vnext (heap s) Map.empty) (Some (head_of s l)) (C l) None"
    and "l \<in> L \<Longrightarrow> sorted_chain (heap s) (C l)"
    using lists by (simp_all add: lists_ok_def)
  show node: "l \<in> L \<Longrightarrow> a \<in> set (C l) \<Longrightarrow> \<exists>n. heap s a = Some n \<and> m_val n \<noteq> None \<and>
      \<not> isDeleted (m_version_mask n) \<and> \<not> isLocked (m_version_mask n) \<and> \<not> w_deleted n" for a
    using lists clean by (fastforce simp: lists_ok_def clean_def)
  show "live (heap s) (head_of s l)" if l: "l \<in> L"
  proof -
    have "head_of s l \<in> set (C l)" using path_head [OF path [OF l]] by auto
    from node [OF l this] show ?thesis by (auto simp: live_def)
  qed
qed

lemma solo_searched:
  assumes "solo_ok L A C s" and "searched A l s s'"
  shows "solo_ok L A C s'"
proof -
  obtain ix where s': "s' = set_index l ix s" and ix: "ix_inv (heap s) (head_of s l) (A l) ix"
    using assms(2) unfolding searched_def by blast
  with assms(1) show ?thesis by (simp add: solo_ok_def ll_index_set_index)
qed

text \<open>The place a search finds, in the chain of the list.\<close>

definition solo_place :: "(list_id \<Rightarrow> addr list) \<Rightarrow> 'ix state \<Rightarrow> list_id \<Rightarrow> key_t \<Rightarrow> bool \<Rightarrow> addr \<Rightarrow> addr option \<Rightarrow> bool" where
  "solo_place C s l k found q c \<longleftrightarrow>
     (\<exists>X Z. C l = X @ q # Z \<and> (X \<noteq> [] \<longrightarrow> nkey (heap s) q < k) \<and>
        (\<forall>m Z'. Z = m # Z' \<longrightarrow> k \<le> nkey (heap s) m) \<and> c = front Z \<and>
        found = (\<exists>m Z'. Z = m # Z' \<and> nkey (heap s) m = k))"

lemma find_node_singelton_run:
  assumes ok: "solo_ok L A C s" and l: "l \<in> L"
  obtains s' found q c where "find_node_singelton (Suc f) i l k s = (Ok (found, q, c), s')"
    and "searched A l s s'" and "solo_place C s l k found q c"
proof -
  note D = solo_okD [OF ok]
  obtain b ix' where gp: "index_getPred i l k s = (Ok b, set_index l ix' s)"
    and inv: "ix_inv (heap s) (head_of s l) (A l) ix'" and b: "b \<in> A l" "live (heap s) b"
    and key: "b = head_of s l \<or> nkey (heap s) b < k"
    by (rule index_getPred_run [OF D(4) [OF l] clean_flags [OF D(2)] D(10) [OF l], of k])
  let ?s = "set_index l ix' s"
  have "b \<in> set (C l)" using b D(5) [OF l] by simp
  then obtain X Y where C: "C l = X @ b # Y" by (auto simp: in_set_conv_decomp)
  have path: "path (vnext (heap s) Map.empty) (Some b) (b # Y) None"
    using D(7) [OF l] by (simp add: C)
  have st: "\<forall>a\<in>set (b # Y). steady (heap s) a"
    using D(9) [OF l] unfolding C steady_def by fastforce
  then obtain n where n: "heap s b = Some n" "\<not> isLocked (m_version_mask n)" "\<not> isDeleted (m_version_mask n)"
    by (auto simp: steady_def)
  then have free: "\<not> isLockedOrDeleted (m_version_mask n)" by (simp add: isLockedOrDeleted_iff)
  have nx: "m_next n = front Y" using path n(1) by (auto simp: front_def split: list.splits)
  have "length (C l) = card (set (C l))" using distinct_card [OF path_distinct [OF D(7) [OF l]]] by simp
  also have "\<dots> \<le> card (dom (heap s))"
    using D(1) D(5,6) [OF l] by (intro card_mono) auto
  finally have "length Y < Suc (next_addr s)" using D(1) by (simp add: C)
  then obtain X' q Z where walk: "b # Y = X' @ q # Z" "X' \<noteq> [] \<longrightarrow> nkey (heap s) q < k"
    "\<forall>m Z'. Z = m # Z' \<longrightarrow> k \<le> nkey (heap s) m"
    "singleton_walk (Suc (next_addr s)) k b (front Y) ?s =
       (Ok (Some (\<exists>m Z'. Z = m # Z' \<and> nkey (heap s) m = k, q, front Z)), ?s)"
    using singleton_walk_run [of ?s b Y "Suc (next_addr s)" k] path st by auto
  have run: "find_node_singelton (Suc f) i l k s =
      (Ok (\<exists>m Z'. Z = m # Z' \<and> nkey (heap s) m = k, q, front Z), ?s)"
    using n free nx walk(4)
    by (simp add: getPredSingleton_def run_simps gp del: singleton_walk.simps)
  have "X = []" if "b = head_of s l"
    using path_head [OF D(7) [OF l]] path_distinct [OF D(7) [OF l]] that by (cases X) (auto simp: C)
  then have "solo_place C s l k (\<exists>m Z'. Z = m # Z' \<and> nkey (heap s) m = k) q (front Z)"
    unfolding solo_place_def using walk(1-3) key C
    by (intro exI [of _ "X @ X'"] exI [of _ Z]) (cases X'; auto)
  then show ?thesis by (intro that [OF run]) (auto simp: searched_def inv)
qed

section \<open>Changing one list\<close>

text \<open>
  A change of the nodes \<open>T\<close> that leaves the list \<open>l\<close> as the chain \<open>V\<close> and touches no node of
  another list keeps the invariant; the contents of \<open>l\<close> become those of \<open>V\<close>.
\<close>

lemma solo_change:
  assumes ok: "solo_ok L A C s" and l: "l \<in> L"
    and dom: "dom (heap s') = {..<next_addr s'}" and clean: "clean (heap s')"
    and nx: "next_addr s \<le> next_addr s'" and lat: "later (heap s) (heap s')"
    and out: "\<And>a. a \<notin> T \<Longrightarrow> heap s' a = heap s a"
    and away: "\<And>l'. l' \<in> L \<Longrightarrow> l' \<noteq> l \<Longrightarrow> T \<inter> A l' = {}"
    and path: "path (vnext (heap s') Map.empty) (Some (head_of s l)) V None"
    and sorted: "sorted_chain (heap s') V" and V: "set V = {a \<in> A'. live (heap s') a}"
    and nodes: "\<And>a n. a \<in> set V \<Longrightarrow> heap s' a = Some n \<Longrightarrow> \<not> isDeleted (m_version_mask n)"
    and A': "A' \<subseteq> A l \<union> T" "A' \<subseteq> {..<next_addr s'}"
    and heads: "\<And>l. head_of s' l = head_of s l"
    and ix: "\<And>l'. l' \<noteq> l \<Longrightarrow> ll_index (lists s' l') = ll_index (lists s l')"
    and inv: "ix_inv (heap s') (head_of s l) A' (ll_index (lists s' l))"
  shows "solo_ok L (A(l := A')) (C(l := V)) s'"
    and "maps_of L (heap s') (C(l := V)) = (maps_of L (heap s) C)(l := contents (heap s') Map.empty V)"
proof -
  note D = solo_okD [OF ok]
  have same: "heap s' a = heap s a" if "l' \<in> L" "l' \<noteq> l" "a \<in> A l'" for a l'
    using out away [OF that(1,2)] that(3) by blast
  have sub: "a \<in> A l'" if "l' \<in> L" "a \<in> set (C l')" for a l' using D(5) that by simp
  have lv: "live (heap s') a = live (heap s) a" if "l' \<in> L" "l' \<noteq> l" "a \<in> A l'" for a l'
    using same [OF that] by (simp add: live_def)
  have chain: "path (vnext (heap s') Map.empty) (Some (head_of s l')) (C l') None"
    "sorted_chain (heap s') (C l')" if "l' \<in> L" "l' \<noteq> l" for l'
  proof -
    have eq: "heap s' a = heap s a" if "a \<in> set (C l')" for a
      using same sub \<open>l' \<in> L\<close> \<open>l' \<noteq> l\<close> that by blast
    have "path (vnext (heap s') Map.empty) p (C l') q = path (vnext (heap s) Map.empty) p (C l') q" for p q
      by (rule path_cong) (simp add: vnext_def eq)
    then show "path (vnext (heap s') Map.empty) (Some (head_of s l')) (C l') None" using D(7) that by simp
    show "sorted_chain (heap s') (C l')"
      using sorted_chain_cong [of "C l'" "heap s" "heap s'"] eq D(8) that by (simp add: nkey_def)
  qed
  have disj: "set V \<inter> set (C l') = {}" if "l' \<in> L" "l' \<noteq> l" for l'
  proof -
    have False if "a \<in> set V" "a \<in> set (C l')" for a
    proof -
      have a: "a \<in> A l'" using sub \<open>l' \<in> L\<close> that(2) by blast
      then have "a \<notin> T" using away \<open>l' \<in> L\<close> \<open>l' \<noteq> l\<close> by blast
      then have "a \<in> A l" "live (heap s) a"
        using that(1) V A'(1) lv [OF \<open>l' \<in> L\<close> \<open>l' \<noteq> l\<close> a] by auto
      then have "a \<in> set (C l)" using D(5) [OF l] by simp
      with that(2) D(3) l \<open>l' \<in> L\<close> \<open>l' \<noteq> l\<close> show False unfolding lists_ok_def by blast
    qed
    then show ?thesis by blast
  qed
  have "lists_ok L (head_of s') (heap s') (C(l := V))"
  proof -
    have "\<exists>n. heap s' a = Some n \<and> m_val n \<noteq> None \<and> \<not> isDeleted (m_version_mask n)" if "a \<in> set V" for a
      using that V nodes by (fastforce simp: live_def)
    moreover have "\<exists>n. heap s' a = Some n \<and> m_val n \<noteq> None \<and> \<not> isDeleted (m_version_mask n)"
      if "l' \<in> L" "l' \<noteq> l" "a \<in> set (C l')" for l' a
      using D(9) [OF that(1,3)] same [OF that(1,2) sub [OF that(1,3)]] by auto
    moreover have "set (C j) \<inter> set (C j') = {}" if "j \<in> L" "j' \<in> L" "j \<noteq> j'" for j j'
      using D(3) that by (simp add: lists_ok_def)
    ultimately show ?thesis
      unfolding lists_ok_def heads fun_upd_apply using path sorted chain disj by (simp add: Int_commute)
  qed
  moreover have "ix_inv (heap s') (head_of s' l') ((A(l := A')) l') (ll_index (lists s' l'))" if "l' \<in> L" for l'
    using inv ix_later [OF D(4) [OF that] lat] ix [of l'] by (auto simp: heads)
  moreover have "set ((C(l := V)) l') = {a \<in> (A(l := A')) l'. live (heap s') a}" if "l' \<in> L" for l'
    using V D(5) [OF that] lv [OF that] by auto
  moreover have "(A(l := A')) l' \<subseteq> {..<next_addr s'}" if "l' \<in> L" for l'
    using A'(2) D(6) [OF that] nx by auto
  ultimately show "solo_ok L (A(l := A')) (C(l := V)) s'"
    using dom clean by (simp add: solo_ok_def)
  have "contents (heap s') Map.empty (C l') = contents (heap s) Map.empty (C l')" if "l' \<in> L" "l' \<noteq> l" for l'
  proof
    fix k
    have eq: "heap s' a = heap s a" if "a \<in> set (C l')" for a
      using same sub \<open>l' \<in> L\<close> \<open>l' \<noteq> l\<close> that by blast
    show "contents (heap s') Map.empty (C l') k = contents (heap s) Map.empty (C l') k"
      by (rule contents_eqI [OF chain(2) [OF that] D(8) [OF that(1)]])
        (use eq in_set_tl in \<open>fastforce simp: nkey_def vval_def\<close>)
  qed
  then show "maps_of L (heap s') (C(l := V)) = (maps_of L (heap s) C)(l := contents (heap s') Map.empty V)"
    using l by (auto simp: maps_of_def fun_eq_iff)
qed

lemma solo_other:
  assumes ok: "solo_ok L A C s" and "l \<in> L" "l' \<in> L" "l' \<noteq> l" "a \<in> set (C l)"
  shows "a \<notin> A l'"
proof
  assume "a \<in> A l'"
  moreover have "live (heap s) a" using solo_okD(5) [OF ok assms(2)] assms(5) by simp
  ultimately have "a \<in> set (C l')" using solo_okD(5) [OF ok assms(3)] by simp
  with solo_okD(3) [OF ok] assms(2-5) show False unfolding lists_ok_def by blast
qed

lemma solo_fresh:
  assumes ok: "solo_ok L A C s" and "l \<in> L"
  shows "next_addr s \<notin> A l" and "next_addr s \<notin> set (C l)" and "heap s (next_addr s) = None"
  using solo_okD(1) [OF ok] solo_okD(5,6) [OF ok assms(2)] by auto

lemma solo_update:
  assumes ok: "solo_ok L A C s" and l: "l \<in> L" and m: "m \<in> set (tl (C l))" and nd: "heap s m = Some nd"
    and nd': "m_key nd' = m_key nd" "m_next nd' = m_next nd" "m_val nd' = Some v"
      "\<not> isLocked (m_version_mask nd')" "\<not> isDeleted (m_version_mask nd')" "\<not> w_deleted nd'"
    and s': "heap s' = (heap s)(m \<mapsto> nd')" "next_addr s' = next_addr s" "lists s' = lists s"
  shows "solo_ok L A C s'"
    and "maps_of L (heap s') C = map_upd l (m_key nd) (Some v) (maps_of L (heap s) C)"
proof -
  note D = solo_okD [OF ok]
  have key: "nkey (heap s') = nkey (heap s)" using nd nd'(1) by (auto simp: s' nkey_def)
  have nx: "vnext (heap s') Map.empty = vnext (heap s) Map.empty" using nd nd'(2) by (auto simp: s' vnext_def)
  have lv: "live (heap s') a = live (heap s) a" if "a \<in> A l" for a
    using D(5) [OF l] m in_set_tl [OF m] nd nd'(3) by (auto simp: s' live_def)
  have lat: "later (heap s) (heap s')" using nd nd'(1) by (auto simp: later_def s')
  have sorted: "sorted_chain (heap s') (C l)" using D(8) [OF l] by (simp add: sorted_chain_def key)
  have dom: "dom (heap s') = {..<next_addr s'}" using D(1) nd by (auto simp: s')
  have cl: "clean (heap s')" using clean_upd [OF D(2) nd'(4,6)] by (simp add: s'(1))
  have away: "{m} \<inter> A l' = {}" if "l' \<in> L" "l' \<noteq> l" for l'
    using solo_other [OF ok l that in_set_tl [OF m]] by simp
  have V: "set (C l) = {a \<in> A l. live (heap s') a}" using D(5) [OF l] lv by auto
  have del: "\<not> isDeleted (m_version_mask n)" if "a \<in> set (C l)" "heap s' a = Some n" for a n
    using D(9) [OF l that(1)] that(2) nd'(5) by (auto simp: s' split: if_splits)
  have inv: "ix_inv (heap s') (head_of s l) (A l) (ll_index (lists s' l))"
    using ix_later [OF D(4) [OF l] lat] by (simp add: s')
  have path: "path (vnext (heap s') Map.empty) (Some (head_of s l)) (C l) None" using D(7) [OF l] by (simp only: nx)
  note change = solo_change [OF ok l dom cl _ lat _ away path sorted V del _ _ _ _ inv]
  have "solo_ok L (A(l := A l)) (C(l := C l)) s'"
    by (rule change(1)) (use D(6) [OF l] in \<open>auto simp: s'\<close>)
  then show "solo_ok L A C s'" by simp
  have "maps_of L (heap s') (C(l := C l)) = (maps_of L (heap s) C)(l := contents (heap s') Map.empty (C l))"
    by (rule change(2)) (use D(6) [OF l] in \<open>auto simp: s'\<close>)
  moreover have "contents (heap s') Map.empty (C l) = (contents (heap s) Map.empty (C l))(m_key nd := Some v)"
    by (rule contents_put_heap [OF D(8) [OF l] sorted, of m])
      (use m nd nd' in \<open>auto simp: key, auto simp: s' nkey_def vval_def\<close>)
  ultimately show "maps_of L (heap s') C = map_upd l (m_key nd) (Some v) (maps_of L (heap s) C)"
    using l by (simp add: map_upd_def maps_of_def)
qed

lemma solo_insert:
  assumes ok: "solo_ok L A C s" and l: "l \<in> L" and C: "C l = X @ q # Y" and qd: "heap s q = Some qd"
    and key: "X \<noteq> [] \<Longrightarrow> nkey (heap s) q < k" "\<And>m Z. Y = m # Z \<Longrightarrow> k < nkey (heap s) m"
    and nn: "m_key nn = k" "m_next nn = m_next qd" "m_val nn = Some v"
      "\<not> isLocked (m_version_mask nn)" "\<not> isDeleted (m_version_mask nn)" "\<not> w_deleted nn"
    and qd': "m_key qd' = m_key qd" "m_next qd' = Some (next_addr s)" "m_val qd' = m_val qd"
      "\<not> isLocked (m_version_mask qd')" "\<not> isDeleted (m_version_mask qd')" "\<not> w_deleted qd'"
    and s': "heap s' = (heap s)(next_addr s \<mapsto> nn, q \<mapsto> qd')" "next_addr s' = Suc (next_addr s)"
      "\<And>l. head_of s' l = head_of s l" "\<And>l'. l' \<noteq> l \<Longrightarrow> ll_index (lists s' l') = ll_index (lists s l')"
    and inv: "ix_inv (heap s') (head_of s l) (insert (next_addr s) (A l)) (ll_index (lists s' l))"
  shows "solo_ok L (A(l := insert (next_addr s) (A l))) (C(l := X @ q # next_addr s # Y)) s'"
    and "maps_of L (heap s') (C(l := X @ q # next_addr s # Y)) = map_upd l k (Some v) (maps_of L (heap s) C)"
proof -
  note D = solo_okD [OF ok]
  let ?n = "next_addr s" and ?V = "X @ q # next_addr s # Y"
  note fresh = solo_fresh [OF ok l]
  have qn: "q \<noteq> ?n" using fresh(3) qd by auto
  have dist: "distinct (C l)" by (rule path_distinct [OF D(7) [OF l]])
  have keys: "nkey (heap s') a = nkey (heap s) a" if "a \<noteq> ?n" for a using that qd qd'(1) by (auto simp: s' nkey_def)
  have keyn: "nkey (heap s') ?n = k" using nn(1) qn by (simp add: s' nkey_def)
  have lat: "later (heap s) (heap s')" using qd qd'(1) fresh(3) by (auto simp: later_def s')
  have "q < ?n" using D(1) qd by blast
  then have dom: "dom (heap s') = {..<next_addr s'}" using D(1) by (auto simp: s')
  have cl: "clean (heap s')" using clean_upd [OF clean_upd [OF D(2) nn(4,6)] qd'(4,6)] by (simp add: s')
  have path: "path (vnext (heap s') Map.empty) (Some (head_of s l)) ?V None"
    by (rule path_insert [OF D(7) [OF l, unfolded C]])
      (use fresh(2) qn nn qd qd' dist in \<open>auto simp: C s' vnext_def\<close>)
  have sorted: "sorted_chain (heap s') ?V"
  proof (rule sorted_chain_insert)
    show "sorted_chain (heap s') (X @ q # Y)"
      using D(8) [OF l] sorted_chain_cong [of "X @ q # Y" "heap s" "heap s'"] keys fresh(2)
      by (metis C)
    show "nkey (heap s') ?n = k" by (rule keyn)
    show "nkey (heap s') q < k" if "X \<noteq> []" using key(1) [OF that] keys qn by simp
    show "k < nkey (heap s') m" if "Y = m # Z" for m Z using key(2) [OF that] keys [of m] fresh(2) that by (auto simp: C)
  qed
  have q: "live (heap s) q" "q \<in> A l" using D(5) [OF l] C by auto
  have V: "set ?V = {a \<in> insert ?n (A l). live (heap s') a}"
    using D(5) [OF l] nn(3) qn q qd qd'(3) by (auto simp: C s' live_def)
  have del: "\<not> isDeleted (m_version_mask n)" if "a \<in> set ?V" "heap s' a = Some n" for a n
    using D(9) [OF l, of a] that nn(5) qd'(5) by (auto simp: s' C split: if_splits)
  have away: "{?n, q} \<inter> A l' = {}" if "l' \<in> L" "l' \<noteq> l" for l'
    using solo_other [OF ok l that, of q] solo_fresh(1) [OF ok that(1)] by (simp add: C)
  note change = solo_change [OF ok l dom cl _ lat _ away path sorted V del _ _ s'(3,4) inv]
  show "solo_ok L (A(l := insert ?n (A l))) (C(l := ?V)) s'"
    by (rule change(1)) (use D(6) [OF l] in \<open>auto simp: s'\<close>)
  have "maps_of L (heap s') (C(l := ?V)) = (maps_of L (heap s) C)(l := contents (heap s') Map.empty ?V)"
    by (rule change(2)) (use D(6) [OF l] in \<open>auto simp: s'\<close>)
  moreover have "contents (heap s') Map.empty ?V = (contents (heap s) Map.empty (C l))(k := Some v)"
  proof (rule contents_put_heap [OF D(8) [OF l] sorted _ keyn])
    show "set (tl ?V) = insert ?n (set (tl (C l)))" by (cases X) (auto simp: C)
    show "vval (heap s') Map.empty ?n = Some v" using nn(3) qn by (simp add: s' vval_def)
    show "?n \<in> set (tl (C l)) \<Longrightarrow> nkey (heap s) ?n = k" using fresh(2) in_set_tl by fast
    show "nkey (heap s') a = nkey (heap s) a \<and> vval (heap s') Map.empty a = vval (heap s) Map.empty a"
      if "a \<noteq> ?n" for a using keys [OF that] that qd qd'(3) by (simp add: s' vval_def)
  qed
  ultimately show "maps_of L (heap s') (C(l := ?V)) = map_upd l k (Some v) (maps_of L (heap s) C)"
    using l by (simp add: map_upd_def maps_of_def)
qed

lemma solo_delete:
  assumes ok: "solo_ok L A C s" and l: "l \<in> L" and C: "C l = X @ q # m # Z"
    and qd: "heap s q = Some qd" and md: "heap s m = Some md"
    and md': "m_key md' = m_key md" "m_val md' = None" "\<not> isLocked (m_version_mask md')" "\<not> w_deleted md'"
    and qd': "m_key qd' = m_key qd" "m_next qd' = m_next md" "m_val qd' = m_val qd"
      "\<not> isLocked (m_version_mask qd')" "\<not> isDeleted (m_version_mask qd')" "\<not> w_deleted qd'"
    and s': "heap s' = (heap s)(m \<mapsto> md', q \<mapsto> qd')" "next_addr s' = next_addr s"
      "\<And>l. head_of s' l = head_of s l" "\<And>l'. l' \<noteq> l \<Longrightarrow> ll_index (lists s' l') = ll_index (lists s l')"
    and inv: "ix_inv (heap s') (head_of s l) (A l) (ll_index (lists s' l))"
  shows "solo_ok L A (C(l := X @ q # Z)) s'"
    and "maps_of L (heap s') (C(l := X @ q # Z)) = map_upd l (m_key md) None (maps_of L (heap s) C)"
proof -
  note D = solo_okD [OF ok]
  let ?V = "X @ q # Z"
  have dist: "distinct (C l)" by (rule path_distinct [OF D(7) [OF l]])
  then have qm: "q \<noteq> m" by (simp add: C)
  have keys: "nkey (heap s') a = nkey (heap s) a" for a using qd qd'(1) md md'(1) by (auto simp: s' nkey_def)
  have lat: "later (heap s) (heap s')" using qd qd'(1) md md'(1) by (auto simp: later_def s')
  have dom: "dom (heap s') = {..<next_addr s'}" using D(1) qd md by (auto simp: s')
  have cl: "clean (heap s')" using clean_upd [OF clean_upd [OF D(2) md'(3,4)] qd'(4,6)] by (simp add: s')
  have path: "path (vnext (heap s') Map.empty) (Some (head_of s l)) ?V None"
    by (rule path_delete [OF D(7) [OF l, unfolded C]])
      (use qm md qd qd' dist in \<open>auto simp: C s' vnext_def\<close>)
  have sorted: "sorted_chain (heap s') ?V"
    using sorted_chain_delete [of "heap s" X q m Z] D(8) [OF l] sorted_chain_cong [of ?V "heap s" "heap s'"] keys
    by (simp add: C)
  have q: "live (heap s) q" "q \<in> A l" using D(5) [OF l] C by auto
  have V: "set ?V = {a \<in> A l. live (heap s') a}"
    using D(5) [OF l] qm q qd qd'(3) md'(2) dist by (auto simp: C s' live_def)
  have del: "\<not> isDeleted (m_version_mask n)" if "a \<in> set ?V" "heap s' a = Some n" for a n
    using D(9) [OF l, of a] that qd'(5) dist by (auto simp: s' C split: if_splits)
  have away: "{m, q} \<inter> A l' = {}" if "l' \<in> L" "l' \<noteq> l" for l'
    using solo_other [OF ok l that, of q] solo_other [OF ok l that, of m] by (simp add: C)
  note change = solo_change [OF ok l dom cl _ lat _ away path sorted V del _ _ s'(3,4) inv]
  have "solo_ok L (A(l := A l)) (C(l := ?V)) s'"
    by (rule change(1)) (use D(6) [OF l] in \<open>auto simp: s'\<close>)
  then show "solo_ok L A (C(l := ?V)) s'" by simp
  have "maps_of L (heap s') (C(l := ?V)) = (maps_of L (heap s) C)(l := contents (heap s') Map.empty ?V)"
    by (rule change(2)) (use D(6) [OF l] in \<open>auto simp: s'\<close>)
  moreover have "contents (heap s') Map.empty ?V = (contents (heap s) Map.empty (C l))(nkey (heap s) m := None)"
  proof (rule contents_drop_heap [OF D(8) [OF l] sorted])
    show "set (tl ?V) = set (tl (C l)) - {m}" "m \<in> set (tl (C l))" using dist by (cases X; auto simp: C)+
    show "nkey (heap s') a = nkey (heap s) a \<and> vval (heap s') Map.empty a = vval (heap s) Map.empty a"
      if "a \<in> set (tl ?V)" for a
      using keys that qd qd'(3) dist in_set_tl [OF that] by (auto simp: s' vval_def C)
  qed
  ultimately show "maps_of L (heap s') (C(l := ?V)) = map_upd l (m_key md) None (maps_of L (heap s) C)"
    using l md by (simp add: map_upd_def maps_of_def nkey_def)
qed

section \<open>What a search has found\<close>

lemma solo_placeE:
  assumes ok: "solo_ok L A C s" and l: "l \<in> L" and "solo_place C s l k found q c"
  obtains (found) X m Z qd md where "found" and "c = Some m" and "C l = X @ q # m # Z" and "heap s q = Some qd"
      and "heap s m = Some md" and "m_next qd = Some m" and "m_key md = k" and "q \<noteq> m"
      and "maps_of L (heap s) C l k = m_val md" and "m \<in> set (tl (C l))"
    | (absent) X Y qd where "\<not> found" and "C l = X @ q # Y" and "heap s q = Some qd" and "c = m_next qd"
      and "X \<noteq> [] \<Longrightarrow> nkey (heap s) q < k" and "\<And>m Z. Y = m # Z \<Longrightarrow> k < nkey (heap s) m"
      and "maps_of L (heap s) C l k = None"
proof -
  note D = solo_okD [OF ok]
  from assms(3) obtain X Y where C: "C l = X @ q # Y" and q: "X \<noteq> [] \<longrightarrow> nkey (heap s) q < k"
    and Y: "\<forall>m Z. Y = m # Z \<longrightarrow> k \<le> nkey (heap s) m" and c: "c = front Y"
    and fnd: "found = (\<exists>m Z. Y = m # Z \<and> nkey (heap s) m = k)"
    unfolding solo_place_def by blast
  obtain qd where qd: "heap s q = Some qd" using D(9) [OF l, of q] C by auto
  have nx: "m_next qd = c"
    using path_split_next [OF D(7) [OF l, unfolded C]] qd by (simp add: c front_def)
  have sorted: "sorted_chain (heap s) (X @ q # Y)" using D(8) [OF l] by (simp add: C)
  show thesis
  proof (cases found)
    case True
    with fnd obtain m Z where Y': "Y = m # Z" and key: "nkey (heap s) m = k" by blast
    have m: "m \<in> set (tl (C l))" by (cases X) (simp_all add: C Y')
    obtain md where md: "heap s m = Some md" "m_val md \<noteq> None" using D(9) [OF l, of m] by (auto simp: C Y')
    have "q \<noteq> m" using path_distinct [OF D(7) [OF l]] by (simp add: C Y')
    moreover have "maps_of L (heap s) C l k = m_val md"
      using contents_node [OF D(8) [OF l] m, of Map.empty] md key l by (simp add: maps_of_def vval_def)
    ultimately show thesis
      using True c nx md(1) qd key m by (intro found [of m X Z qd md]) (simp_all add: C Y' nkey_def)
  next
    case False
    have Yk: "k < nkey (heap s) m" if "Y = m # Z" for m Z
      using Y False fnd that by (metis order.not_eq_order_implies_strict)
    have "nkey (heap s) a \<noteq> k" if "a \<in> set (tl (C l))" for a
    proof -
      have "nkey (heap s) y \<ge> k \<and> nkey (heap s) y \<noteq> k" if "y \<in> set Y" for y
        using that Yk sorted by (cases X; cases Y) (auto simp: sorted_chain_def sorted_wrt_append intro: less_trans)
      moreover have "nkey (heap s) x < k" if "x \<in> set (tl X)" for x
        using that sorted q by (cases X) (auto simp: sorted_chain_def sorted_wrt_append intro: less_trans)
      ultimately show ?thesis using \<open>a \<in> set (tl (C l))\<close> q by (cases X) (auto simp: C)
    qed
    then have "contents (heap s) Map.empty (C l) k = None" by (rule contents_NoneI)
    then show thesis
      using False nx qd q Yk l by (intro absent [of X Y qd]) (simp_all add: C maps_of_def)
  qed
qed

end

end
