(* ===== verification/SoloOps.thy ===== *)
theory SoloOps
  imports SoloView
begin

text \<open>
  The operations of the list outside a transaction. A thread that runs them without interference
  never waits: every search finds its place in the first attempt, every lock it tries is free, and
  the operations act on the lists as the operations of the specification act on maps.
\<close>

text \<open>A sequence of operations of one thread, with their results.\<close>

primrec run_ops :: "'ix index_ops \<Rightarrow> list_op list \<Rightarrow> ('ix state, list_result list) cmd" where
  "run_ops i [] = returnE []"
| "run_ops i (f # fs) = bindE (run_op i f) (\<lambda>r. bindE (run_ops i fs) (\<lambda>rs. returnE (r # rs)))"

context list_index
begin

section \<open>The operations\<close>

text \<open>The operation returns \<open>r\<close>, keeps the invariant and leaves the contents \<open>M\<close>.\<close>

definition solo_does :: "list_id set \<Rightarrow> 'ix state \<Rightarrow> 'a \<Rightarrow> maps \<Rightarrow> 'a outcome \<times> 'ix state \<Rightarrow> bool" where
  "solo_does L s r M res \<longleftrightarrow>
     (\<exists>s' A C. res = (Ok r, s') \<and> solo_ok L A C s' \<and> maps_of L (heap s') C = M \<and> lt s' = lt s \<and> ls s' = ls s)"

lemma solo_does_searched:
  assumes "searched A l s s1" and "solo_does L s1 r M res"
  shows "solo_does L s r M res"
  using assms by (simp add: solo_does_def searched_sel [OF assms(1)])

lemma node_tryLock_free:
  assumes "heap s a = Some n" and "\<not> isLocked (m_version_mask n)"
  shows "node_tryLock a s =
    (Ok True, s\<lparr>heap := (heap s)(a \<mapsto> n\<lparr>m_version_mask := lock_word (m_version_mask n)\<rparr>)\<rparr>)"
  using node_tryLock_run [OF assms] assms(1) by (simp add: map_words_single)

lemma node_unlock_held:
  assumes "heap s a = Some n" and "isLocked (m_version_mask n)"
  shows "node_unlock a s =
    (Ok (), s\<lparr>heap := (heap s)(a \<mapsto> n\<lparr>m_version_mask := unlock_word (m_version_mask n)\<rparr>)\<rparr>)"
  using node_unlock_run [OF assms] assms(1) by (simp add: map_words_single)

lemma insert_finish:
  assumes ok: "solo_ok L A C s" and l: "l \<in> L" and C: "C l = X @ q # Y" and qd: "heap s q = Some qd"
    and key: "X \<noteq> [] \<Longrightarrow> nkey (heap s) q < k" "\<And>m Z. Y = m # Z \<Longrightarrow> k < nkey (heap s) m"
    and nn: "m_key nn = k" "m_next nn = m_next qd" "m_val nn = Some v"
      "\<not> isLocked (m_version_mask nn)" "\<not> isDeleted (m_version_mask nn)" "\<not> w_deleted nn"
  shows "solo_does L s None (map_upd l k (Some v) (maps_of L (heap s) C))
    (thenE (index_add i l (next_addr s)) (returnE None)
      (s\<lparr>next_addr := Suc (next_addr s),
         heap := (heap s)(next_addr s \<mapsto> nn, q \<mapsto> qd\<lparr>m_next := Some (next_addr s)\<rparr>)\<rparr>))"
proof -
  note D = solo_okD [OF ok]
  let ?n = "next_addr s" and ?qd = "qd\<lparr>m_next := Some (next_addr s)\<rparr>"
  let ?h = "(heap s)(?n \<mapsto> nn, q \<mapsto> ?qd)"
  let ?s = "s\<lparr>next_addr := Suc ?n, heap := ?h\<rparr>"
  note fresh = solo_fresh [OF ok l]
  have qn: "q \<noteq> ?n" using fresh(3) qd by auto
  have q: "\<not> isLocked (m_version_mask qd)" "\<not> isDeleted (m_version_mask qd)" "\<not> w_deleted qd"
    using D(9) [OF l, of q] qd by (auto simp: C)
  have cl: "clean ?h" by (intro clean_upd D(2)) (use nn q in simp_all)
  have "later (heap s) ?h" using qd fresh(3) by (auto simp: later_def)
  then have inv: "ix_inv ?h (head_of s l) (A l) (ll_index (lists s l))" by (rule ix_later [OF D(4) [OF l]])
  have hd: "live ?h (head_of s l)" using D(10) [OF l] qd nn(3) by (auto simp: live_def)
  have hn: "?h ?n \<noteq> None" using qn by simp
  obtain r' ix' where run: "index_add i l ?n ?s = (Ok (), (set_index l ix' ?s)\<lparr>rng := r'\<rparr>)"
    and inv': "ix_inv ?h (head_of s l) (insert ?n (A l)) ix'"
    using index_add_run [of ?s l "A l" ?n] inv clean_flags [OF cl] hd hn fresh(1) by auto
  let ?s' = "(set_index l ix' ?s)\<lparr>rng := r'\<rparr>"
  note ins = solo_insert [OF ok l C qd key nn, where qd' = ?qd and s' = ?s']
  have "solo_ok L (A(l := insert ?n (A l))) (C(l := X @ q # ?n # Y)) ?s'"
    by (rule ins(1)) (use q inv' in \<open>simp_all add: ll_index_set_index\<close>)
  moreover have "maps_of L (heap ?s') (C(l := X @ q # ?n # Y)) = map_upd l k (Some v) (maps_of L (heap s) C)"
    by (rule ins(2)) (use q inv' in \<open>simp_all add: ll_index_set_index\<close>)
  ultimately show ?thesis
    unfolding solo_does_def
    by (intro exI [of _ ?s'] exI [of _ "A(l := insert ?n (A l))"] exI [of _ "C(l := X @ q # ?n # Y)"])
      (simp add: run_simps run)
qed

definition new_node :: "u64 \<Rightarrow> key_t \<Rightarrow> val_t \<Rightarrow> addr option \<Rightarrow> lnode" where
  "new_node w k v nx = \<lparr>m_key = k, m_val = Some v, m_next = nx, m_version_mask = w, w_deleted = False\<rparr>"

lemma new_node_sel [simp]:
  "m_key (new_node w k v nx) = k" "m_val (new_node w k v nx) = Some v" "m_next (new_node w k v nx) = nx"
  "m_version_mask (new_node w k v nx) = w" "\<not> w_deleted (new_node w k v nx)"
  by (simp_all add: new_node_def)

abbreviation hold :: "addr \<Rightarrow> lnode \<Rightarrow> 'ix state \<Rightarrow> 'ix state" where
  "hold a n s \<equiv> s\<lparr>heap := (heap s)(a \<mapsto> n\<lparr>m_version_mask := lock_word (m_version_mask n)\<rparr>)\<rparr>"

lemma stamp_fields:
  "\<not> isLocked (setVersionAndSingletonNoLockAssert v b 0)" "\<not> isDeleted (setVersionAndSingletonNoLockAssert v b 0)"
  "\<not> isLocked 0" "\<not> isDeleted 0"
proof -
  show "\<not> isLocked 0" "\<not> isDeleted 0" by (simp_all add: flag_bits)
  then show "\<not> isLocked (setVersionAndSingletonNoLockAssert v b 0)" "\<not> isDeleted (setVersionAndSingletonNoLockAssert v b 0)"
    using fieldsD [OF setVersionAndSingletonNoLockAssert_fields [of v b 0]] by simp_all
qed

lemma link_new_node_eq:
  assumes "heap s q = Some qd" and "\<not> isLocked (m_version_mask qd)" and "q \<noteq> next_addr s"
  shows "link_new_node i l k v q (hold q qd s) =
    thenE (index_add i l (next_addr s)) (returnE None)
      (s\<lparr>next_addr := Suc (next_addr s),
         heap := (heap s)(next_addr s \<mapsto> new_node (setVersionAndSingletonNoLockAssert (gvc s) True 0) k v (m_next qd),
           q \<mapsto> qd\<lparr>m_next := Some (next_addr s)\<rparr>)\<rparr>)"
  using assms
  by (cases qd) (simp add: link_new_node_def get_new_node_def get_new_node_key_def TX_getVersion_def run_simps updE_run
      node_unlock_held new_node_def new_LNode_def lock_word_simps fun_upd_twist [of q "next_addr s"])

lemma append_new_node_eq:
  assumes "heap s q = Some qd" and "\<not> isLocked (m_version_mask qd)" and "q \<noteq> next_addr s" and "m_next qd = None"
  shows "append_new_node i l k v b q (hold q qd s) =
    thenE (index_add i l (next_addr s)) (returnE None)
      (s\<lparr>next_addr := Suc (next_addr s),
         heap := (heap s)(next_addr s \<mapsto>
             new_node (if b then setVersionAndSingletonNoLockAssert (gvc s) True 0 else 0) k v (m_next qd),
           q \<mapsto> qd\<lparr>m_next := Some (next_addr s)\<rparr>)\<rparr>)"
  using assms
  by (cases qd) (simp add: append_new_node_def get_new_node_def get_new_node_key_def TX_getVersion_def run_simps updE_run
      node_unlock_held new_node_def new_LNode_def lock_word_simps fun_upd_twist [of q "next_addr s"])

text \<open>A search followed by the two insertion branches of \<open>putSingleton\<close> and \<open>putIfAbsentSingleton\<close>.\<close>

lemma insert_branch:
  assumes ok: "solo_ok L A C s" and l: "l \<in> L" and pl: "solo_place C s l k False q c" and qd: "heap s q = Some qd"
  shows "\<not> isLocked (m_version_mask qd)" and "\<not> isDeleted (m_version_mask qd)" and "c = m_next qd"
    and "solo_does L s None (map_upd l k (Some v) (maps_of L (heap s) C)) (link_new_node i l k v q (hold q qd s))"
    and "c = None \<Longrightarrow>
      solo_does L s None (map_upd l k (Some v) (maps_of L (heap s) C)) (append_new_node i l k v b q (hold q qd s))"
    and "maps_of L (heap s) C l k = None"
proof -
  from solo_placeE [OF ok l pl] obtain X Y where C: "C l = X @ q # Y" and c: "c = m_next qd"
    and key: "X \<noteq> [] \<Longrightarrow> nkey (heap s) q < k" "\<And>m Z. Y = m # Z \<Longrightarrow> k < nkey (heap s) m"
    and M: "maps_of L (heap s) C l k = None"
    using qd by (metis option.inject)
  have q: "\<not> isLocked (m_version_mask qd)" "\<not> isDeleted (m_version_mask qd)"
    using solo_okD(9) [OF ok l, of q] qd by (auto simp: C)
  then show "\<not> isLocked (m_version_mask qd)" "\<not> isDeleted (m_version_mask qd)" "c = m_next qd" using c by simp_all
  show "maps_of L (heap s) C l k = None" by (rule M)
  have qn: "q \<noteq> next_addr s" using solo_fresh(3) [OF ok l] qd by auto
  note fin = insert_finish [OF ok l C qd key]
  show "solo_does L s None (map_upd l k (Some v) (maps_of L (heap s) C)) (link_new_node i l k v q (hold q qd s))"
    unfolding link_new_node_eq [OF qd q(1) qn] by (rule fin) (simp_all add: stamp_fields)
  show "solo_does L s None (map_upd l k (Some v) (maps_of L (heap s) C)) (append_new_node i l k v b q (hold q qd s))"
    if "c = None"
    unfolding append_new_node_eq [OF qd q(1) qn that [unfolded c]]
    by (intro fin) (simp_all add: stamp_fields)
qed

lemma solo_doesI:
  "solo_ok L A C s' \<Longrightarrow> maps_of L (heap s') C = M \<Longrightarrow> lt s' = lt s \<Longrightarrow> ls s' = ls s \<Longrightarrow> solo_does L s r M (Ok r, s')"
  unfolding solo_does_def by blast

lemma place_absent:
  assumes "solo_ok L A C s" and "l \<in> L" and "solo_place C s l k False q c"
  obtains qd where "heap s q = Some qd"
  by (rule solo_placeE [OF assms]) (use that in auto)

lemma place_found:
  assumes "solo_ok L A C s" and "l \<in> L" and "solo_place C s l k True q c"
  obtains X m Z qd md where "c = Some m" and "C l = X @ q # m # Z" and "heap s q = Some qd"
      and "heap s m = Some md" and "m_next qd = Some m" and "m_key md = k" and "q \<noteq> m"
      and "maps_of L (heap s) C l k = m_val md" and "m \<in> set (tl (C l))"
proof (rule solo_placeE [OF assms])
  fix X m Z qd md
  assume "c = Some m" "C l = X @ q # m # Z" "heap s q = Some qd" "heap s m = Some md" "m_next qd = Some m" "m_key md = k"
    "q \<noteq> m" "maps_of L (heap s) C l k = m_val md" "m \<in> set (tl (C l))"
  then show thesis by (rule that)
qed simp

lemma place_node:
  assumes "solo_ok L A C s" and "l \<in> L" and "C l = X @ q # m # Z" and "heap s q = Some qd" and "heap s m = Some md"
  shows "\<not> isLocked (m_version_mask qd)" "\<not> isDeleted (m_version_mask qd)" "\<not> w_deleted qd"
    "\<not> isLocked (m_version_mask md)" "\<not> isDeleted (m_version_mask md)" "\<not> w_deleted md" "m_val md \<noteq> None"
  using solo_okD(9) [OF assms(1,2), of q] solo_okD(9) [OF assms(1,2), of m] assms(3-5) by auto

text \<open>Writing the value of the node \<open>m\<close> under its lock.\<close>

lemma write_value_run:
  assumes md: "heap s m = Some md" and free: "\<not> isLocked (m_version_mask md)"
  obtains s1 s2 s3 w where "updE m (\<lambda>n. n\<lparr>m_val := Some v\<rparr>) (hold m md s) = (Ok (), s1)"
    and "writeWord m (setSingleton True) s1 = (Ok (), s2)" and "gvc s2 = gvc s"
    and "writeWord m (setVersion (gvc s)) s2 = (Ok (), s3)"
    and "node_unlock m s3 = (Ok (), s\<lparr>heap := (heap s)(m \<mapsto> md\<lparr>m_val := Some v, m_version_mask := w\<rparr>)\<rparr>)"
    and "\<not> isLocked w" and "isDeleted w = isDeleted (m_version_mask md)"
proof -
  let ?w = "lock_word (m_version_mask md)"
  have l: "isLocked ?w" by (simp add: lock_word_simps)
  define w1 where "w1 = setSingletonNoLockAssert True ?w"
  have w1: "setSingleton True ?w = Ok w1" unfolding w1_def by (rule locked_word_setters(2) [OF l])
  have f1: "isLocked w1" "isDeleted w1 = isDeleted (m_version_mask md)"
    using fieldsD [OF setSingletonNoLockAssert_fields [of True ?w]] by (simp_all add: w1_def lock_word_simps)
  obtain w2 where w2: "setVersion (gvc s) w1 = Ok w2" using setters_assert(3) [of "gvc s" w1] f1(1) by blast
  have f2: "isLocked w2" "isDeleted w2 = isDeleted (m_version_mask md)"
    using fieldsD [OF setVersion_fields [OF w2]] f1 by simp_all
  have upd: "updE m (\<lambda>n. n\<lparr>m_val := Some v\<rparr>) (hold m md s) =
      (Ok (), s\<lparr>heap := (heap s)(m \<mapsto> md\<lparr>m_val := Some v, m_version_mask := ?w\<rparr>)\<rparr>)"
    by (cases md) (simp add: updE_run)
  have sgl: "writeWord m (setSingleton True) (s\<lparr>heap := (heap s)(m \<mapsto> md\<lparr>m_val := Some v, m_version_mask := ?w\<rparr>)\<rparr>) =
      (Ok (), s\<lparr>heap := (heap s)(m \<mapsto> md\<lparr>m_val := Some v, m_version_mask := w1\<rparr>)\<rparr>)"
    by (simp add: writeWord_run [where w = w1] w1)
  have ver: "writeWord m (setVersion (gvc s)) (s\<lparr>heap := (heap s)(m \<mapsto> md\<lparr>m_val := Some v, m_version_mask := w1\<rparr>)\<rparr>) =
      (Ok (), s\<lparr>heap := (heap s)(m \<mapsto> md\<lparr>m_val := Some v, m_version_mask := w2\<rparr>)\<rparr>)"
    by (simp add: writeWord_run [where w = w2] w2)
  have unl: "node_unlock m (s\<lparr>heap := (heap s)(m \<mapsto> md\<lparr>m_val := Some v, m_version_mask := w2\<rparr>)\<rparr>) =
      (Ok (), s\<lparr>heap := (heap s)(m \<mapsto> md\<lparr>m_val := Some v, m_version_mask := unlock_word w2\<rparr>)\<rparr>)"
    using f2(1) by (simp add: node_unlock_held)
  show thesis
    by (rule that [OF upd sgl _ ver unl]) (simp_all add: lock_word_simps f2)
qed

lemma solo_find:
  assumes ok: "solo_ok L A C s" and l: "l \<in> L"
  obtains s1 found q c where "find_node_singelton (Suc (next_addr s)) i l k s = (Ok (found, q, c), s1)"
    and "searched A l s s1" and "solo_ok L A C s1" and "solo_place C s1 l k found q c"
proof (rule find_node_singelton_run [OF ok l])
  fix s1 found q c
  assume find: "find_node_singelton (Suc (next_addr s)) i l k s = (Ok (found, q, c), s1)"
    and se: "searched A l s s1" and pl: "solo_place C s l k found q c"
  show thesis
    by (rule that [OF find se solo_searched [OF ok se]]) (use pl in \<open>simp add: solo_place_def searched_sel [OF se]\<close>)
qed

lemma putSingleton_run:
  assumes ok: "solo_ok L A C s" and l: "l \<in> L"
  shows "solo_does L s (maps_of L (heap s) C l k) (map_upd l k (Some v) (maps_of L (heap s) C)) (putSingleton (Suc f) i l k v s)"
proof -
  obtain s1 found q c where find: "find_node_singelton (Suc (next_addr s)) i l k s = (Ok (found, q, c), s1)"
    and se: "searched A l s s1" and ok1: "solo_ok L A C s1" and pl1: "solo_place C s1 l k found q c"
    by (rule solo_find [OF ok l])
  have "solo_does L s1 (maps_of L (heap s1) C l k) (map_upd l k (Some v) (maps_of L (heap s1) C)) (putSingleton (Suc f) i l k v s)"
  proof (cases found)
    case True
    with pl1 have pl0: "solo_place C s1 l k True q c" by simp
    obtain X m Z qd md where c: "c = Some m" and C: "C l = X @ q # m # Z"
      and qd: "heap s1 q = Some qd" and md: "heap s1 m = Some md" and nx: "m_next qd = Some m" and key: "m_key md = k"
      and qm: "q \<noteq> m" and M: "maps_of L (heap s1) C l k = m_val md" and m: "m \<in> set (tl (C l))"
      by (rule place_found [OF ok1 l pl0])
    note n = place_node [OF ok1 l C qd md]
    define s2 where "s2 = hold m md s1"
    obtain s3 s4 s5 w where wr: "updE m (\<lambda>n. n\<lparr>m_val := Some v\<rparr>) s2 = (Ok (), s3)"
        "writeWord m (setSingleton True) s3 = (Ok (), s4)" "gvc s4 = gvc s1"
        "writeWord m (setVersion (gvc s1)) s4 = (Ok (), s5)"
        "node_unlock m s5 = (Ok (), s1\<lparr>heap := (heap s1)(m \<mapsto> md\<lparr>m_val := Some v, m_version_mask := w\<rparr>)\<rparr>)"
      and w: "\<not> isLocked w" "isDeleted w = isDeleted (m_version_mask md)"
      using write_value_run [OF md n(4)] unfolding s2_def by blast
    let ?md = "md\<lparr>m_val := Some v, m_version_mask := w\<rparr>"
    define s6 where "s6 = s1\<lparr>heap := (heap s1)(m \<mapsto> ?md)\<rparr>"
    have lock: "node_tryLock m s1 = (Ok True, s2)" unfolding s2_def by (rule node_tryLock_free [OF md n(4)])
    obtain md2 where md2: "heap s2 m = Some md2" "m_key md2 = k" "m_val md2 = m_val md" "\<not> isDeleted (m_version_mask md2)"
      using key n(5) by (simp add: s2_def lock_word_simps)
    have "putSingleton (Suc f) i l k v s = (Ok (m_val md), s6)"
      using True c qd nx md md2 wr(3)
      by (simp add: run_simps find lock wr [folded s6_def] TX_getVersion_def del: find_node_singelton.simps)
    moreover have "solo_ok L A C s6" "maps_of L (heap s6) C = map_upd l k (Some v) (maps_of L (heap s1) C)"
      using solo_update [OF ok1 l m md, of ?md v s6] n w key by (simp_all add: s6_def)
    ultimately show ?thesis unfolding M by (simp add: solo_doesI s6_def)
  next
    case False
    with pl1 have pl0: "solo_place C s1 l k False q c" by simp
    obtain qd where qd: "heap s1 q = Some qd" by (rule place_absent [OF ok1 l pl0])
    note ins = insert_branch [OF ok1 l pl0 qd]
    show ?thesis
    proof (cases "c = None")
      case True
      have "putSingleton (Suc f) i l k v s = append_new_node i l k v True q (hold q qd s1)"
        using False True ins(1-3) qd
        by (simp add: run_simps find node_tryLock_free lock_word_simps del: find_node_singelton.simps)
      with ins(5) [OF True] ins(6) show ?thesis by simp
    next
      case nonempty: False
      have "putSingleton (Suc f) i l k v s = link_new_node i l k v q (hold q qd s1)"
        using False nonempty ins(1-3) qd
        by (simp add: run_simps find node_tryLock_free lock_word_simps del: find_node_singelton.simps)
      with ins(4,6) show ?thesis by simp
    qed
  qed
  from solo_does_searched [OF se this] show ?thesis unfolding searched_sel(1) [OF se] .
qed

lemma putIfAbsentSingleton_run:
  assumes ok: "solo_ok L A C s" and l: "l \<in> L"
  shows "solo_does L s (maps_of L (heap s) C l k)
    (if maps_of L (heap s) C l k = None then map_upd l k (Some v) (maps_of L (heap s) C) else maps_of L (heap s) C)
    (putIfAbsentSingleton (Suc f) i l k v s)"
proof -
  obtain s1 found q c where find: "find_node_singelton (Suc (next_addr s)) i l k s = (Ok (found, q, c), s1)"
    and se: "searched A l s s1" and ok1: "solo_ok L A C s1" and pl1: "solo_place C s1 l k found q c"
    by (rule solo_find [OF ok l])
  have "solo_does L s1 (maps_of L (heap s1) C l k)
      (if maps_of L (heap s1) C l k = None then map_upd l k (Some v) (maps_of L (heap s1) C) else maps_of L (heap s1) C)
      (putIfAbsentSingleton (Suc f) i l k v s)"
  proof (cases found)
    case True
    with pl1 have pl0: "solo_place C s1 l k True q c" by simp
    obtain X m Z qd md where c: "c = Some m" and C: "C l = X @ q # m # Z"
      and qd: "heap s1 q = Some qd" and md: "heap s1 m = Some md" and nx: "m_next qd = Some m" and key: "m_key md = k"
      and qm: "q \<noteq> m" and M: "maps_of L (heap s1) C l k = m_val md" and m: "m \<in> set (tl (C l))"
      by (rule place_found [OF ok1 l pl0])
    note n = place_node [OF ok1 l C qd md]
    have run: "putIfAbsentSingleton (Suc f) i l k v s = (Ok (m_val md), s1)"
      using True c qd nx md key n
      by (simp add: run_simps find isLockedOrDeleted_iff del: find_node_singelton.simps)
    show ?thesis unfolding run M using n(7) by (auto intro: solo_doesI [OF ok1])
  next
    case False
    with pl1 have pl0: "solo_place C s1 l k False q c" by simp
    obtain qd where qd: "heap s1 q = Some qd" by (rule place_absent [OF ok1 l pl0])
    note ins = insert_branch [OF ok1 l pl0 qd]
    show ?thesis
    proof (cases "c = None")
      case True
      have "putIfAbsentSingleton (Suc f) i l k v s = append_new_node i l k v False q (hold q qd s1)"
        using False True ins(1-3) qd
        by (simp add: run_simps find node_tryLock_free lock_word_simps del: find_node_singelton.simps)
      with ins(5) [OF True] ins(6) show ?thesis by simp
    next
      case nonempty: False
      have "putIfAbsentSingleton (Suc f) i l k v s = link_new_node i l k v q (hold q qd s1)"
        using False nonempty ins(1-3) qd
        by (simp add: run_simps find node_tryLock_free lock_word_simps del: find_node_singelton.simps)
      with ins(4,6) show ?thesis by simp
    qed
  qed
  from solo_does_searched [OF se this] show ?thesis unfolding searched_sel(1) [OF se] .
qed

lemma getSingleton_run:
  assumes ok: "solo_ok L A C s" and l: "l \<in> L"
  shows "solo_does L s (maps_of L (heap s) C l k) (maps_of L (heap s) C) (getSingleton i l k s)"
proof -
  obtain s1 found q c where find: "find_node_singelton (Suc (next_addr s)) i l k s = (Ok (found, q, c), s1)"
    and se: "searched A l s s1" and ok1: "solo_ok L A C s1" and pl1: "solo_place C s1 l k found q c"
    by (rule solo_find [OF ok l])
  have "getSingleton i l k s = (Ok (maps_of L (heap s1) C l k), s1)"
  proof (cases found)
    case True
    with pl1 have pl0: "solo_place C s1 l k True q c" by simp
    obtain m md where "c = Some m" "heap s1 m = Some md" "maps_of L (heap s1) C l k = m_val md"
      by (rule place_found [OF ok1 l pl0])
    with True find show ?thesis by (simp add: getSingleton_def run_simps del: find_node_singelton.simps)
  next
    case False
    with pl1 have pl0: "solo_place C s1 l k False q c" by simp
    obtain qd where qd: "heap s1 q = Some qd" by (rule place_absent [OF ok1 l pl0])
    from insert_branch(6) [OF ok1 l pl0 qd] False find show ?thesis
      by (simp add: getSingleton_def run_simps del: find_node_singelton.simps)
  qed
  then show ?thesis
    using solo_does_searched [OF se solo_doesI [OF ok1 refl refl refl]] by (simp add: searched_sel [OF se])
qed

text \<open>The two locked nodes of a removal, the removed node \<open>m\<close> and its predecessor \<open>q\<close>.\<close>

definition two :: "addr \<Rightarrow> addr \<Rightarrow> 'ix state \<Rightarrow> lnode \<Rightarrow> lnode \<Rightarrow> 'ix state" where
  "two m q s x y = s\<lparr>heap := (heap s)(m \<mapsto> x, q \<mapsto> y)\<rparr>"

lemma two_sel [simp]:
  "gvc (two m q s x y) = gvc s" "lists (two m q s x y) = lists s" "next_addr (two m q s x y) = next_addr s"
  "lt (two m q s x y) = lt s" "ls (two m q s x y) = ls s" "heap (two m q s x y) = (heap s)(m \<mapsto> x, q \<mapsto> y)"
  by (simp_all add: two_def)

lemma two_run:
  assumes "q \<noteq> m"
  shows "updE m f (two m q s x y) = (Ok (), two m q s (f x) y)" and "updE q f (two m q s x y) = (Ok (), two m q s x (f y))"
    and "g (m_version_mask x) = Ok w \<Longrightarrow> writeWord m g (two m q s x y) = (Ok (), two m q s (x\<lparr>m_version_mask := w\<rparr>) y)"
    and "g (m_version_mask y) = Ok w \<Longrightarrow> writeWord q g (two m q s x y) = (Ok (), two m q s x (y\<lparr>m_version_mask := w\<rparr>))"
  using assms by (simp_all add: two_def updE_run writeWord_run fun_upd_twist [of m q])

lemma index_remove_ok:
  assumes ok: "solo_ok L A C s" and l: "l \<in> L" and a: "a \<in> A l"
    and s': "later (heap s) (heap s')" "clean (heap s')" "live (heap s') (head_of s l)" "lists s' = lists s"
  obtains ix where "index_remove i l a s' = (Ok (), set_index l ix s')" and "ix_inv (heap s') (head_of s l) (A l) ix"
proof -
  have "ix_inv (heap s') (head_of s' l) (A l) (ll_index (lists s' l))"
    using ix_later [OF solo_okD(4) [OF ok l] s'(1)] by (simp add: s'(4))
  then show thesis
    by (rule index_remove_run [OF _ clean_flags [OF s'(2)], of l "A l" a]) (use s'(3,4) a that in auto)
qed

lemma removal_words:
  assumes "\<not> isLocked w"
  obtains u where "setVersionAndDeletedAndSingleton v True True (lock_word w) = Ok u" and "isLocked u"
    and "setVersionAndSingleton v True (lock_word w) = Ok (setVersionAndSingletonNoLockAssert v True (lock_word w))"
    and "isLocked (setVersionAndSingletonNoLockAssert v True (lock_word w))"
    and "isDeleted (setVersionAndSingletonNoLockAssert v True (lock_word w)) = isDeleted w"
proof -
  have l: "isLocked (lock_word w)" by (simp add: lock_word_simps)
  obtain u where u: "setVersionAndDeletedAndSingleton v True True (lock_word w) = Ok u"
    using setters_assert(5) [of v True True "lock_word w"] l by blast
  note f = fieldsD [OF setVersionAndDeletedAndSingleton_fields [OF u]]
    fieldsD [OF setVersionAndSingletonNoLockAssert_fields [of v True "lock_word w"]]
  show thesis by (rule that [OF u _ locked_word_setters(4) [OF l]]) (use f in \<open>simp_all add: lock_word_simps\<close>)
qed

lemma removal_steps:
  assumes qm: "q \<noteq> m" and qd: "heap s q = Some qd" and md: "heap s m = Some md"
    and n: "\<not> isLocked (m_version_mask qd)" "\<not> isLocked (m_version_mask md)" "\<not> isDeleted (m_version_mask qd)"
  obtains s2 s3 s4 s5 s6 s7 s8 md' qd' qe me where "node_tryLock q s = (Ok True, s2)" "node_tryLock m s2 = (Ok True, s3)"
    "updE m (\<lambda>n. n\<lparr>m_val := None\<rparr>) s3 = (Ok (), s4)" "updE q (\<lambda>n. n\<lparr>m_next := m_next md\<rparr>) s4 = (Ok (), s5)"
    "gvc s5 = gvc s" "writeWord m (setVersionAndDeletedAndSingleton (gvc s) True True) s5 = (Ok (), s6)"
    "writeWord q (setVersionAndSingleton (gvc s) True) s6 = (Ok (), s7)"
    "node_unlock m s7 = (Ok (), s8)" "node_unlock q s8 = (Ok (), two m q s md' qd')"
    "heap s2 q = Some qe" "m_next qe = m_next qd" "\<not> isDeleted (m_version_mask qe)" "heap s2 m = Some md"
    "heap s3 m = Some me" "m_next me = m_next md" "m_val me = m_val md"
    "m_key md' = m_key md" "m_val md' = None" "\<not> isLocked (m_version_mask md')" "w_deleted md' = w_deleted md"
    "m_key qd' = m_key qd" "m_next qd' = m_next md" "m_val qd' = m_val qd" "\<not> isLocked (m_version_mask qd')"
    "\<not> isDeleted (m_version_mask qd')" "w_deleted qd' = w_deleted qd"
proof -
  let ?v = "gvc s" and ?wq = "lock_word (m_version_mask qd)" and ?wm = "lock_word (m_version_mask md)"
  obtain u where u: "setVersionAndDeletedAndSingleton ?v True True ?wm = Ok u" "isLocked u" by (rule removal_words [OF n(2)])
  obtain p where p: "setVersionAndSingleton ?v True ?wq = Ok p" "isLocked p" "isDeleted p = isDeleted (m_version_mask qd)"
    by (rule removal_words [OF n(1), of ?v])
  let ?q = "qd\<lparr>m_version_mask := ?wq\<rparr>" and ?qn = "qd\<lparr>m_next := m_next md, m_version_mask := ?wq\<rparr>"
    and ?qp = "qd\<lparr>m_next := m_next md, m_version_mask := p\<rparr>"
    and ?m = "md\<lparr>m_version_mask := ?wm\<rparr>" and ?mv = "md\<lparr>m_val := None, m_version_mask := ?wm\<rparr>"
    and ?mu = "md\<lparr>m_val := None, m_version_mask := u\<rparr>" and ?m' = "md\<lparr>m_val := None, m_version_mask := unlock_word u\<rparr>"
    and ?q' = "qd\<lparr>m_next := m_next md, m_version_mask := unlock_word p\<rparr>"
  note run = two_run [OF qm]
  have same: "(heap s)(m \<mapsto> md) = heap s" using md by (simp add: fun_upd_idem)
  have lock_q: "node_tryLock q s = (Ok True, two m q s md ?q)"
    using node_tryLock_free [OF qd n(1)] by (simp add: two_def same)
  have lock_m: "node_tryLock m (two m q s md ?q) = (Ok True, two m q s ?m ?q)"
    using node_tryLock_free [of "two m q s md ?q" m md] qm md n(2) by (simp add: two_def fun_upd_twist [of m q] same)
  have val: "updE m (\<lambda>n. n\<lparr>m_val := None\<rparr>) (two m q s ?m ?q) = (Ok (), two m q s ?mv ?q)"
    by (cases md) (simp add: run)
  have nxt: "updE q (\<lambda>n. n\<lparr>m_next := m_next md\<rparr>) (two m q s ?mv ?q) = (Ok (), two m q s ?mv ?qn)"
    by (cases qd) (simp add: run)
  have stamp_m: "writeWord m (setVersionAndDeletedAndSingleton ?v True True) (two m q s ?mv ?qn) = (Ok (), two m q s ?mu ?qn)"
    by (simp add: run(3) [where w = u] u)
  have stamp_q: "writeWord q (setVersionAndSingleton ?v True) (two m q s ?mu ?qn) = (Ok (), two m q s ?mu ?qp)"
    by (simp add: run(4) [where w = p] p)
  have unlock_m: "node_unlock m (two m q s ?mu ?qp) = (Ok (), two m q s ?m' ?qp)"
    by (simp add: node_unlock_def run(3) [where w = "unlock_word u"] u unlock_eq)
  have unlock_q: "node_unlock q (two m q s ?m' ?qp) = (Ok (), two m q s ?m' ?q')"
    by (simp add: node_unlock_def run(4) [where w = "unlock_word p"] p unlock_eq)
  show thesis
    by (rule that [of _ _ _ _ _ _ _ _ _ ?q ?m, OF lock_q lock_m val nxt _ stamp_m stamp_q unlock_m unlock_q])
      (use qm n p in \<open>simp_all add: lock_word_simps\<close>)
qed

lemma removal_finish:
  assumes ok: "solo_ok L A C s" and l: "l \<in> L" and C: "C l = X @ q # m # Z" and qm: "q \<noteq> m"
    and qd: "heap s q = Some qd" and md: "heap s m = Some md"
    and m': "m_key md' = m_key md" "m_val md' = None" "\<not> isLocked (m_version_mask md')" "\<not> w_deleted md'"
    and q': "m_key qd' = m_key qd" "m_next qd' = m_next md" "m_val qd' = m_val qd"
      "\<not> isLocked (m_version_mask qd')" "\<not> isDeleted (m_version_mask qd')" "\<not> w_deleted qd'"
  obtains t s' where "index_remove i l m (two m q s md' qd') = (Ok (), t)" and "retire_node m t = (Ok (), s')"
    and "solo_ok L A (C(l := X @ q # Z)) s'"
    and "maps_of L (heap s') (C(l := X @ q # Z)) = map_upd l (m_key md) None (maps_of L (heap s) C)"
    and "lt s' = lt s" and "ls s' = ls s"
proof -
  let ?s = "two m q s md' qd'"
  have cl: "clean (heap ?s)" unfolding two_sel by (intro clean_upd solo_okD(2) [OF ok]) (use q' m' in simp_all)
  have "head_of s l \<noteq> m"
    using path_head [OF solo_okD(7) [OF ok l]] path_distinct [OF solo_okD(7) [OF ok l]] by (cases X) (auto simp: C)
  then have hd: "live (heap ?s) (head_of s l)"
    using solo_okD(10) [OF ok l] qd q'(3) by (auto simp: live_def)
  have lat: "later (heap s) (heap ?s)" using qd md q'(1) m'(1) by (auto simp: later_def)
  have mA: "m \<in> A l" using solo_okD(5) [OF ok l] by (auto simp: C)
  obtain ix where rem: "index_remove i l m ?s = (Ok (), set_index l ix ?s)"
    and inv: "ix_inv (heap ?s) (head_of s l) (A l) ix"
    by (rule index_remove_ok [OF ok l mA lat cl hd]) simp
  let ?s' = "(set_index l ix ?s)\<lparr>retired := retired ?s @ [m]\<rparr>"
  have ret: "retire_node m (set_index l ix ?s) = (Ok (), ?s')"
    using retire_node_run [of "set_index l ix ?s" m md'] qm m'(4) by simp
  show thesis
    by (rule that [OF rem ret])
      (use solo_delete [OF ok l C qd md m' q', of ?s'] inv in \<open>simp_all add: ll_index_set_index\<close>)
qed

lemma removeSingleton_run:
  assumes ok: "solo_ok L A C s" and l: "l \<in> L"
  shows "solo_does L s (maps_of L (heap s) C l k) (map_upd l k None (maps_of L (heap s) C)) (removeSingleton (Suc f) i l k s)"
proof -
  obtain s1 found q c where find: "find_node_singelton (Suc (next_addr s)) i l k s = (Ok (found, q, c), s1)"
    and se: "searched A l s s1" and ok1: "solo_ok L A C s1" and pl1: "solo_place C s1 l k found q c"
    by (rule solo_find [OF ok l])
  have "solo_does L s1 (maps_of L (heap s1) C l k) (map_upd l k None (maps_of L (heap s1) C)) (removeSingleton (Suc f) i l k s)"
  proof (cases found)
    case True
    with pl1 have pl0: "solo_place C s1 l k True q c" by simp
    obtain X m Z qd md where c: "c = Some m" and C: "C l = X @ q # m # Z"
      and qd: "heap s1 q = Some qd" and md: "heap s1 m = Some md" and nx: "m_next qd = Some m" and key: "m_key md = k"
      and qm: "q \<noteq> m" and M: "maps_of L (heap s1) C l k = m_val md" and m: "m \<in> set (tl (C l))"
      by (rule place_found [OF ok1 l pl0])
    note n = place_node [OF ok1 l C qd md]
    show ?thesis
    proof (rule removal_steps [OF qm qd md n(1,4,2)], rule removal_finish [OF ok1 l C qm qd md], assumption+)
      fix s2 s3 s4 s5 s6 s7 s8 md' qd' qe me t s'
      assume steps: "node_tryLock q s1 = (Ok True, s2)" "node_tryLock m s2 = (Ok True, s3)"
        "updE m (\<lambda>n. n\<lparr>m_val := None\<rparr>) s3 = (Ok (), s4)" "updE q (\<lambda>n. n\<lparr>m_next := m_next md\<rparr>) s4 = (Ok (), s5)"
        "gvc s5 = gvc s1" "writeWord m (setVersionAndDeletedAndSingleton (gvc s1) True True) s5 = (Ok (), s6)"
        "writeWord q (setVersionAndSingleton (gvc s1) True) s6 = (Ok (), s7)"
        "node_unlock m s7 = (Ok (), s8)" "node_unlock q s8 = (Ok (), two m q s1 md' qd')"
        "index_remove i l m (two m q s1 md' qd') = (Ok (), t)" "retire_node m t = (Ok (), s')"
        and h: "heap s2 q = Some qe" "m_next qe = m_next qd" "\<not> isDeleted (m_version_mask qe)" "heap s2 m = Some md"
          "heap s3 m = Some me" "m_next me = m_next md" "m_val me = m_val md"
        and fin: "solo_ok L A (C(l := X @ q # Z)) s'"
          "maps_of L (heap s') (C(l := X @ q # Z)) = map_upd l (m_key md) None (maps_of L (heap s1) C)"
          "lt s' = lt s1" "ls s' = ls s1"
      have run: "removeSingleton (Suc f) i l k s = (Ok (m_val md), s')"
        using True c h nx by (simp add: run_simps find steps TX_getVersion_def del: find_node_singelton.simps)
      show ?thesis unfolding run M using fin by (simp add: solo_doesI key)
    qed (use n in simp_all)
  next
    case False
    with pl1 have pl0: "solo_place C s1 l k False q c" by simp
    obtain qd where qd: "heap s1 q = Some qd" by (rule place_absent [OF ok1 l pl0])
    note none = insert_branch(6) [OF ok1 l pl0 qd]
    have run: "removeSingleton (Suc f) i l k s = (Ok None, s1)"
      using False find by (simp add: run_simps del: find_node_singelton.simps)
    have "map_upd l k None (maps_of L (heap s1) C) = maps_of L (heap s1) C"
      using none by (auto simp: map_upd_def fun_eq_iff)
    then show ?thesis unfolding run none by (auto intro: solo_doesI [OF ok1])
  qed
  from solo_does_searched [OF se this] show ?thesis unfolding searched_sel(1) [OF se] .
qed

section \<open>Sequences of operations\<close>

lemma solo_does_map:
  assumes "solo_does L s x M (c s)"
  shows "solo_does L s (g x) M (bindE c (\<lambda>x. returnE (g x)) s)"
proof -
  from assms obtain s' A C where run: "c s = (Ok x, s')" and fin: "solo_ok L A C s'" "maps_of L (heap s') C = M"
    "lt s' = lt s" "ls s' = ls s"
    unfolding solo_does_def by blast
  have "bindE c (\<lambda>x. returnE (g x)) s = (Ok (g x), s')" by (simp add: run_simps run)
  with fin show ?thesis by (simp add: solo_doesI)
qed

text \<open>The public operations outside a transaction are the singleton operations.\<close>

lemma public_outside:
  assumes "\<not> TX (lt s)"
  shows "put i l k v s = putSingleton (Suc (next_addr s)) i l k v s"
    and "putIfAbsent i l k v s = putIfAbsentSingleton (Suc (next_addr s)) i l k v s"
    and "remove i l k s = removeSingleton (Suc (next_addr s)) i l k s"
    and "get i l k s = getSingleton i l k s"
  using assms by (simp_all add: put_def putIfAbsent_def remove_def get_def bindE_eval getsE_apply
      del: putSingleton.simps putIfAbsentSingleton.simps removeSingleton.simps)

lemma solo_op:
  assumes ok: "solo_ok L A C s" and l: "op_list f \<in> L" and tx: "\<not> TX (lt s)"
  shows "solo_does L s (fst (spec_op f (maps_of L (heap s) C))) (snd (spec_op f (maps_of L (heap s) C))) (run_op i f s)"
proof (cases f)
  case (Put l k v)
  have "l \<in> L" using l by (simp add: Put)
  from putSingleton_run [OF ok this, of k v "next_addr s"]
  have "solo_does L s (Value (maps_of L (heap s) C l k)) (map_upd l k (Some v) (maps_of L (heap s) C)) (run_op i f s)"
    unfolding Put run_op.simps public_outside(1) [OF tx, symmetric] by (rule solo_does_map)
  then show ?thesis by (simp only: Put spec_op.simps fst_conv snd_conv)
next
  case (PutIfAbsent l k v)
  have "l \<in> L" using l by (simp add: PutIfAbsent)
  from putIfAbsentSingleton_run [OF ok this, of k v "next_addr s"]
  have "solo_does L s (Value (maps_of L (heap s) C l k))
      (if maps_of L (heap s) C l k = None then map_upd l k (Some v) (maps_of L (heap s) C) else maps_of L (heap s) C) (run_op i f s)"
    unfolding PutIfAbsent run_op.simps public_outside(2) [OF tx, symmetric] by (rule solo_does_map)
  then show ?thesis by (simp only: PutIfAbsent spec_op.simps fst_conv snd_conv)
next
  case (Remove l k)
  have "l \<in> L" using l by (simp add: Remove)
  from removeSingleton_run [OF ok this, of k "next_addr s"]
  have "solo_does L s (Value (maps_of L (heap s) C l k)) (map_upd l k None (maps_of L (heap s) C)) (run_op i f s)"
    unfolding Remove run_op.simps public_outside(3) [OF tx, symmetric] by (rule solo_does_map)
  then show ?thesis by (simp only: Remove spec_op.simps fst_conv snd_conv)
next
  case (Get l k)
  have "l \<in> L" using l by (simp add: Get)
  from getSingleton_run [OF ok this, of k]
  have "solo_does L s (Value (maps_of L (heap s) C l k)) (maps_of L (heap s) C) (run_op i f s)"
    unfolding Get run_op.simps public_outside(4) [OF tx, symmetric] by (rule solo_does_map)
  then show ?thesis by (simp only: Get spec_op.simps fst_conv snd_conv)
next
  case (ContainsKey l k)
  have "l \<in> L" using l by (simp add: ContainsKey)
  from getSingleton_run [OF ok this, of k]
  have "solo_does L s (maps_of L (heap s) C l k \<noteq> None) (maps_of L (heap s) C) (containsKey i l k s)"
    unfolding containsKey_def public_outside(4) [OF tx, symmetric] by (rule solo_does_map)
  then have "solo_does L s (Truth (maps_of L (heap s) C l k \<noteq> None)) (maps_of L (heap s) C) (run_op i f s)"
    unfolding ContainsKey run_op.simps by (rule solo_does_map)
  then show ?thesis by (simp only: ContainsKey spec_op.simps fst_conv snd_conv)
qed

lemma solo_maps:
  assumes "solo_ok {..<n} A C s"
  shows "list_maps n s = maps_of {..<n} (heap s) C"
proof -
  note D = solo_okD [OF assms]
  have "nodes_of s l = C l" if "l < n" for l
  proof -
    have l: "l \<in> {..<n}" using that by simp
    have "set (C l) \<subseteq> {..<next_addr s}" using D(5,6) [OF l] by auto
    then have "length (C l) \<le> next_addr s"
      using distinct_card [OF path_distinct [OF D(7) [OF l]]] card_mono [of "{..<next_addr s}" "set (C l)"] by simp
    then show ?thesis
      unfolding nodes_of_def using chain_path [OF D(7) [OF l]] D(1) \<open>set (C l) \<subseteq> {..<next_addr s}\<close> by simp
  qed
  then show ?thesis by (auto simp: list_maps_def maps_of_def fun_eq_iff)
qed

lemma solo_runs:
  assumes "solo_ok {..<n} A C s" and "\<not> TX (lt s)" and "\<forall>f\<in>set fs. op_list f < n"
  shows "\<exists>s'. run_ops i fs s = (Ok (fst (spec_run fs (list_maps n s))), s') \<and>
    list_maps n s' = snd (spec_run fs (list_maps n s)) \<and> ls s' = ls s \<and> lt s' = lt s"
  using assms
proof (induction fs arbitrary: A C s)
  case Nil
  then show ?case by (simp add: run_simps)
next
  case (Cons f fs)
  let ?M = "maps_of {..<n} (heap s) C"
  have M: "list_maps n s = ?M" by (rule solo_maps [OF Cons.prems(1)])
  from solo_op [OF Cons.prems(1) _ Cons.prems(2), of f] Cons.prems(3) obtain s1 A1 C1
    where run: "run_op i f s = (Ok (fst (spec_op f ?M)), s1)" and ok: "solo_ok {..<n} A1 C1 s1"
      and M1: "maps_of {..<n} (heap s1) C1 = snd (spec_op f ?M)" and loc: "lt s1 = lt s" "ls s1 = ls s"
    unfolding solo_does_def by auto
  have "list_maps n s1 = snd (spec_op f ?M)" using solo_maps [OF ok] M1 by simp
  with Cons.IH [OF ok] Cons.prems(2,3) loc run M show ?case
    by (auto simp: run_simps split: prod.splits)
qed

lemma solo_reach:
  assumes "tx_reach i n S" and "\<not> TX (th_lt (threads S t))" and "\<forall>f\<in>set fs. op_list f < n"
  shows "\<exists>s'. run_ops i fs (load t S) = (Ok (fst (spec_run fs (list_maps n (shared S)))), s') \<and>
    list_maps n s' = snd (spec_run fs (list_maps n (shared S))) \<and> ls s' = th_ls (threads S t) \<and> \<not> TX (lt s')"
proof -
  from tx_reach_ok [OF assms(1)] obtain A C where "sys_ok {..<n} A C S" by blast
  from shared_solo [OF sys_okD(1) [OF this, of t]] have "solo_ok {..<n} A C (load t S)" .
  moreover have "list_maps n (load t S) = list_maps n (shared S)"
    by (simp add: fun_eq_iff list_maps_def nodes_of_def)
  ultimately show ?thesis using solo_runs [of n A C "load t S" fs] assms(2,3) by auto
qed

end

end
