(* ===== verification/SkipAdd.thy ===== *)
theory SkipAdd
  imports SkipFind Bench SoloOps
begin

text \<open>
  Insertion of a tower of index nodes, growth and reduction of the height, and the proof that the
  skip list meets the interface the list relies on.
\<close>

section \<open>Frame lemmas\<close>

lemma list_emb_mono_set:
  "list_emb P xs ys \<Longrightarrow> (\<And>x y. x \<in> set xs \<Longrightarrow> y \<in> set ys \<Longrightarrow> P x y \<Longrightarrow> Q x y) \<Longrightarrow> list_emb Q xs ys"
  by (induction rule: list_emb.induct) auto

lemma skip_ok_levels_cong:
  "(\<And>j. j \<le> T \<Longrightarrow> X j = X' j) \<Longrightarrow> skip_ok h head A ix T X \<Longrightarrow> skip_ok h head A ix T X'"
  unfolding skip_ok_def head_ok_def by (auto simp: Suc_le_eq)

lemma sorted_key_cong:
  "(\<And>x. x \<in> set xs \<Longrightarrow> f x = g x) \<Longrightarrow>
   sorted_wrt (\<lambda>x y. f x \<le> (f y :: key_t)) xs = sorted_wrt (\<lambda>x y. g x \<le> g y) xs"
  by (induction xs) auto

text \<open>The invariant depends on the linked index nodes only.\<close>

lemma sel_cong:
  "ix_nodes ix' x = ix_nodes ix x \<Longrightarrow> inode ix' x = inode ix x \<and> down ix' x = down ix x \<and> right ix' x = right ix x"
  by (simp add: inode_def down_def right_def)

lemma skip_ok_extend:
  assumes ok: "skip_ok h head A ix T X"
    and same: "\<And>x. x < ix_fresh ix \<Longrightarrow> ix_nodes ix' x = ix_nodes ix x"
    and dom: "dom (ix_nodes ix') = {..<ix_fresh ix'}" and le: "ix_fresh ix \<le> ix_fresh ix'"
    and tops: "m_head_top ix' = m_head_top ix" "m_head_bottom ix' = m_head_bottom ix"
    and A: "A \<subseteq> A'" "A' \<subseteq> dom h"
  shows "skip_ok h head A' ix' T X"
proof -
  note D = skip_okD [OF ok]
  have sub: "set (X j) \<subseteq> {..<ix_fresh ix}" if "j \<le> T" for j
    using D(6) [OF that] D(1) by (simp add: level_ok_def)
  have eq: "ix_nodes ix' x = ix_nodes ix x" if "j \<le> T" "x \<in> set (X j)" for j x
    using same sub that by blast
  note sc = sel_cong [OF eq]
  have "level_ok h A' ix' j (X j)" if j: "j \<le> T" for j
  proof -
    have lv: "level_ok h A ix j (X j)" by (rule D(6) [OF j])
    then have hd: "hd (X j) \<in> set (X j)" by (simp add: level_ok_def)
    have tl: "x \<in> set (X j)" if "x \<in> set (tl (X j))" for x
      using that by (cases "X j") auto
    have "path (right ix') p (X j) q = path (right ix) p (X j) q" for p q
      by (rule path_cong) (use sc j in auto)
    moreover have "sorted_wrt (\<lambda>x y. ikey h ix' x \<le> ikey h ix' y) (tl (X j))"
      using lv sorted_key_cong [of "tl (X j)" "ikey h ix'" "ikey h ix"] sc [OF j] tl
      by (simp add: level_ok_def)
    moreover have "set (X j) \<subseteq> dom (ix_nodes ix')" using sub [OF j] dom le by auto
    ultimately show ?thesis
      using lv sc [OF j] hd tl A(1) unfolding level_ok_def by auto
  qed
  moreover have "head_ok head ix' T (\<lambda>j. hd (X j)) j" if j: "j \<le> T" for j
  proof -
    have "hd (X j) \<in> set (X j)" using D(6) [OF j] by (simp add: level_ok_def)
    with D(7) [OF j] eq [OF j] show ?thesis by (simp add: head_ok_def)
  qed
  moreover have "list_emb (dn ix') (X (Suc j)) (X j)" if j: "j < T" for j
    by (rule list_emb_mono_set [OF D(8) [OF j]]) (use sc [of "Suc j"] sc [of j] j in \<open>simp add: dn_def\<close>)
  ultimately show ?thesis using D(2,4,5,9) dom tops A unfolding skip_ok_def by auto
qed

lemma skip_hd_neq:
  assumes "skip_ok h head A ix T X" and "i \<le> T" and "j \<le> T" and "i \<noteq> j"
  shows "hd (X i) \<noteq> hd (X j)"
proof -
  have "X i \<noteq> []" "X j \<noteq> []" using skip_okD(6) [OF assms(1)] assms(2,3) by (simp_all add: level_ok_def)
  then have "hd (X i) \<in> set (X i)" "hd (X j) \<in> set (X j)" by simp_all
  with skip_okD(9) [OF assms] show ?thesis by auto
qed

section \<open>Linking a node\<close>

lemma link_run:
  assumes "flags_clear h" and "ix_nodes ix p = Some pn" and "live h (m_node pn)" and "m_right pn = s"
    and "ix_nodes ix z = Some zn" and "z \<noteq> p"
  shows "link h p s z ix = (Ok True, ix\<lparr>ix_nodes := (ix_nodes ix)(z \<mapsto> zn\<lparr>m_right := s\<rparr>, p \<mapsto> pn\<lparr>m_right := Some z\<rparr>)\<rparr>)"
  using assms by (auto simp: link_def casRight_def run_simps live_def)

lemma level_path_insert:
  assumes "path nx s (P @ N) None" and "P \<noteq> []" and "z \<notin> set (P @ N)"
  shows "path (nx(z := first N, last P := Some z)) s (P @ z # N) None"
proof -
  obtain Q p where P: "P = Q @ [p]" using assms(2) by (cases P rule: rev_cases) auto
  have dist: "distinct (Q @ p # N)" using path_distinct [OF assms(1)] P by simp
  have path: "path nx s Q (Some p)" "path nx (nx p) N None" using assms(1) P by auto
  have "path (nx(z := first N, p := Some z)) s Q (Some p)"
    using path(1) assms(3) dist P by simp
  moreover have "path (nx(z := first N, p := Some z)) (first N) N None"
    using path(2) assms(3) dist P by (cases N) (auto simp: first_def)
  ultimately show ?thesis using P assms(3) by auto
qed

lemma sorted_insert:
  assumes "sorted_wrt (\<lambda>x y. f x \<le> (f y :: key_t)) (tl (P @ N))" and "P \<noteq> []"
    and "\<And>x. x \<in> set (tl P) \<Longrightarrow> f x \<le> f z" and "N \<noteq> [] \<Longrightarrow> f z \<le> f (hd N)"
  shows "sorted_wrt (\<lambda>x y. f x \<le> f y) (tl (P @ z # N))"
proof -
  have s: "sorted_wrt (\<lambda>x y. f x \<le> f y) (tl P @ N)" using assms(1,2) by simp
  have "f z \<le> f y" if "y \<in> set N" for y
  proof (cases N)
    case (Cons n M)
    with s that have "f n \<le> f y" by (auto simp: sorted_wrt_append)
    with assms(4) Cons show ?thesis by auto
  qed (use that in simp)
  with s assms(2,3) show ?thesis by (auto simp: sorted_wrt_append)
qed

text \<open>
  \<open>z\<close> is put between the two halves of level \<open>j\<close>: the level stays well formed, and the
  levels keep embedding into each other.
\<close>

lemma skip_insert:
  assumes ok: "skip_ok h head A ix T X" and fl: "flags_clear h" and j: "j \<le> T"
    and cut: "cut_ok h head (nkey h a) ix (X j) P N" and a: "a \<in> A" "a \<noteq> head"
    and z: "z < ix_fresh ix" "\<And>i. i \<le> T \<Longrightarrow> z \<notin> set (X i)" "inode ix z = a"
    and below: "if j = 0 then down ix z = None else list_emb (dn ix) (P @ z # N) (X (j - 1))"
    and above: "j < T \<Longrightarrow> list_emb (dn ix) (X (Suc j)) (P @ z # N)"
  obtains ix' where "link h (last P) (first N) z ix = (Ok True, ix')" and "right_only {z, last P} ix ix'"
    and "skip_ok h head A ix' T (X(j := P @ z # N))"
proof -
  note D = skip_okD [OF ok]
  have lv: "level_ok h A ix j (X j)" by (rule D(6) [OF j])
  have X: "X j = P @ N" "P \<noteq> []" "ilive h ix (last P)" using cut by (simp_all add: cut_ok_def)
  have zn: "z \<noteq> last P" using z(2) [OF j] X by auto
  obtain pn where pn: "ix_nodes ix (last P) = Some pn"
    using skip_well_placed [OF ok j, of "{last P}"] X by (auto simp: well_placed_def)
  obtain nd where nd: "ix_nodes ix z = Some nd" using z(1) D(1) by blast
  have "path (right ix) (Some (hd (X j))) (P @ N) None" using lv X(1) by (simp add: level_ok_def)
  then have "right ix (last P) = first N"
    using X(2) by (cases P rule: rev_cases; cases N) (auto simp: first_def)
  then have mr: "m_right pn = first N" using pn by (simp add: right_def)
  let ?ix = "ix\<lparr>ix_nodes := (ix_nodes ix)(z \<mapsto> nd\<lparr>m_right := first N\<rparr>, last P \<mapsto> pn\<lparr>m_right := Some z\<rparr>)\<rparr>"
  have run: "link h (last P) (first N) z ix = (Ok True, ?ix)"
    by (rule link_run [OF fl pn _ mr nd zn]) (use X(3) pn in \<open>simp add: inode_def\<close>)
  have ro: "right_only {z, last P} ix ?ix"
  proof (rule right_only_trans)
    show "right_only {z} ix (ix\<lparr>ix_nodes := (ix_nodes ix)(z \<mapsto> nd\<lparr>m_right := first N\<rparr>)\<rparr>)"
      by (rule right_only_upd [OF nd]) simp
    show "right_only {last P} (ix\<lparr>ix_nodes := (ix_nodes ix)(z \<mapsto> nd\<lparr>m_right := first N\<rparr>)\<rparr>) ?ix"
      using right_only_upd [of "ix\<lparr>ix_nodes := (ix_nodes ix)(z \<mapsto> nd\<lparr>m_right := first N\<rparr>)\<rparr>" "last P" pn "{last P}" "Some z"]
        pn zn by simp
  qed simp
  note sel = right_only_sel [OF ro] and dn = dn_right_only [OF ro]
  have rt: "right ?ix = (right ix)(z := first N, last P := Some z)" by (auto simp: right_def fun_eq_iff)
  let ?V = "P @ z # N" let ?X = "X(j := ?V)"
  have hdV: "hd ?V = hd (X j)" "tl ?V = tl P @ z # N" using X by simp_all
  have key: "ikey h ix x \<le> nkey h a" if x: "x \<in> set (tl P)" for x
  proof -
    have "last P \<in> set (tl (X j))" using x X(1,2) by (cases P) auto
    then have "inode ix (last P) \<noteq> head" using lv skip_head [OF ok j] by (auto simp: level_ok_def)
    with cut x show ?thesis by (fastforce simp: cut_ok_def)
  qed
  have "sorted_wrt (\<lambda>x y. ikey h ix x \<le> ikey h ix y) (tl ?V)"
    by (rule sorted_insert) (use lv X key cut z(3) in \<open>auto simp: level_ok_def cut_ok_def stop_def\<close>)
  moreover have "path (right ?ix) (Some (hd (X j))) ?V None"
    unfolding rt by (rule level_path_insert) (use lv X z(2) [OF j] in \<open>auto simp: level_ok_def\<close>)
  moreover have "set ?V \<subseteq> dom (ix_nodes ix)" using lv X(1) nd by (auto simp: level_ok_def)
  moreover have "inode ix x \<in> A \<and> (j = 0 \<longrightarrow> down ix x = None)" if "x \<in> set ?V" for x
    using that lv X(1) a(1) z(3) below by (auto simp: level_ok_def)
  moreover have "inode ix x \<noteq> inode ix (hd (X j))" if "x \<in> set (tl ?V)" for x
    using that lv X(1,2) a(2) z(3) skip_head [OF ok j] by (auto simp: level_ok_def)
  ultimately have lV: "level_ok h A ?ix j ?V"
    unfolding level_ok_def sel(1,2,4) hdV(1) by blast
  have "skip_ok h head A ?ix T ?X"
  proof (rule skip_replace_level [OF ok ro j lV hdV(1)])
    show "({z, last P} \<union> set ?V) \<inter> set (X i) = {}" if "i \<le> T" "i \<noteq> j" for i
      using D(9) [OF that(1) j that(2)] z(2) [OF that(1)] X(1,2) by auto
  qed (use below above in auto)
  with run ro that show thesis by blast
qed

section \<open>Building a tower\<close>

lemma mk_tower_run:
  assumes "dom (ix_nodes ix) = {..<ix_fresh ix}"
  shows "\<exists>ix'. mk_tower m a d ix = (Ok [ix_fresh ix..<ix_fresh ix + m], ix') \<and>
    ix_fresh ix' = ix_fresh ix + m \<and> m_head_top ix' = m_head_top ix \<and> m_head_bottom ix' = m_head_bottom ix \<and>
    dom (ix_nodes ix') = {..<ix_fresh ix'} \<and> (\<forall>x<ix_fresh ix. ix_nodes ix' x = ix_nodes ix x) \<and>
    (\<forall>i<m. ix_nodes ix' (ix_fresh ix + i) =
       Some (IndexNode a (if i = 0 then d else Some (ix_fresh ix + i - 1)) None))"
  using assms
proof (induction m arbitrary: ix d)
  case 0
  then show ?case by (auto simp: run_simps)
next
  case (Suc m)
  let ?f = "ix_fresh ix"
  let ?ix = "ix\<lparr>ix_nodes := (ix_nodes ix)(?f \<mapsto> IndexNode a d None), ix_fresh := Suc ?f\<rparr>"
  have "dom (ix_nodes ?ix) = {..<ix_fresh ?ix}" using Suc.prems by auto
  from Suc.IH [OF this, of "Some ?f"] obtain ix' where
    ix': "mk_tower m a (Some ?f) ?ix = (Ok [Suc ?f..<Suc ?f + m], ix')" "ix_fresh ix' = Suc ?f + m"
      "m_head_top ix' = m_head_top ix" "m_head_bottom ix' = m_head_bottom ix" "dom (ix_nodes ix') = {..<ix_fresh ix'}"
    and old: "\<forall>x<Suc ?f. ix_nodes ix' x = ix_nodes ?ix x"
    and new: "\<forall>i<m. ix_nodes ix' (Suc ?f + i) = Some (IndexNode a (if i = 0 then Some ?f else Some (Suc ?f + i - 1)) None)"
    by auto
  have "ix_nodes ix' (?f + i) = Some (IndexNode a (if i = 0 then d else Some (?f + i - 1)) None)"
    if "i < Suc m" for i
  proof (cases i)
    case 0
    with old show ?thesis by simp
  next
    case (Suc i')
    with new that show ?thesis by (cases i') (auto dest: spec [of _ i'])
  qed
  moreover have "mk_tower (Suc m) a d ix = (Ok [?f..<?f + Suc m], ix')"
    using ix'(1) by (simp add: newIxE_def run_simps upt_conv_Cons)
  ultimately show ?case using ix' old by auto
qed

section \<open>Inserting the tower\<close>

text \<open>
  \<open>tower\<close>: the nodes \<open>z 0, \<dots>, z m\<close> are allocated on top of each other, those from \<open>j\<close> on
  are not linked yet; the levels below \<open>j\<close> have their new node.
\<close>

definition with_tower ::
  "nat \<Rightarrow> (nat \<Rightarrow> addr) \<Rightarrow> (nat \<Rightarrow> addr list) \<Rightarrow> (nat \<Rightarrow> addr list) \<Rightarrow> nat \<Rightarrow> addr list" where
  "with_tower j z P N i = (if i < j then P i @ z i # N i else P i @ N i)"

definition tower_ok ::
  "(addr \<Rightarrow> lnode option) \<Rightarrow> addr \<Rightarrow> addr set \<Rightarrow> addr \<Rightarrow> skip_list \<Rightarrow> nat \<Rightarrow> nat \<Rightarrow> nat \<Rightarrow>
   (nat \<Rightarrow> addr) \<Rightarrow> (nat \<Rightarrow> addr list) \<Rightarrow> (nat \<Rightarrow> addr list) \<Rightarrow> bool" where
  "tower_ok h head A a ix T m j z P N \<longleftrightarrow>
     skip_ok h head A ix T (with_tower j z P N) \<and> cuts h head (nkey h a) ix T (\<lambda>i. P i @ N i) P N \<and>
     (\<forall>i\<le>m. z i < ix_fresh ix \<and> inode ix (z i) = a \<and>
        down ix (z i) = (if i = 0 then None else Some (z (i - 1))) \<and>
        (j \<le> i \<longrightarrow> right ix (z i) = None)) \<and>
     inj_on z {..m} \<and> (\<forall>i\<le>m. \<forall>l\<le>T. z i \<notin> set (P l @ N l))"

lemma tower_link:
  assumes ok: "tower_ok h head A a ix T m j z P N" and fl: "flags_clear h" and j: "j \<le> T" "j \<le> m"
    and a: "a \<in> A" "a \<noteq> head"
  obtains ix' where "link h (last (P j)) (first (N j)) (z j) ix = (Ok True, ix')"
    and "tower_ok h head A a ix' T m (Suc j) z P N" and "ix_fresh ix' = ix_fresh ix"
proof -
  let ?X = "with_tower j z P N"
  have sk: "skip_ok h head A ix T ?X" and cu: "cuts h head (nkey h a) ix T (\<lambda>i. P i @ N i) P N"
    and zs: "\<And>i. i \<le> m \<Longrightarrow> z i < ix_fresh ix \<and> inode ix (z i) = a \<and>
        down ix (z i) = (if i = 0 then None else Some (z (i - 1))) \<and> (j \<le> i \<longrightarrow> right ix (z i) = None)"
    and inj: "inj_on z {..m}" and new: "\<And>i l. i \<le> m \<Longrightarrow> l \<le> T \<Longrightarrow> z i \<notin> set (P l @ N l)"
    using ok unfolding tower_ok_def by blast+
  have cut: "cut_ok h head (nkey h a) ix (?X j) (P j) (N j)" using cu j by (simp add: cuts_def with_tower_def)
  have zj: "z j \<noteq> z i" if "i < j" for i using inj that j(2) by (auto dest: inj_onD)
  have notin: "z j \<notin> set (?X i)" if "i \<le> T" for i
    using new [OF j(2) that] zj [of i] by (auto simp: with_tower_def)
  have emb: "list_emb (dn ix) (P (Suc i)) (P i) \<and> list_emb (dn ix) (N (Suc i)) (N i)" if "i < T" for i
    using cu that by (simp add: cuts_def)
  have below: "if j = 0 then down ix (z j) = None else list_emb (dn ix) (P j @ z j # N j) (?X (j - 1))"
  proof (cases j)
    case (Suc i)
    then have "dn ix (z j) (z i)" using zs [of j] zs [of i] j by (simp add: dn_def)
    with emb [of i] Suc j(1) show ?thesis by (simp add: with_tower_def list_emb_append_mono)
  qed (use zs [of 0] in simp)
  have above: "list_emb (dn ix) (?X (Suc j)) (P j @ z j # N j)" if "j < T"
    using emb [OF that] list_emb_append_mono [of "dn ix" "P (Suc j)" "P j" "N (Suc j)" "z j # N j"]
    by (simp add: with_tower_def list_emb_Cons)
  obtain ix' where run: "link h (last (P j)) (first (N j)) (z j) ix = (Ok True, ix')"
    and ro: "right_only {z j, last (P j)} ix ix'"
    and sk': "skip_ok h head A ix' T (?X(j := P j @ z j # N j))"
    by (rule skip_insert [OF sk fl j(1) cut a _ notin _ below above]) (use zs [OF j(2)] in auto)
  note sel = right_only_sel [OF ro] and dn = dn_right_only [OF ro]
  have "?X(j := P j @ z j # N j) = with_tower (Suc j) z P N" by (auto simp: with_tower_def fun_eq_iff)
  moreover have "cuts h head (nkey h a) ix' T (\<lambda>i. P i @ N i) P N"
    using cu by (simp add: cuts_def cut_ok_right_only [OF ro] dn)
  moreover have "right ix' (z i) = None" if "Suc j \<le> i" "i \<le> m" for i
  proof -
    have "z i \<noteq> z j" using inj that j(2) by (auto dest: inj_onD)
    moreover have "z i \<noteq> last (P j)" using new [OF that(2) j(1)] cut by (auto simp: cut_ok_def)
    ultimately show ?thesis using sel(3) zs [OF that(2)] that(1) by simp
  qed
  ultimately have "tower_ok h head A a ix' T m (Suc j) z P N"
    using sk' zs inj new unfolding tower_ok_def sel(1,2,5) by auto
  with run that sel(5) show thesis by blast
qed

lemma insert_levels_run:
  assumes "tower_ok h head A a ix T m j z P N" and "flags_clear h" and "a \<in> A" "a \<noteq> head"
    and "j \<le> T" and "min (Suc m) (Suc T) - j < fuel" and "j \<le> Suc m"
    and "idxs = map z [0..<Suc m]" and "prevs = map (\<lambda>i. Some (last (P i))) [0..<Suc T]"
    and "nexts = map (\<lambda>i. first (N i)) [0..<Suc T]"
  shows "\<exists>ix'. insert_levels fuel h (Some (hd (P j))) m idxs prevs nexts j ix =
      (Ok (Some (min (Suc m) (Suc T))), ix') \<and> tower_ok h head A a ix' T m (min (Suc m) (Suc T)) z P N \<and>
      ix_fresh ix' = ix_fresh ix"
  using assms(1-7)
proof (induction "min (Suc m) (Suc T) - j" arbitrary: j ix fuel)
  case 0
  then have j: "j = Suc m" "min (Suc m) (Suc T) = j" by auto
  have sk: "skip_ok h head A ix T (with_tower j z P N)" using 0(2) by (simp add: tower_ok_def)
  have Pj: "P j \<noteq> []" using 0(2,6) by (auto simp: tower_ok_def cuts_def cut_ok_def)
  then have "hd (with_tower j z P N j) = hd (P j)" by (simp add: with_tower_def)
  with skip_okD(7) [OF sk 0(6)] obtain n where n: "ix_nodes ix (hd (P j)) = Some n" "m_level n = j"
    by (auto simp: head_ok_def)
  obtain f where "fuel = Suc f" using 0(7) by (cases fuel) auto
  with n j 0(2) show ?case by (simp add: run_simps)
next
  case (Suc d)
  have jm: "j \<le> m" "j \<le> T" using Suc(2) Suc.prems(5,7) by auto
  obtain f where f: "fuel = Suc f" using Suc.prems(6) by (cases fuel) auto
  have sk: "skip_ok h head A ix T (with_tower j z P N)" using Suc.prems(1) by (simp add: tower_ok_def)
  have P: "P i \<noteq> []" if "i \<le> T" for i using Suc.prems(1) that by (auto simp: tower_ok_def cuts_def cut_ok_def)
  have hds: "hd (with_tower k z P N i) = hd (P i)" if "i \<le> T" for i k using P [OF that] by (simp add: with_tower_def)
  obtain n where n: "ix_nodes ix (hd (P j)) = Some n" "m_level n = j"
    using skip_okD(7) [OF sk jm(2)] hds [OF jm(2)] by (auto simp: head_ok_def)
  obtain ix1 where run: "link h (last (P j)) (first (N j)) (z j) ix = (Ok True, ix1)"
    and ok1: "tower_ok h head A a ix1 T m (Suc j) z P N" and fr: "ix_fresh ix1 = ix_fresh ix"
    by (rule tower_link [OF Suc.prems(1,2) jm(2,1) Suc.prems(3,4)])
  have nths: "idxs ! j = z j" "prevs ! j = Some (last (P j))" "nexts ! j = first (N j)" "length prevs = Suc T"
    using jm assms(8-10) by (simp_all del: upt_Suc)
  have ins: "insert_in_level (Suc (ix_fresh ix)) h (idxs ! j) (prevs ! j) (nexts ! j) (hd (P j)) ix = (Ok True, ix1)"
    using run by (simp add: nths run_simps)
  obtain n1 where n1: "ix_nodes ix1 (hd (P j)) = Some n1"
      "m_up n1 = (if j = T then None else Some (hd (with_tower (Suc j) z P N (Suc j))))"
    using ok1 skip_okD(7) [of h head A ix1 T "with_tower (Suc j) z P N" j] jm(2) hds [OF jm(2)]
    by (auto simp: tower_ok_def head_ok_def)
  have step: "insert_levels fuel h (Some (hd (P j))) m idxs prevs nexts j ix =
      insert_levels f h (m_up n1) m idxs prevs nexts (Suc j) ix1"
    using f n ins n1(1) jm nths(4) by (simp add: run_simps del: insert_in_level.simps)
  show ?case
  proof (cases "j = T")
    case True
    then obtain f' where f': "f = Suc f'" using Suc(2) Suc.prems(6) f by (cases f) auto
    have "min (Suc m) (Suc T) = Suc j" using True jm by simp
    with step n1(2) True f' ok1 fr show ?thesis by (simp add: run_simps)
  next
    case False
    then have up: "m_up n1 = Some (hd (P (Suc j)))" using n1(2) hds [of "Suc j"] jm(2) by simp
    show ?thesis
      unfolding step up fr [symmetric]
      by (rule Suc.hyps(1)) (use Suc.hyps(2) Suc.prems False jm ok1 f in auto)
  qed
qed

section \<open>Growing by one level\<close>

lemma grow_run:
  assumes "ix_nodes ix hi = Some tn" and "m_head_top ix = hi" and "hi \<noteq> ix_fresh ix"
    and "n = HeadIndex (m_node tn) (Some hi) r l"
  shows "bindE (newIxE n) (\<lambda>newh. thenE (casHead hi newh True) (returnE x)) ix =
    (Ok x, ix\<lparr>ix_nodes := (ix_nodes ix)(ix_fresh ix \<mapsto> n, hi \<mapsto> tn\<lparr>m_up := Some (ix_fresh ix)\<rparr>),
      ix_fresh := Suc (ix_fresh ix), m_head_top := ix_fresh ix\<rparr>)"
  using assms by (simp add: newIxE_def casHead_def levelUp_def run_simps HeadIndex_def)

lemma grow_ok:
  assumes ok: "skip_ok h head A ix T X" and top: "ix_nodes ix (hd (X T)) = Some tn"
    and z: "z < ix_fresh ix" "right ix z = None" "inode ix z \<in> A" "inode ix z \<noteq> head"
      "\<And>i. i \<le> T \<Longrightarrow> z \<notin> set (X i)"
    and y: "X T = P @ y # N" "P \<noteq> []" "dn ix z y"
    and ix': "ix' = ix\<lparr>ix_nodes := (ix_nodes ix)(ix_fresh ix \<mapsto> HeadIndex head (Some (hd (X T))) (Some z) (Suc T),
        hd (X T) \<mapsto> tn\<lparr>m_up := Some (ix_fresh ix)\<rparr>),
      ix_fresh := Suc (ix_fresh ix), m_head_top := ix_fresh ix\<rparr>"
  shows "skip_ok h head A ix' (Suc T) (X(Suc T := [ix_fresh ix, z]))"
proof -
  note D = skip_okD [OF ok]
  let ?f = "ix_fresh ix" let ?X = "X(Suc T := [?f, z])"
  have fn: "?f \<notin> dom (ix_nodes ix)" using D(1) by simp
  have sub: "set (X j) \<subseteq> {..<?f}" if "j \<le> T" for j using D(6) [OF that] D(1) by (simp add: level_ok_def)
  have tf: "hd (X T) \<noteq> ?f" using top fn by auto
  have sel: "inode ix' x = inode ix x" "down ix' x = down ix x" "right ix' x = right ix x" if "x \<noteq> ?f" for x
    using that top by (auto simp: ix' inode_def down_def right_def)
  have self: "inode ix' ?f = head" "down ix' ?f = Some (hd (X T))" "right ix' ?f = Some z"
    using tf by (simp_all add: ix' inode_def down_def right_def HeadIndex_def)
  have zf: "z \<noteq> ?f" using z(1) by simp
  have "hd (X T) < ?f" using D(1) top by blast
  then have dom: "dom (ix_nodes ix') = {..<ix_fresh ix'}" using D(1) by (auto simp: ix')
  have lv: "level_ok h A ix' j (X j)" if j: "j \<le> T" for j
  proof -
    have lo: "level_ok h A ix j (X j)" by (rule D(6) [OF j])
    have nf: "x \<noteq> ?f" if "x \<in> set (X j)" for x using sub [OF j] that by auto
    have tl: "x \<in> set (X j)" if "x \<in> set (tl (X j))" for x using that by (cases "X j") auto
    have hd: "hd (X j) \<in> set (X j)" using lo by (simp add: level_ok_def)
    have "path (right ix') p (X j) q = path (right ix) p (X j) q" for p q
      by (rule path_cong) (use sel nf in auto)
    moreover have "sorted_wrt (\<lambda>x y. ikey h ix' x \<le> ikey h ix' y) (tl (X j))"
      using lo sorted_key_cong [of "tl (X j)" "ikey h ix'" "ikey h ix"] sel nf tl by (simp add: level_ok_def)
    moreover have "set (X j) \<subseteq> dom (ix_nodes ix')" using sub [OF j] dom by (auto simp: ix')
    ultimately show ?thesis using lo sel nf tl hd unfolding level_ok_def by auto
  qed
  have lvT: "level_ok h A ix' (Suc T) [?f, z]"
    using self sel [OF zf] z D(2) zf dom unfolding level_ok_def by (auto simp: ix')
  have hdj: "hd (X j) \<noteq> ?f" if "j \<le> T" for j
    using sub [OF that] D(6) [OF that] by (auto simp: level_ok_def dest: hd_in_set)
  have inj: "hd (X j) \<noteq> hd (X T)" if "j < T" for j
    using skip_hd_neq [OF ok, of j T] that by simp
  have hk: "head_ok head ix' (Suc T) (\<lambda>j. hd (?X j)) j" if j: "j \<le> Suc T" for j
  proof -
    consider "j < T" | "j = T" | "j = Suc T" using j by linarith
    then show ?thesis
    proof cases
      case 1
      with D(7) [of j] inj [of j] hdj [of j] show ?thesis by (auto simp: head_ok_def ix')
    next
      case 2
      with D(7) [of T] top tf show ?thesis by (auto simp: head_ok_def ix')
    next
      case 3
      with tf show ?thesis by (auto simp: head_ok_def ix' HeadIndex_def)
    qed
  qed
  have emb: "list_emb (dn ix') (?X (Suc j)) (?X j)" if j: "j \<le> T" for j
  proof (cases "j = T")
    case True
    have hP: "hd (X T) = hd P" "hd P \<noteq> ?f" "inode ix (hd (X T)) = head"
      using y tf skip_head [OF ok le_refl] by auto
    have yf: "y \<noteq> ?f" using sub [of T] y(1) by auto
    have "list_emb (dn ix') [?f] P"
      using self hP sel(1) [OF hP(2)] y(2) by (cases P) (auto simp: dn_def)
    moreover have "list_emb (dn ix') [z] (y # N)"
      using y(3) sel [OF zf] sel [OF yf] by (auto simp: dn_def)
    ultimately have "list_emb (dn ix') ([?f] @ [z]) (P @ y # N)" by (rule list_emb_append_mono)
    with True y(1) show ?thesis by simp
  next
    case False
    then have j': "j < T" using j by simp
    have nf: "x \<noteq> ?f" if "x \<in> set (X j) \<or> x \<in> set (X (Suc j))" for x
      using sub [of j] sub [of "Suc j"] j' that by auto
    have "list_emb (dn ix') (X (Suc j)) (X j)"
      by (rule list_emb_mono_set [OF D(8) [OF j']]) (use sel nf in \<open>simp add: dn_def\<close>)
    with j' show ?thesis by simp
  qed
  have dis: "set (?X j) \<inter> set (?X j') = {}" if "j \<le> Suc T" "j' \<le> Suc T" "j \<noteq> j'" for j j'
    using D(9) [of j j'] sub [of j] sub [of j'] z(5) [of j] z(5) [of j'] that by (auto simp: le_Suc_eq)
  show ?thesis
    unfolding skip_ok_def using lv lvT hk emb dis D(2,3,5) dom
    by (auto simp: le_Suc_eq less_Suc_eq_le ix' simp del: fun_upd_apply) (simp_all add: le_Suc_eq)
qed

section \<open>The operations\<close>

lemma cuts_extend:
  assumes "cuts h head k ix T X P N" and "\<And>i x. i \<le> T \<Longrightarrow> x \<in> set (X i) \<Longrightarrow> ix_nodes ix' x = ix_nodes ix x"
  shows "cuts h head k ix' T X P N"
proof -
  have X: "X i = P i @ N i" "P i \<noteq> []" if "i \<le> T" for i using assms(1) that by (auto simp: cuts_def cut_ok_def)
  have sel: "inode ix' x = inode ix x" "down ix' x = down ix x" if "i \<le> T" "x \<in> set (P i) \<or> x \<in> set (N i)" for i x
    using sel_cong [OF assms(2) [OF that(1)]] that X(1) by auto
  have "cut_ok h head k ix' (X i) (P i) (N i)" if i: "i \<le> T" for i
  proof -
    have "inode ix' (last (P i)) = inode ix (last (P i))" using sel [OF i] X(2) [OF i] by simp
    moreover have "inode ix' x = inode ix x" if "x \<in> set (tl (P i))" for x
      using sel [OF i] that by (cases "P i") auto
    moreover have "N i \<noteq> [] \<Longrightarrow> inode ix' (hd (N i)) = inode ix (hd (N i))" using sel [OF i] by simp
    ultimately show ?thesis using assms(1) i by (auto simp: cuts_def cut_ok_def stop_def)
  qed
  moreover have "list_emb (dn ix') (P (Suc i)) (P i) \<and> list_emb (dn ix') (N (Suc i)) (N i)" if i: "i < T" for i
  proof -
    have "dn ix' x y = dn ix x y" if "x \<in> set (P (Suc i)) \<or> x \<in> set (N (Suc i))" "y \<in> set (P i) \<or> y \<in> set (N i)" for x y
      using sel [of "Suc i" x] sel [of i y] i that by (simp add: dn_def)
    then show ?thesis using assms(1) i by (auto simp: cuts_def intro: list_emb_mono_set)
  qed
  ultimately show ?thesis by (simp add: cuts_def)
qed

lemma tower_start:
  assumes ok: "skip_ok h head A ix T X" and cu: "cuts h head (nkey h a) ix T X P N" and a: "h a \<noteq> None"
    and f: "f = ix_fresh ix"
  obtains ix' where "mk_tower (Suc m) a None ix = (Ok (map (\<lambda>i. f + i) [0..<Suc m]), ix')"
    and "tower_ok h head (insert a A) a ix' T m 0 (\<lambda>i. f + i) P N" and "ix_fresh ix \<le> ix_fresh ix'"
proof -
  note D = skip_okD [OF ok]
  obtain ix' where run: "mk_tower (Suc m) a None ix = (Ok [f..<f + Suc m], ix')"
    and fr: "ix_fresh ix' = f + Suc m" and tops: "m_head_top ix' = m_head_top ix" "m_head_bottom ix' = m_head_bottom ix"
    and dom: "dom (ix_nodes ix') = {..<ix_fresh ix'}" and old: "\<forall>x<f. ix_nodes ix' x = ix_nodes ix x"
    and new: "\<forall>i<Suc m. ix_nodes ix' (f + i) = Some (IndexNode a (if i = 0 then None else Some (f + i - 1)) None)"
    using mk_tower_run [OF D(1), of "Suc m" a None] f by auto
  have X: "X i = P i @ N i" if "i \<le> T" for i using cu that by (auto simp: cuts_def cut_ok_def)
  have sub: "set (X i) \<subseteq> {..<f}" if "i \<le> T" for i using D(6) [OF that] D(1) f by (simp add: level_ok_def)
  have "skip_ok h head (insert a A) ix' T X"
    by (rule skip_ok_extend [OF ok]) (use old dom fr tops D(3) a f in auto)
  then have "skip_ok h head (insert a A) ix' T (with_tower 0 (\<lambda>i. f + i) P N)"
    by (rule skip_ok_levels_cong [rotated]) (simp add: with_tower_def X)
  moreover have "cuts h head (nkey h a) ix' T X P N"
    by (rule cuts_extend [OF cu]) (use old sub in auto)
  then have "cuts h head (nkey h a) ix' T (\<lambda>i. P i @ N i) P N" using X by (simp add: cuts_def)
  moreover have "f + i \<notin> set (P l @ N l)" if "l \<le> T" for i l using sub [OF that] X [OF that] by auto
  ultimately have "tower_ok h head (insert a A) a ix' T m 0 (\<lambda>i. f + i) P N"
    using new fr unfolding tower_ok_def by (auto simp: inode_def down_def right_def IndexNode_def)
  moreover have "[f..<f + Suc m] = map (\<lambda>i. f + i) [0..<Suc m]"
    using map_add_upt [of f "Suc m"] by (simp add: add.commute del: upt_Suc)
  ultimately show thesis using that run fr f by simp
qed

lemma Index_add_run:
  assumes ok: "skip_ok h head A ix T X" and fl: "flags_clear h" and hl: "live h head"
    and a: "h a \<noteq> None" "a \<notin> A"
  shows "\<exists>r ix' T' X'. Index_add h a seed ix = (Ok r, ix') \<and> skip_ok h head (insert a A) ix' T' X'"
proof -
  obtain nd where nd: "h a = Some nd" using a(1) by blast
  then have k: "m_key nd = nkey h a" by (simp add: nkey_def)
  have ah: "a \<noteq> head" using a(2) skip_okD(2) [OF ok] by auto
  let ?prevs = "\<lambda>P. map (\<lambda>i. Some (last (P i))) [0..<Suc T]" and ?nexts = "\<lambda>N. map (\<lambda>i. first (N i)) [0..<Suc T]"
  obtain ix1 X1 P N Z where f: "findInsertionPoints h (nkey h a) ix = (Ok (?prevs P, ?nexts N), ix1)"
    "skip_ok h head A ix1 T X1" "right_only Z ix ix1" "cuts h head (nkey h a) ix1 T X1 P N"
    by (rule find_run [OF ok fl hl])
  obtain m seed' where lev: "new_level seed (Suc T) = (m, seed')" by fastforce
  let ?z = "\<lambda>i. ix_fresh ix1 + i"
  obtain ix2 where t: "mk_tower (Suc m) a None ix1 = (Ok (map ?z [0..<Suc m]), ix2)"
    "tower_ok h head (insert a A) a ix2 T m 0 ?z P N" and le: "ix_fresh ix1 \<le> ix_fresh ix2"
    by (rule tower_start [OF f(2,4) a(1) refl])
  have "T < ix_fresh ix1" by (rule skip_height [OF f(2)]) simp
  then have fuel: "min (Suc m) (Suc T) - 0 < Suc (ix_fresh ix2)" using le by simp
  obtain ix3 where l: "insert_levels (Suc (ix_fresh ix2)) h (Some (hd (P 0))) m (map ?z [0..<Suc m]) (?prevs P) (?nexts N) 0 ix2 =
      (Ok (Some (min (Suc m) (Suc T))), ix3)" "tower_ok h head (insert a A) a ix3 T m (min (Suc m) (Suc T)) ?z P N"
    using insert_levels_run [OF t(2) fl insertI1 ah le0 fuel le0 refl refl refl] by auto
  have P: "P i \<noteq> []" "X1 i = P i @ N i" if "i \<le> T" for i using f(4) that by (auto simp: cuts_def cut_ok_def)
  have bot: "m_head_bottom ix = hd (P 0)"
    using right_only_sel(7) [OF f(3)] skip_okD(5) [OF f(2)] P [of 0] by simp
  have run: "Index_add h a seed ix =
     (if min (Suc m) (Suc T) = Suc m then (Ok seed', ix3)
      else bindE (getsE m_head_top) (\<lambda>head. bindE (ixE head) (\<lambda>hn.
        if m_level hn > min (Suc m) (Suc T) then returnE seed'
        else if m_level hn < m then
          bindE (newIxE (HeadIndex (m_node hn) (Some head) (Some (map ?z [0..<Suc m] ! (m_level hn + 1))) (m_level hn + 1)))
            (\<lambda>newh. thenE (casHead head newh True) (returnE seed'))
        else returnE seed')) ix3)"
    using nd k f(1) lev t(1) l(1) bot
    by (simp add: Index_add_def run_simps Let_def del: mk_tower.simps insert_levels.simps upt_Suc)
  let ?X = "with_tower (min (Suc m) (Suc T)) ?z P N"
  have sk: "skip_ok h head (insert a A) ix3 T ?X" using l(2) by (simp add: tower_ok_def)
  show ?thesis
  proof (cases "m \<le> T")
    case True
    then show ?thesis using run sk by (auto simp: min_def)
  next
    case False
    have hX: "hd (?X T) = hd (P T)" using P [of T] by (simp add: with_tower_def)
    obtain tn where tn: "ix_nodes ix3 (hd (?X T)) = Some tn" "m_node tn = head" "m_level tn = T"
      using skip_okD(7) [OF sk, of T] by (auto simp: head_ok_def)
    have top: "m_head_top ix3 = hd (?X T)" by (rule skip_okD(4) [OF sk])
    have nf: "hd (?X T) \<noteq> ix_fresh ix3" using tn(1) skip_okD(1) [OF sk] by auto
    let ?n = "HeadIndex head (Some (hd (?X T))) (Some (?z (Suc T))) (Suc T)"
    let ?ix = "ix3\<lparr>ix_nodes := (ix_nodes ix3)(ix_fresh ix3 \<mapsto> ?n, hd (?X T) \<mapsto> tn\<lparr>m_up := Some (ix_fresh ix3)\<rparr>),
      ix_fresh := Suc (ix_fresh ix3), m_head_top := ix_fresh ix3\<rparr>"
    have nth: "map ?z [0..<Suc m] ! Suc T = ?z (Suc T)" using False by (simp del: upt_Suc)
    have "bindE (newIxE ?n) (\<lambda>newh. thenE (casHead (hd (?X T)) newh True) (returnE seed')) ix3 = (Ok seed', ?ix)"
      by (rule grow_run [OF tn(1) top nf]) (simp add: tn(2))
    then have "Index_add h a seed ix = (Ok seed', ?ix)"
      unfolding run using False tn top nth by (simp add: run_simps del: upt_Suc)
    moreover have "skip_ok h head (insert a A) ?ix (Suc T) (?X(Suc T := [ix_fresh ix3, ?z (Suc T)]))"
    proof (rule grow_ok [OF sk tn(1) _ _ _ _ _ _ _ _ refl])
      have z: "\<forall>i\<le>m. ?z i < ix_fresh ix3 \<and> inode ix3 (?z i) = a \<and>
          down ix3 (?z i) = (if i = 0 then None else Some (?z (i - 1))) \<and>
          (min (Suc m) (Suc T) \<le> i \<longrightarrow> right ix3 (?z i) = None)"
        and new: "\<forall>i\<le>m. \<forall>l\<le>T. ?z i \<notin> set (P l @ N l)"
        using l(2) unfolding tower_ok_def by blast+
      show "?z (Suc T) < ix_fresh ix3" "right ix3 (?z (Suc T)) = None"
        "inode ix3 (?z (Suc T)) \<in> insert a A" "inode ix3 (?z (Suc T)) \<noteq> head"
        using z [rule_format, of "Suc T"] False ah by auto
      show "?z (Suc T) \<notin> set (?X i)" if "i \<le> T" for i
        using new [rule_format, of "Suc T" i] False that by (auto simp: with_tower_def)
      show "?X T = P T @ ?z T # N T" using False by (simp add: with_tower_def)
      show "dn ix3 (?z (Suc T)) (?z T)"
        using z [rule_format, of "Suc T"] z [rule_format, of T] False by (simp add: dn_def)
    qed (use P in simp)
    ultimately show ?thesis by blast
  qed
qed

lemma tryReduceLevel_run:
  assumes ok: "skip_ok h head A ix T X"
  shows "\<exists>ix' T'. tryReduceLevel ix = (Ok (), ix') \<and> skip_ok h head A ix' T' X"
proof (cases "3 \<le> T")
  note D = skip_okD [OF ok]
  obtain hn where hn: "ix_nodes ix (hd (X T)) = Some hn" "m_level hn = T"
    "m_down hn = (if T = 0 then None else Some (hd (X (T - 1))))"
    using D(7) [of T] by (auto simp: head_ok_def)
  {
    case False
    with hn D(4) show ?thesis using ok by (auto simp: tryReduceLevel_def run_simps)
  next
    case True
    obtain dn where dn: "ix_nodes ix (hd (X (T - 1))) = Some dn" "m_down dn = Some (hd (X (T - 2)))"
      "m_node dn = head" "m_level dn = T - 1"
      using D(7) [of "T - 1"] True by (auto simp: head_ok_def numeral_eq_Suc)
    obtain en where en: "ix_nodes ix (hd (X (T - 2))) = Some en"
      using D(7) [of "T - 2"] True by (auto simp: head_ok_def)
    show ?thesis
    proof (cases "m_right en = None \<and> m_right dn = None \<and> m_right hn = None")
      case False
      then have "tryReduceLevel ix = (Ok (), ix)"
        using hn dn en D(4) True by (auto simp: tryReduceLevel_def run_simps)
      with ok show ?thesis by blast
    next
      case empty: True
      let ?d = "hd (X (T - 1))"
      let ?ix = "ix\<lparr>ix_nodes := (ix_nodes ix)(?d \<mapsto> dn\<lparr>m_up := None\<rparr>), m_head_top := ?d\<rparr>"
      have ne: "?d \<noteq> hd (X T)"
        using skip_hd_neq [OF ok, of "T - 1" T] True by simp
      have "tryReduceLevel ix = (Ok (), ?ix)"
        using hn dn en D(4) True empty ne
        by (simp add: tryReduceLevel_def casHead_def levelDown_def run_simps)
      moreover have "skip_ok h head A ?ix (T - 1) X"
      proof -
        have sel: "inode ?ix = inode ix" "down ?ix = down ix" "right ?ix = right ix" "dom (ix_nodes ?ix) = dom (ix_nodes ix)"
          using dn by (auto simp: inode_def down_def right_def fun_eq_iff)
        have dneq: "SkipFind.dn ?ix = SkipFind.dn ix" by (intro ext) (simp only: dn_def sel)
        have "head_ok head ?ix (T - 1) (\<lambda>j. hd (X j)) j" if j: "j \<le> T - 1" for j
        proof (cases "j = T - 1")
          case True
          with dn D(7) [of "T - 1"] show ?thesis by (auto simp: head_ok_def)
        next
          case False
          then have "hd (X j) \<noteq> ?d"
            using skip_hd_neq [OF ok, of j "T - 1"] j by simp
          moreover have "j \<noteq> T" "Suc j \<noteq> T" using False j True by auto
          ultimately show ?thesis using D(7) [of j] False j by (auto simp: head_ok_def)
        qed
        moreover have "level_ok h A ?ix j (X j)" if "j \<le> T - 1" for j
          using D(6) [of j] that unfolding level_ok_def sel by simp
        ultimately show ?thesis using D(1-3,5,8,9) unfolding skip_ok_def sel dneq by auto
      qed
      ultimately show ?thesis by blast
    qed
  }
qed

lemma Index_remove_run:
  assumes ok: "skip_ok h head A ix T X" and fl: "flags_clear h" and hl: "live h head" and a: "a \<in> A"
  shows "\<exists>ix' T' X'. Index_remove h a ix = (Ok (), ix') \<and> skip_ok h head A ix' T' X'"
proof -
  obtain nd where nd: "h a = Some nd" using a skip_okD(3) [OF ok] by blast
  obtain b ix1 X1 where f: "findPredecessor h (m_key nd) ix = (Ok b, ix1)" "skip_ok h head A ix1 T X1"
    by (rule findPredecessor_run [OF ok fl hl])
  obtain tn where tn: "ix_nodes ix1 (m_head_top ix1) = Some tn"
    using skip_okD(4) [OF f(2)] skip_okD(7) [OF f(2), of T] by (auto simp: head_ok_def)
  show ?thesis
  proof (cases "m_right tn = None")
    case True
    with nd f(1) tn tryReduceLevel_run [OF f(2)] show ?thesis by (auto simp: Index_remove_def run_simps)
  next
    case False
    with nd f tn have "Index_remove h a ix = (Ok (), ix1)" by (auto simp: Index_remove_def run_simps)
    with f(2) show ?thesis by blast
  qed
qed

section \<open>The interface\<close>

definition skip_inv :: "(addr \<Rightarrow> lnode option) \<Rightarrow> addr \<Rightarrow> addr set \<Rightarrow> skip_list \<Rightarrow> bool" where
  "skip_inv h head A ix \<longleftrightarrow> (\<exists>T X. skip_ok h head A ix T X)"

lemma skip_init:
  assumes "live h head"
  shows "skip_ok h head {head} (Index_init head) 0 (\<lambda>_. [0])"
  using assms
  by (auto simp: skip_ok_def level_ok_def head_ok_def Index_init_def HeadIndex_def right_def down_def
      inode_def live_def)

lemma skip_later:
  assumes ok: "skip_ok h head A ix T X" and lat: "later h h'"
  shows "skip_ok h' head A ix T X"
proof -
  note D = skip_okD [OF ok]
  have "level_ok h' A ix j (X j)" if j: "j \<le> T" for j
  proof -
    have lv: "level_ok h A ix j (X j)" by (rule D(6) [OF j])
    have "ikey h' ix x = ikey h ix x" if "x \<in> set (tl (X j))" for x
    proof (rule later_nkey [OF lat])
      have "x \<in> set (X j)" using that by (cases "X j") auto
      with lv D(3) show "h (inode ix x) \<noteq> None" by (auto simp: level_ok_def)
    qed
    with lv sorted_key_cong [of "tl (X j)" "ikey h' ix" "ikey h ix"] show ?thesis by (simp add: level_ok_def)
  qed
  moreover have "A \<subseteq> dom h'" using D(3) lat by (fastforce simp: later_def)
  ultimately show ?thesis using D(1,2,4,5,7-9) unfolding skip_ok_def by blast
qed

interpretation skip: list_index skip_index skip_inv
proof
  fix h head A ix k a r h'
  show "skip_inv h head {head} (ix_init skip_index head)" if "live h head"
    using skip_init [OF that] by (auto simp: skip_inv_def skip_index_def)
  show "skip_inv h' head A ix" if "skip_inv h head A ix" "later h h'"
    using that skip_later unfolding skip_inv_def by blast
  show "\<exists>b ix'. ix_getPred skip_index h k ix = Ok (b, ix') \<and> skip_inv h head A ix' \<and>
        b \<in> A \<and> live h b \<and> (b = head \<or> nkey h b < k)"
    if asm: "skip_inv h head A ix" "flags_clear h" "live h head"
  proof -
    obtain T X where "skip_ok h head A ix T X" using asm(1) by (auto simp: skip_inv_def)
    then show ?thesis
      by (rule Index_getPred_run [OF _ asm(2,3), where k = k]) (auto simp: skip_inv_def skip_index_def)
  qed
  show "\<exists>r' ix'. ix_add skip_index h a r ix = Ok (r', ix') \<and> skip_inv h head (insert a A) ix'"
    if "skip_inv h head A ix" "flags_clear h" "live h head" "h a \<noteq> None" "a \<notin> A"
    using that(1) Index_add_run [OF _ that(2-5), where seed = r] by (fastforce simp: skip_inv_def skip_index_def)
  show "\<exists>ix'. ix_remove skip_index h a ix = Ok ix' \<and> skip_inv h head A ix'"
    if "skip_inv h head A ix" "flags_clear h" "live h head" "a \<in> A"
    using that(1) Index_remove_run [OF _ that(2-4)] by (fastforce simp: skip_inv_def skip_index_def)
qed

end
