(* ===== verification/Scenario.thy ===== *)
theory Scenario
  imports ListWalks DummyIndex SkipAdd
begin

text \<open>
  Concrete runs of the system on the skip-list index, evaluated by rewriting. They show that the
  hypotheses of the general theorems can be met, and record behaviours of particular schedules.
\<close>

section \<open>Evaluation\<close>

lemma skip_index_sel:
  "ix_init skip_index = Index_init"
  "ix_add skip_index h a r ix = (case Index_add h a r ix of (Ok r, ix') \<Rightarrow> Ok (r, ix') | (Throw e, _) \<Rightarrow> Throw e)"
  "ix_remove skip_index h a ix = (case Index_remove h a ix of (Ok _, ix') \<Rightarrow> Ok ix' | (Throw e, _) \<Rightarrow> Throw e)"
  "ix_getPred skip_index h k ix = (case Index_getPred h k ix of (Ok b, ix') \<Rightarrow> Ok (b, ix') | (Throw e, _) \<Rightarrow> Throw e)"
  by (simp_all add: skip_index_def)

lemmas state_eval =
  load_def store_def catch_abort_def initial_system_def initial_thread_def empty_state_def
  initial_storage_def initial_transaction_def LinkedList_init_def new_LNode_def get_new_node_def
  get_new_node_key_def derefE_def updE_def readWord_def writeWord_def modifyLT_def modifyLS_def
  findWriteSet_def putIntoWriteSet_def addToIndexAdd_def addToIndexRemove_def emplaceReadSet_def
  set_index_def index_getPred_def index_add_def index_remove_def List.insert_def

lemmas word_eval =
  isLocked_def getVersion_def isSameVersionAndSingleton_def isSingleton_def isDeleted_def
  node_tryLock_def node_unlock_def tryLock_def tryLock_load_def compare_exchange_strong_def
  unlock_def unlock_load_def setVersion_def setSingleton_def setDeleted_def
  LOCK_MASK_def DELETE_MASK_def SINGLETON_MASK_def VERSIONNEG_MASK_def

lemmas list_eval =
  put_def put_TX_def get_def get_TX_def remove_def remove_TX_def find_node_def getPred_def getNext_def
  insert_new_node_def checkNode_def getVal_def safe_get_next_def abortTX_def

lemmas tx_eval =
  TXbegin_def TX_getVersion_def TXend_def commitWrites_def commitNode_def incrementAndGetVersion_def
  updateIndex_def cleanup_def handle_abort_def clear_storage_def retire_node_def delete_wrapped_node_def

lemmas skip_eval =
  skip_index_sel Index_init_def HeadIndex_def IndexNode_def Index_getPred_def findPredecessor_def
  findInsertionPoints_def walkLevel_def goneE_def ixE_def ptrE_def lnodeE_def updIxE_def newIxE_def
  unlink_def link_def casRight_def is_gone_def Index_add_def Index_remove_def new_level_def
  get_random_in_range_def random_next_def casHead_def levelUp_def levelDown_def tryReduceLevel_def
  trailing_ones.simps [of 0] trailing_ones.simps [of 1] trailing_ones.simps [of "numeral w" for w]

lemmas eval = run_simps Let_def state_eval word_eval list_eval tx_eval skip_eval

section \<open>One insertion\<close>

definition demo_begin :: "skip_list system" where
  "demo_begin = store 0 (snd (TXbegin (load 0 (initial_system skip_index 1)))) [] (initial_system skip_index 1)"

definition demo_put :: "skip_list system" where
  "demo_put = store 0 (snd (catch_abort (run_op skip_index (Put 0 5 7)) (load 0 demo_begin)))
     [(Put 0 5 7, Value None)] demo_begin"

definition demo_end :: "skip_list system" where
  "demo_end = store 0 (snd (catch_abort (TXend skip_index) (load 0 demo_put))) [] demo_put"

lemma put_outcome: "fst (catch_abort (run_op skip_index (Put 0 5 7)) (load 0 demo_begin)) = Ok (Some (Value None))"
  by (simp add: demo_begin_def eval)

lemma put_active: "TX (th_lt (threads demo_begin 0))" "TX (th_lt (threads demo_put 0))"
  by (simp_all add: demo_put_def demo_begin_def eval)

lemma put_trace: "th_trace (threads demo_put 0) = [(Put 0 5 7, Value None)]"
  by (simp add: demo_put_def store_def)

lemma end_outcome: "fst (catch_abort (TXend skip_index) (load 0 demo_put)) = Ok (Some True)" "gvc (shared demo_put) = 0"
  by (simp_all add: demo_put_def demo_begin_def eval)

lemma end_maps: "list_maps 1 (shared demo_end) 0 5 = Some 7"
  by (simp add: demo_end_def demo_put_def demo_begin_def eval list_maps_def contents_def nodes_of_def nkey_def vval_def)

lemma end_map: "list_maps 1 (shared demo_end) 0 = [5 \<mapsto> 7]"
  by (simp add: fun_eq_iff demo_end_def demo_put_def demo_begin_def eval list_maps_def contents_def nodes_of_def nkey_def vval_def)

lemma end_idle: "\<not> TX (th_lt (threads demo_end 0))"
  by (simp add: demo_end_def demo_put_def demo_begin_def eval)

text \<open>The run as a history of the system.\<close>

lemma demo_history: "tx_history skip_index 1 [] demo_put"
proof -
  have "tx_step skip_index {..<1} (initial_system skip_index 1) (Began 0) demo_begin"
    unfolding demo_begin_def by (rule begin_step) (simp_all add: eval)
  then have "tx_history skip_index 1 [] demo_begin" by (rule history_other [OF history_init]) simp
  moreover have "tx_step skip_index {..<1} demo_begin (Returned 0 (Put 0 5 7) (Value None))
      (store 0 (snd (catch_abort (run_op skip_index (Put 0 5 7)) (load 0 demo_begin)))
        (th_trace (threads demo_begin 0) @ [(Put 0 5 7, Value None)]) demo_begin)"
    by (rule return_step) (use put_outcome put_active in \<open>auto simp: prod_eq_iff\<close>)
  moreover have "th_trace (threads demo_begin 0) = []" by (simp add: demo_begin_def store_def)
  ultimately show ?thesis unfolding demo_put_def by (auto elim: history_other)
qed

lemma demo_commit: "tx_step skip_index {..<1} demo_put (Committed 0) demo_end"
  unfolding demo_end_def
  by (rule commit_step) (use put_active end_outcome in \<open>auto simp: prod_eq_iff\<close>)

lemma demo_history_end: "tx_history skip_index 1 [[(Put 0 5 7, Value None)]] demo_end"
  using history_commit [OF demo_history demo_commit] by (simp add: put_trace)

lemmas demo_reach = history_reach [OF demo_history] and demo_reach_end = history_reach [OF demo_history_end]

section \<open>Two conflicting insertions\<close>

text \<open>
  Two transactions insert after the same node: the first to end commits, the second aborts.
\<close>

definition race_begin :: "skip_list system" where
  "race_begin = store 1 (snd (TXbegin (load 1 demo_begin))) [] demo_begin"

definition race_first :: "skip_list system" where
  "race_first = store 0 (snd (catch_abort (run_op skip_index (Put 0 5 7)) (load 0 race_begin)))
     [(Put 0 5 7, Value None)] race_begin"

definition race_second :: "skip_list system" where
  "race_second = store 1 (snd (catch_abort (run_op skip_index (Put 0 6 8)) (load 1 race_first)))
     [(Put 0 6 8, Value None)] race_first"

definition race_commit :: "skip_list system" where
  "race_commit = store 0 (snd (catch_abort (TXend skip_index) (load 0 race_second))) [] race_second"

definition race_abort :: "skip_list system" where
  "race_abort = store 1 (snd (catch_abort (TXend skip_index) (load 1 race_commit))) [] race_commit"

lemmas race_defs =
  race_begin_def race_first_def race_second_def race_commit_def race_abort_def demo_begin_def

lemma race_begin_outcome:
  "\<not> TX (th_lt (threads demo_begin 1))" "fst (TXbegin (load 1 demo_begin)) = Ok ()"
  by (simp_all add: race_defs eval)

lemma race_first_outcome:
  "TX (th_lt (threads race_begin 0))" "th_trace (threads race_begin 0) = []"
  "fst (catch_abort (run_op skip_index (Put 0 5 7)) (load 0 race_begin)) = Ok (Some (Value None))"
  by (simp_all add: race_defs eval)

lemma race_second_outcome:
  "TX (th_lt (threads race_first 1))" "th_trace (threads race_first 1) = []"
  "fst (catch_abort (run_op skip_index (Put 0 6 8)) (load 1 race_first)) = Ok (Some (Value None))"
  by (simp_all add: race_defs eval)

lemma race_commit_outcome:
  "TX (th_lt (threads race_second 0))" "gvc (shared race_second) = 0"
  "fst (catch_abort (TXend skip_index) (load 0 race_second)) = Ok (Some True)"
  by (simp_all add: race_defs eval)

lemma race_abort_outcome:
  "TX (th_lt (threads race_commit 1))" "gvc (shared race_commit) = 1"
  "fst (catch_abort (TXend skip_index) (load 1 race_commit)) = Ok None"
  by (simp_all add: race_defs eval)

lemma race_reach: "tx_reach skip_index 1 race_commit"
proof -
  have "tx_step skip_index {..<1} (initial_system skip_index 1) (Began 0) demo_begin"
    unfolding demo_begin_def by (rule begin_step) (simp_all add: eval)
  then have "tx_reach skip_index 1 demo_begin" by (rule reach_step [OF reach_init])
  moreover have "tx_step skip_index {..<1} demo_begin (Began 1) race_begin"
    unfolding race_begin_def by (rule begin_step) (use race_begin_outcome in \<open>simp_all add: prod_eq_iff\<close>)
  moreover have "tx_step skip_index {..<1} race_begin (Returned 0 (Put 0 5 7) (Value None)) race_first"
    unfolding race_first_def using return_step [where i = skip_index and L = "{..<1}" and S = race_begin and t = 0
      and f = "Put 0 5 7"] race_first_outcome by (simp add: prod_eq_iff)
  moreover have "tx_step skip_index {..<1} race_first (Returned 1 (Put 0 6 8) (Value None)) race_second"
    unfolding race_second_def using return_step [where i = skip_index and L = "{..<1}" and S = race_first and t = 1
      and f = "Put 0 6 8"] race_second_outcome by (simp add: prod_eq_iff)
  moreover have "tx_step skip_index {..<1} race_second (Committed 0) race_commit"
    unfolding race_commit_def by (rule commit_step) (use race_commit_outcome in \<open>auto simp: prod_eq_iff\<close>)
  ultimately show ?thesis by (blast intro: reach_step)
qed

lemma race_step: "tx_step skip_index {..<1} race_commit (Aborted 1) race_abort"
  unfolding race_abort_def by (rule end_abort_step) (use race_abort_outcome in \<open>auto simp: prod_eq_iff\<close>)

section \<open>The benchmark with two workers\<close>

text \<open>The workers take their steps in the order of the list, while the clock is in range.\<close>

fun run_workers :: "'ix index_ops \<Rightarrow> task list \<Rightarrow> nat list \<Rightarrow> 'ix bench \<Rightarrow> 'ix bench" where
  "run_workers i tasks [] B = B"
| "run_workers i tasks (t # sch) B =
     (if gvc (shared (bench_sys B)) + 1 < 2 ^ 60 then
        case work_step i 0 tasks (workers B t) (th_trace (threads (bench_sys B) t)) (load t (bench_sys B)) of
          (Ok (w', tr'), s') \<Rightarrow>
            run_workers i tasks sch \<lparr>bench_sys = store t s' tr' (bench_sys B), workers = (workers B)(t := w')\<rparr>
        | (Throw e, s') \<Rightarrow> B
      else B)"

lemma run_workers_run:
  "bench_run i tasks n ops ps m B \<Longrightarrow> set sch \<subseteq> {1..n} \<Longrightarrow> bench_run i tasks n ops ps m (run_workers i tasks sch B)"
proof (induction sch arbitrary: B)
  case (Cons t sch)
  then show ?case
    by (auto split: prod.splits outcome.splits intro!: Cons.IH bench_step [OF Cons.prems(1)])
qed simp

definition bench_tasks :: "task list" where
  "bench_tasks = [\<lparr>task_type = INSERT, task_key = 5, task_val = 7\<rparr>, \<lparr>task_type = REMOVE, task_key = 3, task_val = 0\<rparr>]"

definition bench_0 :: "skip_list bench" where
  "bench_0 = \<lparr>bench_sys = store 0 (snd (init_linked_list skip_index 0 [(3, 4)] (load 0 (initial_system skip_index 1)))) []
     (initial_system skip_index 1), workers = start_workers bench_tasks 2 1\<rparr>"

definition bench_end :: "skip_list bench" where
  "bench_end = run_workers skip_index bench_tasks [1, 2, 1, 2, 1, 2, 1, 2] bench_0"

lemmas bench_eval = Worker_def start_workers_def worker_range_def init_linked_list_def work_step_def
  commit_task_and_update_counters_def task_op_def next_task_def reset_tx_def count_commit_def count_abort_def bench_tasks_def

lemma bench_0_run: "bench_run skip_index bench_tasks 2 1 [(3, 4)] 1 bench_0"
  unfolding bench_0_def by (rule bench_start) (simp add: prod_eq_iff bench_eval eval)

lemma bench_0_idle: "wk_pc (workers bench_0 1) = Loop_head" "gvc (shared (bench_sys bench_0)) = 1"
  by (simp_all add: bench_0_def bench_eval eval)

lemma bench_end_run: "bench_run skip_index bench_tasks 2 1 [(3, 4)] 1 bench_end"
  unfolding bench_end_def by (rule run_workers_run [OF bench_0_run]) auto

lemma bench_end_eval:
  "map (\<lambda>t. let w = workers bench_end t in
     (wk_pc w, inserts_occurred w, removes_occurred w, succ_ops w, fail_ops w)) [1, 2] =
   [(Finished, 1, 0, 1, 0), (Finished, 0, 0, 0, 1)]"
  by (simp add: bench_end_def bench_0_def bench_eval eval)

lemma bench_end_expected: "expected_size 1 2 (workers bench_end) = 2"
  using bench_end_eval by (simp add: expected_size_def Let_def upt_rec numeral_2_eq_2)

end
