(* ===== verification/Anomalies.thy ===== *)
theory Anomalies
  imports Scenario
begin

text \<open>
  Two schedules of the system, evaluated by rewriting, in which the library does less than a client
  expects: two transactions whose reads are not validated against each other's writes both commit,
  and a transaction overwrites the insertion of a thread that runs outside transactions.
\<close>

section \<open>Runs of the system\<close>

definition begin_on :: "nat \<Rightarrow> skip_list system \<Rightarrow> skip_list system" where
  "begin_on t S = store t (snd (TXbegin (load t S))) [] S"

definition op_on :: "nat \<Rightarrow> list_op \<Rightarrow> list_result \<Rightarrow> skip_list system \<Rightarrow> skip_list system" where
  "op_on t f r S = store t (snd (catch_abort (run_op skip_index f) (load t S))) (th_trace (threads S t) @ [(f, r)]) S"

definition end_on :: "nat \<Rightarrow> skip_list system \<Rightarrow> skip_list system" where
  "end_on t S = store t (snd (catch_abort (TXend skip_index) (load t S))) [] S"

lemma on_trace:
  "th_trace (threads (begin_on t S) u) = (if u = t then [] else th_trace (threads S u))"
  "th_trace (threads (op_on t f r S) u) = (if u = t then th_trace (threads S t) @ [(f, r)] else th_trace (threads S u))"
  "th_trace (threads (end_on t S) u) = (if u = t then [] else th_trace (threads S u))"
  by (simp_all add: begin_on_def op_on_def end_on_def store_def)

lemma hist_begin:
  assumes "tx_history skip_index n H S" and "\<not> TX (th_lt (threads S t))" and "fst (TXbegin (load t S)) = Ok ()"
  shows "tx_history skip_index n H (begin_on t S)"
proof -
  have "tx_step skip_index {..<n} S (Began t) (begin_on t S)"
    unfolding begin_on_def by (rule begin_step) (use assms in \<open>simp_all add: prod_eq_iff\<close>)
  then show ?thesis using history_other [OF assms(1)] by simp
qed

lemma hist_op:
  assumes "tx_history skip_index n H S" and "TX (th_lt (threads S t))" and "op_list f < n"
    and "fst (catch_abort (run_op skip_index f) (load t S)) = Ok (Some r)"
  shows "tx_history skip_index n H (op_on t f r S)"
proof -
  have "tx_step skip_index {..<n} S (Returned t f r) (op_on t f r S)"
    unfolding op_on_def by (rule return_step) (use assms in \<open>simp_all add: prod_eq_iff\<close>)
  then show ?thesis using history_other [OF assms(1)] by simp
qed

lemma hist_end:
  assumes "tx_history skip_index n H S" and "TX (th_lt (threads S t))" and "gvc (shared S) + 1 < 2 ^ 60"
    and "fst (catch_abort (TXend skip_index) (load t S)) = Ok (Some b)"
  shows "tx_history skip_index n (H @ [th_trace (threads S t)]) (end_on t S)"
proof -
  have "tx_step skip_index {..<n} S (Committed t) (end_on t S)"
    unfolding end_on_def by (rule commit_step) (use assms in \<open>simp_all add: prod_eq_iff\<close>)
  then show ?thesis by (rule history_commit [OF assms(1)])
qed

section \<open>Write skew\<close>

text \<open>
  After the keys 5 and 6 have been inserted, one transaction reads 5 and writes 6, the other reads 6
  and writes 5. \<open>get\<close> puts only the predecessor of the node it finds into the read set.
\<close>

definition skew_setup :: "skip_list system" where
  "skew_setup = end_on 0 (op_on 0 (Put 0 6 1) (Value None) (op_on 0 (Put 0 5 7) (Value None) (begin_on 0 (initial_system skip_index 1))))"

definition skew_first :: "skip_list system" where
  "skew_first = op_on 0 (Put 0 6 100) (Value (Some 1)) (op_on 0 (Get 0 5) (Value (Some 7)) (begin_on 0 skew_setup))"

definition skew_second :: "skip_list system" where
  "skew_second = op_on 1 (Put 0 5 200) (Value (Some 7)) (op_on 1 (Get 0 6) (Value (Some 1)) (begin_on 1 skew_first))"

definition skew_end :: "skip_list system" where
  "skew_end = end_on 1 (end_on 0 skew_second)"

lemmas on_eval = begin_on_def op_on_def end_on_def

definition skew_A :: trace where
  "skew_A = [(Put 0 5 7, Value None), (Put 0 6 1, Value None)]"

definition skew_T :: trace where
  "skew_T = [(Get 0 5, Value (Some 7)), (Put 0 6 100, Value (Some 1))]"

definition skew_U :: trace where
  "skew_U = [(Get 0 6, Value (Some 1)), (Put 0 5 200, Value (Some 7))]"

lemma skew_history_setup: "tx_history skip_index 1 [skew_A] skew_setup"
proof -
  let ?S0 = "initial_system skip_index 1"
  let ?S1 = "begin_on 0 ?S0" let ?S2 = "op_on 0 (Put 0 5 7) (Value None) ?S1" let ?S3 = "op_on 0 (Put 0 6 1) (Value None) ?S2"
  have "tx_history skip_index 1 [] ?S1" by (rule hist_begin [OF history_init]) (simp_all add: on_eval eval)
  then have "tx_history skip_index 1 [] ?S2" by (rule hist_op) (simp_all add: on_eval eval)
  then have "tx_history skip_index 1 [] ?S3" by (rule hist_op) (simp_all add: on_eval eval)
  then have "tx_history skip_index 1 ([] @ [th_trace (threads ?S3 0)]) (end_on 0 ?S3)"
    by (rule hist_end [where b = True]) (simp_all add: on_eval eval)
  moreover have "th_trace (threads ?S3 0) = skew_A" by (simp add: on_trace skew_A_def)
  ultimately show ?thesis by (simp only: skew_setup_def append_Nil)
qed

lemma skew_history_first: "tx_history skip_index 1 [skew_A] skew_first"
proof -
  let ?S1 = "begin_on 0 skew_setup" let ?S2 = "op_on 0 (Get 0 5) (Value (Some 7)) ?S1"
  have "tx_history skip_index 1 [skew_A] ?S1" by (rule hist_begin [OF skew_history_setup]) (simp_all add: skew_setup_def on_eval eval)
  then have "tx_history skip_index 1 [skew_A] ?S2" by (rule hist_op) (simp_all add: skew_setup_def on_eval eval)
  then show ?thesis unfolding skew_first_def by (rule hist_op) (simp_all add: skew_setup_def on_eval eval)
qed

lemma skew_history_second: "tx_history skip_index 1 [skew_A] skew_second"
proof -
  let ?S1 = "begin_on 1 skew_first" let ?S2 = "op_on 1 (Get 0 6) (Value (Some 1)) ?S1"
  have "tx_history skip_index 1 [skew_A] ?S1"
    by (rule hist_begin [OF skew_history_first]) (simp_all add: skew_first_def skew_setup_def on_eval eval)
  then have "tx_history skip_index 1 [skew_A] ?S2" by (rule hist_op) (simp_all add: skew_first_def skew_setup_def on_eval eval)
  then show ?thesis unfolding skew_second_def by (rule hist_op) (simp_all add: skew_first_def skew_setup_def on_eval eval)
qed

lemma skew_traces: "th_trace (threads skew_second 0) = skew_T" "th_trace (threads (end_on 0 skew_second) 1) = skew_U"
  by (simp_all add: skew_second_def skew_first_def on_trace skew_T_def skew_U_def)

lemma skew_history: "tx_history skip_index 1 [skew_A, skew_T, skew_U] skew_end"
proof -
  have "tx_history skip_index 1 ([skew_A] @ [th_trace (threads skew_second 0)]) (end_on 0 skew_second)"
    by (rule hist_end [OF skew_history_second, where b = True]) (simp_all add: skew_second_def skew_first_def skew_setup_def on_eval eval)
  then have "tx_history skip_index 1 [skew_A, skew_T] (end_on 0 skew_second)" by (simp only: skew_traces append_Cons append_Nil)
  then have "tx_history skip_index 1 ([skew_A, skew_T] @ [th_trace (threads (end_on 0 skew_second) 1)]) skew_end"
    unfolding skew_end_def
    by (rule hist_end [where b = True]) (simp_all add: skew_second_def skew_first_def skew_setup_def on_eval eval)
  then show ?thesis by (simp only: skew_traces append_Cons append_Nil)
qed

text \<open>\<open>explains H\<close>: run one after the other from empty lists, the transactions have these results.\<close>

definition explains :: "trace list \<Rightarrow> bool" where
  "explains H \<longleftrightarrow> fst (spec_run (map fst (concat H)) (\<lambda>_. Map.empty)) = map snd (concat H)"

text \<open>
  (C8) A search that finds its key is not validated: the history of three committed transactions
  is reachable, and in no serial order of them do the operations have the results they returned.
\<close>

theorem get_not_validated:
  "tx_history skip_index 1 [skew_A, skew_T, skew_U] skew_end \<and>
   list_all (\<lambda>H. \<not> explains H)
     [[skew_A, skew_T, skew_U], [skew_A, skew_U, skew_T], [skew_T, skew_A, skew_U],
      [skew_T, skew_U, skew_A], [skew_U, skew_A, skew_T], [skew_U, skew_T, skew_A]]"
  using skew_history by (simp add: explains_def skew_A_def skew_T_def skew_U_def map_upd_def)

section \<open>A lost insertion\<close>

text \<open>
  While a transaction that has inserted the key 5 behind the head is running, another thread inserts
  the key 9 behind the head outside a transaction. \<open>putSingleton\<close> does not change the version of
  the node it links behind, so the transaction commits and overwrites that node's successor.
\<close>

lemmas solo_eval =
  getPredSingleton_def append_new_node_def link_new_node_def isLockedOrDeleted_def
  setVersionAndSingletonNoLockAssert_def

lemmas maps_eval = list_maps_def contents_def nodes_of_def nkey_def vval_def

definition lost_solo :: "skip_list state" where
  "lost_solo = snd (run_op skip_index (Put 0 9 1) (load 1 demo_put))"

definition lost_end :: "skip_list state" where
  "lost_end = snd (catch_abort (TXend skip_index) (load 0 (store 1 lost_solo [] demo_put)))"

lemma lost_solo_outcome:
  "\<not> TX (th_lt (threads demo_put 1))" "fst (run_op skip_index (Put 0 9 1) (load 1 demo_put)) = Ok (Value None)"
  by (simp_all add: demo_put_def demo_begin_def eval solo_eval)

lemma lost_solo_map: "list_maps 1 lost_solo 0 = [9 \<mapsto> 1]"
  by (simp add: fun_eq_iff lost_solo_def demo_put_def demo_begin_def eval solo_eval maps_eval)

lemma lost_end_outcome:
  "fst (catch_abort (TXend skip_index) (load 0 (store 1 lost_solo [] demo_put))) = Ok (Some True)"
  by (simp add: lost_solo_def demo_put_def demo_begin_def eval solo_eval)

lemma lost_end_map: "list_maps 1 lost_end 0 = [5 \<mapsto> 7]"
  by (simp add: fun_eq_iff lost_end_def lost_solo_def demo_put_def demo_begin_def eval solo_eval maps_eval)

text \<open>
  (C9) An insertion outside transactions can be lost: it has returned and its key is in the list, then a
  transaction that was running commits, and the key is gone although nobody removed it.
\<close>

theorem singleton_insertion_lost:
  "tx_reach skip_index 1 demo_put \<and> \<not> TX (th_lt (threads demo_put 1)) \<and>
   run_op skip_index (Put 0 9 1) (load 1 demo_put) = (Ok (Value None), lost_solo) \<and> list_maps 1 lost_solo 0 = [9 \<mapsto> 1] \<and>
   catch_abort (TXend skip_index) (load 0 (store 1 lost_solo [] demo_put)) = (Ok (Some True), lost_end) \<and>
   list_maps 1 lost_end 0 = [5 \<mapsto> 7]"
  using demo_reach lost_solo_outcome lost_solo_map lost_end_outcome lost_end_map
  by (auto simp: prod_eq_iff lost_solo_def lost_end_def)

end
