(* ===== verification/BlockBag.thy ===== *)
theory BlockBag
  imports Prelude "HOL-Library.Multiset"
begin

text \<open>
  The bags of the record manager, \<^verbatim>\<open>common/recordmgr/blockbag.h\<close>, with their pool of
  blocks, \<^verbatim>\<open>blockpool.h\<close>, and the shared bag of full blocks, \<^verbatim>\<open>lockfreeblockbag.h\<close>.
  Blocks live in an explicit store, so that a block handed to another bag, returned to a pool
  or deleted is visible to every pointer to it; a pointer to a deleted block raises
  \<open>NullPointer\<close>. An object of type \<open>T\<close> is an address, \<open>None\<close> the null pointer. The cells of
  a new block are uninitialised in the code and null here. The \<open>DEBUG2\<close> checks are off in the
  code; \<open>validate\<close>, which they call, is a definition and a theorem below.
\<close>

section \<open>Blocks\<close>

type_synonym bptr = nat
type_synonym obj = nat

definition BLOCK_SIZE :: nat where
  "BLOCK_SIZE = 2 ^ 8"

lemma BLOCK_SIZE_gt [simp]: "0 < BLOCK_SIZE" "Suc 0 < BLOCK_SIZE" "BLOCK_SIZE \<noteq> 0"
  by (simp_all add: BLOCK_SIZE_def)

record block =
  b_data :: "nat \<Rightarrow> obj option"
  b_size :: nat
  b_next :: "bptr option"

definition new_block :: "bptr option \<Rightarrow> block" where
  "new_block nxt = \<lparr>b_data = (\<lambda>_. None), b_size = 0, b_next = nxt\<rparr>"

definition block_isFull :: "block \<Rightarrow> bool" where
  "block_isFull b \<longleftrightarrow> b_size b = BLOCK_SIZE"

definition block_isEmpty :: "block \<Rightarrow> bool" where
  "block_isEmpty b \<longleftrightarrow> b_size b = 0"

definition block_push :: "obj option \<Rightarrow> (block, unit) cmd" where
  "block_push x =
     bindE (getsE b_size) (\<lambda>sz.
     thenE (assertE (sz < BLOCK_SIZE))
       (modifyE (\<lambda>b. b\<lparr>b_data := (b_data b)(sz := x), b_size := sz + 1\<rparr>)))"

definition block_pop :: "(block, obj option) cmd" where
  "block_pop =
     bindE (getsE b_size) (\<lambda>sz.
     thenE (assertE (0 < sz))
     (thenE (modifyE (\<lambda>b. b\<lparr>b_size := sz - 1\<rparr>))
       (getsE (\<lambda>b. b_data b (sz - 1)))))"

text \<open>The index is an \<open>int\<close>; an index past the array is an access out of bounds.\<close>

definition block_peek :: "int \<Rightarrow> (block, obj option) cmd" where
  "block_peek ix =
     thenE (assertE (0 \<le> ix))
       (if nat ix < BLOCK_SIZE then getsE (\<lambda>b. b_data b (nat ix)) else throwE NullPointer)"

definition block_contains :: "obj option \<Rightarrow> block \<Rightarrow> bool" where
  "block_contains x b \<longleftrightarrow> list_ex (\<lambda>j. b_data b j = x) [0..<b_size b]"

text \<open>\<open>block::erase(T*)\<close>: the last item is dropped, another one is replaced by the last.\<close>

definition block_erase_obj :: "obj option \<Rightarrow> block \<Rightarrow> block" where
  "block_erase_obj x b =
     (if b_size b = 0 then b
      else if b_data b (b_size b - 1) = x then b\<lparr>b_size := b_size b - 1\<rparr>
      else case List.find (\<lambda>j. b_data b j = x) [0..<b_size b - 1] of
             None \<Rightarrow> b
           | Some j \<Rightarrow> b\<lparr>b_data := (b_data b)(j := b_data b (b_size b - 1)), b_size := b_size b - 1\<rparr>)"

definition block_erase :: "nat \<Rightarrow> block \<Rightarrow> block" where
  "block_erase ix b =
     (if b_size b \<noteq> 0 then
        (if ix \<noteq> b_size b - 1 then b\<lparr>b_data := (b_data b)(ix := b_data b (b_size b - 1)), b_size := b_size b - 1\<rparr>
         else b\<lparr>b_size := b_size b - 1\<rparr>)
      else b)"

definition block_replace :: "nat \<Rightarrow> obj option \<Rightarrow> (block, unit) cmd" where
  "block_replace ix x =
     bindE (getsE b_size) (\<lambda>sz.
     thenE (assertE (ix < sz))
     (thenE (assertE (x \<noteq> None))
       (modifyE (\<lambda>b. b\<lparr>b_data := (b_data b)(ix := x)\<rparr>))))"

definition block_clearWithoutFreeingElements :: "block \<Rightarrow> block" where
  "block_clearWithoutFreeingElements b = b\<lparr>b_size := 0\<rparr>"

section \<open>The store\<close>

text \<open>
  The bags of a record manager: the \<open>freeBag\<close> of a thread in its pool, and the
  \<open>epochbags\<close> of a thread in its reclaimer.
\<close>

datatype bag_id = Free_bag nat | Epoch_bag nat nat

record blockbag =
  bag_owner :: nat
  reclaimCount :: int
  sizeInBlocks :: nat
  bag_head :: "bptr option"
  bag_tail :: "bptr option"
  bag_pool :: nat

text \<open>
  \<open>mem_pools t\<close> is \<open>blockpools[t]\<close>, its last element on top of the stack. \<open>shared_head\<close> and
  \<open>shared_tag\<close> are the tagged pointer of the shared bag. \<open>live_objs\<close> are the objects that were
  allocated and not deleted.
\<close>

record mem =
  blocks :: "bptr \<rightharpoonup> block"
  next_block :: bptr
  mem_pools :: "nat \<Rightarrow> bptr list"
  bags :: "bag_id \<rightharpoonup> blockbag"
  shared_head :: "bptr option"
  shared_tag :: nat
  live_objs :: "obj list"
  next_obj :: obj

definition at_block :: "bptr option \<Rightarrow> (block, 'a) cmd \<Rightarrow> (mem, 'a) cmd" where
  "at_block p c = (\<lambda>m. case p of
       None \<Rightarrow> (Throw NullPointer, m)
     | Some a \<Rightarrow> (case blocks m a of
           None \<Rightarrow> (Throw NullPointer, m)
         | Some b \<Rightarrow> (case c b of (r, b') \<Rightarrow> (r, m\<lparr>blocks := (blocks m)(a \<mapsto> b')\<rparr>))))"

definition read_block :: "bptr option \<Rightarrow> (block \<Rightarrow> 'a) \<Rightarrow> (mem, 'a) cmd" where
  "read_block p f = at_block p (getsE f)"

definition at_bag :: "bag_id \<Rightarrow> (blockbag \<Rightarrow> 'a) \<Rightarrow> (mem, 'a) cmd" where
  "at_bag g f = (\<lambda>m. case bags m g of None \<Rightarrow> (Throw NullPointer, m) | Some B \<Rightarrow> (Ok (f B), m))"

definition upd_bag :: "bag_id \<Rightarrow> (blockbag \<Rightarrow> blockbag) \<Rightarrow> (mem, unit) cmd" where
  "upd_bag g f = (\<lambda>m. case bags m g of
       None \<Rightarrow> (Throw NullPointer, m)
     | Some B \<Rightarrow> (Ok (), m\<lparr>bags := (bags m)(g \<mapsto> f B)\<rparr>))"

section \<open>The pool of blocks\<close>

definition MAX_BLOCK_POOL_SIZE :: nat where
  "MAX_BLOCK_POOL_SIZE = 32"

definition delete_block :: "bptr option \<Rightarrow> (mem, unit) cmd" where
  "delete_block p =
     bindE (read_block p b_size) (\<lambda>sz.
     thenE (assertE (sz = 0))
       (modifyE (\<lambda>m. m\<lparr>blocks := (blocks m)(the p := None)\<rparr>)))"

definition allocateBlock :: "nat \<Rightarrow> bptr option \<Rightarrow> (mem, bptr) cmd" where
  "allocateBlock t nxt =
     bindE (getsE (\<lambda>m. mem_pools m t)) (\<lambda>ps.
       if ps \<noteq> [] then
         thenE (modifyE (\<lambda>m. m\<lparr>mem_pools := (mem_pools m)(t := butlast ps)\<rparr>))
         (thenE (at_block (Some (last ps)) (modifyE (\<lambda>_. new_block nxt)))
           (returnE (last ps)))
       else
         bindE (getsE next_block) (\<lambda>a.
         thenE (modifyE (\<lambda>m. m\<lparr>blocks := (blocks m)(a \<mapsto> new_block nxt), next_block := a + 1\<rparr>))
           (returnE a)))"

definition deallocateBlock :: "nat \<Rightarrow> bptr option \<Rightarrow> (mem, unit) cmd" where
  "deallocateBlock t p =
     bindE (read_block p block_isEmpty) (\<lambda>e.
     thenE (assertE e)
     (bindE (getsE (\<lambda>m. mem_pools m t)) (\<lambda>ps.
       if length ps = MAX_BLOCK_POOL_SIZE then delete_block p
       else modifyE (\<lambda>m. m\<lparr>mem_pools := (mem_pools m)(t := ps @ [the p])\<rparr>))))"

text \<open>\<open>~blockpool\<close>\<close>

definition delete_blockpool :: "nat \<Rightarrow> (mem, unit) cmd" where
  "delete_blockpool t =
     bindE (getsE (\<lambda>m. mem_pools m t)) (\<lambda>ps.
     thenE (forE ps (\<lambda>a. bindE (read_block (Some a) block_isEmpty) (\<lambda>e. thenE (assertE e) (delete_block (Some a)))))
       (modifyE (\<lambda>m. m\<lparr>mem_pools := (mem_pools m)(t := [])\<rparr>)))"

section \<open>The bag\<close>

text \<open>A walk along the blocks of a bag visits at most as many blocks as were ever allocated.\<close>

primrec blocks_loop :: "nat \<Rightarrow> bptr option \<Rightarrow> nat \<Rightarrow> (mem, nat) cmd" where
  "blocks_loop 0 p result = throwE Diverges"
| "blocks_loop (Suc n) p result =
     (if p = None then returnE result
      else bindE (read_block p b_next) (\<lambda>q. blocks_loop n q (result + 1)))"

definition computeSizeInBlocks :: "bag_id \<Rightarrow> (mem, nat) cmd" where
  "computeSizeInBlocks g =
     bindE (at_bag g bag_head) (\<lambda>p. bindE (getsE next_block) (\<lambda>n. blocks_loop (Suc n) p 0))"

primrec size_of_loop :: "nat \<Rightarrow> bptr option \<Rightarrow> nat \<Rightarrow> (mem, nat) cmd" where
  "size_of_loop 0 p result = throwE Diverges"
| "size_of_loop (Suc n) p result =
     (if p = None then returnE result
      else bindE (read_block p (\<lambda>b. (b_size b, b_next b))) (\<lambda>sq. size_of_loop n (snd sq) (result + fst sq)))"

definition computeSize :: "bag_id \<Rightarrow> (mem, nat) cmd" where
  "computeSize g =
     bindE (at_bag g bag_head) (\<lambda>p. bindE (getsE next_block) (\<lambda>n. size_of_loop (Suc n) p 0))"

primrec full_loop :: "nat \<Rightarrow> bptr option \<Rightarrow> (mem, unit) cmd" where
  "full_loop 0 p = throwE Diverges"
| "full_loop (Suc n) p =
     (if p = None then returnE ()
      else bindE (read_block p (\<lambda>b. (block_isFull b, b_next b))) (\<lambda>fq. thenE (assertE (fst fq)) (full_loop n (snd fq))))"

definition validate :: "bag_id \<Rightarrow> (mem, unit) cmd" where
  "validate g =
     bindE (at_bag g id) (\<lambda>B.
     thenE (assertE (bag_head B \<noteq> None))
     (thenE (assertE (bag_tail B \<noteq> None))
     (bindE (read_block (bag_head B) (\<lambda>b. (block_isFull b, b_next b))) (\<lambda>fq.
     thenE (assertE (\<not> fst fq))
     (bindE (getsE next_block) (\<lambda>n.
     thenE (full_loop (Suc n) (snd fq))
     (bindE (computeSizeInBlocks g) (\<lambda>c. assertE (sizeInBlocks B = c)))))))))"

definition new_blockbag :: "bag_id \<Rightarrow> nat \<Rightarrow> nat \<Rightarrow> (mem, unit) cmd" where
  "new_blockbag g tid pool =
     bindE (allocateBlock pool None) (\<lambda>a.
       modifyE (\<lambda>m. m\<lparr>bags := (bags m)(g \<mapsto> \<lparr>bag_owner = tid, reclaimCount = 0, sizeInBlocks = 1,
         bag_head = Some a, bag_tail = Some a, bag_pool = pool\<rparr>)\<rparr>))"

definition bag_isEmpty :: "bag_id \<Rightarrow> (mem, bool) cmd" where
  "bag_isEmpty g =
     bindE (at_bag g bag_head) (\<lambda>h. read_block h (\<lambda>b. b_next b = None \<and> block_isEmpty b))"

definition incrementReclaimCount :: "bag_id \<Rightarrow> (mem, unit) cmd" where
  "incrementReclaimCount g = upd_bag g (\<lambda>B. B\<lparr>reclaimCount := reclaimCount B + 1\<rparr>)"

definition bag_add :: "bag_id \<Rightarrow> obj option \<Rightarrow> (mem, unit) cmd" where
  "bag_add g x =
     bindE (at_bag g id) (\<lambda>B.
     thenE (at_block (bag_head B) (block_push x))
     (bindE (read_block (bag_head B) block_isFull) (\<lambda>full.
       if full then
         bindE (allocateBlock (bag_pool B) (bag_head B)) (\<lambda>newblock.
           upd_bag g (\<lambda>B. B\<lparr>sizeInBlocks := sizeInBlocks B + 1, bag_head := Some newblock\<rparr>))
       else returnE ())))"

text \<open>The head block is dropped and returned to the pool.\<close>

definition drop_head :: "bag_id \<Rightarrow> (mem, unit) cmd" where
  "drop_head g =
     bindE (at_bag g id) (\<lambda>B.
     bindE (read_block (bag_head B) b_next) (\<lambda>q.
     thenE (upd_bag g (\<lambda>B. B\<lparr>bag_head := q\<rparr>))
     (thenE (deallocateBlock (bag_pool B) (bag_head B))
       (upd_bag g (\<lambda>B. B\<lparr>sizeInBlocks := sizeInBlocks B - 1\<rparr>)))))"

definition bag_remove :: "bag_id \<Rightarrow> (mem, obj option) cmd" where
  "bag_remove g =
     bindE (bag_isEmpty g) (\<lambda>e.
     thenE (assertE (\<not> e))
     (bindE (at_bag g bag_head) (\<lambda>h.
     bindE (read_block h (\<lambda>b. (block_isEmpty b, b_next b))) (\<lambda>eq.
       if fst eq then
         bindE (at_block (snd eq) block_pop) (\<lambda>result. thenE (drop_head g) (returnE result))
       else at_block h block_pop))))"

definition removeFullBlock :: "bag_id \<Rightarrow> (mem, bptr option) cmd" where
  "removeFullBlock g =
     bindE (at_bag g bag_head) (\<lambda>h.
     bindE (read_block h b_next) (\<lambda>second.
       if second \<noteq> None then
         bindE (read_block second (\<lambda>b. (b_size b, b_next b))) (\<lambda>sn.
           if snd sn \<noteq> None then
             thenE (assertE (fst sn = BLOCK_SIZE))
             (thenE (at_block h (modifyE (\<lambda>b. b\<lparr>b_next := snd sn\<rparr>)))
             (thenE (at_block second (modifyE (\<lambda>b. b\<lparr>b_next := None\<rparr>)))
             (thenE (upd_bag g (\<lambda>B. B\<lparr>sizeInBlocks := sizeInBlocks B - 1\<rparr>))
               (returnE second))))
           else returnE None)
       else returnE None))"

definition addFullBlock :: "bag_id \<Rightarrow> bptr option \<Rightarrow> (mem, unit) cmd" where
  "addFullBlock g p =
     bindE (read_block p (\<lambda>b. (b_size b, b_next b))) (\<lambda>sn.
     thenE (assertE (fst sn = BLOCK_SIZE))
     (thenE (assertE (snd sn = None))
     (bindE (at_bag g bag_tail) (\<lambda>t.
     thenE (at_block t (modifyE (\<lambda>b. b\<lparr>b_next := p\<rparr>)))
       (upd_bag g (\<lambda>B. B\<lparr>bag_tail := p, sizeInBlocks := sizeInBlocks B + 1\<rparr>))))))"

text \<open>\<open>appendMoveFullBlocks(other, predecessor)\<close>\<close>

definition appendMoveBlocksAfter :: "bag_id \<Rightarrow> bag_id \<Rightarrow> bptr option \<Rightarrow> (mem, unit) cmd" where
  "appendMoveBlocksAfter g other predecessor =
     bindE (at_bag other id) (\<lambda>OB.
     thenE (assertE (bag_head OB \<noteq> None))
     (thenE (assertE (predecessor \<noteq> None))
     (bindE (read_block predecessor b_next) (\<lambda>q.
       if q \<noteq> None then
         bindE (read_block q block_isFull) (\<lambda>full.
         thenE (assertE full)
         (bindE (at_bag g bag_tail) (\<lambda>t.
         thenE (at_block t (modifyE (\<lambda>b. b\<lparr>b_next := q\<rparr>)))
         (thenE (upd_bag g (\<lambda>B. B\<lparr>bag_tail := bag_tail OB\<rparr>))
         (bindE (computeSizeInBlocks g) (\<lambda>n.
         thenE (upd_bag g (\<lambda>B. B\<lparr>sizeInBlocks := n\<rparr>))
         (thenE (at_block predecessor (modifyE (\<lambda>b. b\<lparr>b_next := None\<rparr>)))
         (thenE (upd_bag other (\<lambda>B. B\<lparr>bag_tail := predecessor\<rparr>))
         (bindE (computeSizeInBlocks other) (\<lambda>k.
           upd_bag other (\<lambda>B. B\<lparr>sizeInBlocks := k\<rparr>)))))))))))
       else returnE ()))))"

definition appendMoveFullBlocks :: "bag_id \<Rightarrow> bag_id \<Rightarrow> (mem, unit) cmd" where
  "appendMoveFullBlocks g other =
     bindE (at_bag other bag_head) (\<lambda>h. appendMoveBlocksAfter g other h)"

text \<open>The fuel bounds the number of items moved one by one.\<close>

primrec move_loop :: "nat \<Rightarrow> bag_id \<Rightarrow> bag_id \<Rightarrow> (mem, unit) cmd" where
  "move_loop 0 g other = throwE Diverges"
| "move_loop (Suc n) g other =
     bindE (bag_isEmpty other) (\<lambda>e.
       if e then returnE ()
       else bindE (bag_remove other) (\<lambda>x. thenE (bag_add g x) (move_loop n g other)))"

definition appendMoveAll :: "bag_id \<Rightarrow> bag_id \<Rightarrow> (mem, unit) cmd" where
  "appendMoveAll g other =
     thenE (appendMoveFullBlocks g other)
     (bindE (computeSize other) (\<lambda>n.
     thenE (move_loop (Suc n) g other)
     (bindE (computeSizeInBlocks g) (\<lambda>k. upd_bag g (\<lambda>B. B\<lparr>sizeInBlocks := k\<rparr>)))))"

text \<open>\<open>erase(curr, ix)\<close>, and its second half, when the head block has an item.\<close>

definition erase_item :: "bag_id \<Rightarrow> bptr option \<Rightarrow> nat \<Rightarrow> (mem, bool) cmd" where
  "erase_item g cur ix =
     bindE (at_bag g bag_head) (\<lambda>h.
     bindE (read_block h block_isEmpty) (\<lambda>he.
     thenE (assertE (\<not> he))
       (if cur = h then thenE (at_block h (modifyE (block_erase ix))) (returnE False)
        else bindE (at_block h block_pop) (\<lambda>x. thenE (at_block cur (block_replace ix x)) (returnE True)))))"

definition bag_erase :: "bag_id \<Rightarrow> bptr option \<Rightarrow> nat \<Rightarrow> (mem, bool) cmd" where
  "bag_erase g cur ix =
     bindE (bag_isEmpty g) (\<lambda>e.
     thenE (assertE (\<not> e))
     (bindE (read_block cur block_isEmpty) (\<lambda>ce.
     thenE (assertE (\<not> ce))
     (bindE (at_bag g bag_head) (\<lambda>h.
     bindE (read_block h block_isEmpty) (\<lambda>he.
     thenE (if he then thenE (assertE (cur \<noteq> h)) (drop_head g) else returnE ())
       (erase_item g cur ix)))))))"

primrec clear_loop :: "nat \<Rightarrow> nat \<Rightarrow> bptr option \<Rightarrow> (mem, unit) cmd" where
  "clear_loop 0 pool p = throwE Diverges"
| "clear_loop (Suc n) pool p =
     (if p = None then returnE ()
      else bindE (read_block p b_next) (\<lambda>q.
        thenE (at_block p (modifyE block_clearWithoutFreeingElements))
        (thenE (deallocateBlock pool p) (clear_loop n pool q))))"

definition clearWithoutFreeingElements :: "bag_id \<Rightarrow> (mem, unit) cmd" where
  "clearWithoutFreeingElements g =
     bindE (at_bag g id) (\<lambda>B.
     bindE (read_block (bag_head B) b_next) (\<lambda>q.
     bindE (getsE next_block) (\<lambda>n.
     thenE (clear_loop (Suc n) (bag_pool B) q)
     (thenE (at_block (bag_head B) (modifyE (\<lambda>b. b\<lparr>b_next := None\<rparr>)))
     (thenE (upd_bag g (\<lambda>B. B\<lparr>bag_tail := bag_head B\<rparr>))
     (thenE (at_block (bag_head B) (modifyE block_clearWithoutFreeingElements))
       (upd_bag g (\<lambda>B. B\<lparr>sizeInBlocks := 1\<rparr>))))))))"

text \<open>\<open>~blockbag\<close>: the bag is gone afterwards.\<close>

primrec free_loop :: "nat \<Rightarrow> nat \<Rightarrow> bptr option \<Rightarrow> (mem, unit) cmd" where
  "free_loop 0 pool p = throwE Diverges"
| "free_loop (Suc n) pool p =
     (if p = None then returnE ()
      else bindE (read_block p b_next) (\<lambda>q. thenE (deallocateBlock pool p) (free_loop n pool q)))"

definition delete_blockbag :: "bag_id \<Rightarrow> (mem, unit) cmd" where
  "delete_blockbag g =
     bindE (bag_isEmpty g) (\<lambda>e.
     thenE (assertE e)
     (bindE (at_bag g id) (\<lambda>B.
     bindE (getsE next_block) (\<lambda>n.
     thenE (free_loop (Suc n) (bag_pool B) (bag_head B))
       (modifyE (\<lambda>m. m\<lparr>bags := (bags m)(g := None)\<rparr>))))))"

section \<open>The shared bag\<close>

text \<open>
  The operations without interference: the compare-and-swap succeeds at once. Their steps under
  interference are the theory \<open>LockFreeBag\<close>.
\<close>

definition getBlock :: "(mem, bptr option) cmd" where
  "getBlock =
     bindE (getsE shared_head) (\<lambda>ptr.
       if ptr \<noteq> None then
         bindE (read_block ptr b_next) (\<lambda>q.
         thenE (modifyE (\<lambda>m. m\<lparr>shared_head := q, shared_tag := shared_tag m + 1\<rparr>))
         (thenE (at_block ptr (modifyE (\<lambda>b. b\<lparr>b_next := None\<rparr>)))
           (returnE ptr)))
       else returnE None)"

definition addBlock :: "bptr option \<Rightarrow> (mem, unit) cmd" where
  "addBlock p =
     bindE (getsE shared_head) (\<lambda>ptr.
     thenE (at_block p (modifyE (\<lambda>b. b\<lparr>b_next := ptr\<rparr>)))
       (modifyE (\<lambda>m. m\<lparr>shared_head := p, shared_tag := shared_tag m + 1\<rparr>)))"

definition shared_sizeInBlocks :: "(mem, nat) cmd" where
  "shared_sizeInBlocks = bindE (getsE shared_head) (\<lambda>p. bindE (getsE next_block) (\<lambda>n. blocks_loop (Suc n) p 0))"

definition shared_size :: "(mem, nat) cmd" where
  "shared_size = bindE (getsE shared_head) (\<lambda>p. bindE (getsE next_block) (\<lambda>n. size_of_loop (Suc n) p 0))"

section \<open>Bags that exchange blocks with the shared bag\<close>

definition new_obj :: "(mem, obj option) cmd" where
  "new_obj =
     bindE (getsE next_obj) (\<lambda>x.
     thenE (modifyE (\<lambda>m. m\<lparr>live_objs := x # live_objs m, next_obj := x + 1\<rparr>)) (returnE (Some x)))"

definition delete_obj :: "obj option \<Rightarrow> (mem, unit) cmd" where
  "delete_obj p = (case p of
       None \<Rightarrow> returnE ()
     | Some x \<Rightarrow> bindE (getsE live_objs) (\<lambda>l.
         if x \<in> set l then modifyE (\<lambda>m. m\<lparr>live_objs := remove1 x l\<rparr>) else throwE NullPointer))"

text \<open>\<open>add(tid, obj, sharedBag, thresh, alloc)\<close>\<close>

definition bag_add_sharing :: "bag_id \<Rightarrow> obj option \<Rightarrow> nat \<Rightarrow> (mem, unit) cmd" where
  "bag_add_sharing g x thresh =
     bindE (at_bag g id) (\<lambda>B.
     thenE (at_block (bag_head B) (block_push x))
     (bindE (read_block (bag_head B) block_isFull) (\<lambda>full.
       if full then
         bindE (allocateBlock (bag_pool B) (bag_head B)) (\<lambda>newblock.
         thenE (upd_bag g (\<lambda>B. B\<lparr>sizeInBlocks := sizeInBlocks B + 1, bag_head := Some newblock\<rparr>))
         (bindE (at_bag g sizeInBlocks) (\<lambda>n.
           if n > thresh then
             bindE (removeFullBlock g) (\<lambda>b. thenE (assertE (b \<noteq> None)) (addBlock b))
           else returnE ())))
       else returnE ())))"

text \<open>\<open>remove(tid, sharedBag, alloc)\<close>\<close>

definition bag_remove_sharing :: "bag_id \<Rightarrow> (mem, obj option) cmd" where
  "bag_remove_sharing g =
     bindE (at_bag g bag_head) (\<lambda>h.
     bindE (read_block h (\<lambda>b. (block_isEmpty b, b_next b))) (\<lambda>eq.
       if fst eq then
         if snd eq \<noteq> None then
           bindE (at_block (snd eq) block_pop) (\<lambda>result. thenE (drop_head g) (returnE result))
         else
           bindE getBlock (\<lambda>b.
             if b \<noteq> None then thenE (addFullBlock g b) (bag_remove g)
             else
               thenE (forE [0..<BLOCK_SIZE] (\<lambda>_. bindE new_obj (\<lambda>x. bag_add g x)))
               (bindE (at_bag g sizeInBlocks) (\<lambda>n. thenE (assertE (1 < n)) (bag_remove g))))
       else at_block h block_pop))"

end
