(* ===== verification/BagLayout.thy ===== *)
theory BagLayout
  imports BlockBag
begin

text \<open>
  The invariant of the bags: every bag, every pool and the shared bag is a chain of blocks, the
  chains do not meet, the head of a bag is not full and its other blocks are.
\<close>

section \<open>Chains\<close>

definition items :: "block \<Rightarrow> obj list" where
  "items b = map (\<lambda>j. the (b_data b j)) [0..<b_size b]"

definition block_ok :: "block \<Rightarrow> bool" where
  "block_ok b \<longleftrightarrow> b_size b \<le> BLOCK_SIZE \<and> (\<forall>j<b_size b. b_data b j \<noteq> None)"

definition bnext :: "(bptr \<rightharpoonup> block) \<Rightarrow> bptr \<Rightarrow> bptr option" where
  "bnext h a = Option.bind (h a) b_next"

lemma bnext_simps [simp]: "h a = Some b \<Longrightarrow> bnext h a = b_next b"
  by (simp add: bnext_def)

definition blocks_ok :: "(bptr \<rightharpoonup> block) \<Rightarrow> (nat \<Rightarrow> bool) \<Rightarrow> bptr list \<Rightarrow> bool" where
  "blocks_ok h Q P \<longleftrightarrow> (\<forall>p\<in>set P. \<exists>b. h p = Some b \<and> block_ok b \<and> Q (b_size b))"

definition contents_of :: "(bptr \<rightharpoonup> block) \<Rightarrow> bptr list \<Rightarrow> obj list" where
  "contents_of h P = concat (map (\<lambda>p. items (the (h p))) P)"

lemma contents_of_simps [simp]:
  "contents_of h [] = []" "contents_of h (p # P) = items (the (h p)) @ contents_of h P"
  "contents_of h (P @ P') = contents_of h P @ contents_of h P'"
  by (simp_all add: contents_of_def)

lemma contents_of_cong: "(\<And>p. p \<in> set P \<Longrightarrow> h' p = h p) \<Longrightarrow> contents_of h' P = contents_of h P"
  by (induction P) simp_all

lemma contents_of_upd [simp]: "a \<notin> set P \<Longrightarrow> contents_of (h(a := x)) P = contents_of h P"
  by (rule contents_of_cong) auto

lemma blocks_ok_cong: "(\<And>p. p \<in> set P \<Longrightarrow> h' p = h p) \<Longrightarrow> blocks_ok h' Q P = blocks_ok h Q P"
  by (auto simp: blocks_ok_def)

lemma blocks_ok_upd [simp]: "a \<notin> set P \<Longrightarrow> blocks_ok (h(a := x)) Q P = blocks_ok h Q P"
  by (rule blocks_ok_cong) auto

lemma blocks_ok_simps [simp]:
  "blocks_ok h Q []"
  "blocks_ok h Q (p # P) \<longleftrightarrow> (\<exists>b. h p = Some b \<and> block_ok b \<and> Q (b_size b)) \<and> blocks_ok h Q P"
  "blocks_ok h Q (P @ P') \<longleftrightarrow> blocks_ok h Q P \<and> blocks_ok h Q P'"
  by (auto simp: blocks_ok_def)

lemma path_bnext_cong:
  "(\<And>a. a \<in> set P \<Longrightarrow> h' a = h a) \<Longrightarrow> path (bnext h') p P q = path (bnext h) p P q"
  by (rule path_cong) (simp add: bnext_def)

lemma path_bnext_upd [simp]: "a \<notin> set P \<Longrightarrow> path (bnext (h(a := x))) p P q = path (bnext h) p P q"
  by (rule path_bnext_cong) auto

lemma items_simps [simp]:
  "items b = [] \<longleftrightarrow> b_size b = 0" "items (b\<lparr>b_next := q\<rparr>) = items b" "length (items b) = b_size b" "items (new_block q) = []"
  "block_ok (b\<lparr>b_next := q\<rparr>) = block_ok b" "block_ok (new_block q)" "b_size (new_block q) = 0"
  "b_next (new_block q) = q" "block_ok (b\<lparr>b_size := 0\<rparr>)" "items (b\<lparr>b_size := 0\<rparr>) = []"
  by (simp_all add: items_def block_ok_def new_block_def)

lemma items_push:
  "items (b\<lparr>b_data := (b_data b)(b_size b := Some x), b_size := Suc (b_size b)\<rparr>) = items b @ [x]"
  by (simp add: items_def)

lemma block_ok_push:
  "block_ok b \<Longrightarrow> b_size b < BLOCK_SIZE \<Longrightarrow>
   block_ok (b\<lparr>b_data := (b_data b)(b_size b := Some x), b_size := Suc (b_size b)\<rparr>)"
  by (auto simp: block_ok_def less_Suc_eq)

lemma items_pop:
  assumes "block_ok b" and "0 < b_size b"
  obtains x where "b_data b (b_size b - 1) = Some x" and "items b = items (b\<lparr>b_size := b_size b - 1\<rparr>) @ [x]"
    and "block_ok (b\<lparr>b_size := b_size b - 1\<rparr>)"
proof -
  obtain n where n: "b_size b = Suc n" using assms(2) by (cases "b_size b") auto
  with assms(1) obtain x where "b_data b n = Some x" by (auto simp: block_ok_def)
  with n assms(1) show ?thesis by (intro that [of x]) (auto simp: items_def block_ok_def)
qed

section \<open>Regions\<close>

datatype region = Bag bag_id | Pool nat | Shared

definition bag_ok :: "(bptr \<rightharpoonup> block) \<Rightarrow> blockbag \<Rightarrow> bptr list \<Rightarrow> bool" where
  "bag_ok h B P \<longleftrightarrow> P \<noteq> [] \<and> path (bnext h) (bag_head B) P None \<and> bag_tail B = Some (last P) \<and>
     sizeInBlocks B = length P \<and> blocks_ok h (\<lambda>n. n < BLOCK_SIZE) [hd P] \<and> blocks_ok h (\<lambda>n. n = BLOCK_SIZE) (tl P)"

text \<open>The bags of \<open>H\<close> are under construction: their blocks belong to no region.\<close>

definition region_ok :: "bag_id set \<Rightarrow> mem \<Rightarrow> region \<Rightarrow> bptr list \<Rightarrow> bool" where
  "region_ok H m r P = (case r of
      Bag g \<Rightarrow> if g \<in> H then P = [] else (case bags m g of None \<Rightarrow> P = [] | Some B \<Rightarrow> bag_ok (blocks m) B P)
    | Pool t \<Rightarrow> P = mem_pools m t \<and> distinct P \<and> length P \<le> MAX_BLOCK_POOL_SIZE \<and> blocks_ok (blocks m) (\<lambda>n. n = 0) P
    | Shared \<Rightarrow> path (bnext (blocks m)) (shared_head m) P None \<and> blocks_ok (blocks m) (\<lambda>n. n = BLOCK_SIZE) P)"

definition layout :: "bag_id set \<Rightarrow> mem \<Rightarrow> (region \<Rightarrow> bptr list) \<Rightarrow> bool" where
  "layout H m F \<longleftrightarrow> (\<forall>r. region_ok H m r (F r)) \<and> (\<forall>r r'. r \<noteq> r' \<longrightarrow> set (F r) \<inter> set (F r') = {}) \<and>
     (\<forall>a. a \<in> dom (blocks m) \<longrightarrow> a < next_block m)"

text \<open>What an operation leaves alone.\<close>

definition frame :: "region set \<Rightarrow> mem \<Rightarrow> (region \<Rightarrow> bptr list) \<Rightarrow> mem \<Rightarrow> (region \<Rightarrow> bptr list) \<Rightarrow> bool" where
  "frame R m F m' F' \<longleftrightarrow> (\<forall>r. r \<notin> R \<longrightarrow> F' r = F r \<and> (\<forall>p\<in>set (F r). blocks m' p = blocks m p)) \<and>
     (\<forall>g. Bag g \<notin> R \<longrightarrow> bags m' g = bags m g) \<and> (\<forall>t. Pool t \<notin> R \<longrightarrow> mem_pools m' t = mem_pools m t) \<and>
     (Shared \<notin> R \<longrightarrow> shared_head m' = shared_head m) \<and> next_block m \<le> next_block m' \<and>
     live_objs m' = live_objs m \<and> next_obj m' = next_obj m"

lemma frame_refl [simp]: "frame R m F m F"
  by (simp add: frame_def)

lemma frame_trans:
  assumes "frame R m F m1 F1" and "frame R' m1 F1 m2 F2"
  shows "frame (R \<union> R') m F m2 F2"
  using assms unfolding frame_def by (fastforce elim: le_trans)

lemma frame_mono: "frame R m F m' F' \<Longrightarrow> R \<subseteq> R' \<Longrightarrow> frame R' m F m' F'"
  unfolding frame_def by blast

lemma bag_ok_cong:
  assumes "\<And>a. a \<in> set P \<Longrightarrow> h' a = h a"
  shows "bag_ok h' B P = bag_ok h B P"
proof (cases P)
  case (Cons a Q)
  have "path (bnext h') (bag_head B) P None = path (bnext h) (bag_head B) P None"
    using assms by (rule path_bnext_cong)
  moreover have "blocks_ok h' R [hd P] = blocks_ok h R [hd P]" "blocks_ok h' R (tl P) = blocks_ok h R (tl P)" for R
    using assms Cons by (auto intro!: blocks_ok_cong)
  ultimately show ?thesis unfolding bag_ok_def by (simp only:)
qed (simp add: bag_ok_def)

lemma region_frame:
  assumes "frame R m F m' F'" and "r \<notin> R"
  shows "region_ok H m' r (F' r) = region_ok H m r (F r)"
proof -
  have F: "F' r = F r" and h: "\<And>p. p \<in> set (F r) \<Longrightarrow> blocks m' p = blocks m p"
    using assms by (auto simp: frame_def)
  have cong: "\<forall>B. bag_ok (blocks m') B (F r) = bag_ok (blocks m) B (F r)"
    "\<forall>Q. blocks_ok (blocks m') Q (F r) = blocks_ok (blocks m) Q (F r)"
    "\<forall>p q. path (bnext (blocks m')) p (F r) q = path (bnext (blocks m)) p (F r) q"
    by (simp_all add: bag_ok_cong [of "F r" "blocks m'" "blocks m"] h blocks_ok_cong [of "F r" "blocks m'" "blocks m"]
        path_bnext_cong [of "F r" "blocks m'" "blocks m"])
  show ?thesis
    using assms cong F by (cases r) (simp_all add: region_ok_def frame_def split: option.splits if_splits)
qed

lemma layoutD:
  assumes "layout H m F"
  shows "region_ok H m r (F r)" and "r \<noteq> r' \<Longrightarrow> p \<in> set (F r) \<Longrightarrow> p \<notin> set (F r')"
    and "blocks m a = Some b \<Longrightarrow> a < next_block m"
  using assms unfolding layout_def by blast+

lemma region_dom: "region_ok H m r P \<Longrightarrow> p \<in> set P \<Longrightarrow> \<exists>b. blocks m p = Some b"
  by (cases r) (auto simp: region_ok_def bag_ok_def blocks_ok_def split: option.splits if_splits, metis list.collapse set_ConsD)

text \<open>
  A change inside the regions \<open>R\<close>, possibly with blocks that were in no region.
\<close>

lemma layout_frame:
  assumes "layout H m F" and "frame R m F m' F'"
    and "\<And>r. r \<in> R \<Longrightarrow> region_ok H m' r (F' r)"
    and "\<And>r r'. r \<in> R \<Longrightarrow> r' \<in> R \<Longrightarrow> r \<noteq> r' \<Longrightarrow> set (F' r) \<inter> set (F' r') = {}"
    and "\<And>r r' p. r \<in> R \<Longrightarrow> p \<in> set (F' r) \<Longrightarrow> r' \<notin> R \<Longrightarrow> p \<notin> set (F r')"
    and "\<And>a. a \<in> dom (blocks m') \<Longrightarrow> a < next_block m'"
  shows "layout H m' F'"
proof -
  have same: "F' r = F r" if "r \<notin> R" for r using assms(2) that by (simp add: frame_def)
  have "region_ok H m' r (F' r)" for r
    using assms(3) region_frame [OF assms(2)] layoutD(1) [OF assms(1)] by (cases "r \<in> R") auto
  moreover have "set (F' r) \<inter> set (F' r') = {}" if "r \<noteq> r'" for r r'
  proof (cases "r \<in> R"; cases "r' \<in> R")
    assume "r \<notin> R" "r' \<notin> R"
    with same that assms(1) show ?thesis by (simp add: layout_def)
  next
    assume "r \<in> R" "r' \<notin> R"
    with same assms(5) show ?thesis by auto
  next
    assume "r \<notin> R" "r' \<in> R"
    with same assms(5) show ?thesis by auto
  qed (use that assms(4) in auto)
  ultimately show ?thesis using assms(6) unfolding layout_def by blast
qed

section \<open>Blocks in and out of the pools\<close>

text \<open>A block is loose when it belongs to no region.\<close>

definition loose :: "(region \<Rightarrow> bptr list) \<Rightarrow> bptr \<Rightarrow> bool" where
  "loose F a \<longleftrightarrow> (\<forall>r. a \<notin> set (F r))"

lemma loose_updI: "loose F p \<Longrightarrow> p \<notin> set P \<Longrightarrow> loose (F(r := P)) p"
  by (simp add: loose_def)

lemma block_evals [run_simps]:
  "at_block (Some a) c m = (case blocks m a of None \<Rightarrow> (Throw NullPointer, m)
     | Some b \<Rightarrow> (case c b of (r, b') \<Rightarrow> (r, m\<lparr>blocks := (blocks m)(a \<mapsto> b')\<rparr>)))"
  "at_block None c m = (Throw NullPointer, m)"
  by (simp_all add: at_block_def)

lemma read_block_eval [run_simps]:
  "blocks m a = Some b \<Longrightarrow> read_block (Some a) f m = (Ok (f b), m)"
  by (simp add: read_block_def block_evals getsE_def fun_upd_idem)

lemma bag_evals [run_simps]:
  "at_bag g f m = (case bags m g of None \<Rightarrow> (Throw NullPointer, m) | Some B \<Rightarrow> (Ok (f B), m))"
  "upd_bag g k m = (case bags m g of None \<Rightarrow> (Throw NullPointer, m)
     | Some B \<Rightarrow> (Ok (), m\<lparr>bags := (bags m)(g \<mapsto> k B)\<rparr>))"
  by (simp_all add: at_bag_def upd_bag_def)

lemma layout_upd:
  assumes "layout H m F" and "frame {r} m F m' (F(r := P))" and "region_ok H m' r P"
    and "\<And>p. p \<in> set P \<Longrightarrow> p \<in> set (F r) \<or> loose F p" and "\<And>a. a \<in> dom (blocks m') \<Longrightarrow> a < next_block m'"
  shows "layout H m' (F(r := P))"
proof (rule layout_frame [OF assms(1,2)])
  show "p \<notin> set (F r')" if "r'' \<in> {r}" "p \<in> set ((F(r := P)) r'')" "r' \<notin> {r}" for r'' r' p
    using assms(4) [of p] layoutD(2) [OF assms(1), of r r' p] that by (auto simp: loose_def)
qed (use assms(3,5) in auto)

lemma layout_upd_pool:
  assumes "layout H m F" and "region_ok H m' (Pool t) P" and "\<And>p. p \<in> set P \<Longrightarrow> p \<in> set (F (Pool t)) \<or> loose F p"
    and "\<And>p. \<not> loose F p \<Longrightarrow> p \<notin> set (F (Pool t)) \<Longrightarrow> blocks m' p = blocks m p"
    and "bags m' = bags m" "shared_head m' = shared_head m" "\<And>u. u \<noteq> t \<Longrightarrow> mem_pools m' u = mem_pools m u"
    and "next_block m \<le> next_block m'" "\<And>a. a \<in> dom (blocks m') \<Longrightarrow> a < next_block m'"
    and "live_objs m' = live_objs m" "next_obj m' = next_obj m"
  shows "layout H m' (F(Pool t := P))" and "frame {Pool t} m F m' (F(Pool t := P))"
proof -
  have "blocks m' p = blocks m p" if "p \<in> set (F r)" "r \<noteq> Pool t" for p r
    using assms(4) [of p] layoutD(2) [OF assms(1) that(2,1)] that by (auto simp: loose_def)
  then show f: "frame {Pool t} m F m' (F(Pool t := P))" using assms(5-8,10,11) by (auto simp: frame_def)
  show "layout H m' (F(Pool t := P))"
    by (rule layout_upd [OF assms(1) f assms(2)]) (use assms(3,9) in auto)
qed

lemma allocateBlock_run:
  assumes "layout H m F"
  obtains a m' F' where "allocateBlock t q m = (Ok a, m')" and "layout H m' F'" and "frame {Pool t} m F m' F'"
    and "loose F' a" and "blocks m' = (blocks m)(a \<mapsto> new_block q)" and "bags m' = bags m"
    and "\<forall>p. loose F p \<longrightarrow> p < next_block m \<longrightarrow> loose F' p \<and> p \<noteq> a"
proof (cases "mem_pools m t = []")
  case True
  let ?a = "next_block m"
  let ?m = "m\<lparr>blocks := (blocks m)(?a \<mapsto> new_block q), next_block := ?a + 1\<rparr>"
  have new: "?a \<notin> set (F r)" for r
    using region_dom [OF layoutD(1) [OF assms]] layoutD(3) [OF assms] by blast
  have P: "F (Pool t) = []" using layoutD(1) [OF assms, of "Pool t"] True by (simp add: region_ok_def)
  have "layout H ?m (F(Pool t := []))" "frame {Pool t} m F ?m (F(Pool t := []))"
    by (rule layout_upd_pool [OF assms]; use True new layoutD(3) [OF assms] in
        \<open>auto simp: region_ok_def loose_def less_SucI split: if_splits\<close>)+
  then show thesis
    by (rule that [rotated]) (use True new P in \<open>auto simp: allocateBlock_def run_simps loose_def\<close>)
next
  case False
  let ?ps = "mem_pools m t" let ?a = "last ?ps" let ?P = "butlast ?ps"
  let ?m = "m\<lparr>blocks := (blocks m)(?a \<mapsto> new_block q), mem_pools := (mem_pools m)(t := ?P)\<rparr>"
  have P: "F (Pool t) = ?ps" "distinct ?ps" "length ?ps \<le> MAX_BLOCK_POOL_SIZE" "blocks_ok (blocks m) (\<lambda>n. n = 0) ?ps"
    using layoutD(1) [OF assms, of "Pool t"] by (auto simp: region_ok_def)
  have ps: "?ps = ?P @ [?a]" using False by simp
  have a: "?a \<in> set (F (Pool t))" "?a \<notin> set ?P" using False P(1,2) ps
    by (auto, metis distinct_append not_distinct_conv_prefix)
  have new: "?a \<notin> set (F r)" if "r \<noteq> Pool t" for r
    using layoutD(2) [OF assms that [symmetric] a(1)] .
  have ok: "blocks_ok (blocks m) (\<lambda>n. n = 0) ?P" "distinct ?P" using P(2,4) ps
    by (metis blocks_ok_simps(3), simp add: distinct_butlast)
  obtain b where b: "blocks m ?a = Some b" using region_dom [OF layoutD(1) [OF assms] a(1)] by blast
  have "layout H ?m (F(Pool t := ?P))" "frame {Pool t} m F ?m (F(Pool t := ?P))"
    by (rule layout_upd_pool [OF assms]; use P a ok layoutD(3) [OF assms] b in
        \<open>auto simp: region_ok_def loose_def dest: in_set_butlastD split: if_splits\<close>)+
  then show thesis
    by (rule that [rotated]) (use False new a b in \<open>auto simp: allocateBlock_def run_simps loose_def dest: in_set_butlastD last_in_set simp flip: P(1)\<close>)
qed

lemma deallocateBlock_run:
  assumes "layout H m F" and "loose F a" and "blocks m a = Some b" and "b_size b = 0"
  obtains m' F' where "deallocateBlock t (Some a) m = (Ok (), m')" and "layout H m' F'" and "frame {Pool t} m F m' F'"
    and "\<forall>p. p \<noteq> a \<longrightarrow> blocks m' p = blocks m p" and "bags m' = bags m" and "\<forall>p. loose F p \<longrightarrow> p \<noteq> a \<longrightarrow> loose F' p"
proof (cases "length (mem_pools m t) = MAX_BLOCK_POOL_SIZE")
  case True
  let ?m = "m\<lparr>blocks := (blocks m)(a := None)\<rparr>"
  have P: "F (Pool t) = mem_pools m t" and ok: "region_ok H m (Pool t) (F (Pool t))"
    using layoutD(1) [OF assms(1), of "Pool t"] by (auto simp: region_ok_def)
  have "a \<notin> set (mem_pools m t)" using assms(2) P by (metis loose_def)
  then have "region_ok H ?m (Pool t) (F (Pool t))"
    using ok P by (simp add: region_ok_def)
  then have "layout H ?m (F(Pool t := F (Pool t)))" "frame {Pool t} m F ?m (F(Pool t := F (Pool t)))"
    by (rule layout_upd_pool [OF assms(1)]; use assms(2) layoutD(3) [OF assms(1)] in
        \<open>auto simp: loose_def split: if_splits\<close>)+
  then show thesis
    by (rule that [rotated]) (use True assms in \<open>auto simp: deallocateBlock_def delete_block_def run_simps block_isEmpty_def loose_def\<close>)
next
  case False
  let ?P = "mem_pools m t @ [a]"
  let ?m = "m\<lparr>mem_pools := (mem_pools m)(t := ?P)\<rparr>"
  have P: "F (Pool t) = mem_pools m t" and ok: "region_ok H m (Pool t) (F (Pool t))"
    using layoutD(1) [OF assms(1), of "Pool t"] by (auto simp: region_ok_def)
  have "a \<notin> set (mem_pools m t)" using assms(2) P by (metis loose_def)
  then have "region_ok H ?m (Pool t) ?P"
    using ok P assms(3,4) False by (auto simp: region_ok_def block_ok_def)
  then have "layout H ?m (F(Pool t := ?P))" "frame {Pool t} m F ?m (F(Pool t := ?P))"
    by (rule layout_upd_pool [OF assms(1)]; use assms(2) P layoutD(3) [OF assms(1)] in
        \<open>auto simp: loose_def split: if_splits\<close>)+
  then show thesis
    by (rule that [rotated]) (use False assms in \<open>auto simp: deallocateBlock_def run_simps block_isEmpty_def loose_def simp flip: P\<close>)
qed

section \<open>Opening and closing a bag\<close>

lemma layout_loose_upd:
  assumes "layout H m F" and "loose F a" and "a < next_block m"
  shows "layout H (m\<lparr>blocks := (blocks m)(a := x)\<rparr>) F" and "frame {} m F (m\<lparr>blocks := (blocks m)(a := x)\<rparr>) F"
proof -
  let ?m = "m\<lparr>blocks := (blocks m)(a := x)\<rparr>"
  show f: "frame {} m F ?m F" using assms(2) by (auto simp: frame_def loose_def)
  show "layout H ?m F" by (rule layout_frame [OF assms(1) f]) (use assms(3) layoutD(3) [OF assms(1)] in \<open>auto split: if_splits\<close>)
qed

lemma layout_hide:
  assumes "layout H m F"
  shows "layout (insert g H) m (F(Bag g := []))" and "frame {Bag g} m F m (F(Bag g := []))"
    and "p \<in> set (F (Bag g)) \<Longrightarrow> loose (F(Bag g := [])) p" and "loose F p \<Longrightarrow> loose (F(Bag g := [])) p"
proof -
  have "region_ok (insert g H) m r ((F(Bag g := [])) r)" for r
    using layoutD(1) [OF assms, of r] by (cases r) (auto simp: region_ok_def)
  moreover have "set ((F(Bag g := [])) r) \<inter> set ((F(Bag g := [])) r') = {}" if "r \<noteq> r'" for r r'
    using layoutD(2) [OF assms that] by auto
  ultimately show "layout (insert g H) m (F(Bag g := []))" using layoutD(3) [OF assms] unfolding layout_def by blast
  show "loose (F(Bag g := [])) p" if "p \<in> set (F (Bag g))"
    using layoutD(2) [OF assms _ that] by (auto simp: loose_def)
qed (auto simp: frame_def loose_def)

lemma layout_hidden_bag:
  assumes "layout H m F" and "g \<in> H"
  shows "layout H (m\<lparr>bags := (bags m)(g := X)\<rparr>) F" and "frame {Bag g} m F (m\<lparr>bags := (bags m)(g := X)\<rparr>) F"
proof -
  let ?m = "m\<lparr>bags := (bags m)(g := X)\<rparr>"
  show f: "frame {Bag g} m F ?m F" by (auto simp: frame_def)
  have "region_ok H ?m (Bag g) (F (Bag g))"
    using layoutD(1) [OF assms(1), of "Bag g"] assms(2) by (simp add: region_ok_def)
  then show "layout H ?m F"
    by (intro layout_frame [OF assms(1) f]) (use layoutD(2,3) [OF assms(1)] in auto)
qed

lemma layout_unhide:
  assumes "layout (insert g H) m F" and "g \<notin> H" and "bags m g = Some B" and "bag_ok (blocks m) B P"
    and "\<And>p. p \<in> set P \<Longrightarrow> loose F p"
  shows "layout H m (F(Bag g := P))" and "frame {Bag g} m F m (F(Bag g := P))"
proof -
  show "frame {Bag g} m F m (F(Bag g := P))" by (auto simp: frame_def)
  have "region_ok H m r ((F(Bag g := P)) r)" for r
    using layoutD(1) [OF assms(1), of r] assms(2-4) by (cases r) (auto simp: region_ok_def split: if_splits)
  moreover have "set ((F(Bag g := P)) r) \<inter> set ((F(Bag g := P)) r') = {}" if "r \<noteq> r'" for r r'
    using layoutD(2) [OF assms(1) that] assms(5) that by (auto simp: loose_def)
  ultimately show "layout H m (F(Bag g := P))" using layoutD(3) [OF assms(1)] unfolding layout_def by blast
qed

lemmas layout_open = layout_hide(1) layout_loose_upd(1) layout_hidden_bag(1)
  and frame_open = layout_hide(2) layout_loose_upd(2) layout_hidden_bag(2)

end
