(* ===== verification/BagOps.thy ===== *)
theory BagOps
  imports BagLayout
begin

text \<open>
  What the operations of a bag do: they return, keep the invariant, change nothing but the bag
  and its pool, and act on the items of the bag as on a multiset.
\<close>

section \<open>One bag\<close>

lemma bag_regionD: "layout {} m F \<Longrightarrow> bags m g = Some B \<Longrightarrow> bag_ok (blocks m) B (F (Bag g))"
  using layoutD(1) [of "{}" m F "Bag g"] by (simp add: region_ok_def)

lemma bag_okE:
  assumes "bag_ok h B P"
  obtains a Q b where "P = a # Q" and "bag_head B = Some a" and "h a = Some b" and "block_ok b" and "b_size b < BLOCK_SIZE"
    and "path (bnext h) (b_next b) Q None" and "a \<notin> set Q" and "blocks_ok h (\<lambda>n. n = BLOCK_SIZE) Q"
    and "bag_tail B = Some (last P)" and "sizeInBlocks B = length P"
proof -
  have p: "path (bnext h) (bag_head B) P None" using assms by (simp add: bag_ok_def)
  obtain a Q where P: "P = a # Q" using assms by (cases P) (auto simp: bag_ok_def)
  obtain b where "h a = Some b" "block_ok b" "b_size b < BLOCK_SIZE" using assms P by (auto simp: bag_ok_def)
  with assms p P path_distinct [OF p] show ?thesis by (intro that [of a Q b]) (auto simp: bag_ok_def)
qed

text \<open>Only blocks of the bag change.\<close>

lemma layout_upd_bag:
  assumes "layout {} m F" and "blocks m' = (blocks m)(a \<mapsto> b)" and "a \<in> set (F (Bag g))"
    and "m' = m\<lparr>blocks := blocks m', bags := (bags m)(g \<mapsto> B')\<rparr>" and "bag_ok (blocks m') B' P" and "set P \<subseteq> set (F (Bag g))"
  shows "layout {} m' (F(Bag g := P))" and "frame {Bag g} m F m' (F(Bag g := P))"
proof -
  note opn = layout_hide [OF assms(1), where g = g]
  let ?m = "m\<lparr>blocks := (blocks m)(a \<mapsto> b)\<rparr>"
  have lt: "a < next_block m" using region_dom [OF layoutD(1) [OF assms(1)] assms(3)] layoutD(3) [OF assms(1)] by blast
  have 1: "layout {g} ?m (F(Bag g := []))" "frame {} m (F(Bag g := [])) ?m (F(Bag g := []))"
    by (rule layout_loose_upd [OF opn(1) opn(3) [OF assms(3)] lt])+
  have m': "m' = ?m\<lparr>bags := (bags ?m)(g \<mapsto> B')\<rparr>" using assms(2,4) by simp
  have 2: "layout {g} m' (F(Bag g := []))" "frame {Bag g} ?m (F(Bag g := [])) m' (F(Bag g := []))"
    unfolding m' by (rule layout_hidden_bag [OF 1(1)]; simp)+
  have 3: "layout {} m' ((F(Bag g := []))(Bag g := P))" "frame {Bag g} m' (F(Bag g := [])) m' ((F(Bag g := []))(Bag g := P))"
    by (rule layout_unhide [OF 2(1) _ _ assms(5)]; use assms(6) opn(3) m' in auto)+
  show "layout {} m' (F(Bag g := P))" "frame {Bag g} m F m' (F(Bag g := P))"
    using 3(1) frame_trans [OF frame_trans [OF frame_trans [OF opn(2) 1(2)] 2(2)] 3(2)] by simp_all
qed

lemma bag_add_run:
  assumes "layout {} m F" and "bags m g = Some B"
  obtains m' F' where "bag_add g (Some x) m = (Ok (), m')" and "layout {} m' F'"
    and "frame {Bag g, Pool (bag_pool B)} m F m' F'"
    and "mset (contents_of (blocks m') (F' (Bag g))) = add_mset x (mset (contents_of (blocks m) (F (Bag g))))"
    and "\<exists>B'. bags m' g = Some B' \<and> bag_pool B' = bag_pool B"
proof -
  let ?h = "blocks m"
  obtain a Q b where P: "F (Bag g) = a # Q" and a: "bag_head B = Some a" "?h a = Some b" "block_ok b" "b_size b < BLOCK_SIZE"
    and Q: "path (bnext ?h) (b_next b) Q None" "a \<notin> set Q" "blocks_ok ?h (\<lambda>n. n = BLOCK_SIZE) Q"
    and tl: "bag_tail B = Some (last (F (Bag g)))" "sizeInBlocks B = length (F (Bag g))"
    using bag_regionD [OF assms] by (rule bag_okE)
  let ?b = "b\<lparr>b_data := (b_data b)(b_size b := Some x), b_size := Suc (b_size b)\<rparr>"
  let ?m = "m\<lparr>blocks := ?h(a \<mapsto> ?b)\<rparr>"
  have push: "at_block (Some a) (block_push (Some x)) m = (Ok (), ?m)"
    using a by (simp add: run_simps block_push_def)
  have bok: "block_ok ?b" and it: "items ?b = items b @ [x]"
    using block_ok_push [OF a(3,4)] items_push by auto
  show thesis
  proof (cases "Suc (b_size b) = BLOCK_SIZE")
    case False
    then have ok: "bag_ok (blocks ?m) B (a # Q)"
      using a Q tl P bok by (auto simp: bag_ok_def)
    have L: "layout {} ?m (F(Bag g := a # Q))" "frame {Bag g} m F ?m (F(Bag g := a # Q))"
      by (rule layout_upd_bag [OF assms(1) _ _ _ ok]; use P assms(2) in \<open>auto simp: fun_upd_idem\<close>)+
    show thesis
      by (rule that [OF _ L(1) frame_mono [OF L(2)]])
        (use push a assms(2) False P it Q(2) in \<open>auto simp: bag_add_def run_simps block_isFull_def\<close>)
  next
    case True
    note opn = layout_hide [OF assms(1), where g = g]
    let ?F = "F(Bag g := [])" let ?t = "bag_pool B"
    have lt: "p < next_block m" if "p \<in> set (F (Bag g))" for p
      using region_dom [OF layoutD(1) [OF assms(1)] that] layoutD(3) [OF assms(1)] by blast
    have la: "loose ?F a" "\<forall>p\<in>set Q. loose ?F p" using opn(3) P by auto
    note 1 = layout_loose_upd [OF opn(1) la(1) lt [of a, unfolded P, simplified], of "Some ?b"]
    obtain c m2 F2 where c: "allocateBlock ?t (Some a) ?m = (Ok c, m2)" "layout {g} m2 F2" "frame {Pool ?t} ?m ?F m2 F2"
      "loose F2 c" "blocks m2 = (blocks ?m)(c \<mapsto> new_block (Some a))" "bags m2 = bags ?m"
      "\<forall>p. loose ?F p \<longrightarrow> p < next_block ?m \<longrightarrow> loose F2 p \<and> p \<noteq> c"
      using 1(1) by (rule allocateBlock_run [where t = ?t and q = "Some a"])
    let ?B = "B\<lparr>sizeInBlocks := Suc (sizeInBlocks B), bag_head := Some c\<rparr>"
    let ?m3 = "m2\<lparr>bags := (bags m2)(g \<mapsto> ?B)\<rparr>"
    note 3 = layout_hidden_bag [OF c(2), of g "Some ?B"]
    have ca: "c \<noteq> a" "c \<notin> set Q" "\<forall>p\<in>set (a # Q). loose F2 p" using c(7) la lt P by fastforce+
    have ok: "bag_ok (blocks ?m3) ?B (c # a # Q)"
      using a Q tl P bok c(5) ca True by (auto simp: bag_ok_def)
    have 4: "layout {} ?m3 (F2(Bag g := c # a # Q))" "frame {Bag g} ?m3 F2 ?m3 (F2(Bag g := c # a # Q))"
      by (rule layout_unhide [OF 3(1) _ _ ok]; use c(4) ca(3) in auto)+
    have f: "frame {Bag g, Pool ?t} m F ?m3 (F2(Bag g := c # a # Q))"
      using frame_trans [OF frame_trans [OF frame_trans [OF frame_trans [OF opn(2) 1(2)] c(3)] 3(2)] 4(2)]
      by (simp add: insert_commute)
    show thesis
      by (rule that [OF _ 4(1) f])
        (use push c(1,5,6) a assms(2) True P it Q(2) ca in \<open>auto simp: bag_add_def run_simps block_isFull_def\<close>)
  qed
qed

lemma bag_lt: "layout H m F \<Longrightarrow> p \<in> set (F r) \<Longrightarrow> p < next_block m"
  using region_dom [OF layoutD(1)] layoutD(3) by blast

text \<open>Dropping the empty head block of a bag that is open.\<close>

lemma drop_head_run:
  assumes "layout H m F" and "g \<in> H" and "bags m g = Some B" and "bag_head B = Some a" and "loose F a"
    and "blocks m a = Some b" and "b_size b = 0"
  obtains m' F' where "drop_head g m = (Ok (), m')" and "layout H m' F'" and "frame {Bag g, Pool (bag_pool B)} m F m' F'"
    and "\<forall>p. p \<noteq> a \<longrightarrow> blocks m' p = blocks m p" and "\<forall>p. loose F p \<longrightarrow> p \<noteq> a \<longrightarrow> loose F' p"
    and "bags m' = (bags m)(g \<mapsto> B\<lparr>bag_head := b_next b, sizeInBlocks := sizeInBlocks B - 1\<rparr>)"
proof -
  let ?t = "bag_pool B" let ?B = "B\<lparr>bag_head := b_next b\<rparr>"
  let ?m = "m\<lparr>bags := (bags m)(g \<mapsto> ?B)\<rparr>"
  note 1 = layout_hidden_bag [OF assms(1,2), of "Some ?B"]
  obtain m2 F2 where 2: "deallocateBlock ?t (Some a) ?m = (Ok (), m2)" "layout H m2 F2" "frame {Pool ?t} ?m F m2 F2"
    "\<forall>p. p \<noteq> a \<longrightarrow> blocks m2 p = blocks ?m p" "bags m2 = bags ?m" "\<forall>p. loose F p \<longrightarrow> p \<noteq> a \<longrightarrow> loose F2 p"
    using 1(1) assms(5) by (rule deallocateBlock_run [where t = ?t and b = b]) (use assms(6,7) in simp_all)
  let ?B2 = "?B\<lparr>sizeInBlocks := sizeInBlocks B - 1\<rparr>"
  note 3 = layout_hidden_bag [OF 2(2) assms(2), of "Some ?B2"]
  have "frame {Bag g, Pool ?t} m F (m2\<lparr>bags := (bags m2)(g \<mapsto> ?B2)\<rparr>) F2"
    using frame_trans [OF frame_trans [OF 1(2) 2(3)] 3(2)] by (simp add: insert_commute)
  with 3(1) show thesis
    by (rule that [rotated]) (use 2 assms in \<open>auto simp: drop_head_def run_simps\<close>)
qed

lemma bag_isEmpty_run:
  assumes "layout {} m F" and "bags m g = Some B"
  shows "bag_isEmpty g m = (Ok (contents_of (blocks m) (F (Bag g)) = []), m)"
proof -
  obtain a Q b where P: "F (Bag g) = a # Q" and a: "bag_head B = Some a" "blocks m a = Some b"
    and Q: "path (bnext (blocks m)) (b_next b) Q None" "blocks_ok (blocks m) (\<lambda>n. n = BLOCK_SIZE) Q"
    using bag_regionD [OF assms] by (rule bag_okE)
  have "contents_of (blocks m) Q = [] \<longleftrightarrow> Q = []"
    using Q(2) by (cases Q) auto
  moreover have "Q = [] \<longleftrightarrow> b_next b = None" using Q(1) by (cases Q) auto
  ultimately show ?thesis
    using P a assms(2) by (auto simp: bag_isEmpty_def run_simps block_isEmpty_def)
qed

lemma block_pop_run:
  assumes "blocks m a = Some b" and "block_ok b" and "0 < b_size b"
  obtains x where "at_block (Some a) block_pop m = (Ok (Some x), m\<lparr>blocks := (blocks m)(a \<mapsto> b\<lparr>b_size := b_size b - 1\<rparr>)\<rparr>)"
    and "items b = items (b\<lparr>b_size := b_size b - 1\<rparr>) @ [x]" and "block_ok (b\<lparr>b_size := b_size b - 1\<rparr>)"
  by (rule items_pop [OF assms(2,3)]) (use assms in \<open>auto simp: block_pop_def run_simps\<close>)

lemma bag_remove_run:
  assumes "layout {} m F" and "bags m g = Some B" and "contents_of (blocks m) (F (Bag g)) \<noteq> []"
  obtains x m' F' where "bag_remove g m = (Ok (Some x), m')" and "layout {} m' F'"
    and "frame {Bag g, Pool (bag_pool B)} m F m' F'"
    and "mset (contents_of (blocks m) (F (Bag g))) = add_mset x (mset (contents_of (blocks m') (F' (Bag g))))"
    and "\<exists>B'. bags m' g = Some B' \<and> bag_pool B' = bag_pool B"
proof -
  let ?h = "blocks m"
  obtain a Q b where P: "F (Bag g) = a # Q" and a: "bag_head B = Some a" "?h a = Some b" "block_ok b" "b_size b < BLOCK_SIZE"
    and Q: "path (bnext ?h) (b_next b) Q None" "a \<notin> set Q" "blocks_ok ?h (\<lambda>n. n = BLOCK_SIZE) Q"
    and tl: "bag_tail B = Some (last (F (Bag g)))" "sizeInBlocks B = length (F (Bag g))"
    using bag_regionD [OF assms(1,2)] by (rule bag_okE)
  have empty: "bag_isEmpty g m = (Ok False, m)" using bag_isEmpty_run [OF assms(1,2)] assms(3) by simp
  show thesis
  proof (cases "b_size b = 0")
    case False
    obtain x where x: "at_block (Some a) block_pop m = (Ok (Some x), m\<lparr>blocks := ?h(a \<mapsto> b\<lparr>b_size := b_size b - 1\<rparr>)\<rparr>)"
      "items b = items (b\<lparr>b_size := b_size b - 1\<rparr>) @ [x]" "block_ok (b\<lparr>b_size := b_size b - 1\<rparr>)"
      using block_pop_run [OF a(2,3)] False by auto
    let ?m = "m\<lparr>blocks := ?h(a \<mapsto> b\<lparr>b_size := b_size b - 1\<rparr>)\<rparr>"
    have ok: "bag_ok (blocks ?m) B (a # Q)"
      using a Q tl P x(3) by (auto simp: bag_ok_def)
    have L: "layout {} ?m (F(Bag g := a # Q))" "frame {Bag g} m F ?m (F(Bag g := a # Q))"
      by (rule layout_upd_bag [OF assms(1) _ _ _ ok]; use P assms(2) in \<open>auto simp: fun_upd_idem\<close>)+
    show thesis
      by (rule that [OF _ L(1) frame_mono [OF L(2)]])
        (use empty x a assms(2) False P Q(2) in \<open>auto simp: bag_remove_def run_simps block_isEmpty_def\<close>)
  next
    case True
    then have "Q \<noteq> []" using assms(3) P a(2) by auto
    then obtain c Q' where Qc: "Q = c # Q'" by (cases Q) auto
    obtain d where d: "?h c = Some d" "block_ok d" "b_size d = BLOCK_SIZE" and bn: "b_next b = Some c"
      and pQ: "path (bnext ?h) (b_next d) Q' None" "c \<notin> set Q'" "c \<noteq> a" "a \<notin> set Q'"
      using Q path_distinct [OF Q(1)] unfolding Qc by auto
    obtain x where x: "at_block (Some c) block_pop m = (Ok (Some x), m\<lparr>blocks := ?h(c \<mapsto> d\<lparr>b_size := b_size d - 1\<rparr>)\<rparr>)"
      "items d = items (d\<lparr>b_size := b_size d - 1\<rparr>) @ [x]" "block_ok (d\<lparr>b_size := b_size d - 1\<rparr>)"
      using block_pop_run [OF d(1,2)] d(3) by auto
    note opn = layout_hide [OF assms(1), where g = g]
    let ?F = "F(Bag g := [])" let ?d = "d\<lparr>b_size := b_size d - 1\<rparr>" let ?m = "m\<lparr>blocks := ?h(c \<mapsto> ?d)\<rparr>"
    have la: "\<forall>p\<in>set (a # Q). loose ?F p" using opn(3) P by auto
    have 1: "layout {g} ?m ?F" "frame {} m ?F ?m ?F"
      using layout_loose_upd [OF opn(1), of c] la Qc bag_lt [OF assms(1), of c "Bag g"] P by auto
    let ?B = "B\<lparr>bag_head := b_next b, sizeInBlocks := sizeInBlocks B - 1\<rparr>"
    obtain m2 F2 where 2: "drop_head g ?m = (Ok (), m2)" "layout {g} m2 F2" "frame {Bag g, Pool (bag_pool B)} ?m ?F m2 F2"
      "\<forall>p. p \<noteq> a \<longrightarrow> blocks m2 p = blocks ?m p" "\<forall>p. loose ?F p \<longrightarrow> p \<noteq> a \<longrightarrow> loose F2 p" "bags m2 = (bags ?m)(g \<mapsto> ?B)"
      using 1(1) by (rule drop_head_run [where g = g and B = B and a = a and b = b]) (use assms(2) a la True pQ in auto)
    have h2: "blocks m2 c = Some ?d" "\<forall>p\<in>set Q'. blocks m2 p = ?h p" using 2(4) pQ(2-4) by auto
    have "path (bnext (blocks m2)) (b_next d) Q' None" "blocks_ok (blocks m2) (\<lambda>n. n = BLOCK_SIZE) Q'"
      using pQ(1) Q(3) h2(2) Qc by (simp_all add: path_bnext_cong [of Q' "blocks m2" ?h] blocks_ok_cong [of Q' "blocks m2" ?h])
    then have ok: "bag_ok (blocks m2) ?B Q"
      using tl P Qc bn x(3) d h2(1) by (auto simp: bag_ok_def)
    have 3: "layout {} m2 (F2(Bag g := Q))" "frame {Bag g} m2 F2 m2 (F2(Bag g := Q))"
      by (rule layout_unhide [OF 2(2) _ _ ok]; use 2(5,6) la Q(2) in auto)+
    have f: "frame {Bag g, Pool (bag_pool B)} m F m2 (F2(Bag g := Q))"
      using frame_trans [OF frame_trans [OF frame_trans [OF opn(2) 1(2)] 2(3)] 3(2)] by (simp add: insert_commute)
    have "contents_of (blocks m2) Q' = contents_of ?h Q'" using h2(2) by (intro contents_of_cong) auto
    then have "mset (contents_of ?h (F (Bag g))) = add_mset x (mset (contents_of (blocks m2) ((F2(Bag g := Q)) (Bag g))))"
      using P Qc d(1) x(2) h2(1) a(2) True by auto
    then show thesis
      by (intro that [OF _ 3(1) f])
        (use empty x(1) 2(1,6) bn a assms(2) True in \<open>auto simp: bag_remove_def run_simps block_isEmpty_def\<close>)
  qed
qed

section \<open>Walks\<close>

lemma blocks_loop_run:
  "path (bnext (blocks m)) p P None \<Longrightarrow> blocks_ok (blocks m) Q P \<Longrightarrow> length P < n \<Longrightarrow>
   blocks_loop n p k m = (Ok (k + length P), m)"
proof (induction n arbitrary: p P k)
  case (Suc n)
  then show ?case by (cases P) (auto simp: run_simps)
qed simp

lemma size_of_loop_run:
  "path (bnext (blocks m)) p P None \<Longrightarrow> blocks_ok (blocks m) Q P \<Longrightarrow> length P < n \<Longrightarrow>
   size_of_loop n p k m = (Ok (k + length (contents_of (blocks m) P)), m)"
proof (induction n arbitrary: p P k)
  case (Suc n)
  then show ?case by (cases P) (auto simp: run_simps)
qed simp

lemma full_loop_run:
  "path (bnext (blocks m)) p P None \<Longrightarrow> blocks_ok (blocks m) (\<lambda>n. n = BLOCK_SIZE) P \<Longrightarrow> length P < n \<Longrightarrow>
   full_loop n p m = (Ok (), m)"
proof (induction n arbitrary: p P)
  case (Suc n)
  then show ?case by (cases P) (auto simp: run_simps block_isFull_def)
qed simp

lemma blocks_ok_mono: "blocks_ok h Q P \<Longrightarrow> (\<And>n. Q n \<Longrightarrow> R n) \<Longrightarrow> blocks_ok h R P"
  by (auto simp: blocks_ok_def)

lemma bag_ok_walk:
  assumes "bag_ok h B P"
  shows "path (bnext h) (bag_head B) P None" and "blocks_ok h (\<lambda>_. True) P" and "distinct P"
proof -
  show p: "path (bnext h) (bag_head B) P None" using assms by (simp add: bag_ok_def)
  show "distinct P" by (rule path_distinct [OF p])
  obtain a Q b where "P = a # Q" "h a = Some b" "block_ok b" "blocks_ok h (\<lambda>n. n = BLOCK_SIZE) Q"
    using assms by (rule bag_okE)
  then show "blocks_ok h (\<lambda>_. True) P" by (auto intro: blocks_ok_mono)
qed

lemma length_lt: "distinct P \<Longrightarrow> (\<And>p. p \<in> set P \<Longrightarrow> p < n) \<Longrightarrow> length P < Suc n"
  using card_mono [of "{..<n}" "set P"] by (force simp: distinct_card less_Suc_eq_le)

lemma bag_length_lt: "layout {} m F \<Longrightarrow> bags m g = Some B \<Longrightarrow> length (F (Bag g)) < Suc (next_block m)"
  using bag_ok_walk(3) [OF bag_regionD] bag_lt by (intro length_lt)

lemma computeSize_run:
  assumes "layout {} m F" and "bags m g = Some B"
  shows "computeSizeInBlocks g m = (Ok (length (F (Bag g))), m)"
    and "computeSize g m = (Ok (length (contents_of (blocks m) (F (Bag g)))), m)"
    and "validate g m = (Ok (), m)"
proof -
  note walk = bag_ok_walk [OF bag_regionD [OF assms]] and len = bag_length_lt [OF assms]
  show c: "computeSizeInBlocks g m = (Ok (length (F (Bag g))), m)"
    using blocks_loop_run [OF walk(1,2) len, of 0] assms(2) by (simp add: computeSizeInBlocks_def run_simps)
  show "computeSize g m = (Ok (length (contents_of (blocks m) (F (Bag g)))), m)"
    using size_of_loop_run [OF walk(1,2) len, of 0] assms(2) by (simp add: computeSize_def run_simps)
  obtain a Q b where P: "F (Bag g) = a # Q" and a: "bag_head B = Some a" "blocks m a = Some b" "block_ok b" "b_size b < BLOCK_SIZE"
    and Q: "path (bnext (blocks m)) (b_next b) Q None" "a \<notin> set Q" "blocks_ok (blocks m) (\<lambda>n. n = BLOCK_SIZE) Q"
    and tl: "bag_tail B = Some (last (F (Bag g)))" "sizeInBlocks B = length (F (Bag g))"
    using bag_regionD [OF assms] by (rule bag_okE)
  have "full_loop (Suc (next_block m)) (b_next b) m = (Ok (), m)"
    by (rule full_loop_run [OF Q(1,3)]) (use len P in simp)
  then show "validate g m = (Ok (), m)"
    using c a tl assms(2) by (simp add: validate_def run_simps block_isFull_def del: full_loop.simps)
qed

section \<open>Full blocks\<close>

lemma removeFullBlock_run:
  assumes "layout {} m F" and "bags m g = Some B"
  obtains (none) "length (F (Bag g)) < 3" and "removeFullBlock g m = (Ok None, m)"
  | (some) c m' F' where "3 \<le> length (F (Bag g))" and "removeFullBlock g m = (Ok (Some c), m')"
    and "layout {} m' F'" and "frame {Bag g} m F m' F'" and "loose F' c" and "blocks_ok (blocks m') (\<lambda>n. n = BLOCK_SIZE) [c]"
    and "bnext (blocks m') c = None" and "bags m' = (bags m)(g \<mapsto> B\<lparr>sizeInBlocks := sizeInBlocks B - 1\<rparr>)"
    and "mset (contents_of (blocks m) (F (Bag g))) = mset (contents_of (blocks m') (c # F' (Bag g)))"
    and "length (F' (Bag g)) = length (F (Bag g)) - 1"
proof -
  let ?h = "blocks m"
  obtain a Q b where P: "F (Bag g) = a # Q" and a: "bag_head B = Some a" "?h a = Some b" "block_ok b" "b_size b < BLOCK_SIZE"
    and Q: "path (bnext ?h) (b_next b) Q None" "a \<notin> set Q" "blocks_ok ?h (\<lambda>n. n = BLOCK_SIZE) Q"
    and tl: "bag_tail B = Some (last (F (Bag g)))" "sizeInBlocks B = length (F (Bag g))"
    using bag_regionD [OF assms(1,2)] by (rule bag_okE)
  show thesis
  proof (cases "length (F (Bag g)) < 3")
    case True
    have "removeFullBlock g m = (Ok None, m)"
    proof (cases Q)
      case Nil
      then show ?thesis using Q(1) a assms(2) by (simp add: removeFullBlock_def run_simps)
    next
      case (Cons c Q')
      then have "Q' = []" using True P by simp
      then show ?thesis using Cons Q a assms(2) by (auto simp: removeFullBlock_def run_simps)
    qed
    with True show thesis by (rule none)
  next
    case False
    then obtain c e R where Qc: "Q = c # e # R" using P by (cases Q; cases "tl Q") auto
    obtain d where d: "?h c = Some d" "block_ok d" "b_size d = BLOCK_SIZE" "b_next b = Some c" "b_next d = Some e"
      and pR: "path (bnext ?h) (bnext ?h e) R None" "c \<noteq> a" "c \<notin> set (e # R)" "a \<notin> set (e # R)" "blocks_ok ?h (\<lambda>n. n = BLOCK_SIZE) (e # R)"
      using Q path_distinct [OF Q(1)] unfolding Qc by auto
    note opn = layout_hide [OF assms(1), where g = g]
    let ?F = "F(Bag g := [])" let ?B = "B\<lparr>sizeInBlocks := sizeInBlocks B - 1\<rparr>"
    have la: "\<forall>p\<in>set (a # Q). loose ?F p" and lt: "\<forall>p\<in>set (a # Q). p < next_block m"
      using opn(3) P bag_lt [OF assms(1), of _ "Bag g"] by auto
    let ?b = "b\<lparr>b_next := Some e\<rparr>" let ?d = "d\<lparr>b_next := None\<rparr>"
    let ?m1 = "m\<lparr>blocks := ?h(a \<mapsto> ?b)\<rparr>" let ?m2 = "?m1\<lparr>blocks := (blocks ?m1)(c \<mapsto> ?d)\<rparr>"
    let ?m3 = "?m2\<lparr>bags := (bags ?m2)(g \<mapsto> ?B)\<rparr>"
    have 1: "layout {g} ?m1 ?F" "frame {} m ?F ?m1 ?F"
      by (rule layout_loose_upd [OF opn(1)]; use la lt in simp)+
    have 2: "layout {g} ?m2 ?F" "frame {} ?m1 ?F ?m2 ?F"
      by (rule layout_loose_upd [OF 1(1)]; use la lt Qc in simp)+
    have 3: "layout {g} ?m3 ?F" "frame {Bag g} ?m2 ?F ?m3 ?F"
      by (rule layout_hidden_bag [OF 2(1)]; simp)+
    have ok: "bag_ok (blocks ?m3) ?B (a # e # R)"
      using tl P Qc a pR by (auto simp: bag_ok_def bnext_def)
    have 4: "layout {} ?m3 (?F(Bag g := a # e # R))" "frame {Bag g} ?m3 ?F ?m3 (?F(Bag g := a # e # R))"
      by (rule layout_unhide [OF 3(1) _ _ ok]; use la Qc in auto)+
    have f: "frame {Bag g} m F ?m3 (?F(Bag g := a # e # R))"
      using frame_trans [OF frame_trans [OF frame_trans [OF frame_trans [OF opn(2) 1(2)] 2(2)] 3(2)] 4(2)] by simp
    have run: "removeFullBlock g m = (Ok (Some c), ?m3)"
      using a d pR(2) assms(2) by (simp add: removeFullBlock_def run_simps)
    have lc: "loose (?F(Bag g := a # e # R)) c" by (rule loose_updI) (use la pR Qc in auto)
    show thesis
      by (rule some [OF _ run 4(1) f lc]) (use False d a pR P Qc in auto)
  qed
qed

lemma contents_next [simp]:
  "h a = Some b \<Longrightarrow> contents_of (h(a \<mapsto> b\<lparr>b_next := q\<rparr>)) P = contents_of h P"
  by (induction P) auto

lemma blocks_ok_next:
  "h a = Some b \<Longrightarrow> blocks_ok (h(a \<mapsto> b\<lparr>b_next := q\<rparr>)) R P = blocks_ok h R P"
  by (induction P) auto

lemma bag_ok_append:
  assumes "bag_ok h B P" and "path (bnext h) q R None" and "blocks_ok h (\<lambda>n. n = BLOCK_SIZE) R" and "R \<noteq> []"
    and "set P \<inter> set R = {}" and "h (last P) = Some b"
  shows "bag_ok (h(last P \<mapsto> b\<lparr>b_next := q\<rparr>)) (B\<lparr>bag_tail := Some (last R), sizeInBlocks := length P + length R\<rparr>) (P @ R)"
proof -
  let ?h = "h(last P \<mapsto> b\<lparr>b_next := q\<rparr>)"
  obtain a Q c where P: "P = a # Q" and a: "bag_head B = Some a" "h a = Some c" "block_ok c" "b_size c < BLOCK_SIZE"
    and Q: "path (bnext h) (b_next c) Q None" "a \<notin> set Q" "blocks_ok h (\<lambda>n. n = BLOCK_SIZE) Q"
    using assms(1) by (rule bag_okE)
  have p: "path (bnext h) (bag_head B) P None" and d: "distinct P" using bag_ok_walk [OF assms(1)] by auto
  have last: "last P \<in> set P" using P by simp
  have snoc: "P = butlast P @ [last P]" using P by simp
  then have "path (bnext h) (bag_head B) (butlast P) (Some (last P))" "last P \<notin> set (butlast P)"
    using p d by (metis (no_types, lifting) path_append path.simps(2), metis distinct_append not_distinct_conv_prefix)
  then have "path (bnext ?h) (bag_head B) (butlast P @ [last P]) q" by simp
  then have "path (bnext ?h) (bag_head B) P q" using snoc by simp
  moreover have "path (bnext ?h) q R None" using assms(2,5) last by (subst path_bnext_upd) auto
  ultimately have path: "path (bnext ?h) (bag_head B) (P @ R) None" unfolding path_append by blast
  have "blocks_ok ?h (\<lambda>n. n = BLOCK_SIZE) R" using assms(3,5) last by (subst blocks_ok_upd) auto
  moreover have "blocks_ok ?h (\<lambda>n. n < BLOCK_SIZE) [a]" using a assms(6) P by auto
  moreover have "blocks_ok ?h (\<lambda>n. n = BLOCK_SIZE) Q"
    using Q(3) blocks_ok_next [of h, OF assms(6)] by simp
  ultimately show ?thesis using path P assms(4) by (simp add: bag_ok_def)
qed

lemma addFullBlock_run:
  assumes "layout {} m F" and "bags m g = Some B" and "loose F c" and "blocks_ok (blocks m) (\<lambda>n. n = BLOCK_SIZE) [c]"
    and "bnext (blocks m) c = None"
  obtains m' F' where "addFullBlock g (Some c) m = (Ok (), m')" and "layout {} m' F'" and "frame {Bag g} m F m' F'"
    and "contents_of (blocks m') (F' (Bag g)) = contents_of (blocks m) (F (Bag g) @ [c])"
    and "\<exists>B'. bags m' g = Some B' \<and> bag_pool B' = bag_pool B"
proof -
  let ?h = "blocks m" let ?P = "F (Bag g)"
  note ok = bag_regionD [OF assms(1,2)]
  obtain d where d: "?h c = Some d" "block_ok d" "b_size d = BLOCK_SIZE" "b_next d = None" using assms(4,5) by auto
  have tl: "bag_tail B = Some (last ?P)" "sizeInBlocks B = length ?P" "?P \<noteq> []" using ok by (auto simp: bag_ok_def)
  then have "last ?P \<in> set ?P" by simp
  then obtain b where b: "?h (last ?P) = Some b" using region_dom [OF layoutD(1) [OF assms(1)]] by blast
  have c: "c \<notin> set ?P" using assms(3) by (simp add: loose_def)
  let ?B = "B\<lparr>bag_tail := Some (last [c]), sizeInBlocks := length ?P + length [c]\<rparr>"
  let ?m1 = "m\<lparr>blocks := ?h(last ?P \<mapsto> b\<lparr>b_next := Some c\<rparr>)\<rparr>" let ?m2 = "?m1\<lparr>bags := (bags ?m1)(g \<mapsto> ?B)\<rparr>"
  note opn = layout_hide [OF assms(1), where g = g]
  let ?F = "F(Bag g := [])"
  have la: "\<forall>p\<in>set (?P @ [c]). loose ?F p" using opn(3,4) assms(3) by auto
  have 1: "layout {g} ?m1 ?F" "frame {} m ?F ?m1 ?F"
    by (rule layout_loose_upd [OF opn(1)]; use la tl(3) bag_lt [OF assms(1), of _ "Bag g"] in simp)+
  have 2: "layout {g} ?m2 ?F" "frame {Bag g} ?m1 ?F ?m2 ?F"
    by (rule layout_hidden_bag [OF 1(1)]; simp)+
  have "bag_ok (?h(last ?P \<mapsto> b\<lparr>b_next := Some c\<rparr>)) ?B (?P @ [c])"
    by (rule bag_ok_append [OF ok _ _ _ _ b]) (use d c in auto)
  then have 3: "layout {} ?m2 (?F(Bag g := ?P @ [c]))" "frame {Bag g} ?m2 ?F ?m2 (?F(Bag g := ?P @ [c]))"
    by (intro layout_unhide [OF 2(1)]; use la in auto)+
  have f: "frame {Bag g} m F ?m2 (?F(Bag g := ?P @ [c]))"
    using frame_trans [OF frame_trans [OF frame_trans [OF opn(2) 1(2)] 2(2)] 3(2)] by simp
  show thesis
    by (rule that [OF _ 3(1) f]) (use d b tl assms(2) c in \<open>auto simp: addFullBlock_def run_simps simp del: contents_of_simps\<close>)
qed

end
