(* ===== verification/BagMoves.thy ===== *)
theory BagMoves
  imports BagOps
begin

text \<open>
  Operations on bags that move blocks or items between two bags.
\<close>

section \<open>Moving the full blocks\<close>

lemma size_in_blocks_run:
  assumes "bags m g = Some B" and "path (bnext (blocks m)) (bag_head B) P None" and "blocks_ok (blocks m) Q P"
    and "\<forall>p\<in>set P. p < next_block m"
  shows "computeSizeInBlocks g m = (Ok (length P), m)"
  using blocks_loop_run [OF assms(2,3) length_lt, of "next_block m" 0] path_distinct [OF assms(2)] assms(1,4)
  by (simp add: computeSizeInBlocks_def run_simps del: blocks_loop.simps)

lemma appendMoveFullBlocks_run:
  assumes "layout {} m F" and "bags m g = Some B" and "bags m e = Some E" and "g \<noteq> e"
  obtains m' F' where "appendMoveFullBlocks g e m = (Ok (), m')" and "layout {} m' F'" and "frame {Bag g, Bag e} m F m' F'"
    and "contents_of (blocks m') (F' (Bag g)) = contents_of (blocks m) (F (Bag g) @ tl (F (Bag e)))"
    and "contents_of (blocks m') (F' (Bag e)) = contents_of (blocks m) [hd (F (Bag e))]"
    and "\<exists>B'. bags m' g = Some B' \<and> bag_pool B' = bag_pool B" and "\<exists>E'. bags m' e = Some E' \<and> bag_pool E' = bag_pool E"
proof -
  let ?h = "blocks m" let ?P = "F (Bag g)"
  obtain a R b where P: "F (Bag e) = a # R" and a: "bag_head E = Some a" "?h a = Some b" "block_ok b" "b_size b < BLOCK_SIZE"
    and R: "path (bnext ?h) (b_next b) R None" "a \<notin> set R" "blocks_ok ?h (\<lambda>n. n = BLOCK_SIZE) R"
    and tl: "bag_tail E = Some (last (F (Bag e)))" "sizeInBlocks E = length (F (Bag e))"
    using bag_regionD [OF assms(1,3)] by (rule bag_okE)
  show thesis
  proof (cases R)
    case Nil
    then have "appendMoveFullBlocks g e m = (Ok (), m)"
      using a R assms(3) by (simp add: appendMoveFullBlocks_def appendMoveBlocksAfter_def run_simps)
    then show thesis using assms(1-3) P Nil by (intro that [of m F]) auto
  next
    case (Cons c R')
    have bn: "b_next b = Some c" using R(1) Cons by simp
    obtain d where d: "?h c = Some d" "b_size d = BLOCK_SIZE" using R(3) Cons by auto
    note ok = bag_regionD [OF assms(1,2)]
    have gt: "bag_tail B = Some (last ?P)" "?P \<noteq> []" using ok by (auto simp: bag_ok_def)
    obtain k where k: "?h (last ?P) = Some k" using region_dom [OF layoutD(1) [OF assms(1)], of "last ?P" "Bag g"] gt(2) by auto
    have dis: "set ?P \<inter> set (a # R) = {}" using layoutD(2) [OF assms(1), of "Bag g" "Bag e"] assms(4) P by auto
    let ?h1 = "?h(last ?P \<mapsto> k\<lparr>b_next := Some c\<rparr>)" let ?h2 = "?h1(a \<mapsto> b\<lparr>b_next := None\<rparr>)"
    let ?Bt = "B\<lparr>bag_tail := Some (last R)\<rparr>"
    let ?B = "?Bt\<lparr>sizeInBlocks := length ?P + length R\<rparr>" let ?E = "E\<lparr>bag_tail := Some a, sizeInBlocks := 1\<rparr>"
    let ?m1 = "m\<lparr>blocks := ?h1\<rparr>" let ?m2 = "?m1\<lparr>blocks := (blocks ?m1)(a \<mapsto> b\<lparr>b_next := None\<rparr>)\<rparr>"
    let ?m3 = "?m2\<lparr>bags := (bags ?m2)(g \<mapsto> ?B)\<rparr>" let ?m4 = "?m3\<lparr>bags := (bags ?m3)(e \<mapsto> ?E)\<rparr>"
    have "last ?P \<in> set ?P" using gt(2) by simp
    then have la: "last ?P \<noteq> a" "a \<notin> set (?P @ R)" using dis R(2) by auto
    have okg: "bag_ok ?h1 ?B (?P @ R)"
      using bag_ok_append [OF ok _ R(3) _ _ k] R(1) bn dis Cons by simp
    then have okg2: "bag_ok ?h2 ?B (?P @ R)" using la(2) by (subst bag_ok_cong [of _ _ ?h1]) auto
    have oke: "bag_ok ?h2 ?E [a]" using a by (simp add: bag_ok_def)
    have ltP: "\<forall>p\<in>set (?P @ a # R). p < next_block m"
      using bag_lt [OF assms(1), of _ "Bag g"] bag_lt [OF assms(1), of _ "Bag e"] P by auto
    note opg = layout_hide [OF assms(1), where g = g] note ope = layout_hide [OF opg(1), where g = e]
    let ?F1 = "F(Bag g := [])" let ?F = "?F1(Bag e := [])"
    have lo: "\<forall>p\<in>set (?P @ a # R). loose ?F p" using opg(3) ope(3,4) P assms(4) by auto
    have 1: "layout {e, g} ?m1 ?F" "frame {} m ?F ?m1 ?F"
      by (rule layout_loose_upd [OF ope(1)]; use lo ltP gt(2) in simp)+
    have 2: "layout {e, g} ?m2 ?F" "frame {} ?m1 ?F ?m2 ?F"
      by (rule layout_loose_upd [OF 1(1)]; use lo ltP in simp)+
    have 3: "layout {e, g} ?m3 ?F" "frame {Bag g} ?m2 ?F ?m3 ?F" by (rule layout_hidden_bag [OF 2(1)]; simp)+
    have 4: "layout {e, g} ?m4 ?F" "frame {Bag e} ?m3 ?F ?m4 ?F" by (rule layout_hidden_bag [OF 3(1)]; simp)+
    have 5: "layout {g} ?m4 (?F(Bag e := [a]))" "frame {Bag e} ?m4 ?F ?m4 (?F(Bag e := [a]))"
      by (rule layout_unhide [OF 4(1), of ?E]; use assms(4) oke lo in simp)+
    have "loose (?F(Bag e := [a])) p" if "p \<in> set (?P @ R)" for p
      by (rule loose_updI) (use lo that la(2) in auto)
    then have 6: "layout {} ?m4 ((?F(Bag e := [a]))(Bag g := ?P @ R))"
      "frame {Bag g} ?m4 (?F(Bag e := [a])) ?m4 ((?F(Bag e := [a]))(Bag g := ?P @ R))"
      by (intro layout_unhide [OF 5(1), of ?B]; use assms(4) okg2 in simp)+
    have f: "frame {Bag g, Bag e} m F ?m4 ((?F(Bag e := [a]))(Bag g := ?P @ R))"
      by (rule frame_mono [OF frame_trans [OF frame_trans [OF frame_trans [OF frame_trans [OF frame_trans [OF frame_trans
          [OF frame_trans [OF opg(2) ope(2)] 1(2)] 2(2)] 3(2)] 4(2)] 5(2)] 6(2)]]) auto
    let ?ma = "?m1\<lparr>bags := (bags m)(g \<mapsto> ?Bt)\<rparr>"
    have sg: "computeSizeInBlocks g ?ma = (Ok (length (?P @ R)), ?ma)"
      by (rule size_in_blocks_run [of _ _ ?Bt]) (use bag_ok_walk [OF okg] ltP in auto)
    let ?mb = "?m2\<lparr>bags := (bags m)(g \<mapsto> ?B, e \<mapsto> E\<lparr>bag_tail := Some a\<rparr>)\<rparr>"
    have se: "computeSizeInBlocks e ?mb = (Ok (length [a]), ?mb)"
      by (rule size_in_blocks_run [of _ _ "E\<lparr>bag_tail := Some a\<rparr>"]) (use bag_ok_walk [OF oke] ltP a in auto)
    have "bag_tail E = Some (last R)" using tl(1) P Cons by simp
    then have run: "appendMoveFullBlocks g e m = (Ok (), ?m4)"
      using a bn d gt k la(1) assms(2-4) sg se
      by (simp add: appendMoveFullBlocks_def appendMoveBlocksAfter_def run_simps block_isFull_def)
    show thesis
      by (rule that [OF run 6(1) f]) (use assms(4) P k a la in \<open>auto simp: contents_next\<close>)
  qed
qed

section \<open>Moving the items\<close>

lemma move_loop_run:
  assumes "layout {} m F" and "bags m g = Some B" and "bags m e = Some E" and "g \<noteq> e"
    and "length (contents_of (blocks m) (F (Bag e))) < n"
  obtains m' F' where "move_loop n g e m = (Ok (), m')" and "layout {} m' F'"
    and "frame {Bag g, Bag e, Pool (bag_pool B), Pool (bag_pool E)} m F m' F'"
    and "mset (contents_of (blocks m') (F' (Bag g))) =
         mset (contents_of (blocks m) (F (Bag g))) + mset (contents_of (blocks m) (F (Bag e)))"
    and "contents_of (blocks m') (F' (Bag e)) = []"
    and "\<exists>B'. bags m' g = Some B' \<and> bag_pool B' = bag_pool B" and "\<exists>E'. bags m' e = Some E' \<and> bag_pool E' = bag_pool E"
  using assms
proof (induction n arbitrary: m F B E thesis)
  case (Suc n)
  let ?Ce = "contents_of (blocks m) (F (Bag e))"
  have em: "bag_isEmpty e m = (Ok (?Ce = []), m)" by (rule bag_isEmpty_run [OF Suc.prems(2,4)])
  show ?case
  proof (cases "?Ce = []")
    case True
    then show ?thesis using em Suc.prems(2-4) by (intro Suc.prems(1) [of m F]) (auto simp: run_simps)
  next
    case False
    obtain x m1 F1 where 1: "bag_remove e m = (Ok (Some x), m1)" "layout {} m1 F1" "frame {Bag e, Pool (bag_pool E)} m F m1 F1"
      "mset ?Ce = add_mset x (mset (contents_of (blocks m1) (F1 (Bag e))))" "\<exists>E'. bags m1 e = Some E' \<and> bag_pool E' = bag_pool E"
      using Suc.prems(2,4) False by (rule bag_remove_run)
    have Cg: "contents_of (blocks m1) (F1 (Bag g)) = contents_of (blocks m) (F (Bag g))" and bg: "bags m1 g = Some B"
      using 1(3) Suc.prems(3,5) by (auto simp: frame_def intro!: contents_of_cong)
    obtain m2 F2 where 2: "bag_add g (Some x) m1 = (Ok (), m2)" "layout {} m2 F2" "frame {Bag g, Pool (bag_pool B)} m1 F1 m2 F2"
      "mset (contents_of (blocks m2) (F2 (Bag g))) = add_mset x (mset (contents_of (blocks m1) (F1 (Bag g))))"
      "\<exists>B'. bags m2 g = Some B' \<and> bag_pool B' = bag_pool B"
      using 1(2) bg by (rule bag_add_run)
    have Ce: "contents_of (blocks m2) (F2 (Bag e)) = contents_of (blocks m1) (F1 (Bag e))" and be: "bags m2 e = bags m1 e"
      using 2(3) Suc.prems(5) by (auto simp: frame_def intro!: contents_of_cong)
    obtain B2 E2 where bs: "bags m2 g = Some B2" "bag_pool B2 = bag_pool B" "bags m2 e = Some E2" "bag_pool E2 = bag_pool E"
      using 2(5) 1(5) be by auto
    have sz: "size (mset ?Ce) = Suc (size (mset (contents_of (blocks m1) (F1 (Bag e)))))" using 1(4) by simp
    have len: "length (contents_of (blocks m2) (F2 (Bag e))) < n" using Suc.prems(6) sz Ce by simp
    obtain m3 F3 where 3: "move_loop n g e m2 = (Ok (), m3)" "layout {} m3 F3"
      "frame {Bag g, Bag e, Pool (bag_pool B), Pool (bag_pool E)} m2 F2 m3 F3"
      "mset (contents_of (blocks m3) (F3 (Bag g))) = mset (contents_of (blocks m2) (F2 (Bag g))) + mset (contents_of (blocks m2) (F2 (Bag e)))"
      "contents_of (blocks m3) (F3 (Bag e)) = []"
      "\<exists>B'. bags m3 g = Some B' \<and> bag_pool B' = bag_pool B" "\<exists>E'. bags m3 e = Some E' \<and> bag_pool E' = bag_pool E"
      by (rule Suc.IH [OF _ 2(2) bs(1,3) Suc.prems(5) len]) (use bs in auto)
    have f: "frame {Bag g, Bag e, Pool (bag_pool B), Pool (bag_pool E)} m F m3 F3"
      by (rule frame_mono [OF frame_trans [OF frame_trans [OF 1(3) 2(3)] 3(3)]]) auto
    have "move_loop (Suc n) g e m = (Ok (), m3)" using em False 1(1) 2(1) 3(1) by (simp add: run_simps)
    then show ?thesis
      by (rule Suc.prems(1) [OF _ 3(2) f]) (use 1(4) 2(4) 3(4-7) Cg Ce in auto)
  qed
qed simp

lemma appendMoveAll_run:
  assumes "layout {} m F" and "bags m g = Some B" and "bags m e = Some E" and "g \<noteq> e"
  obtains m' F' where "appendMoveAll g e m = (Ok (), m')" and "layout {} m' F'"
    and "frame {Bag g, Bag e, Pool (bag_pool B), Pool (bag_pool E)} m F m' F'"
    and "mset (contents_of (blocks m') (F' (Bag g))) =
         mset (contents_of (blocks m) (F (Bag g))) + mset (contents_of (blocks m) (F (Bag e)))"
    and "contents_of (blocks m') (F' (Bag e)) = []"
    and "\<exists>B'. bags m' g = Some B' \<and> bag_pool B' = bag_pool B" and "\<exists>E'. bags m' e = Some E' \<and> bag_pool E' = bag_pool E"
proof -
  obtain m1 F1 where 1: "appendMoveFullBlocks g e m = (Ok (), m1)" "layout {} m1 F1" "frame {Bag g, Bag e} m F m1 F1"
    "contents_of (blocks m1) (F1 (Bag g)) = contents_of (blocks m) (F (Bag g) @ tl (F (Bag e)))"
    "contents_of (blocks m1) (F1 (Bag e)) = contents_of (blocks m) [hd (F (Bag e))]"
    "\<exists>B'. bags m1 g = Some B' \<and> bag_pool B' = bag_pool B" "\<exists>E'. bags m1 e = Some E' \<and> bag_pool E' = bag_pool E"
    using assms by (rule appendMoveFullBlocks_run)
  obtain B1 E1 where bs: "bags m1 g = Some B1" "bag_pool B1 = bag_pool B" "bags m1 e = Some E1" "bag_pool E1 = bag_pool E"
    using 1(6,7) by auto
  note sz = computeSize_run(2) [OF 1(2) bs(3)]
  let ?n = "length (contents_of (blocks m1) (F1 (Bag e)))"
  obtain m2 F2 where 2: "move_loop (Suc ?n) g e m1 = (Ok (), m2)" "layout {} m2 F2"
    "frame {Bag g, Bag e, Pool (bag_pool B), Pool (bag_pool E)} m1 F1 m2 F2"
    "mset (contents_of (blocks m2) (F2 (Bag g))) = mset (contents_of (blocks m1) (F1 (Bag g))) + mset (contents_of (blocks m1) (F1 (Bag e)))"
    "contents_of (blocks m2) (F2 (Bag e)) = []"
    "\<exists>B'. bags m2 g = Some B' \<and> bag_pool B' = bag_pool B" "\<exists>E'. bags m2 e = Some E' \<and> bag_pool E' = bag_pool E"
    by (rule move_loop_run [OF 1(2) bs(1,3) assms(4), of "Suc ?n"]) (use bs in auto)
  obtain B2 where B2: "bags m2 g = Some B2" using 2(6) by auto
  have "sizeInBlocks B2 = length (F2 (Bag g))" using bag_regionD [OF 2(2) B2] by (simp add: bag_ok_def)
  then have "B2\<lparr>sizeInBlocks := length (F2 (Bag g))\<rparr> = B2" by (cases B2) simp
  then have same: "m2\<lparr>bags := (bags m2)(g \<mapsto> B2\<lparr>sizeInBlocks := length (F2 (Bag g))\<rparr>)\<rparr> = m2"
    using B2 by (simp add: fun_upd_idem)
  have run: "appendMoveAll g e m = (Ok (), m2)"
    using 1(1) sz 2(1) computeSize_run(1) [OF 2(2) B2] B2 same
    by (simp add: appendMoveAll_def run_simps del: move_loop.simps)
  have "F (Bag e) \<noteq> []" using bag_regionD [OF assms(1,3)] by (simp add: bag_ok_def)
  then have ct: "contents_of (blocks m) (F (Bag e)) = contents_of (blocks m) [hd (F (Bag e))] @ contents_of (blocks m) (tl (F (Bag e)))"
    by (cases "F (Bag e)") auto
  have f: "frame {Bag g, Bag e, Pool (bag_pool B), Pool (bag_pool E)} m F m2 F2"
    by (rule frame_mono [OF frame_trans [OF 1(3) 2(3)]]) auto
  show thesis
    by (rule that [OF run 2(2) f]) (use 2(4-7) 1(4,5) ct in auto)
qed

end
