(* ===== verification/BagLife.thy ===== *)
theory BagLife
  imports BagMoves
begin

text \<open>
  Construction, clearing and destruction of bags, erasure of a single item, and the blocks of the
  shared bag.
\<close>

section \<open>Construction and destruction\<close>

lemma new_blockbag_run:
  assumes "layout {} m F" and "bags m g = None"
  obtains m' F' where "new_blockbag g tid t m = (Ok (), m')" and "layout {} m' F'" and "frame {Bag g, Pool t} m F m' F'"
    and "contents_of (blocks m') (F' (Bag g)) = []" and "\<exists>B'. bags m' g = Some B' \<and> bag_pool B' = t"
proof -
  note opn = layout_hide [OF assms(1), where g = g]
  obtain a m1 F1 where 1: "allocateBlock t None m = (Ok a, m1)" "layout {g} m1 F1" "frame {Pool t} m (F(Bag g := [])) m1 F1"
    "loose F1 a" "blocks m1 = (blocks m)(a \<mapsto> new_block None)" "bags m1 = bags m"
    "\<forall>p. loose (F(Bag g := [])) p \<longrightarrow> p < next_block m \<longrightarrow> loose F1 p \<and> p \<noteq> a"
    using opn(1) by (rule allocateBlock_run [where t = t and q = None])
  let ?B = "\<lparr>bag_owner = tid, reclaimCount = 0, sizeInBlocks = 1, bag_head = Some a, bag_tail = Some a, bag_pool = t\<rparr>"
  let ?m = "m1\<lparr>bags := (bags m1)(g \<mapsto> ?B)\<rparr>"
  have 2: "layout {g} ?m F1" "frame {Bag g} m1 F1 ?m F1" by (rule layout_hidden_bag [OF 1(2)]; simp)+
  have ok: "bag_ok (blocks ?m) ?B [a]" using 1(5) by (simp add: bag_ok_def)
  have 3: "layout {} ?m (F1(Bag g := [a]))" "frame {Bag g} ?m F1 ?m (F1(Bag g := [a]))"
    by (rule layout_unhide [OF 2(1) _ _ ok]; use 1(4) in simp)+
  have f: "frame {Bag g, Pool t} m F ?m (F1(Bag g := [a]))"
    by (rule frame_mono [OF frame_trans [OF frame_trans [OF frame_trans [OF opn(2) 1(3)] 2(2)] 3(2)]]) auto
  show thesis by (rule that [OF _ 3(1) f]) (use 1(1,5) in \<open>auto simp: new_blockbag_def run_simps\<close>)
qed

lemma bag_okD_empty:
  assumes "bag_ok h B P" and "contents_of h P = []"
  obtains a b where "P = [a]" and "bag_head B = Some a" and "h a = Some b" and "b_size b = 0" and "b_next b = None"
proof -
  obtain a Q b where P: "P = a # Q" and a: "bag_head B = Some a" "h a = Some b"
    and Q: "path (bnext h) (b_next b) Q None" "blocks_ok h (\<lambda>n. n = BLOCK_SIZE) Q"
    using assms(1) by (rule bag_okE)
  have "Q = []" using Q(2) assms(2) P by (cases Q) auto
  with P a Q assms(2) show thesis by (intro that [of a b]) auto
qed

lemma delete_blockbag_run:
  assumes "layout {} m F" and "bags m g = Some B" and "contents_of (blocks m) (F (Bag g)) = []"
  obtains m' F' where "delete_blockbag g m = (Ok (), m')" and "layout {} m' F'" and "frame {Bag g, Pool (bag_pool B)} m F m' F'"
    and "bags m' = (bags m)(g := None)" and "F' (Bag g) = []"
proof -
  obtain a b where a: "F (Bag g) = [a]" "bag_head B = Some a" "blocks m a = Some b" "b_size b = 0" "b_next b = None"
    using bag_regionD [OF assms(1,2)] assms(3) by (rule bag_okD_empty)
  let ?t = "bag_pool B" let ?F = "F(Bag g := [])"
  note opn = layout_hide [OF assms(1), where g = g]
  obtain m1 F1 where 1: "deallocateBlock ?t (Some a) m = (Ok (), m1)" "layout {g} m1 F1" "frame {Pool ?t} m ?F m1 F1"
    "\<forall>p. p \<noteq> a \<longrightarrow> blocks m1 p = blocks m p" "bags m1 = bags m" "\<forall>p. loose ?F p \<longrightarrow> p \<noteq> a \<longrightarrow> loose F1 p"
    using opn(1) by (rule deallocateBlock_run [where t = ?t and a = a and b = b]) (use opn(3) a in auto)
  let ?m = "m1\<lparr>bags := (bags m1)(g := None)\<rparr>"
  have 2: "layout {g} ?m F1" "frame {Bag g} m1 F1 ?m F1" by (rule layout_hidden_bag [OF 1(2)]; simp)+
  have F1: "F1 (Bag g) = []" using layoutD(1) [OF 2(1), of "Bag g"] by (simp add: region_ok_def)
  have "region_ok {} ?m r (F1 r)" for r
    using layoutD(1) [OF 2(1), of r] F1 by (cases r) (auto simp: region_ok_def split: if_splits)
  with 2(1) have L: "layout {} ?m F1" by (simp add: layout_def)
  have f: "frame {Bag g, Pool ?t} m F ?m F1"
    by (rule frame_mono [OF frame_trans [OF frame_trans [OF opn(2) 1(3)] 2(2)]]) auto
  obtain n where n: "next_block m = Suc n" using layoutD(3) [OF assms(1) a(3)] by (cases "next_block m") auto
  have run: "delete_blockbag g m = (Ok (), ?m)"
    using bag_isEmpty_run [OF assms(1,2)] assms(2,3) a 1(1) n by (simp add: delete_blockbag_def run_simps)
  show thesis by (rule that [OF run L f]) (use 1(5) F1 in simp_all)
qed

section \<open>Clearing\<close>

lemma clear_loop_run:
  assumes "layout H m F" and "path (bnext (blocks m)) p R None" and "blocks_ok (blocks m) Q R" and "\<forall>r\<in>set R. loose F r"
    and "length R < n"
  obtains m' F' where "clear_loop n t p m = (Ok (), m')" and "layout H m' F'" and "frame {Pool t} m F m' F'"
    and "\<forall>a. a \<notin> set R \<longrightarrow> blocks m' a = blocks m a" and "bags m' = bags m" and "\<forall>a. loose F a \<longrightarrow> a \<notin> set R \<longrightarrow> loose F' a"
  using assms
proof (induction n arbitrary: m F p R thesis)
  case (Suc n)
  show ?case
  proof (cases R)
    case Nil
    then show ?thesis using Suc.prems by (intro Suc.prems(1) [of m F]) (auto simp: run_simps)
  next
    case (Cons a R')
    obtain b where b: "p = Some a" "blocks m a = Some b" "path (bnext (blocks m)) (b_next b) R' None" "a \<notin> set R'"
      using Suc.prems(3,4) path_distinct [OF Suc.prems(3)] Cons by auto
    let ?m = "m\<lparr>blocks := (blocks m)(a \<mapsto> b\<lparr>b_size := 0\<rparr>)\<rparr>"
    have 1: "layout H ?m F" "frame {} m F ?m F"
      by (rule layout_loose_upd [OF Suc.prems(2)]; use Suc.prems(5) Cons layoutD(3) [OF Suc.prems(2) b(2)] in simp)+
    obtain m2 F2 where 2: "deallocateBlock t (Some a) ?m = (Ok (), m2)" "layout H m2 F2" "frame {Pool t} ?m F m2 F2"
      "\<forall>p. p \<noteq> a \<longrightarrow> blocks m2 p = blocks ?m p" "bags m2 = bags ?m" "\<forall>p. loose F p \<longrightarrow> p \<noteq> a \<longrightarrow> loose F2 p"
      using 1(1) by (rule deallocateBlock_run [where t = t and a = a and b = "b\<lparr>b_size := 0\<rparr>"]) (use Suc.prems(5) Cons in auto)
    have same: "\<And>r. r \<in> set R' \<Longrightarrow> blocks m2 r = blocks m r" using 2(4) b(4) by auto
    have R': "path (bnext (blocks m2)) (b_next b) R' None" "blocks_ok (blocks m2) Q R'" "\<forall>r\<in>set R'. loose F2 r" "length R' < n"
      using b(3,4) Suc.prems(4-6) Cons 2(6)
      by (auto simp: path_bnext_cong [of R' "blocks m2" "blocks m", OF same] blocks_ok_cong [of R' "blocks m2" "blocks m", OF same])
    obtain m3 F3 where 3: "clear_loop n t (b_next b) m2 = (Ok (), m3)" "layout H m3 F3" "frame {Pool t} m2 F2 m3 F3"
      "\<forall>a. a \<notin> set R' \<longrightarrow> blocks m3 a = blocks m2 a" "bags m3 = bags m2" "\<forall>a. loose F2 a \<longrightarrow> a \<notin> set R' \<longrightarrow> loose F3 a"
      by (rule Suc.IH [OF _ 2(2) R'])
    have f: "frame {Pool t} m F m3 F3"
      by (rule frame_mono [OF frame_trans [OF frame_trans [OF 1(2) 2(3)] 3(3)]]) auto
    have "clear_loop (Suc n) t p m = (Ok (), m3)"
      using b 2(1) 3(1) by (simp add: run_simps block_clearWithoutFreeingElements_def)
    then show ?thesis
      by (rule Suc.prems(1) [OF _ 3(2) f]) (use 2(4-6) 3(4-6) Cons in auto)
  qed
qed simp

lemma clearWithoutFreeingElements_run:
  assumes "layout {} m F" and "bags m g = Some B"
  obtains m' F' where "clearWithoutFreeingElements g m = (Ok (), m')" and "layout {} m' F'"
    and "frame {Bag g, Pool (bag_pool B)} m F m' F'" and "contents_of (blocks m') (F' (Bag g)) = []"
    and "\<exists>B'. bags m' g = Some B' \<and> bag_pool B' = bag_pool B"
proof -
  obtain a Q b where P: "F (Bag g) = a # Q" and a: "bag_head B = Some a" "blocks m a = Some b" "block_ok b" "b_size b < BLOCK_SIZE"
    and Q: "path (bnext (blocks m)) (b_next b) Q None" "a \<notin> set Q" "blocks_ok (blocks m) (\<lambda>n. n = BLOCK_SIZE) Q"
    and tl: "bag_tail B = Some (last (F (Bag g)))" "sizeInBlocks B = length (F (Bag g))"
    using bag_regionD [OF assms(1,2)] by (rule bag_okE)
  let ?t = "bag_pool B" let ?F = "F(Bag g := [])"
  note opn = layout_hide [OF assms(1), where g = g]
  have len: "length Q < Suc (next_block m)" using bag_length_lt [OF assms] P by simp
  obtain m1 F1 where 1: "clear_loop (Suc (next_block m)) ?t (b_next b) m = (Ok (), m1)" "layout {g} m1 F1" "frame {Pool ?t} m ?F m1 F1"
    "\<forall>a. a \<notin> set Q \<longrightarrow> blocks m1 a = blocks m a" "bags m1 = bags m" "\<forall>a. loose ?F a \<longrightarrow> a \<notin> set Q \<longrightarrow> loose F1 a"
    using opn(1) Q(1,3) _ len by (rule clear_loop_run [where t = ?t]) (use opn(3) P in auto)
  have b1: "blocks m1 a = Some b" "loose F1 a" using 1(4,6) a(2) Q(2) opn(3) P by auto
  let ?b = "b\<lparr>b_next := None, b_size := 0\<rparr>"
  let ?m2 = "m1\<lparr>blocks := (blocks m1)(a \<mapsto> ?b)\<rparr>" let ?B = "B\<lparr>bag_tail := bag_head B, sizeInBlocks := 1\<rparr>"
  let ?m3 = "?m2\<lparr>bags := (bags ?m2)(g \<mapsto> ?B)\<rparr>"
  have 2: "layout {g} ?m2 F1" "frame {} m1 F1 ?m2 F1"
    by (rule layout_loose_upd [OF 1(2) b1(2) layoutD(3) [OF 1(2) b1(1)]])+
  have 3: "layout {g} ?m3 F1" "frame {Bag g} ?m2 F1 ?m3 F1" by (rule layout_hidden_bag [OF 2(1)]; simp)+
  have ok: "bag_ok (blocks ?m3) ?B [a]" using a by (simp add: bag_ok_def)
  have 4: "layout {} ?m3 (F1(Bag g := [a]))" "frame {Bag g} ?m3 F1 ?m3 (F1(Bag g := [a]))"
    by (rule layout_unhide [OF 3(1) _ _ ok]; use b1(2) in simp)+
  have f: "frame {Bag g, Pool ?t} m F ?m3 (F1(Bag g := [a]))"
    by (rule frame_mono [OF frame_trans [OF frame_trans [OF frame_trans [OF frame_trans [OF opn(2) 1(3)] 2(2)] 3(2)] 4(2)]]) auto
  show thesis
    by (rule that [OF _ 4(1) f])
      (use 1(1,5) a b1 assms(2) in \<open>auto simp: clearWithoutFreeingElements_def block_clearWithoutFreeingElements_def run_simps simp del: clear_loop.simps\<close>)
qed

section \<open>The shared bag\<close>

lemma layout_upd_shared:
  assumes "layout {} m F" and "region_ok {} m' Shared P" and "\<And>p. p \<in> set P \<Longrightarrow> p \<in> set (F Shared) \<or> loose F p"
    and "blocks m' = (blocks m)(c \<mapsto> b)" "c \<in> set (F Shared) \<or> loose F c" "c < next_block m"
    and "bags m' = bags m" "mem_pools m' = mem_pools m" "next_block m' = next_block m"
    and "live_objs m' = live_objs m" "next_obj m' = next_obj m"
  shows "layout {} m' (F(Shared := P))" and "frame {Shared} m F m' (F(Shared := P))"
proof -
  have "blocks m' p = blocks m p" if "p \<in> set (F r)" "r \<noteq> Shared" for p r
    using assms(4,5) layoutD(2) [OF assms(1) that(2,1)] that by (auto simp: loose_def)
  then show f: "frame {Shared} m F m' (F(Shared := P))" using assms(7-11) by (auto simp: frame_def)
  show "layout {} m' (F(Shared := P))"
    by (rule layout_upd [OF assms(1) f assms(2)]) (use assms(3,4,6,9) layoutD(3) [OF assms(1)] in \<open>auto split: if_splits\<close>)
qed

lemma getBlock_run:
  assumes "layout {} m F"
  obtains (none) "F Shared = []" and "getBlock m = (Ok None, m)"
  | (some) c m' F' where "getBlock m = (Ok (Some c), m')" and "layout {} m' F'" and "frame {Shared} m F m' F'"
    and "F Shared = c # F' Shared" and "loose F' c" and "blocks_ok (blocks m') (\<lambda>n. n = BLOCK_SIZE) [c]" and "bnext (blocks m') c = None"
    and "\<forall>P. contents_of (blocks m') P = contents_of (blocks m) P" and "bags m' = bags m"
proof -
  have S: "path (bnext (blocks m)) (shared_head m) (F Shared) None" "blocks_ok (blocks m) (\<lambda>n. n = BLOCK_SIZE) (F Shared)"
    using layoutD(1) [OF assms, of Shared] by (auto simp: region_ok_def)
  show thesis
  proof (cases "F Shared")
    case Nil
    with S none show thesis by (simp add: getBlock_def run_simps)
  next
    case (Cons c R)
    obtain b where b: "blocks m c = Some b" "block_ok b" "b_size b = BLOCK_SIZE" "shared_head m = Some c"
      "path (bnext (blocks m)) (b_next b) R None" "c \<notin> set R"
      using S path_distinct [OF S(1)] Cons by auto
    let ?m = "m\<lparr>shared_head := b_next b, shared_tag := shared_tag m + 1, blocks := (blocks m)(c \<mapsto> b\<lparr>b_next := None\<rparr>)\<rparr>"
    have ok: "region_ok {} ?m Shared R" using b S Cons by (auto simp: region_ok_def)
    have L: "layout {} ?m (F(Shared := R))" "frame {Shared} m F ?m (F(Shared := R))"
      by (rule layout_upd_shared [OF assms ok]; use Cons layoutD(3) [OF assms b(1)] in auto)+
    have "loose (F(Shared := R)) c" using layoutD(2) [OF assms, of Shared _ c] Cons b(6) by (auto simp: loose_def)
    with L show thesis
      by (intro some [OF _ L]) (use b Cons in \<open>auto simp: getBlock_def run_simps contents_next\<close>)
  qed
qed

lemma addBlock_run:
  assumes "layout {} m F" and "loose F c" and "blocks_ok (blocks m) (\<lambda>n. n = BLOCK_SIZE) [c]"
  obtains m' F' where "addBlock (Some c) m = (Ok (), m')" and "layout {} m' F'" and "frame {Shared} m F m' F'"
    and "F' Shared = c # F Shared" and "\<forall>P. contents_of (blocks m') P = contents_of (blocks m) P" and "bags m' = bags m"
proof -
  have S: "path (bnext (blocks m)) (shared_head m) (F Shared) None" "blocks_ok (blocks m) (\<lambda>n. n = BLOCK_SIZE) (F Shared)"
    using layoutD(1) [OF assms(1), of Shared] by (auto simp: region_ok_def)
  obtain b where b: "blocks m c = Some b" "block_ok b" "b_size b = BLOCK_SIZE" using assms(3) by auto
  have c: "c \<notin> set (F Shared)" using assms(2) by (simp add: loose_def)
  let ?m = "m\<lparr>shared_head := Some c, shared_tag := shared_tag m + 1, blocks := (blocks m)(c \<mapsto> b\<lparr>b_next := shared_head m\<rparr>)\<rparr>"
  have ok: "region_ok {} ?m Shared (c # F Shared)" using b S c by (auto simp: region_ok_def)
  have L: "layout {} ?m (F(Shared := c # F Shared))" "frame {Shared} m F ?m (F(Shared := c # F Shared))"
    by (rule layout_upd_shared [OF assms(1) ok]; use assms(2) layoutD(3) [OF assms(1) b(1)] in auto)+
  show thesis by (rule that [OF _ L]) (use b in \<open>auto simp: addBlock_def run_simps contents_next\<close>)
qed

section \<open>Erasing one item\<close>

lemma items_nth: "j < b_size b \<Longrightarrow> items b ! j = the (b_data b j)"
  by (simp add: items_def)

lemma mset_items_erase:
  assumes "block_ok b" and "ix < b_size b"
  shows "mset (items b) = add_mset (items b ! ix) (mset (items (block_erase ix b)))" and "block_ok (block_erase ix b)"
    and "b_size (block_erase ix b) = b_size b - 1" and "b_next (block_erase ix b) = b_next b"
proof -
  obtain n where n: "b_size b = Suc n" using assms(2) by (cases "b_size b") auto
  have it: "items b = map (\<lambda>j. the (b_data b j)) [0..<n] @ [the (b_data b n)]" using n by (simp add: items_def)
  show "mset (items b) = add_mset (items b ! ix) (mset (items (block_erase ix b)))"
  proof (cases "ix = n")
    case True
    then show ?thesis using n by (simp add: block_erase_def items_def nth_append)
  next
    case False
    then have lt: "ix < n" using assms(2) n by simp
    define xs where "xs = map (\<lambda>j. the (b_data b j)) [0..<n]"
    have "items (block_erase ix b) = xs[ix := the (b_data b n)]"
      using n False by (auto simp: xs_def block_erase_def items_def nth_list_update intro!: nth_equalityI)
    moreover have "items b = xs @ [the (b_data b n)]" "ix < length xs" using it lt by (simp_all add: xs_def)
    ultimately show ?thesis by (simp add: mset_update nth_append)
  qed
  show "block_ok (block_erase ix b)" using assms n by (auto simp: block_ok_def block_erase_def)
qed (use assms(2) in \<open>auto simp: block_erase_def\<close>)

lemma mset_items_replace:
  assumes "block_ok b" and "ix < b_size b"
  shows "add_mset (items b ! ix) (mset (items (b\<lparr>b_data := (b_data b)(ix \<mapsto> x)\<rparr>))) = add_mset x (mset (items b))"
    and "block_ok (b\<lparr>b_data := (b_data b)(ix \<mapsto> x)\<rparr>)"
proof -
  have "items (b\<lparr>b_data := (b_data b)(ix \<mapsto> x)\<rparr>) = (items b)[ix := x]"
    using assms(2) by (auto simp: items_def nth_list_update intro!: nth_equalityI)
  then show "add_mset (items b ! ix) (mset (items (b\<lparr>b_data := (b_data b)(ix \<mapsto> x)\<rparr>))) = add_mset x (mset (items b))"
    using assms(2) by (simp add: mset_update)
  show "block_ok (b\<lparr>b_data := (b_data b)(ix \<mapsto> x)\<rparr>)" using assms(1) by (auto simp: block_ok_def)
qed

lemma contents_split:
  assumes "c \<in> set P" and "distinct P"
  shows "mset (contents_of h P) = mset (items (the (h c))) + mset (contents_of h (remove1 c P))"
    and "h' c = Some d \<Longrightarrow> (\<And>p. p \<in> set P \<Longrightarrow> p \<noteq> c \<Longrightarrow> h' p = h p) \<Longrightarrow>
      mset (contents_of h' P) = mset (items d) + mset (contents_of h (remove1 c P))"
proof -
  show "mset (contents_of h P) = mset (items (the (h c))) + mset (contents_of h (remove1 c P))"
    using assms by (induction P) auto
  show "mset (contents_of h' P) = mset (items d) + mset (contents_of h (remove1 c P))"
    if "h' c = Some d" "\<And>p. p \<in> set P \<Longrightarrow> p \<noteq> c \<Longrightarrow> h' p = h p"
    using assms that
  proof (induction P)
    case (Cons p P)
    show ?case
    proof (cases "p = c")
      case True
      have "contents_of h' P = contents_of h P" by (rule contents_of_cong) (use Cons.prems True in auto)
      with True Cons.prems show ?thesis by simp
    next
      case False
      with Cons.prems have "h' p = h p" by simp
      with False Cons show ?thesis by auto
    qed
  qed simp
qed

lemma erase_item_run:
  assumes "layout {g} m F" and "bags m g = Some B" and "bag_head B = Some a" and "blocks m a = Some b" and "block_ok b" and "0 < b_size b"
    and "path (bnext (blocks m)) (b_next b) Q None" and "a \<notin> set Q" and "blocks_ok (blocks m) (\<lambda>n. n = BLOCK_SIZE) Q"
    and "bag_tail B = Some (last (a # Q))" and "sizeInBlocks B = length (a # Q)" and "\<forall>p\<in>set (a # Q). loose F p"
    and "c \<in> set (a # Q)" and "blocks m c = Some d" and "ix < b_size d"
  obtains r m' F' where "erase_item g (Some c) ix m = (Ok r, m')" and "layout {} m' F'" and "frame {Bag g} m F m' F'"
    and "mset (contents_of (blocks m) (a # Q)) = add_mset (items d ! ix) (mset (contents_of (blocks m') (F' (Bag g))))"
    and "bags m' = bags m" and "r \<longleftrightarrow> c \<noteq> a"
proof (cases "c = a")
  case True
  let ?b = "block_erase ix b" let ?m = "m\<lparr>blocks := (blocks m)(a \<mapsto> ?b)\<rparr>"
  have bd: "b = d" using True assms(4,14) by simp
  note er = mset_items_erase [OF assms(5), of ix]
  have 1: "layout {g} ?m F" "frame {} m F ?m F"
    by (rule layout_loose_upd [OF assms(1)]; use assms(12) layoutD(3) [OF assms(1,4)] in simp)+
  have "b_size b \<le> BLOCK_SIZE" using assms(5) by (simp add: block_ok_def)
  then have ok: "bag_ok (blocks ?m) B (a # Q)"
    using assms er bd by (auto simp: bag_ok_def)
  have 2: "layout {} ?m (F(Bag g := a # Q))" "frame {Bag g} ?m F ?m (F(Bag g := a # Q))"
    by (rule layout_unhide [OF 1(1) _ _ ok]; use assms(2,12) in auto)+
  have run: "erase_item g (Some c) ix m = (Ok False, ?m)"
    using True assms(2-4,6) by (simp add: erase_item_def run_simps block_isEmpty_def)
  show thesis
    by (rule that [OF run 2(1) frame_mono [OF frame_trans [OF 1(2) 2(2)]]]) (use True assms(4,8,15) er bd in auto)
next
  case False
  then have c: "c \<in> set Q" using assms(13) by simp
  have d: "block_ok d" "b_size d = BLOCK_SIZE" using assms(9,14) c by (auto simp: blocks_ok_def)
  obtain x where x: "at_block (Some a) block_pop m = (Ok (Some x), m\<lparr>blocks := (blocks m)(a \<mapsto> b\<lparr>b_size := b_size b - 1\<rparr>)\<rparr>)"
    "items b = items (b\<lparr>b_size := b_size b - 1\<rparr>) @ [x]" "block_ok (b\<lparr>b_size := b_size b - 1\<rparr>)"
    using block_pop_run [OF assms(4,5,6)] by auto
  let ?b = "b\<lparr>b_size := b_size b - 1\<rparr>" let ?d = "d\<lparr>b_data := (b_data d)(ix \<mapsto> x)\<rparr>"
  let ?m1 = "m\<lparr>blocks := (blocks m)(a \<mapsto> ?b)\<rparr>" let ?m2 = "?m1\<lparr>blocks := (blocks ?m1)(c \<mapsto> ?d)\<rparr>"
  note rp = mset_items_replace [OF d(1) assms(15), of x]
  have 1: "layout {g} ?m1 F" "frame {} m F ?m1 F"
    by (rule layout_loose_upd [OF assms(1)]; use assms(12) layoutD(3) [OF assms(1,4)] in simp)+
  have 2: "layout {g} ?m2 F" "frame {} ?m1 F ?m2 F"
    by (rule layout_loose_upd [OF 1(1)]; use assms(12) c layoutD(3) [OF assms(1,14)] in simp)+
  have dQ: "distinct Q" using path_distinct [OF assms(7)] .
  have "path (bnext (blocks ?m2)) (b_next b) Q None = path (bnext (blocks m)) (b_next b) Q None"
    using assms(8,14) by (intro path_cong) (auto simp: bnext_def)
  moreover have "blocks_ok (blocks ?m2) (\<lambda>n. n = BLOCK_SIZE) Q"
    using assms(8,9) d(2) rp(2) by (auto simp: blocks_ok_def)
  moreover have "b_size b \<le> BLOCK_SIZE" using assms(5) by (simp add: block_ok_def)
  ultimately have ok: "bag_ok (blocks ?m2) B (a # Q)"
    using assms(3,6,7,10,11) x(3) False by (auto simp: bag_ok_def)
  have 3: "layout {} ?m2 (F(Bag g := a # Q))" "frame {Bag g} ?m2 F ?m2 (F(Bag g := a # Q))"
    by (rule layout_unhide [OF 2(1) _ _ ok]; use assms(2,12) in auto)+
  have run: "erase_item g (Some c) ix m = (Ok True, ?m2)"
    using False assms(2-4,6,14,15) x(1) by (simp add: erase_item_def run_simps block_isEmpty_def block_replace_def)
  have "mset (contents_of (blocks m) Q) = mset (items d) + mset (contents_of (blocks m) (remove1 c Q))"
    using contents_split(1) [OF c dQ, of "blocks m"] assms(14) by simp
  moreover have "mset (contents_of (blocks ?m2) Q) = mset (items ?d) + mset (contents_of (blocks m) (remove1 c Q))"
    by (rule contents_split(2) [OF c dQ]) (use assms(8) in auto)
  ultimately have "mset (contents_of (blocks m) (a # Q)) = add_mset (items d ! ix) (mset (contents_of (blocks ?m2) (a # Q)))"
    using assms(4) x(2) rp(1) False by simp
  then show thesis
    by (intro that [OF run 3(1) frame_mono [OF frame_trans [OF frame_trans [OF 1(2) 2(2)] 3(2)]]]) (use False in auto)
qed

lemma bag_erase_run:
  assumes "layout {} m F" and "bags m g = Some B" and "c \<in> set (F (Bag g))" and "blocks m c = Some d" and "ix < b_size d"
  obtains r m' F' where "bag_erase g (Some c) ix m = (Ok r, m')" and "layout {} m' F'" and "frame {Bag g, Pool (bag_pool B)} m F m' F'"
    and "mset (contents_of (blocks m) (F (Bag g))) = add_mset (items d ! ix) (mset (contents_of (blocks m') (F' (Bag g))))"
    and "\<exists>B'. bags m' g = Some B' \<and> bag_pool B' = bag_pool B"
proof -
  obtain a Q b where P: "F (Bag g) = a # Q" and a: "bag_head B = Some a" "blocks m a = Some b" "block_ok b" "b_size b < BLOCK_SIZE"
    and Q: "path (bnext (blocks m)) (b_next b) Q None" "a \<notin> set Q" "blocks_ok (blocks m) (\<lambda>n. n = BLOCK_SIZE) Q"
    and tl: "bag_tail B = Some (last (F (Bag g)))" "sizeInBlocks B = length (F (Bag g))"
    using bag_regionD [OF assms(1,2)] by (rule bag_okE)
  note opn = layout_hide [OF assms(1), where g = g]
  let ?F = "F(Bag g := [])"
  have lo: "\<forall>p\<in>set (a # Q). loose ?F p" using opn(3) P by auto
  have "items d \<noteq> []" using assms(5) by auto
  then have "contents_of (blocks m) (F (Bag g)) \<noteq> []" using assms(3,4) by (force simp: contents_of_def)
  then have em: "bag_isEmpty g m = (Ok False, m)" using bag_isEmpty_run [OF assms(1,2)] by simp
  show thesis
  proof (cases "b_size b = 0")
    case False
    obtain r m1 F1 where 1: "erase_item g (Some c) ix m = (Ok r, m1)" "layout {} m1 F1" "frame {Bag g} m ?F m1 F1"
      "mset (contents_of (blocks m) (a # Q)) = add_mset (items d ! ix) (mset (contents_of (blocks m1) (F1 (Bag g))))"
      "bags m1 = bags m" "r \<longleftrightarrow> c \<noteq> a"
      using opn(1) assms(2) a(1-3) _ Q tl [unfolded P] lo assms(3) [unfolded P] assms(4,5) by (rule erase_item_run) (use False in simp)
    have "bag_erase g (Some c) ix m = (Ok r, m1)"
      using em a assms(2,4,5) False 1(1) by (simp add: bag_erase_def run_simps block_isEmpty_def)
    then show thesis
      by (rule that [OF _ 1(2) frame_mono [OF frame_trans [OF opn(2) 1(3)]]]) (use 1(4,5) P assms(2) in auto)
  next
    case True
    have ca: "c \<noteq> a" using True a(2) assms(4,5) by auto
    then have cQ: "c \<in> set Q" using assms(3) P by simp
    then obtain e R where Qe: "Q = e # R" by (cases Q) auto
    obtain k where k: "blocks m e = Some k" "block_ok k" "b_size k = BLOCK_SIZE" "b_next b = Some e"
      "path (bnext (blocks m)) (b_next k) R None" "e \<notin> set R" "blocks_ok (blocks m) (\<lambda>n. n = BLOCK_SIZE) R"
      using Q path_distinct [OF Q(1)] unfolding Qe by auto
    let ?B = "B\<lparr>bag_head := b_next b, sizeInBlocks := sizeInBlocks B - 1\<rparr>"
    obtain m1 F1 where 1: "drop_head g m = (Ok (), m1)" "layout {g} m1 F1" "frame {Bag g, Pool (bag_pool B)} m ?F m1 F1"
      "\<forall>p. p \<noteq> a \<longrightarrow> blocks m1 p = blocks m p" "\<forall>p. loose ?F p \<longrightarrow> p \<noteq> a \<longrightarrow> loose F1 p" "bags m1 = (bags m)(g \<mapsto> ?B)"
      using opn(1) by (rule drop_head_run [where g = g and B = B and a = a and b = b]) (use assms(2) a lo True in auto)
    have same: "\<And>p. p \<in> set Q \<Longrightarrow> blocks m1 p = blocks m p" using 1(4) Q(2) by auto
    have sR: "\<And>p. p \<in> set R \<Longrightarrow> blocks m1 p = blocks m p" using same Qe by auto
    have R: "path (bnext (blocks m1)) (b_next k) R None" "blocks_ok (blocks m1) (\<lambda>n. n = BLOCK_SIZE) R"
      using k(5,7) by (simp_all add: path_bnext_cong [of R "blocks m1" "blocks m", OF sR] blocks_ok_cong [of R "blocks m1" "blocks m", OF sR])
    have pre: "bags m1 g = Some ?B" "bag_head ?B = Some e" "blocks m1 e = Some k" "0 < b_size k" "bag_tail ?B = Some (last (e # R))"
      "sizeInBlocks ?B = length (e # R)" "\<forall>p\<in>set (e # R). loose F1 p" "c \<in> set (e # R)" "blocks m1 c = Some d"
      using 1(5,6) k(1,3,4) same [of e] same [of c] tl P Qe lo Q(2) cQ assms(4) by auto
    obtain r m2 F2 where 2: "erase_item g (Some c) ix m1 = (Ok r, m2)" "layout {} m2 F2" "frame {Bag g} m1 F1 m2 F2"
      "mset (contents_of (blocks m1) (e # R)) = add_mset (items d ! ix) (mset (contents_of (blocks m2) (F2 (Bag g))))"
      "bags m2 = bags m1" "r \<longleftrightarrow> c \<noteq> e"
      by (rule erase_item_run [OF 1(2) pre(1-3) k(2) pre(4) R(1) k(6) R(2) pre(5-9) assms(5)])
    have "contents_of (blocks m1) Q = contents_of (blocks m) Q" by (rule contents_of_cong [OF same])
    then have ct: "mset (contents_of (blocks m) (F (Bag g))) = add_mset (items d ! ix) (mset (contents_of (blocks m2) (F2 (Bag g))))"
      using 2(4) P Qe a(2) True by simp
    have "bag_erase g (Some c) ix m = (Ok r, m2)"
      using em a assms(2,4,5) True ca 1(1) 2(1) by (simp add: bag_erase_def run_simps block_isEmpty_def)
    then show thesis
      by (rule that [OF _ 2(2) frame_mono [OF frame_trans [OF frame_trans [OF opn(2) 1(3)] 2(3)]] ct]) (use 1(6) 2(5) in auto)
  qed
qed

end
