(* ===== verification/BagIter.thy ===== *)
theory BagIter
  imports BagLife
begin

text \<open>
  The iterator of \<^verbatim>\<open>blockbag.h\<close>, without the counters of the debugging macros.
\<close>

section \<open>The iterator\<close>

record blockbag_iterator =
  it_bag :: bag_id
  it_curr :: "bptr option"
  it_ix :: int

text \<open>\<open>operator++\<close>\<close>

definition it_advance :: "blockbag_iterator \<Rightarrow> (mem, blockbag_iterator) cmd" where
  "it_advance it =
     (let ix = it_ix it - 1 in
      if ix < 0 then
        bindE (read_block (it_curr it) b_next) (\<lambda>q.
          case q of
            None \<Rightarrow> returnE (it\<lparr>it_curr := None, it_ix := -1\<rparr>)
          | Some _ \<Rightarrow> bindE (read_block q b_size) (\<lambda>n. returnE (it\<lparr>it_curr := q, it_ix := int n - 1\<rparr>)))
      else returnE (it\<lparr>it_ix := ix\<rparr>))"

definition new_iterator :: "bptr option \<Rightarrow> bag_id \<Rightarrow> (mem, blockbag_iterator) cmd" where
  "new_iterator h g =
     (case h of
        None \<Rightarrow> returnE \<lparr>it_bag = g, it_curr = None, it_ix = -1\<rparr>
      | Some _ \<Rightarrow> bindE (read_block h b_size) (\<lambda>n. it_advance \<lparr>it_bag = g, it_curr = h, it_ix = int n\<rparr>))"

definition bag_begin :: "bag_id \<Rightarrow> (mem, blockbag_iterator) cmd" where
  "bag_begin g = bindE (at_bag g bag_head) (\<lambda>h. new_iterator h g)"

definition bag_end :: "bag_id \<Rightarrow> (mem, blockbag_iterator) cmd" where
  "bag_end g = new_iterator None g"

definition it_deref :: "blockbag_iterator \<Rightarrow> (mem, obj option) cmd" where
  "it_deref it = at_block (it_curr it) (block_peek (it_ix it))"

definition it_eq :: "blockbag_iterator \<Rightarrow> blockbag_iterator \<Rightarrow> bool" where
  "it_eq a b \<longleftrightarrow> it_curr a = it_curr b \<and> it_ix a = it_ix b"

definition it_swap :: "blockbag_iterator \<Rightarrow> bptr option \<Rightarrow> nat \<Rightarrow> (mem, unit) cmd" where
  "it_swap it otherCurr otherIx =
     bindE (at_block otherCurr (block_peek (int otherIx))) (\<lambda>temp.
     bindE (at_block (it_curr it) (block_peek (it_ix it))) (\<lambda>x.
     thenE (at_block otherCurr (block_replace otherIx x))
     (thenE (assertE (0 \<le> it_ix it))
       (at_block (it_curr it) (block_replace (nat (it_ix it)) temp)))))"

definition it_erase :: "blockbag_iterator \<Rightarrow> (mem, blockbag_iterator) cmd" where
  "it_erase it =
     thenE (assertE (it_curr it \<noteq> None))
     (bindE (read_block (it_curr it) block_isEmpty) (\<lambda>e.
     thenE (assertE (\<not> e))
     (bindE (bag_erase (it_bag it) (it_curr it) (nat (it_ix it))) (\<lambda>result.
     bindE (read_block (it_curr it) b_size) (\<lambda>n.
     bindE (if it_ix it \<ge> int n then it_advance it else returnE it) (\<lambda>it.
       if result then it_advance it else returnE it))))))"

text \<open>The loop every client of the iterator writes: \<open>for (it = begin; it != end; it++)\<close>.\<close>

primrec it_collect :: "nat \<Rightarrow> blockbag_iterator \<Rightarrow> blockbag_iterator \<Rightarrow> (mem, obj option list) cmd" where
  "it_collect 0 it stop = throwE Diverges"
| "it_collect (Suc n) it stop =
     (if it_eq it stop then returnE []
      else bindE (it_deref it) (\<lambda>x. bindE (it_advance it) (\<lambda>it. bindE (it_collect n it stop) (\<lambda>xs. returnE (x # xs)))))"

definition bag_elements :: "bag_id \<Rightarrow> (mem, obj option list) cmd" where
  "bag_elements g =
     bindE (bag_begin g) (\<lambda>it. bindE (bag_end g) (\<lambda>stop. bindE (computeSize g) (\<lambda>n. it_collect (Suc n) it stop)))"

section \<open>The iterator visits every item once\<close>

text \<open>The items still to be visited from a position in a block.\<close>

definition it_rest :: "(bptr \<rightharpoonup> block) \<Rightarrow> block \<Rightarrow> nat \<Rightarrow> bptr list \<Rightarrow> obj list" where
  "it_rest h b k Q = rev (take k (items b)) @ concat (map (\<lambda>p. rev (items (the (h p)))) Q)"

lemma it_collect_run:
  assumes "blocks m a = Some b" and "block_ok b" and "k \<le> b_size b"
    and "path (bnext (blocks m)) (b_next b) Q None" and "blocks_ok (blocks m) (\<lambda>n. n = BLOCK_SIZE) Q"
    and "it_bag stop = g" and "it_curr stop = None" and "it_ix stop = -1" and "length (it_rest (blocks m) b k Q) < n"
  shows "bindE (it_advance \<lparr>it_bag = g, it_curr = Some a, it_ix = int k\<rparr>) (\<lambda>it. it_collect n it stop) m =
    (Ok (map Some (it_rest (blocks m) b k Q)), m)"
  using assms
proof (induction n arbitrary: a b k Q)
  case (Suc n)
  let ?it = "\<lambda>a k. \<lparr>it_bag = g, it_curr = Some a, it_ix = int k\<rparr>"
  have step: "it_collect (Suc n) \<lparr>it_bag = g, it_curr = Some a, it_ix = int j\<rparr> stop m =
      (Ok (map Some (it_rest (blocks m) b (Suc j) Q)), m)"
    if asm: "blocks m a = Some b" "block_ok b" "Suc j \<le> b_size b" "path (bnext (blocks m)) (b_next b) Q None"
      "blocks_ok (blocks m) (\<lambda>n. n = BLOCK_SIZE) Q" "length (it_rest (blocks m) b (Suc j) Q) < Suc n" for a b j Q
  proof -
    obtain x where x: "b_data b j = Some x" using asm(2,3) by (auto simp: block_ok_def Suc_le_eq)
    have j: "j < BLOCK_SIZE" using asm(2,3) by (simp add: block_ok_def)
    have tk: "take (Suc j) (items b) = take j (items b) @ [x]"
      using asm(3) x by (simp add: take_Suc_conv_app_nth items_nth)
    have rest: "it_rest (blocks m) b (Suc j) Q = x # it_rest (blocks m) b j Q" by (simp add: it_rest_def tk)
    have "bindE (it_advance (?it a j)) (\<lambda>it. it_collect n it stop) m = (Ok (map Some (it_rest (blocks m) b j Q)), m)"
      by (rule Suc.IH) (use asm Suc.prems(6-8) rest in auto)
    then show ?thesis
      using asm(1) x j Suc.prems(6-8) rest
      by (auto simp: it_eq_def it_deref_def block_peek_def run_simps fun_upd_idem split: prod.splits outcome.splits)
  qed
  show ?case
  proof (cases k)
    case (Suc j)
    then show ?thesis using step [of a b j Q] Suc.prems by (simp add: it_advance_def run_simps)
  next
    case 0
    show ?thesis
    proof (cases Q)
      case Nil
      then show ?thesis using 0 Suc.prems by (simp add: it_advance_def run_simps it_eq_def it_rest_def)
    next
      case (Cons c R)
      obtain d where d: "blocks m c = Some d" "block_ok d" "b_size d = BLOCK_SIZE" "b_next b = Some c"
        "path (bnext (blocks m)) (b_next d) R None" "blocks_ok (blocks m) (\<lambda>n. n = BLOCK_SIZE) R"
        using Suc.prems(4,5) Cons by auto
      obtain j where j: "BLOCK_SIZE = Suc j" by (cases BLOCK_SIZE) auto
      have rest: "it_rest (blocks m) b k Q = it_rest (blocks m) d (Suc j) R"
        using 0 Cons d(1,3) j by (simp add: it_rest_def)
      have adv: "it_advance (?it a k) m = (Ok (?it c j), m)"
        using 0 d j Suc.prems(1) by (simp add: it_advance_def run_simps)
      have "it_collect (Suc n) (?it c j) stop m = (Ok (map Some (it_rest (blocks m) d (Suc j) R)), m)"
        by (rule step [OF d(1,2) _ d(5,6)]) (use d(3) j rest Suc.prems(9) in auto)
      with adv rest show ?thesis by (simp add: bindE_Ok del: it_collect.simps)
    qed
  qed
qed simp

lemma it_rest_mset:
  "mset (it_rest h b (b_size b) Q) = mset (items b) + mset (contents_of h Q)"
  by (induction Q) (auto simp: it_rest_def)

lemma bag_elements_run:
  assumes "layout {} m F" and "bags m g = Some B"
  obtains xs where "bag_elements g m = (Ok (map Some xs), m)" and "mset xs = mset (contents_of (blocks m) (F (Bag g)))"
proof -
  obtain a Q b where P: "F (Bag g) = a # Q" and a: "bag_head B = Some a" "blocks m a = Some b" "block_ok b" "b_size b < BLOCK_SIZE"
    and Q: "path (bnext (blocks m)) (b_next b) Q None" "a \<notin> set Q" "blocks_ok (blocks m) (\<lambda>n. n = BLOCK_SIZE) Q"
    using bag_regionD [OF assms] by (rule bag_okE)
  let ?xs = "it_rest (blocks m) b (b_size b) Q" let ?stop = "\<lparr>it_bag = g, it_curr = None, it_ix = -1\<rparr>"
  let ?n = "length (contents_of (blocks m) (F (Bag g)))"
  have ms: "mset ?xs = mset (contents_of (blocks m) (F (Bag g)))" using it_rest_mset P a(2) by simp
  then have "length ?xs < Suc ?n" by (metis lessI size_mset)
  then have "bindE (it_advance \<lparr>it_bag = g, it_curr = Some a, it_ix = int (b_size b)\<rparr>) (\<lambda>it. it_collect (Suc ?n) it ?stop) m =
      (Ok (map Some ?xs), m)"
    by (intro it_collect_run [OF a(2,3) _ Q(1,3)]) simp_all
  moreover obtain r m1 where adv: "it_advance \<lparr>it_bag = g, it_curr = Some a, it_ix = int (b_size b)\<rparr> m = (r, m1)" by fastforce
  moreover have "m1 = m"
    using adv a(2) Q(1,3) by (cases Q) (auto simp: it_advance_def run_simps Let_def split: if_splits)
  ultimately have "bag_elements g m = (Ok (map Some ?xs), m)"
    using computeSize_run(2) [OF assms] assms(2) a(1,2)
    by (cases r) (auto simp: bag_elements_def bag_begin_def bag_end_def new_iterator_def run_simps simp del: it_collect.simps)
  with ms show thesis by (intro that)
qed

end
