(* ===== verification/RecordPool.thy ===== *)
theory RecordPool
  imports BagIter
begin

text \<open>
  The allocator \<^verbatim>\<open>allocator_new.h\<close> and the two pools of the record manager,
  \<^verbatim>\<open>pool_none.h\<close> and \<^verbatim>\<open>pool_perthread_and_shared.h\<close>, on the bags of \<open>BlockBag\<close>.
  The macros \<open>NO_FREE\<close> and \<open>MEMORY_STATS\<close> are not set.
\<close>

section \<open>The allocator\<close>

definition allocate :: "nat \<Rightarrow> (mem, obj option) cmd" where
  "allocate tid = new_obj"

definition deallocate :: "nat \<Rightarrow> obj option \<Rightarrow> (mem, unit) cmd" where
  "deallocate tid p = delete_obj p"

primrec deallocate_loop :: "nat \<Rightarrow> nat \<Rightarrow> bag_id \<Rightarrow> (mem, unit) cmd" where
  "deallocate_loop 0 tid g = throwE Diverges"
| "deallocate_loop (Suc n) tid g =
     bindE (bag_isEmpty g) (\<lambda>e.
       if e then returnE ()
       else bindE (bag_remove g) (\<lambda>ptr. thenE (deallocate tid ptr) (deallocate_loop n tid g)))"

definition deallocateAndClear :: "nat \<Rightarrow> bag_id \<Rightarrow> (mem, unit) cmd" where
  "deallocateAndClear tid g = bindE (computeSize g) (\<lambda>n. deallocate_loop (Suc n) tid g)"

section \<open>The pools\<close>

text \<open>The operations a pool offers to its clients.\<close>

record pool_ops =
  pool_get :: "nat \<Rightarrow> (mem, obj option) cmd"
  pool_add :: "nat \<Rightarrow> obj option \<Rightarrow> (mem, unit) cmd"
  pool_addMoveFullBlocks :: "nat \<Rightarrow> bag_id \<Rightarrow> (mem, unit) cmd"
  pool_addMoveAll :: "nat \<Rightarrow> bag_id \<Rightarrow> (mem, unit) cmd"
  pool_computeSize :: "nat \<Rightarrow> (mem, nat) cmd"

text \<open>\<^verbatim>\<open>pool_none.h\<close>\<close>

definition none_get :: "nat \<Rightarrow> (mem, obj option) cmd" where
  "none_get tid = allocate tid"

definition none_add :: "nat \<Rightarrow> obj option \<Rightarrow> (mem, unit) cmd" where
  "none_add tid ptr = deallocate tid ptr"

definition none_addMoveFullBlocksAfter :: "nat \<Rightarrow> bag_id \<Rightarrow> bptr option \<Rightarrow> (mem, unit) cmd" where
  "none_addMoveFullBlocksAfter tid bag predecessor = clearWithoutFreeingElements bag"

definition none_addMoveFullBlocks :: "nat \<Rightarrow> bag_id \<Rightarrow> (mem, unit) cmd" where
  "none_addMoveFullBlocks tid bag = deallocateAndClear tid bag"

definition none_addMoveAll :: "nat \<Rightarrow> bag_id \<Rightarrow> (mem, unit) cmd" where
  "none_addMoveAll tid bag = deallocateAndClear tid bag"

definition none_computeSize :: "nat \<Rightarrow> (mem, nat) cmd" where
  "none_computeSize tid = returnE 0"

definition pool_none :: pool_ops where
  "pool_none = \<lparr>pool_get = none_get, pool_add = none_add, pool_addMoveFullBlocks = none_addMoveFullBlocks,
     pool_addMoveAll = none_addMoveAll, pool_computeSize = none_computeSize\<rparr>"

text \<open>\<^verbatim>\<open>pool_perthread_and_shared.h\<close>\<close>

definition POOL_THRESHOLD_IN_BLOCKS :: nat where
  "POOL_THRESHOLD_IN_BLOCKS = 10"

definition tryGiveFreeObjects :: "nat \<Rightarrow> (mem, bool) cmd" where
  "tryGiveFreeObjects tid =
     bindE (at_bag (Free_bag tid) sizeInBlocks) (\<lambda>n.
       if n \<ge> POOL_THRESHOLD_IN_BLOCKS then
         bindE (removeFullBlock (Free_bag tid)) (\<lambda>b.
         thenE (assertE (b \<noteq> None)) (thenE (addBlock b) (returnE True)))
       else returnE False)"

primrec give_loop :: "nat \<Rightarrow> nat \<Rightarrow> (mem, unit) cmd" where
  "give_loop 0 tid = throwE Diverges"
| "give_loop (Suc n) tid = bindE (tryGiveFreeObjects tid) (\<lambda>more. if more then give_loop n tid else returnE ())"

definition give_all :: "nat \<Rightarrow> (mem, unit) cmd" where
  "give_all tid = bindE (at_bag (Free_bag tid) sizeInBlocks) (\<lambda>n. give_loop (Suc n) tid)"

definition shared_get :: "nat \<Rightarrow> (mem, obj option) cmd" where
  "shared_get tid = bag_remove_sharing (Free_bag tid)"

definition shared_add :: "nat \<Rightarrow> obj option \<Rightarrow> (mem, unit) cmd" where
  "shared_add tid ptr = bag_add_sharing (Free_bag tid) ptr POOL_THRESHOLD_IN_BLOCKS"

definition shared_addMoveFullBlocksAfter :: "nat \<Rightarrow> bag_id \<Rightarrow> bptr option \<Rightarrow> (mem, unit) cmd" where
  "shared_addMoveFullBlocksAfter tid bag predecessor =
     thenE (appendMoveBlocksAfter (Free_bag tid) bag predecessor) (give_all tid)"

definition shared_addMoveFullBlocks :: "nat \<Rightarrow> bag_id \<Rightarrow> (mem, unit) cmd" where
  "shared_addMoveFullBlocks tid bag = thenE (appendMoveFullBlocks (Free_bag tid) bag) (give_all tid)"

definition shared_addMoveAll :: "nat \<Rightarrow> bag_id \<Rightarrow> (mem, unit) cmd" where
  "shared_addMoveAll tid bag = thenE (appendMoveAll (Free_bag tid) bag) (give_all tid)"

definition shared_computeSize :: "nat \<Rightarrow> (mem, nat) cmd" where
  "shared_computeSize tid = computeSize (Free_bag tid)"

definition pool_perthread_and_shared :: pool_ops where
  "pool_perthread_and_shared = \<lparr>pool_get = shared_get, pool_add = shared_add,
     pool_addMoveFullBlocks = shared_addMoveFullBlocks, pool_addMoveAll = shared_addMoveAll,
     pool_computeSize = shared_computeSize\<rparr>"

text \<open>The constructors; a new pool has one empty block pool per thread.\<close>

definition empty_mem :: mem where
  "empty_mem = \<lparr>blocks = Map.empty, next_block = 0, mem_pools = (\<lambda>_. []), bags = Map.empty,
     shared_head = None, shared_tag = 0, live_objs = [], next_obj = 0\<rparr>"

definition new_shared_pool :: "nat \<Rightarrow> (mem, unit) cmd" where
  "new_shared_pool numProcesses =
     thenE (forE [0..<numProcesses] (\<lambda>tid. new_blockbag (Free_bag tid) tid tid))
       (modifyE (\<lambda>m. m\<lparr>shared_head := None, shared_tag := 0\<rparr>))"

text \<open>The destructor: the blocks of the shared bag are emptied one by one.\<close>

primrec pop_all :: "nat \<Rightarrow> bptr option \<Rightarrow> (mem, unit) cmd" where
  "pop_all 0 b = throwE Diverges"
| "pop_all (Suc n) b =
     bindE (read_block b block_isEmpty) (\<lambda>e.
       if e then returnE ()
       else bindE (at_block b block_pop) (\<lambda>ptr. thenE (deallocate 0 ptr) (pop_all n b)))"

primrec drain_shared :: "nat \<Rightarrow> (mem, unit) cmd" where
  "drain_shared 0 = throwE Diverges"
| "drain_shared (Suc n) =
     bindE getBlock (\<lambda>b.
       if b = None then returnE ()
       else thenE (pop_all (Suc BLOCK_SIZE) b) (thenE (deallocateBlock 0 b) (drain_shared n)))"

definition delete_shared_pool :: "nat \<Rightarrow> (mem, unit) cmd" where
  "delete_shared_pool numProcesses =
     bindE (getsE next_block) (\<lambda>n.
     thenE (drain_shared (Suc n))
       (forE [0..<numProcesses] (\<lambda>tid.
         thenE (deallocateAndClear tid (Free_bag tid)) (delete_blockbag (Free_bag tid)))))"

end
