(* ===== verification/PoolSpec.thy ===== *)
theory PoolSpec
  imports RecordPool
begin

text \<open>
  What the pools promise: objects are conserved. An object that was allocated and not deleted is
  either stored in exactly one place, a bag or the shared bag, or held by a client; every
  operation of a pool says which objects change hands.
\<close>

section \<open>Stored and held objects\<close>

definition stored :: "mem \<Rightarrow> (region \<Rightarrow> bptr list) \<Rightarrow> obj multiset" where
  "stored m F = (\<Sum>g\<in>dom (bags m). mset (contents_of (blocks m) (F (Bag g)))) + mset (contents_of (blocks m) (F Shared))"

definition mem_ok :: "mem \<Rightarrow> (region \<Rightarrow> bptr list) \<Rightarrow> bool" where
  "mem_ok m F \<longleftrightarrow> layout {} m F \<and> finite (dom (bags m)) \<and> stored m F \<subseteq># mset (live_objs m) \<and>
     distinct (live_objs m) \<and> (\<forall>x\<in>set (live_objs m). x < next_obj m)"

definition held :: "mem \<Rightarrow> (region \<Rightarrow> bptr list) \<Rightarrow> obj multiset" where
  "held m F = mset (live_objs m) - stored m F"

abbreviation items_in :: "mem \<Rightarrow> (region \<Rightarrow> bptr list) \<Rightarrow> bag_id \<Rightarrow> obj multiset" where
  "items_in m F g \<equiv> mset (contents_of (blocks m) (F (Bag g)))"

abbreviation items_shared :: "mem \<Rightarrow> (region \<Rightarrow> bptr list) \<Rightarrow> obj multiset" where
  "items_shared m F \<equiv> mset (contents_of (blocks m) (F Shared))"

lemma frame_items:
  assumes "frame R m F m' F'"
  shows "Bag g \<notin> R \<Longrightarrow> items_in m' F' g = items_in m F g" and "Shared \<notin> R \<Longrightarrow> items_shared m' F' = items_shared m F"
    and "Bag g \<notin> R \<Longrightarrow> bags m' g = bags m g"
  using assms by (auto simp: frame_def intro!: arg_cong [of _ _ mset] contents_of_cong)

lemma in_stored:
  assumes "finite (dom (bags m))" and "bags m g = Some B" and "p \<in># items_in m F g"
  shows "p \<in># stored m F"
proof -
  have "(\<Sum>g\<in>dom (bags m). items_in m F g) = items_in m F g + (\<Sum>g\<in>dom (bags m) - {g}. items_in m F g)"
    by (rule sum.remove [OF assms(1)]) (use assms(2) in auto)
  then show ?thesis using assms(3) by (simp add: stored_def)
qed

text \<open>The bags of \<open>G\<close> and the shared bag change.\<close>

lemma stored_change:
  assumes "frame R m F m' F'" and "dom (bags m') = dom (bags m)" and "finite (dom (bags m))" and "G \<subseteq> dom (bags m)"
    and "\<And>g. Bag g \<in> R \<Longrightarrow> g \<in> G"
  shows "stored m' F' + (\<Sum>g\<in>G. items_in m F g) + items_shared m F = stored m F + (\<Sum>g\<in>G. items_in m' F' g) + items_shared m' F'"
proof -
  have "(\<Sum>g\<in>dom (bags m). items_in m'' F'' g) = (\<Sum>g\<in>G. items_in m'' F'' g) + (\<Sum>g\<in>dom (bags m) - G. items_in m'' F'' g)" for m'' F''
    using sum.subset_diff [OF assms(4,3)] by (simp add: add.commute)
  moreover have "(\<Sum>g\<in>dom (bags m) - G. items_in m' F' g) = (\<Sum>g\<in>dom (bags m) - G. items_in m F g)"
    by (rule sum.cong) (use frame_items(1) [OF assms(1)] assms(5) in auto)
  ultimately show ?thesis by (simp add: stored_def assms(2) ac_simps)
qed

text \<open>A change that keeps the objects and where they are stored, but for one object.\<close>

lemma mem_okD:
  assumes "mem_ok m F"
  shows "layout {} m F" and "finite (dom (bags m))" and "stored m F \<subseteq># mset (live_objs m)" and "distinct (live_objs m)"
  using assms by (auto simp: mem_ok_def)


lemma empty_mem_ok: "mem_ok empty_mem (\<lambda>_. [])" "held empty_mem (\<lambda>_. []) = {#}"
proof -
  have "region_ok {} empty_mem r []" for r
    by (cases r) (simp_all add: region_ok_def empty_mem_def blocks_ok_def)
  then have "layout {} empty_mem (\<lambda>_. [])" by (simp add: layout_def) (simp add: empty_mem_def)
  then show "mem_ok empty_mem (\<lambda>_. [])" by (simp add: mem_ok_def stored_def) (simp add: empty_mem_def)
  show "held empty_mem (\<lambda>_. []) = {#}" by (simp add: held_def empty_mem_def)
qed

lemma stored_eq_heap:
  assumes "mem_ok m F" and "layout {} m' F'" and "stored m' F' = stored m F" and "dom (bags m') = dom (bags m)"
    and "live_objs m' = live_objs m" and "next_obj m' = next_obj m"
  shows "mem_ok m' F'" and "held m' F' = held m F"
  using assms by (auto simp: mem_ok_def held_def)

text \<open>What a client of the pool sees of its own bags, but for those of \<open>G\<close>.\<close>

definition bags_kept :: "bag_id set \<Rightarrow> mem \<Rightarrow> (region \<Rightarrow> bptr list) \<Rightarrow> mem \<Rightarrow> (region \<Rightarrow> bptr list) \<Rightarrow> bool" where
  "bags_kept G m F m' F' \<longleftrightarrow> dom (bags m') = dom (bags m) \<and>
     (\<forall>g. g \<notin> G \<longrightarrow> items_in m' F' g = items_in m F g \<and> bags m' g = bags m g)"

lemma bags_kept_refl [simp]: "bags_kept G m F m F"
  by (simp add: bags_kept_def)

lemma bags_kept_trans: "bags_kept G m F m1 F1 \<Longrightarrow> bags_kept G' m1 F1 m2 F2 \<Longrightarrow> bags_kept (G \<union> G') m F m2 F2"
  by (simp add: bags_kept_def)

lemma bags_kept_mono: "bags_kept G m F m' F' \<Longrightarrow> G \<subseteq> G' \<Longrightarrow> bags_kept G' m F m' F'"
  by (auto simp: bags_kept_def)

lemma frame_bags_kept:
  assumes "frame R m F m' F'" and "\<And>g. Bag g \<in> R \<Longrightarrow> g \<in> G" and "\<And>g. g \<in> G \<Longrightarrow> bags m g \<noteq> None \<and> bags m' g \<noteq> None"
  shows "bags_kept G m F m' F'"
proof -
  have "bags m' g = bags m g" if "g \<notin> G" for g using frame_items(3) [OF assms(1)] assms(2) that by blast
  moreover have "items_in m' F' g = items_in m F g" if "g \<notin> G" for g using frame_items(1) [OF assms(1)] assms(2) that by blast
  moreover have "dom (bags m') = dom (bags m)" using calculation(1) assms(3) by (force simp: dom_def)
  ultimately show ?thesis by (simp add: bags_kept_def)
qed

lemma frameD_objs: "frame R m F m' F' \<Longrightarrow> live_objs m' = live_objs m \<and> next_obj m' = next_obj m"
  by (simp add: frame_def)

text \<open>One bag changes.\<close>

lemma stored_one:
  assumes "frame R m F m' F'" and "finite (dom (bags m))" and "bags m g \<noteq> None" and "bags m' g \<noteq> None"
    and "\<And>e. Bag e \<in> R \<Longrightarrow> e = g"
  shows "stored m' F' + items_in m F g + items_shared m F = stored m F + items_in m' F' g + items_shared m' F'"
    and "bags_kept {g} m F m' F'"
proof -
  show k: "bags_kept {g} m F m' F'" by (rule frame_bags_kept [OF assms(1)]) (use assms(3-5) in auto)
  have "stored m' F' + (\<Sum>g\<in>{g}. items_in m F g) + items_shared m F = stored m F + (\<Sum>g\<in>{g}. items_in m' F' g) + items_shared m' F'"
    by (rule stored_change [OF assms(1)]) (use k assms in \<open>auto simp: bags_kept_def\<close>)
  then show "stored m' F' + items_in m F g + items_shared m F = stored m F + items_in m' F' g + items_shared m' F'" by simp
qed

section \<open>The allocator\<close>

lemma region_objs [simp]: "region_ok H (m\<lparr>live_objs := l, next_obj := k\<rparr>) r P = region_ok H m r P"
  by (cases r) (simp_all add: region_ok_def split: option.splits)

lemma layout_objs [simp]: "layout H (m\<lparr>live_objs := l, next_obj := k\<rparr>) F = layout H m F"
  by (simp add: layout_def)

lemma stored_objs [simp]: "stored (m\<lparr>live_objs := l, next_obj := k\<rparr>) F = stored m F"
  by (simp add: stored_def)

text \<open>The tag of the shared bag only guards its head.\<close>

lemma mem_ok_tag: "mem_ok (m\<lparr>shared_tag := k\<rparr>) F = mem_ok m F" "held (m\<lparr>shared_tag := k\<rparr>) F = held m F"
proof -
  have "region_ok {} (m\<lparr>shared_tag := k\<rparr>) r P = region_ok {} m r P" for r P
    by (cases r) (simp_all add: region_ok_def split: option.splits)
  then have "layout {} (m\<lparr>shared_tag := k\<rparr>) F = layout {} m F" by (simp add: layout_def)
  then show "mem_ok (m\<lparr>shared_tag := k\<rparr>) F = mem_ok m F" by (simp add: mem_ok_def stored_def)
  show "held (m\<lparr>shared_tag := k\<rparr>) F = held m F" by (simp add: held_def stored_def)
qed

lemma deallocate_run:
  assumes "layout {} m F" and "finite (dom (bags m))" and "add_mset x (stored m F) \<subseteq># mset (live_objs m)"
    and "distinct (live_objs m)" and "\<forall>x\<in>set (live_objs m). x < next_obj m"
  obtains m' where "deallocate tid (Some x) m = (Ok (), m')" and "mem_ok m' F" and "held m' F = mset (live_objs m) - add_mset x (stored m F)"
    and "bags_kept {} m F m' F" and "stored m' F = stored m F" and "blocks m' = blocks m"
proof -
  let ?m = "m\<lparr>live_objs := remove1 x (live_objs m), next_obj := next_obj m\<rparr>"
  have x: "x \<in> set (live_objs m)" using assms(3) by (metis insert_subset_eq_iff set_mset_mset)
  have "stored m F \<subseteq># mset (live_objs m) - {#x#}" using assms(3) by (simp add: insert_subset_eq_iff)
  moreover have "\<forall>y\<in>set (remove1 x (live_objs m)). y < next_obj m" using assms(5) set_remove1_subset by fastforce
  ultimately have ok: "mem_ok ?m F" unfolding mem_ok_def layout_objs stored_objs using assms(1,2,4) by simp
  have h: "held ?m F = mset (live_objs m) - add_mset x (stored m F)" unfolding held_def stored_objs by simp
  have "deallocate tid (Some x) m = (Ok (), ?m)" using x by (simp add: deallocate_def delete_obj_def run_simps)
  then show thesis by (rule that [OF _ ok h]) (simp_all only: stored_objs, simp_all add: bags_kept_def)
qed

lemma deallocate_loop_run:
  assumes "mem_ok m F" and "bags m g = Some B" and "size (items_in m F g) < n"
  obtains m' F' where "deallocate_loop n tid g m = (Ok (), m')" and "mem_ok m' F'" and "held m' F' = held m F"
    and "items_in m' F' g = {#}" and "bags_kept {g} m F m' F'"
    and "\<exists>B'. bags m' g = Some B' \<and> bag_pool B' = bag_pool B"
  using assms
proof (induction n arbitrary: m F B thesis)
  case (Suc n)
  note H = mem_okD [OF Suc.prems(2)]
  have em: "bag_isEmpty g m = (Ok (contents_of (blocks m) (F (Bag g)) = []), m)" by (rule bag_isEmpty_run [OF H(1) Suc.prems(3)])
  show ?case
  proof (cases "contents_of (blocks m) (F (Bag g)) = []")
    case True
    then show ?thesis using em Suc.prems(2,3) by (intro Suc.prems(1) [of m F]) (auto simp: run_simps)
  next
    case False
    obtain x m1 F1 where 1: "bag_remove g m = (Ok (Some x), m1)" "layout {} m1 F1" "frame {Bag g, Pool (bag_pool B)} m F m1 F1"
      "items_in m F g = add_mset x (items_in m1 F1 g)" "\<exists>B'. bags m1 g = Some B' \<and> bag_pool B' = bag_pool B"
      using H(1) Suc.prems(3) False by (rule bag_remove_run)
    have st: "stored m1 F1 + items_in m F g + items_shared m F = stored m F + items_in m1 F1 g + items_shared m1 F1"
      "bags_kept {g} m F m1 F1"
      by (rule stored_one [OF 1(3) H(2)]; use Suc.prems(3) 1(5) in auto)+
    have "items_shared m1 F1 = items_shared m F" by (rule frame_items(2) [OF 1(3)]) simp
    then have sx: "stored m F = add_mset x (stored m1 F1)" using st(1) 1(4) by simp
    have o: "live_objs m1 = live_objs m" "next_obj m1 = next_obj m" using frameD_objs [OF 1(3)] by auto
    have fin: "finite (dom (bags m1))" using st(2) H(2) by (simp add: bags_kept_def)
    obtain m2 where 2: "deallocate tid (Some x) m1 = (Ok (), m2)" "mem_ok m2 F1"
      "held m2 F1 = mset (live_objs m1) - add_mset x (stored m1 F1)" "bags_kept {} m1 F1 m2 F1" "stored m2 F1 = stored m1 F1" "blocks m2 = blocks m1"
      using 1(2) fin by (rule deallocate_run [where x = x and tid = tid])
        (use H(3,4) sx o Suc.prems(2) in \<open>auto simp: mem_ok_def\<close>)
    have b2: "\<exists>B'. bags m2 g = Some B' \<and> bag_pool B' = bag_pool B" and i2: "items_in m2 F1 g = items_in m1 F1 g"
      using 1(5) 2(4) by (auto simp: bags_kept_def)
    obtain B2 where B2: "bags m2 g = Some B2" "bag_pool B2 = bag_pool B" using b2 by auto
    have lt: "size (items_in m2 F1 g) < n" using Suc.prems(4) 1(4) i2 by simp
    obtain m3 F3 where 3: "deallocate_loop n tid g m2 = (Ok (), m3)" "mem_ok m3 F3" "held m3 F3 = held m2 F1"
      "items_in m3 F3 g = {#}" "bags_kept {g} m2 F1 m3 F3" "\<exists>B'. bags m3 g = Some B' \<and> bag_pool B' = bag_pool B2"
      by (rule Suc.IH [OF _ 2(2) B2(1) lt])
    have "deallocate_loop (Suc n) tid g m = (Ok (), m3)" using em False 1(1) 2(1) 3(1) by (simp add: run_simps)
    moreover have "held m3 F3 = held m F" using 3(3) 2(3) sx o by (simp add: held_def)
    moreover have "bags_kept {g} m F m3 F3"
      by (rule bags_kept_mono [OF bags_kept_trans [OF bags_kept_trans [OF st(2) 2(4)] 3(5)]]) auto
    ultimately show ?thesis using 3(2,4,6) B2(2) by (intro Suc.prems(1)) auto
  qed
qed simp

lemma deallocateAndClear_run:
  assumes "mem_ok m F" and "bags m g = Some B"
  obtains m' F' where "deallocateAndClear tid g m = (Ok (), m')" and "mem_ok m' F'" and "held m' F' = held m F"
    and "items_in m' F' g = {#}" and "bags_kept {g} m F m' F'" and "\<exists>B'. bags m' g = Some B' \<and> bag_pool B' = bag_pool B"
proof -
  let ?n = "length (contents_of (blocks m) (F (Bag g)))"
  obtain m' F' where "deallocate_loop (Suc ?n) tid g m = (Ok (), m')" "mem_ok m' F'" "held m' F' = held m F"
    "items_in m' F' g = {#}" "bags_kept {g} m F m' F'" "\<exists>B'. bags m' g = Some B' \<and> bag_pool B' = bag_pool B"
    by (rule deallocate_loop_run [OF assms, of "Suc ?n" tid]) (use lessI in auto)
  with computeSize_run(2) [OF mem_okD(1) [OF assms(1)] assms(2)] show thesis
    by (intro that) (auto simp: deallocateAndClear_def run_simps simp del: deallocate_loop.simps)
qed

lemma allocate_run:
  assumes "mem_ok m F"
  obtains x m' where "allocate tid m = (Ok (Some x), m')" and "mem_ok m' F" and "held m' F = add_mset x (held m F)"
    and "x \<notin># held m F" and "bags_kept {} m F m' F" and "blocks m' = blocks m" and "x \<notin># stored m' F"
proof -
  let ?x = "next_obj m" let ?m = "m\<lparr>live_objs := ?x # live_objs m, next_obj := Suc ?x\<rparr>"
  note H = mem_okD [OF assms]
  have new: "?x \<notin> set (live_objs m)" using assms by (auto simp: mem_ok_def)
  have "stored m F \<subseteq># add_mset ?x (mset (live_objs m))" using H(3) by (rule subset_mset.order_trans) simp
  moreover have "\<forall>y\<in>set (?x # live_objs m). y < Suc ?x" using assms by (auto simp: mem_ok_def less_SucI)
  ultimately have ok: "mem_ok ?m F" unfolding mem_ok_def layout_objs stored_objs using H new by simp
  have h: "held ?m F = add_mset ?x (held m F)" unfolding held_def stored_objs
    using H(3) multiset_diff_union_assoc [OF H(3), of "{#?x#}"] by simp
  have "?x \<notin># held m F" "?x \<notin># stored m F" using new H(3) by (auto simp: held_def dest: in_diffD mset_subset_eqD)
  then show thesis
    by (intro that [OF _ ok h]) (simp_all only: stored_objs, simp_all add: allocate_def new_obj_def run_simps bags_kept_def)
qed

text \<open>A new bag is empty.\<close>

lemma no_bag_items: "layout {} m F \<Longrightarrow> bags m g = None \<Longrightarrow> F (Bag g) = []"
  unfolding layout_def by (auto simp: region_ok_def dest!: spec [of _ "Bag g"])

lemma new_bag_held:
  assumes "mem_ok m F" and "bags m g = None"
  obtains m' F' where "new_blockbag g tid t m = (Ok (), m')" and "mem_ok m' F'" and "held m' F' = held m F"
    and "items_in m' F' g = {#}" and "\<forall>e. e \<noteq> g \<longrightarrow> items_in m' F' e = items_in m F e \<and> bags m' e = bags m e" and "bags m' g \<noteq> None"
    and "shared_head m' = shared_head m"
proof -
  note H = mem_okD [OF assms(1)]
  obtain m' F' where 1: "new_blockbag g tid t m = (Ok (), m')" "layout {} m' F'" "frame {Bag g, Pool t} m F m' F'"
    "contents_of (blocks m') (F' (Bag g)) = []" "\<exists>B'. bags m' g = Some B' \<and> bag_pool B' = t"
    using H(1) assms(2) by (rule new_blockbag_run)
  have o: "live_objs m' = live_objs m" "next_obj m' = next_obj m" using frameD_objs [OF 1(3)] by auto
  have k: "items_in m' F' e = items_in m F e" "bags m' e = bags m e" if "e \<noteq> g" for e
    using frame_items(1,3) [OF 1(3), of e] that by auto
  have sh: "items_shared m' F' = items_shared m F" by (rule frame_items(2) [OF 1(3)]) simp
  have hd: "shared_head m' = shared_head m" using 1(3) by (simp add: frame_def)
  have d: "dom (bags m') = insert g (dom (bags m))" using k(2) 1(5) by (auto simp: dom_def) metis+
  have "(\<Sum>e\<in>dom (bags m'). items_in m' F' e) = (\<Sum>e\<in>dom (bags m). items_in m' F' e)"
    unfolding d using H(2) assms(2) 1(4) by (subst sum.insert) auto
  also have "\<dots> = (\<Sum>e\<in>dom (bags m). items_in m F e)" by (rule sum.cong [OF refl], rule k(1)) (use assms(2) in auto)
  finally have st: "stored m' F' = stored m F" using sh by (simp add: stored_def)
  have "mem_ok m' F'" using assms(1) 1(2) d o st by (simp add: mem_ok_def)
  moreover have "held m' F' = held m F" by (simp add: held_def o st)
  ultimately show thesis using 1(1,4,5) k hd by (intro that [of m' F']) auto
qed

section \<open>The contract of a pool\<close>

text \<open>
  \<open>n\<close> threads use the pool. A client sees its own bags, the epoch bags, and the objects it
  holds.
\<close>

definition clients_kept :: "bag_id set \<Rightarrow> mem \<Rightarrow> (region \<Rightarrow> bptr list) \<Rightarrow> mem \<Rightarrow> (region \<Rightarrow> bptr list) \<Rightarrow> bool" where
  "clients_kept G m F m' F' \<longleftrightarrow> dom (bags m') = dom (bags m) \<and>
     (\<forall>t j. Epoch_bag t j \<notin> G \<longrightarrow> items_in m' F' (Epoch_bag t j) = items_in m F (Epoch_bag t j) \<and>
        bags m' (Epoch_bag t j) = bags m (Epoch_bag t j))"

lemma clients_keptI: "bags_kept G m F m' F' \<Longrightarrow> G \<subseteq> G' \<union> range Free_bag \<Longrightarrow> clients_kept G' m F m' F'"
  by (auto simp: clients_kept_def bags_kept_def)

locale record_pool =
  fixes P :: pool_ops and n :: nat and pool_inv :: "mem \<Rightarrow> (region \<Rightarrow> bptr list) \<Rightarrow> bool"
  assumes pool_heap: "pool_inv m F \<Longrightarrow> mem_ok m F"
    and get_law: "pool_inv m F \<Longrightarrow> tid < n \<Longrightarrow>
      \<exists>x m' F'. pool_get P tid m = (Ok (Some x), m') \<and> pool_inv m' F' \<and> x \<notin># held m F \<and>
        held m' F' = add_mset x (held m F) \<and> clients_kept {} m F m' F'"
    and add_law: "pool_inv m F \<Longrightarrow> tid < n \<Longrightarrow> x \<in># held m F \<Longrightarrow>
      \<exists>m' F'. pool_add P tid (Some x) m = (Ok (), m') \<and> pool_inv m' F' \<and>
        held m' F' = held m F - {#x#} \<and> clients_kept {} m F m' F'"
    and move_full_law: "pool_inv m F \<Longrightarrow> tid < n \<Longrightarrow> bags m (Epoch_bag t j) = Some B \<Longrightarrow>
      \<exists>m' F'. pool_addMoveFullBlocks P tid (Epoch_bag t j) m = (Ok (), m') \<and> pool_inv m' F' \<and> held m' F' = held m F \<and>
        items_in m' F' (Epoch_bag t j) \<subseteq># items_in m F (Epoch_bag t j) \<and> clients_kept {Epoch_bag t j} m F m' F'"
    and move_all_law: "pool_inv m F \<Longrightarrow> tid < n \<Longrightarrow> bags m (Epoch_bag t j) = Some B \<Longrightarrow>
      \<exists>m' F'. pool_addMoveAll P tid (Epoch_bag t j) m = (Ok (), m') \<and> pool_inv m' F' \<and> held m' F' = held m F \<and>
        items_in m' F' (Epoch_bag t j) = {#} \<and> clients_kept {Epoch_bag t j} m F m' F'"
    and client_law: "pool_inv m F \<Longrightarrow> mem_ok m' F' \<Longrightarrow> (\<forall>t. bags m' (Free_bag t) = bags m (Free_bag t)) \<Longrightarrow> pool_inv m' F'"

text \<open>Without a pool every object goes back to the allocator.\<close>

lemma diff_add_held: "x \<in># held m F \<Longrightarrow> stored m F \<subseteq># mset (live_objs m) \<Longrightarrow> add_mset x (stored m F) \<subseteq># mset (live_objs m)"
  by (metis held_def mset_subset_eq_single add_mset_add_single union_commute subset_mset.le_diff_conv2)

interpretation none: record_pool pool_none n mem_ok
proof
  fix m F tid x t j B m' F'
  show "mem_ok m F \<Longrightarrow> mem_ok m F" .
  show "\<exists>x m' F'. pool_get pool_none tid m = (Ok (Some x), m') \<and> mem_ok m' F' \<and> x \<notin># held m F \<and>
      held m' F' = add_mset x (held m F) \<and> clients_kept {} m F m' F'" if "mem_ok m F"
    by (rule allocate_run [OF that, of tid]) (auto simp: pool_none_def none_get_def intro: clients_keptI)
  show "\<exists>m' F'. pool_add pool_none tid (Some x) m = (Ok (), m') \<and> mem_ok m' F' \<and>
      held m' F' = held m F - {#x#} \<and> clients_kept {} m F m' F'" if h: "mem_ok m F" "x \<in># held m F"
  proof -
    have "add_mset x (stored m F) \<subseteq># mset (live_objs m)" by (rule diff_add_held [OF h(2) mem_okD(3) [OF h(1)]])
    moreover have "\<forall>x\<in>set (live_objs m). x < next_obj m" using h(1) by (simp add: mem_ok_def)
    ultimately obtain m' where "deallocate tid (Some x) m = (Ok (), m')" "mem_ok m' F"
      "held m' F = mset (live_objs m) - add_mset x (stored m F)" "bags_kept {} m F m' F" "stored m' F = stored m F" "blocks m' = blocks m"
      by (rule deallocate_run [OF mem_okD(1,2) [OF h(1)] _ mem_okD(4) [OF h(1)], of x tid])
    then show ?thesis by (auto simp: pool_none_def none_add_def held_def intro: clients_keptI)
  qed
  show "\<exists>m' F'. pool_addMoveFullBlocks pool_none tid (Epoch_bag t j) m = (Ok (), m') \<and> mem_ok m' F' \<and> held m' F' = held m F \<and>
      items_in m' F' (Epoch_bag t j) \<subseteq># items_in m F (Epoch_bag t j) \<and> clients_kept {Epoch_bag t j} m F m' F'"
    if "mem_ok m F" "bags m (Epoch_bag t j) = Some B"
    by (rule deallocateAndClear_run [OF that, of tid])
      (auto simp: pool_none_def none_addMoveFullBlocks_def intro!: exI clients_keptI)
  show "\<exists>m' F'. pool_addMoveAll pool_none tid (Epoch_bag t j) m = (Ok (), m') \<and> mem_ok m' F' \<and> held m' F' = held m F \<and>
      items_in m' F' (Epoch_bag t j) = {#} \<and> clients_kept {Epoch_bag t j} m F m' F'"
    if "mem_ok m F" "bags m (Epoch_bag t j) = Some B"
    by (rule deallocateAndClear_run [OF that, of tid])
      (auto simp: pool_none_def none_addMoveAll_def intro!: exI clients_keptI)
qed

section \<open>The pool with a shared bag\<close>

lemma bag_length: "layout {} m F \<Longrightarrow> bags m g = Some B \<Longrightarrow> sizeInBlocks B = length (F (Bag g))"
  using bag_regionD [of m F g B] by (simp add: bag_ok_def)

text \<open>A full block moves from a bag to the shared bag.\<close>

lemma give_block_run:
  assumes "mem_ok m F" and "bags m g = Some B" and "3 \<le> sizeInBlocks B"
  obtains c m1 m' F' where "removeFullBlock g m = (Ok (Some c), m1)" and "addBlock (Some c) m1 = (Ok (), m')"
    and "mem_ok m' F'" and "held m' F' = held m F" and "bags_kept {g} m F m' F'"
    and "bags m' g = Some (B\<lparr>sizeInBlocks := sizeInBlocks B - 1\<rparr>)"
proof -
  note H = mem_okD [OF assms(1)]
  have len: "\<not> length (F (Bag g)) < 3" using assms(3) bag_length [OF H(1) assms(2)] by simp
  show thesis
  proof (rule removeFullBlock_run [OF H(1) assms(2)])
    fix c m1 F1
    assume 1: "removeFullBlock g m = (Ok (Some c), m1)" "layout {} m1 F1" "frame {Bag g} m F m1 F1" "loose F1 c"
      "blocks_ok (blocks m1) (\<lambda>n. n = BLOCK_SIZE) [c]" "bags m1 = (bags m)(g \<mapsto> B\<lparr>sizeInBlocks := sizeInBlocks B - 1\<rparr>)"
      "items_in m F g = mset (contents_of (blocks m1) (c # F1 (Bag g)))"
    obtain m2 F2 where 2: "addBlock (Some c) m1 = (Ok (), m2)" "layout {} m2 F2" "frame {Shared} m1 F1 m2 F2"
      "F2 Shared = c # F1 Shared" "\<forall>P. contents_of (blocks m2) P = contents_of (blocks m1) P" "bags m2 = bags m1"
      using 1(2,4,5) by (rule addBlock_run)
    have f: "frame {Bag g, Shared} m F m2 F2" by (rule frame_mono [OF frame_trans [OF 1(3) 2(3)]]) auto
    have st: "stored m2 F2 + items_in m F g + items_shared m F = stored m F + items_in m2 F2 g + items_shared m2 F2"
      and k: "bags_kept {g} m F m2 F2"
      by (rule stored_one [OF f H(2)]; use assms(2) 1(6) 2(6) in auto)+
    have "items_in m2 F2 g = items_in m1 F1 g" by (rule frame_items(1) [OF 2(3)]) simp
    moreover have "items_shared m1 F1 = items_shared m F" by (rule frame_items(2) [OF 1(3)]) simp
    moreover have "items (the (blocks m2 c)) = items (the (blocks m1 c))" using spec [OF 2(5), of "[c]"] by simp
    ultimately have "stored m2 F2 = stored m F" using st 1(7) 2(4,5) by (simp add: ac_simps)
    then have "mem_ok m2 F2" "held m2 F2 = held m F"
      by (rule stored_eq_heap [OF assms(1) 2(2)]; use k frameD_objs [OF f] in \<open>auto simp: bags_kept_def\<close>)+
    with 1(1,6) 2(1,6) k show thesis by (intro that) auto
  qed (use len in auto)
qed

lemma give_loop_run:
  assumes "mem_ok m F" and "bags m (Free_bag tid) = Some B" and "sizeInBlocks B < n"
  obtains m' F' where "give_loop n tid m = (Ok (), m')" and "mem_ok m' F'" and "held m' F' = held m F"
    and "bags_kept {Free_bag tid} m F m' F'" and "\<exists>B'. bags m' (Free_bag tid) = Some B' \<and> sizeInBlocks B' < POOL_THRESHOLD_IN_BLOCKS"
  using assms
proof (induction n arbitrary: m F B thesis)
  case (Suc n)
  show ?case
  proof (cases "sizeInBlocks B \<ge> POOL_THRESHOLD_IN_BLOCKS")
    case False
    then show ?thesis using Suc.prems by (intro Suc.prems(1) [of m F]) (auto simp: tryGiveFreeObjects_def run_simps)
  next
    case True
    obtain c m1 m2 F2 where 1: "removeFullBlock (Free_bag tid) m = (Ok (Some c), m1)" "addBlock (Some c) m1 = (Ok (), m2)"
      "mem_ok m2 F2" "held m2 F2 = held m F" "bags_kept {Free_bag tid} m F m2 F2"
      "bags m2 (Free_bag tid) = Some (B\<lparr>sizeInBlocks := sizeInBlocks B - 1\<rparr>)"
      by (rule give_block_run [OF Suc.prems(2,3)]) (use True in \<open>auto simp: POOL_THRESHOLD_IN_BLOCKS_def\<close>)
    have lt: "sizeInBlocks (B\<lparr>sizeInBlocks := sizeInBlocks B - 1\<rparr>) < n"
      using Suc.prems(4) True by (auto simp: POOL_THRESHOLD_IN_BLOCKS_def)
    obtain m3 F3 where 3: "give_loop n tid m2 = (Ok (), m3)" "mem_ok m3 F3" "held m3 F3 = held m2 F2"
      "bags_kept {Free_bag tid} m2 F2 m3 F3" "\<exists>B'. bags m3 (Free_bag tid) = Some B' \<and> sizeInBlocks B' < POOL_THRESHOLD_IN_BLOCKS"
      by (rule Suc.IH [OF _ 1(3,6) lt])
    have "bags_kept {Free_bag tid} m F m3 F3" by (rule bags_kept_mono [OF bags_kept_trans [OF 1(5) 3(4)]]) auto
    moreover have "give_loop (Suc n) tid m = (Ok (), m3)"
      using 1(1,2) 3(1) Suc.prems(3) True by (simp add: tryGiveFreeObjects_def run_simps)
    ultimately show ?thesis using 3 1(4) by (intro Suc.prems(1)) auto
  qed
qed simp

lemma give_all_run:
  assumes "mem_ok m F" and "bags m (Free_bag tid) = Some B"
  obtains m' F' where "give_all tid m = (Ok (), m')" and "mem_ok m' F'" and "held m' F' = held m F"
    and "bags_kept {Free_bag tid} m F m' F'" and "\<exists>B'. bags m' (Free_bag tid) = Some B' \<and> sizeInBlocks B' < POOL_THRESHOLD_IN_BLOCKS"
  by (rule give_loop_run [OF assms, of "Suc (sizeInBlocks B)"])
    (use assms(2) in \<open>auto simp: give_all_def run_simps simp del: give_loop.simps\<close>)

text \<open>\<open>add\<close> and \<open>get\<close> of a thread's free bag.\<close>

definition share_excess :: "bag_id \<Rightarrow> nat \<Rightarrow> (mem, unit) cmd" where
  "share_excess g thresh = bindE (at_bag g sizeInBlocks) (\<lambda>n.
     if n > thresh then bindE (removeFullBlock g) (\<lambda>b. thenE (assertE (b \<noteq> None)) (addBlock b)) else returnE ())"

lemma bag_add_sharing_cases:
  assumes "bag_add g x m = (Ok (), m1)"
  shows "bag_add_sharing g x thresh m = (Ok (), m1) \<or> bag_add_sharing g x thresh m = share_excess g thresh m1"
proof -
  obtain B s0 where 1: "at_bag g id m = (Ok B, s0)"
    and r1: "thenE (at_block (bag_head B) (block_push x)) (bindE (read_block (bag_head B) block_isFull) (\<lambda>full.
       if full then bindE (allocateBlock (bag_pool B) (bag_head B)) (\<lambda>newblock.
           upd_bag g (\<lambda>B. B\<lparr>sizeInBlocks := sizeInBlocks B + 1, bag_head := Some newblock\<rparr>))
       else returnE ())) s0 = (Ok (), m1)"
    using assms unfolding bag_add_def by (rule bindE_OkE)
  obtain s1 u where 2: "at_block (bag_head B) (block_push x) s0 = (Ok u, s1)"
    and r2: "bindE (read_block (bag_head B) block_isFull) (\<lambda>full.
       if full then bindE (allocateBlock (bag_pool B) (bag_head B)) (\<lambda>newblock.
           upd_bag g (\<lambda>B. B\<lparr>sizeInBlocks := sizeInBlocks B + 1, bag_head := Some newblock\<rparr>))
       else returnE ()) s1 = (Ok (), m1)"
    using r1 by (rule thenE_cases) auto
  obtain full s2 where 3: "read_block (bag_head B) block_isFull s1 = (Ok full, s2)"
    and r3: "(if full then bindE (allocateBlock (bag_pool B) (bag_head B)) (\<lambda>newblock.
           upd_bag g (\<lambda>B. B\<lparr>sizeInBlocks := sizeInBlocks B + 1, bag_head := Some newblock\<rparr>))
       else returnE ()) s2 = (Ok (), m1)"
    using r2 by (rule bindE_OkE)
  note runs = bag_add_sharing_def bindE_eval thenE_eval 1 2 3
  show ?thesis
  proof (cases full)
    case False
    then show ?thesis using r3 by (simp add: runs)
  next
    case True
    then have "bindE (allocateBlock (bag_pool B) (bag_head B)) (\<lambda>newblock.
           upd_bag g (\<lambda>B. B\<lparr>sizeInBlocks := sizeInBlocks B + 1, bag_head := Some newblock\<rparr>)) s2 = (Ok (), m1)"
      using r3 by simp
    then obtain a s3 where 4: "allocateBlock (bag_pool B) (bag_head B) s2 = (Ok a, s3)"
      and 5: "upd_bag g (\<lambda>B. B\<lparr>sizeInBlocks := sizeInBlocks B + 1, bag_head := Some a\<rparr>) s3 = (Ok (), m1)"
      by (rule bindE_OkE)
    then show ?thesis using True by (simp add: runs 4 share_excess_def)
  qed
qed

text \<open>A bag takes an object of a client.\<close>

lemma bag_add_held:
  assumes "mem_ok m F" and "bags m g = Some B" and "x \<in># held m F"
  obtains m' F' where "bag_add g (Some x) m = (Ok (), m')" and "mem_ok m' F'" and "held m' F' = held m F - {#x#}"
    and "bags_kept {g} m F m' F'" and "items_in m' F' g = add_mset x (items_in m F g)" and "\<exists>B'. bags m' g = Some B' \<and> bag_pool B' = bag_pool B"
proof -
  note H = mem_okD [OF assms(1)]
  obtain m1 F1 where 1: "bag_add g (Some x) m = (Ok (), m1)" "layout {} m1 F1" "frame {Bag g, Pool (bag_pool B)} m F m1 F1"
    "items_in m1 F1 g = add_mset x (items_in m F g)" "\<exists>B'. bags m1 g = Some B' \<and> bag_pool B' = bag_pool B"
    using H(1) assms(2) by (rule bag_add_run)
  have st: "stored m1 F1 + items_in m F g + items_shared m F = stored m F + items_in m1 F1 g + items_shared m1 F1"
    and k: "bags_kept {g} m F m1 F1"
    by (rule stored_one [OF 1(3) H(2)]; use assms(2) 1(5) in auto)+
  have "items_shared m1 F1 = items_shared m F" by (rule frame_items(2) [OF 1(3)]) simp
  then have sx: "stored m1 F1 = add_mset x (stored m F)" using st 1(4) by simp
  have o: "live_objs m1 = live_objs m" "next_obj m1 = next_obj m" using frameD_objs [OF 1(3)] by auto
  have ok: "mem_ok m1 F1"
    using assms(1) 1(2) k o sx diff_add_held [OF assms(3) H(3)] by (auto simp: mem_ok_def bags_kept_def)
  have "held m1 F1 = held m F - {#x#}" by (simp add: held_def sx o)
  then show thesis by (rule that [OF 1(1) ok _ k 1(4,5)])
qed

lemma shared_add_run:
  assumes "mem_ok m F" and "bags m (Free_bag tid) = Some B" and "x \<in># held m F"
  obtains m' F' where "shared_add tid (Some x) m = (Ok (), m')" and "mem_ok m' F'" and "held m' F' = held m F - {#x#}"
    and "bags_kept {Free_bag tid} m F m' F'"
proof -
  let ?g = "Free_bag tid"
  obtain m1 F1 where 1: "bag_add ?g (Some x) m = (Ok (), m1)" and ok: "mem_ok m1 F1" and h: "held m1 F1 = held m F - {#x#}"
    and k: "bags_kept {?g} m F m1 F1" and "items_in m1 F1 ?g = add_mset x (items_in m F ?g)"
    and "\<exists>B'. bags m1 ?g = Some B' \<and> bag_pool B' = bag_pool B"
    using assms by (rule bag_add_held)
  then obtain B1 where B1: "bags m1 ?g = Some B1" by auto
  show thesis
  proof (cases "shared_add tid (Some x) m = (Ok (), m1)")
    case True
    then show thesis by (rule that [OF _ ok h k])
  next
    case False
    then have run: "shared_add tid (Some x) m = share_excess ?g POOL_THRESHOLD_IN_BLOCKS m1"
      using bag_add_sharing_cases [OF 1] unfolding shared_add_def by blast
    show thesis
    proof (cases "sizeInBlocks B1 > POOL_THRESHOLD_IN_BLOCKS")
      case False
      then have "share_excess ?g POOL_THRESHOLD_IN_BLOCKS m1 = (Ok (), m1)" using B1 by (simp add: share_excess_def run_simps)
      with run \<open>shared_add tid (Some x) m \<noteq> (Ok (), m1)\<close> show thesis by simp
    next
      case True
      obtain c m2 m3 F3 where 2: "removeFullBlock ?g m1 = (Ok (Some c), m2)" "addBlock (Some c) m2 = (Ok (), m3)"
        "mem_ok m3 F3" "held m3 F3 = held m1 F1" "bags_kept {?g} m1 F1 m3 F3" "bags m3 ?g = Some (B1\<lparr>sizeInBlocks := sizeInBlocks B1 - 1\<rparr>)"
        by (rule give_block_run [OF ok B1]) (use True in \<open>auto simp: POOL_THRESHOLD_IN_BLOCKS_def\<close>)
      have "shared_add tid (Some x) m = (Ok (), m3)" using run 2(1,2) B1 True by (simp add: share_excess_def run_simps)
      moreover have "bags_kept {?g} m F m3 F3" by (rule bags_kept_mono [OF bags_kept_trans [OF k 2(5)]]) auto
      ultimately show thesis using 2(3,4) h by (intro that) auto
    qed
  qed
qed

text \<open>A removal takes a stored object.\<close>

lemma remove_held:
  assumes "mem_ok m F" and "bags m g = Some B" and "contents_of (blocks m) (F (Bag g)) \<noteq> []"
  obtains x m' F' where "bag_remove g m = (Ok (Some x), m')" and "mem_ok m' F'" and "held m' F' = add_mset x (held m F)"
    and "x \<notin># held m F" and "bags_kept {g} m F m' F'" and "\<exists>B'. bags m' g = Some B' \<and> bag_pool B' = bag_pool B"
proof -
  note H = mem_okD [OF assms(1)]
  obtain x m1 F1 where 1: "bag_remove g m = (Ok (Some x), m1)" "layout {} m1 F1" "frame {Bag g, Pool (bag_pool B)} m F m1 F1"
    "items_in m F g = add_mset x (items_in m1 F1 g)" "\<exists>B'. bags m1 g = Some B' \<and> bag_pool B' = bag_pool B"
    using H(1) assms(2,3) by (rule bag_remove_run)
  have st: "stored m1 F1 + items_in m F g + items_shared m F = stored m F + items_in m1 F1 g + items_shared m1 F1"
    and k: "bags_kept {g} m F m1 F1"
    by (rule stored_one [OF 1(3) H(2)]; use assms(2) 1(5) in auto)+
  have "items_shared m1 F1 = items_shared m F" by (rule frame_items(2) [OF 1(3)]) simp
  then have sx: "stored m F = add_mset x (stored m1 F1)" using st 1(4) by simp
  have o: "live_objs m1 = live_objs m" "next_obj m1 = next_obj m" using frameD_objs [OF 1(3)] by auto
  have le: "stored m1 F1 \<subseteq># mset (live_objs m)" using H(3) sx by (metis add_mset_add_single mset_subset_eq_add_left subset_mset.order_trans)
  have ok: "mem_ok m1 F1" using assms(1) 1(2) k o le by (auto simp: mem_ok_def bags_kept_def)
  have xin: "x \<in># mset (live_objs m) - stored m1 F1" 
    using mset_subset_eq_count [OF H(3), of x] sx by (simp add: in_diff_count)
  have "held m F = held m1 F1 - {#x#}" by (simp add: held_def sx o)
  then have h: "held m1 F1 = add_mset x (held m F)" using insert_DiffM [OF xin] by (simp add: held_def o)
  have "count (mset (live_objs m)) x \<le> 1" using H(4) by (simp add: distinct_count_atmost_1)
  also have "1 \<le> count (stored m F) x" using sx by simp
  finally have "x \<notin># held m F" by (simp add: held_def not_in_iff)
  with 1(1,5) ok h k show thesis by (intro that)
qed

lemma fill_run:
  assumes "mem_ok m F" and "bags m g = Some B"
  obtains m' F' where "forE xs (\<lambda>_. bindE new_obj (bag_add g)) m = (Ok (), m')" and "mem_ok m' F'" and "held m' F' = held m F"
    and "bags_kept {g} m F m' F'" and "size (items_in m' F' g) = size (items_in m F g) + length xs"
    and "\<exists>B'. bags m' g = Some B' \<and> bag_pool B' = bag_pool B"
  using assms
proof (induction xs arbitrary: m F B thesis)
  case Nil
  then show ?case by (intro Nil(1) [of m F]) (auto simp: run_simps)
next
  case (Cons y xs)
  obtain x m1 where 1: "allocate 0 m = (Ok (Some x), m1)" "mem_ok m1 F" "held m1 F = add_mset x (held m F)"
    "x \<notin># held m F" "bags_kept {} m F m1 F" "blocks m1 = blocks m" "x \<notin># stored m1 F"
    using Cons.prems(2) by (rule allocate_run)
  have B1: "bags m1 g = Some B" using 1(5) Cons.prems(3) by (simp add: bags_kept_def)
  note H = mem_okD [OF 1(2)]
  obtain m2 F2 where 2: "bag_add g (Some x) m1 = (Ok (), m2)" "layout {} m2 F2" "frame {Bag g, Pool (bag_pool B)} m1 F m2 F2"
    "items_in m2 F2 g = add_mset x (items_in m1 F g)" "\<exists>B'. bags m2 g = Some B' \<and> bag_pool B' = bag_pool B"
    using H(1) B1 by (rule bag_add_run)
  have st: "stored m2 F2 + items_in m1 F g + items_shared m1 F = stored m1 F + items_in m2 F2 g + items_shared m2 F2"
    and k: "bags_kept {g} m1 F m2 F2"
    by (rule stored_one [OF 2(3) H(2)]; use B1 2(5) in auto)+
  have "items_shared m2 F2 = items_shared m1 F" by (rule frame_items(2) [OF 2(3)]) simp
  then have sx: "stored m2 F2 = add_mset x (stored m1 F)" using st 2(4) by simp
  have o: "live_objs m2 = live_objs m1" "next_obj m2 = next_obj m1" using frameD_objs [OF 2(3)] by auto
  have xh: "x \<in># held m1 F" using 1(3) by simp
  have ok: "mem_ok m2 F2"
    using 1(2) 2(2) k o sx diff_add_held [OF xh H(3)] by (auto simp: mem_ok_def bags_kept_def)
  have "held m2 F2 = held m1 F - {#x#}" by (simp add: held_def sx o)
  then have h: "held m2 F2 = held m F" using 1(3) by simp
  obtain B2 where B2: "bags m2 g = Some B2" "bag_pool B2 = bag_pool B" using 2(5) by auto
  obtain m3 F3 where 3: "forE xs (\<lambda>_. bindE new_obj (bag_add g)) m2 = (Ok (), m3)" "mem_ok m3 F3" "held m3 F3 = held m2 F2"
    "bags_kept {g} m2 F2 m3 F3" "size (items_in m3 F3 g) = size (items_in m2 F2 g) + length xs"
    "\<exists>B'. bags m3 g = Some B' \<and> bag_pool B' = bag_pool B2"
    by (rule Cons.IH [OF _ ok B2(1)])
  have "forE (y # xs) (\<lambda>_. bindE new_obj (bag_add g)) m = (Ok (), m3)"
    using 1(1) 2(1) 3(1) by (simp add: allocate_def bindE_eval thenE_eval)
  moreover have "bags_kept {g} m F m3 F3"
    by (rule bags_kept_mono [OF bags_kept_trans [OF bags_kept_trans [OF 1(5) k] 3(4)]]) auto
  moreover have "items_in m1 F g = items_in m F g" using 1(6) by simp
  ultimately show ?case using 3 h 2(4) B2(2) by (intro Cons.prems(1)) auto
qed

lemma bag_remove_sharing_eq:
  assumes "bag_isEmpty g m = (Ok False, m)" and "bags m g = Some B" and "blocks m a = Some b" and "bag_head B = Some a"
  shows "bag_remove_sharing g m = bag_remove g m"
  using assms
  by (auto simp: bag_remove_sharing_def bag_remove_def bag_isEmpty_def run_simps block_isEmpty_def split: if_splits)

lemma shared_get_run:
  assumes "mem_ok m F" and "bags m (Free_bag tid) = Some B"
  obtains x m' F' where "shared_get tid m = (Ok (Some x), m')" and "mem_ok m' F'" and "held m' F' = add_mset x (held m F)"
    and "x \<notin># held m F" and "bags_kept {Free_bag tid} m F m' F'"
proof -
  let ?g = "Free_bag tid"
  note H = mem_okD [OF assms(1)]
  note em = bag_isEmpty_run [OF H(1) assms(2)]
  show thesis
  proof (cases "contents_of (blocks m) (F (Bag ?g)) = []")
    case False
    obtain a b where a: "bag_head B = Some a" "blocks m a = Some b"
      using bag_regionD [OF H(1) assms(2)] by (rule bag_okE)
    have "shared_get tid m = bag_remove ?g m"
      unfolding shared_get_def by (rule bag_remove_sharing_eq [OF _ assms(2) a(2,1)]) (use em False in simp)
    with remove_held [OF assms False] show thesis using that by metis
  next
    case True
    obtain a b where a: "F (Bag ?g) = [a]" "bag_head B = Some a" "blocks m a = Some b" "b_size b = 0" "b_next b = None"
      using bag_regionD [OF H(1) assms(2)] True by (rule bag_okD_empty)
    note run = shared_get_def bag_remove_sharing_def bindE_eval thenE_eval bag_evals read_block_eval block_isEmpty_def assertE_apply
    show thesis
    proof (rule getBlock_run [OF H(1)])
      assume 0: "F Shared = []" "getBlock m = (Ok None, m)"
      obtain m1 F1 where 1: "forE [0..<BLOCK_SIZE] (\<lambda>_. bindE new_obj (bag_add ?g)) m = (Ok (), m1)" "mem_ok m1 F1"
        "held m1 F1 = held m F" "bags_kept {?g} m F m1 F1" "size (items_in m1 F1 ?g) = size (items_in m F ?g) + length [0..<BLOCK_SIZE]"
        "\<exists>B'. bags m1 ?g = Some B' \<and> bag_pool B' = bag_pool B"
        by (rule fill_run [OF assms])
      obtain B1 where B1: "bags m1 ?g = Some B1" using 1(6) by auto
      have sz: "length (contents_of (blocks m1) (F1 (Bag ?g))) = BLOCK_SIZE" using 1(5) True by (simp flip: size_mset)
      have "1 < sizeInBlocks B1"
      proof -
        obtain a1 Q1 b1 where P1: "F1 (Bag ?g) = a1 # Q1" "blocks m1 a1 = Some b1" "b_size b1 < BLOCK_SIZE" "sizeInBlocks B1 = length (F1 (Bag ?g))"
          using bag_regionD [OF mem_okD(1) [OF 1(2)] B1] by (rule bag_okE)
        with sz show ?thesis by (cases Q1) auto
      qed
      moreover have "contents_of (blocks m1) (F1 (Bag ?g)) \<noteq> []" using sz by auto
      then obtain x m2 F2 where 2: "bag_remove ?g m1 = (Ok (Some x), m2)" "mem_ok m2 F2" "held m2 F2 = add_mset x (held m1 F1)"
        "x \<notin># held m1 F1" "bags_kept {?g} m1 F1 m2 F2" "\<exists>B'. bags m2 ?g = Some B' \<and> bag_pool B' = bag_pool B1"
        by (rule remove_held [OF 1(2) B1])
      ultimately have "shared_get tid m = (Ok (Some x), m2)"
        using 0(2) 1(1) B1 a assms(2) by (simp add: run)
      moreover have "bags_kept {?g} m F m2 F2" by (rule bags_kept_mono [OF bags_kept_trans [OF 1(4) 2(5)]]) auto
      ultimately show thesis using 2 1(3) by (intro that) auto
    next
      fix c m1 F1
      assume 1: "getBlock m = (Ok (Some c), m1)" "layout {} m1 F1" "frame {Shared} m F m1 F1" "F Shared = c # F1 Shared"
        "loose F1 c" "blocks_ok (blocks m1) (\<lambda>n. n = BLOCK_SIZE) [c]" "bnext (blocks m1) c = None"
        "\<forall>P. contents_of (blocks m1) P = contents_of (blocks m) P" "bags m1 = bags m"
      obtain m2 F2 where 2: "addFullBlock ?g (Some c) m1 = (Ok (), m2)" "layout {} m2 F2" "frame {Bag ?g} m1 F1 m2 F2"
        "contents_of (blocks m2) (F2 (Bag ?g)) = contents_of (blocks m1) (F1 (Bag ?g) @ [c])" "\<exists>B'. bags m2 ?g = Some B' \<and> bag_pool B' = bag_pool B"
        using 1(2) _ 1(5-7) by (rule addFullBlock_run [where g = ?g and B = B]) (use 1(9) assms(2) in simp)
      obtain B2 where B2: "bags m2 ?g = Some B2" using 2(5) by auto
      have f: "frame {Bag ?g, Shared} m F m2 F2" by (rule frame_mono [OF frame_trans [OF 1(3) 2(3)]]) auto
      have st: "stored m2 F2 + items_in m F ?g + items_shared m F = stored m F + items_in m2 F2 ?g + items_shared m2 F2"
        and k: "bags_kept {?g} m F m2 F2"
        by (rule stored_one [OF f H(2)]; use assms(2) B2 in auto)+
      have "items_shared m2 F2 = items_shared m1 F1" by (rule frame_items(2) [OF 2(3)]) simp
      moreover have "F1 (Bag ?g) = F (Bag ?g)" using 1(3) by (simp add: frame_def)
      moreover have "items (the (blocks m1 c)) = items (the (blocks m c))" using spec [OF 1(8), of "[c]"] by simp
      ultimately have "stored m2 F2 = stored m F" using st 2(4) 1(4,8) by (simp add: ac_simps)
      then have ok: "mem_ok m2 F2" "held m2 F2 = held m F"
        by (rule stored_eq_heap [OF assms(1) 2(2)]; use k frameD_objs [OF f] in \<open>auto simp: bags_kept_def\<close>)+
      have "items (the (blocks m1 c)) \<noteq> []" using 1(6) by auto
      then have "contents_of (blocks m2) (F2 (Bag ?g)) \<noteq> []" using 2(4) by simp
      then obtain x m3 F3 where 3: "bag_remove ?g m2 = (Ok (Some x), m3)" "mem_ok m3 F3" "held m3 F3 = add_mset x (held m2 F2)"
        "x \<notin># held m2 F2" "bags_kept {?g} m2 F2 m3 F3" "\<exists>B'. bags m3 ?g = Some B' \<and> bag_pool B' = bag_pool B2"
        by (rule remove_held [OF ok(1) B2])
      have "shared_get tid m = (Ok (Some x), m3)"
        using 1(1) 2(1) 3(1) a assms(2) by (simp add: run)
      moreover have "bags_kept {?g} m F m3 F3" by (rule bags_kept_mono [OF bags_kept_trans [OF k 3(5)]]) auto
      ultimately show thesis using 3 ok(2) by (intro that) auto
    qed
  qed
qed

text \<open>Moves between two bags.\<close>

lemma move_held:
  assumes "mem_ok m F" and "bags m g = Some B" and "bags m e = Some E" and "g \<noteq> e" and "layout {} m' F'"
    and "frame R m F m' F'" and "\<And>a. Bag a \<in> R \<Longrightarrow> a \<in> {g, e}" and "Shared \<notin> R"
    and "items_in m' F' g + items_in m' F' e = items_in m F g + items_in m F e"
    and "\<exists>B'. bags m' g = Some B' \<and> bag_pool B' = bag_pool B" and "\<exists>E'. bags m' e = Some E' \<and> bag_pool E' = bag_pool E"
  shows "mem_ok m' F'" and "held m' F' = held m F" and "bags_kept {g, e} m F m' F'"
proof -
  note H = mem_okD [OF assms(1)]
  show k: "bags_kept {g, e} m F m' F'" by (rule frame_bags_kept [OF assms(6)]) (use assms(2,3,7,10,11) in auto)
  have "stored m' F' + (\<Sum>g\<in>{g, e}. items_in m F g) + items_shared m F = stored m F + (\<Sum>g\<in>{g, e}. items_in m' F' g) + items_shared m' F'"
    by (rule stored_change [OF assms(6)]) (use k H(2) assms(2,3,7) in \<open>auto simp: bags_kept_def\<close>)
  moreover have "items_shared m' F' = items_shared m F" by (rule frame_items(2) [OF assms(6,8)])
  ultimately have "stored m' F' = stored m F" using assms(4,9) by simp
  then show "mem_ok m' F'" "held m' F' = held m F"
    by (rule stored_eq_heap [OF assms(1,5)]; use k frameD_objs [OF assms(6)] in \<open>auto simp: bags_kept_def\<close>)+
qed

lemma append_then_give:
  assumes "f m = (Ok (), m1)" and "mem_ok m1 F1" and "held m1 F1 = held m F" and "bags_kept {Free_bag tid, e} m F m1 F1"
    and "bags m (Free_bag tid) = Some B" and "e \<noteq> Free_bag tid"
  obtains m' F' where "thenE f (give_all tid) m = (Ok (), m')" and "mem_ok m' F'" and "held m' F' = held m F"
    and "bags_kept {Free_bag tid, e} m F m' F'" and "items_in m' F' e = items_in m1 F1 e"
proof -
  obtain B1 where B1: "bags m1 (Free_bag tid) = Some B1" using assms(4,5) by (force simp: bags_kept_def dom_def)
  obtain m2 F2 where 2: "give_all tid m1 = (Ok (), m2)" "mem_ok m2 F2" "held m2 F2 = held m1 F1" "bags_kept {Free_bag tid} m1 F1 m2 F2"
    "\<exists>B'. bags m2 (Free_bag tid) = Some B' \<and> sizeInBlocks B' < POOL_THRESHOLD_IN_BLOCKS"
    using assms(2) B1 by (rule give_all_run)
  have "bags_kept {Free_bag tid, e} m F m2 F2" by (rule bags_kept_mono [OF bags_kept_trans [OF assms(4) 2(4)]]) auto
  moreover have "items_in m2 F2 e = items_in m1 F1 e" using 2(4) assms(6) by (simp add: bags_kept_def)
  ultimately show thesis using 2(1-3) assms(1,3) by (intro that [of m2 F2]) (auto simp: thenE_eval)
qed

definition shared_pool_inv :: "nat \<Rightarrow> mem \<Rightarrow> (region \<Rightarrow> bptr list) \<Rightarrow> bool" where
  "shared_pool_inv n m F \<longleftrightarrow> mem_ok m F \<and> (\<forall>tid<n. bags m (Free_bag tid) \<noteq> None)"

lemma shared_pool_invI:
  "shared_pool_inv n m F \<Longrightarrow> mem_ok m' F' \<Longrightarrow> bags_kept G m F m' F' \<Longrightarrow> shared_pool_inv n m' F'"
  by (auto simp: shared_pool_inv_def bags_kept_def dom_def)

lemma shared_move_full:
  assumes "shared_pool_inv n m F" and "tid < n" and "bags m (Epoch_bag t j) = Some E"
  obtains m' F' where "shared_addMoveFullBlocks tid (Epoch_bag t j) m = (Ok (), m')" and "shared_pool_inv n m' F'" and "held m' F' = held m F"
    and "bags_kept {Free_bag tid, Epoch_bag t j} m F m' F'" and "items_in m' F' (Epoch_bag t j) \<subseteq># items_in m F (Epoch_bag t j)"
proof -
  let ?g = "Free_bag tid" let ?e = "Epoch_bag t j"
  have ok: "mem_ok m F" using assms(1) by (simp add: shared_pool_inv_def)
  obtain B where B: "bags m ?g = Some B" using assms(1,2) by (auto simp: shared_pool_inv_def)
  obtain m1 F1 where 1: "appendMoveFullBlocks ?g ?e m = (Ok (), m1)" "layout {} m1 F1" "frame {Bag ?g, Bag ?e} m F m1 F1"
    "contents_of (blocks m1) (F1 (Bag ?g)) = contents_of (blocks m) (F (Bag ?g) @ tl (F (Bag ?e)))"
    "contents_of (blocks m1) (F1 (Bag ?e)) = contents_of (blocks m) [hd (F (Bag ?e))]"
    "\<exists>B'. bags m1 ?g = Some B' \<and> bag_pool B' = bag_pool B" "\<exists>E'. bags m1 ?e = Some E' \<and> bag_pool E' = bag_pool E"
    using mem_okD(1) [OF ok] B assms(3) by (rule appendMoveFullBlocks_run) simp
  have "F (Bag ?e) \<noteq> []" using bag_regionD [OF mem_okD(1) [OF ok] assms(3)] by (simp add: bag_ok_def)
  then have ct: "items_in m F ?e = mset (contents_of (blocks m) [hd (F (Bag ?e))]) + mset (contents_of (blocks m) (tl (F (Bag ?e))))"
    by (cases "F (Bag ?e)") auto
  have 2: "mem_ok m1 F1" "held m1 F1 = held m F" "bags_kept {?g, ?e} m F m1 F1"
    by (rule move_held [OF ok B assms(3) _ 1(2,3) _ _ _ 1(6,7)]; use 1(4,5) ct in auto)+
  obtain m2 F2 where 3: "thenE (appendMoveFullBlocks ?g ?e) (give_all tid) m = (Ok (), m2)" "mem_ok m2 F2" "held m2 F2 = held m F"
    "bags_kept {?g, ?e} m F m2 F2" "items_in m2 F2 ?e = items_in m1 F1 ?e"
    by (rule append_then_give [of "appendMoveFullBlocks ?g ?e" m m1 F1 F tid ?e B, OF 1(1) 2 B]) simp
  then show thesis
    using shared_pool_invI [OF assms(1) 3(2,4)] 1(5) ct by (intro that) (auto simp: shared_addMoveFullBlocks_def)
qed

lemma shared_move_all:
  assumes "shared_pool_inv n m F" and "tid < n" and "bags m (Epoch_bag t j) = Some E"
  obtains m' F' where "shared_addMoveAll tid (Epoch_bag t j) m = (Ok (), m')" and "shared_pool_inv n m' F'" and "held m' F' = held m F"
    and "bags_kept {Free_bag tid, Epoch_bag t j} m F m' F'" and "items_in m' F' (Epoch_bag t j) = {#}"
proof -
  let ?g = "Free_bag tid" let ?e = "Epoch_bag t j"
  have ok: "mem_ok m F" using assms(1) by (simp add: shared_pool_inv_def)
  obtain B where B: "bags m ?g = Some B" using assms(1,2) by (auto simp: shared_pool_inv_def)
  obtain m1 F1 where 1: "appendMoveAll ?g ?e m = (Ok (), m1)" "layout {} m1 F1"
    "frame {Bag ?g, Bag ?e, Pool (bag_pool B), Pool (bag_pool E)} m F m1 F1"
    "items_in m1 F1 ?g = items_in m F ?g + items_in m F ?e" "contents_of (blocks m1) (F1 (Bag ?e)) = []"
    "\<exists>B'. bags m1 ?g = Some B' \<and> bag_pool B' = bag_pool B" "\<exists>E'. bags m1 ?e = Some E' \<and> bag_pool E' = bag_pool E"
    using mem_okD(1) [OF ok] B assms(3) by (rule appendMoveAll_run) simp
  have 2: "mem_ok m1 F1" "held m1 F1 = held m F" "bags_kept {?g, ?e} m F m1 F1"
    by (rule move_held [OF ok B assms(3) _ 1(2,3) _ _ _ 1(6,7)]; use 1(4,5) in auto)+
  obtain m2 F2 where 3: "thenE (appendMoveAll ?g ?e) (give_all tid) m = (Ok (), m2)" "mem_ok m2 F2" "held m2 F2 = held m F"
    "bags_kept {?g, ?e} m F m2 F2" "items_in m2 F2 ?e = items_in m1 F1 ?e"
    by (rule append_then_give [of "appendMoveAll ?g ?e" m m1 F1 F tid ?e B, OF 1(1) 2 B]) simp
  then show thesis
    using shared_pool_invI [OF assms(1) 3(2,4)] 1(5) by (intro that) (auto simp: shared_addMoveAll_def)
qed

interpretation shared: record_pool pool_perthread_and_shared n "shared_pool_inv n"
proof
  fix m F tid x t j B m' F'
  show "shared_pool_inv n m F \<Longrightarrow> mem_ok m F" by (simp add: shared_pool_inv_def)
  show "\<exists>x m' F'. pool_get pool_perthread_and_shared tid m = (Ok (Some x), m') \<and> shared_pool_inv n m' F' \<and> x \<notin># held m F \<and>
      held m' F' = add_mset x (held m F) \<and> clients_kept {} m F m' F'" if h: "shared_pool_inv n m F" "tid < n"
  proof -
    obtain B where B: "bags m (Free_bag tid) = Some B" using h by (auto simp: shared_pool_inv_def)
    have "mem_ok m F" using h(1) by (simp add: shared_pool_inv_def)
    then obtain x m' F' where "shared_get tid m = (Ok (Some x), m')" "mem_ok m' F'" "held m' F' = add_mset x (held m F)"
      "x \<notin># held m F" "bags_kept {Free_bag tid} m F m' F'"
      using B by (rule shared_get_run)
    then show ?thesis using shared_pool_invI [OF h(1)]
      by (intro exI [of _ x] exI [of _ m'] exI [of _ F']) (auto simp: pool_perthread_and_shared_def intro: clients_keptI)
  qed
  show "\<exists>m' F'. pool_add pool_perthread_and_shared tid (Some x) m = (Ok (), m') \<and> shared_pool_inv n m' F' \<and>
      held m' F' = held m F - {#x#} \<and> clients_kept {} m F m' F'" if h: "shared_pool_inv n m F" "tid < n" "x \<in># held m F"
  proof -
    obtain B where B: "bags m (Free_bag tid) = Some B" using h by (auto simp: shared_pool_inv_def)
    have "mem_ok m F" using h(1) by (simp add: shared_pool_inv_def)
    then obtain m' F' where "shared_add tid (Some x) m = (Ok (), m')" "mem_ok m' F'" "held m' F' = held m F - {#x#}"
      "bags_kept {Free_bag tid} m F m' F'"
      using B h(3) by (rule shared_add_run)
    then show ?thesis using shared_pool_invI [OF h(1)]
      by (intro exI [of _ m'] exI [of _ F']) (auto simp: pool_perthread_and_shared_def intro: clients_keptI)
  qed
  show "\<exists>m' F'. pool_addMoveFullBlocks pool_perthread_and_shared tid (Epoch_bag t j) m = (Ok (), m') \<and> shared_pool_inv n m' F' \<and> held m' F' = held m F \<and>
      items_in m' F' (Epoch_bag t j) \<subseteq># items_in m F (Epoch_bag t j) \<and> clients_kept {Epoch_bag t j} m F m' F'"
    if "shared_pool_inv n m F" "tid < n" "bags m (Epoch_bag t j) = Some B"
    by (rule shared_move_full [OF that]) (auto simp: pool_perthread_and_shared_def intro!: exI clients_keptI)
  show "\<exists>m' F'. pool_addMoveAll pool_perthread_and_shared tid (Epoch_bag t j) m = (Ok (), m') \<and> shared_pool_inv n m' F' \<and> held m' F' = held m F \<and>
      items_in m' F' (Epoch_bag t j) = {#} \<and> clients_kept {Epoch_bag t j} m F m' F'"
    if "shared_pool_inv n m F" "tid < n" "bags m (Epoch_bag t j) = Some B"
    by (rule shared_move_all [OF that]) (auto simp: pool_perthread_and_shared_def intro!: exI clients_keptI)
  show "shared_pool_inv n m' F'" if "shared_pool_inv n m F" "mem_ok m' F'" "\<forall>t. bags m' (Free_bag t) = bags m (Free_bag t)"
    using that by (auto simp: shared_pool_inv_def)
qed

end
