(* ===== verification/Debra.thy ===== *)
theory Debra
  imports PoolSpec
begin

text \<open>
  Epoch based reclamation, \<^verbatim>\<open>reclaimer_debra.h\<close>, over any pool that meets the contract
  \<open>record_pool\<close>. The record
  manager of the program has one record type, so \<open>BagRotator\<close> rotates the bags of one reclaimer.
  Epochs are integers. The atomic accesses of \<open>startOp\<close> are separate definitions, so that the
  steps of different threads interleave between them.
\<close>

section \<open>Epochs\<close>

definition EPOCH_INCREMENT :: int where
  "EPOCH_INCREMENT = 2"

definition BITS_EPOCH :: "int \<Rightarrow> int" where
  "BITS_EPOCH ann = and ann (not (EPOCH_INCREMENT - 1))"

definition QUIESCENT :: "int \<Rightarrow> bool" where
  "QUIESCENT ann \<longleftrightarrow> and ann 1 \<noteq> 0"

definition GET_WITH_QUIESCENT :: "int \<Rightarrow> int" where
  "GET_WITH_QUIESCENT ann = or ann 1"

definition MIN_OPS_BEFORE_READ :: nat where
  "MIN_OPS_BEFORE_READ = 20"

definition NUMBER_OF_EPOCH_BAGS :: nat where
  "NUMBER_OF_EPOCH_BAGS = 9"

definition NUMBER_OF_ALWAYS_EMPTY_EPOCH_BAGS :: nat where
  "NUMBER_OF_ALWAYS_EMPTY_EPOCH_BAGS = 3"

lemma epoch_bits:
  "QUIESCENT a \<longleftrightarrow> odd a" "GET_WITH_QUIESCENT a = (if even a then a + 1 else a)" "even a \<Longrightarrow> BITS_EPOCH a = a"
proof -
  show "QUIESCENT a \<longleftrightarrow> odd a" by (simp add: QUIESCENT_def and_one_eq mod2_eq_if)
  show "GET_WITH_QUIESCENT a = (if even a then a + 1 else a)" by (simp add: GET_WITH_QUIESCENT_def or_one_eq)
  assume "even a"
  then have "bit a n \<Longrightarrow> n \<noteq> 0" for n by (cases n) (auto simp: bit_0)
  then show "BITS_EPOCH a = a"
    by (intro bit_eqI) (auto simp: BITS_EPOCH_def EPOCH_INCREMENT_def bit_and_iff bit_not_iff bit_1_iff)
qed

section \<open>State\<close>

record thread_data =
  announcedEpoch :: int
  localvar_announcedEpoch :: int
  epochbags :: "nat \<Rightarrow> bag_id option"
  bag_index :: nat
  currentBag :: "bag_id option"
  checked :: nat
  opsSinceRead :: nat

record debra =
  d_epoch :: int
  threadData :: "nat \<Rightarrow> thread_data"
  d_mem :: mem

definition upd_thread :: "nat \<Rightarrow> (thread_data \<Rightarrow> thread_data) \<Rightarrow> (debra, unit) cmd" where
  "upd_thread tid f = modifyE (\<lambda>s. s\<lparr>threadData := (threadData s)(tid := f (threadData s tid))\<rparr>)"

definition on_mem :: "(mem, 'a) cmd \<Rightarrow> (debra, 'a) cmd" where
  "on_mem c = (\<lambda>s. case c (d_mem s) of (r, m') \<Rightarrow> (r, s\<lparr>d_mem := m'\<rparr>))"

definition on_bag :: "bag_id option \<Rightarrow> (bag_id \<Rightarrow> (mem, 'a) cmd) \<Rightarrow> (debra, 'a) cmd" where
  "on_bag b c = (case b of None \<Rightarrow> throwE NullPointer | Some g \<Rightarrow> on_mem (c g))"

section \<open>Operations\<close>

definition isQuiescent :: "nat \<Rightarrow> (debra, bool) cmd" where
  "isQuiescent tid = getsE (\<lambda>s. QUIESCENT (announcedEpoch (threadData s tid)))"

definition getSafeBlockbags :: "nat \<Rightarrow> debra \<Rightarrow> bag_id option list" where
  "getSafeBlockbags tid s =
     (let d = threadData s tid; ix = bag_index d in
      [epochbags d ix, epochbags d ((ix + NUMBER_OF_EPOCH_BAGS - 1) mod NUMBER_OF_EPOCH_BAGS),
       epochbags d ((ix + NUMBER_OF_EPOCH_BAGS - 2) mod NUMBER_OF_EPOCH_BAGS), None])"

primrec sum_bags :: "(nat \<times> nat) list \<Rightarrow> nat \<Rightarrow> (debra, nat) cmd" where
  "sum_bags [] acc = returnE acc"
| "sum_bags (tj # tjs) acc =
     bindE (getsE (\<lambda>s. epochbags (threadData s (fst tj)) (snd tj))) (\<lambda>b.
     bindE (on_bag b computeSize) (\<lambda>k. sum_bags tjs (acc + k)))"

definition getSizeInNodes :: "nat \<Rightarrow> (debra, nat) cmd" where
  "getSizeInNodes numProcesses = sum_bags (List.product [0..<numProcesses] [0..<NUMBER_OF_EPOCH_BAGS]) 0"

definition rotateEpochBags :: "pool_ops \<Rightarrow> nat \<Rightarrow> (debra, unit) cmd" where
  "rotateEpochBags P tid =
     bindE (getsE (\<lambda>s. threadData s tid)) (\<lambda>d.
       let nextIndex = (bag_index d + 1) mod NUMBER_OF_EPOCH_BAGS;
           freeable = epochbags d ((nextIndex + NUMBER_OF_ALWAYS_EMPTY_EPOCH_BAGS) mod NUMBER_OF_EPOCH_BAGS)
       in thenE (on_bag freeable (pool_addMoveFullBlocks P tid))
            (upd_thread tid (\<lambda>d. d\<lparr>bag_index := nextIndex, currentBag := epochbags d nextIndex\<rparr>)))"

text \<open>The atomic accesses of \<open>startOp\<close>, in order.\<close>

definition so_read :: "nat \<Rightarrow> (debra, int \<times> bool) cmd" where
  "so_read tid =
     bindE (getsE d_epoch) (\<lambda>readEpoch.
     bindE (getsE (\<lambda>s. localvar_announcedEpoch (threadData s tid))) (\<lambda>ann.
     thenE (upd_thread tid (\<lambda>d. d\<lparr>localvar_announcedEpoch := readEpoch\<rparr>))
       (returnE (readEpoch, readEpoch \<noteq> ann))))"

definition so_rotate :: "pool_ops \<Rightarrow> nat \<Rightarrow> bool \<Rightarrow> (debra, unit) cmd" where
  "so_rotate P tid changed =
     (if changed then thenE (upd_thread tid (\<lambda>d. d\<lparr>checked := 0\<rparr>)) (rotateEpochBags P tid) else returnE ())"

definition so_announce :: "nat \<Rightarrow> int \<Rightarrow> (debra, unit) cmd" where
  "so_announce tid readEpoch = upd_thread tid (\<lambda>d. d\<lparr>announcedEpoch := readEpoch\<rparr>)"

text \<open>The scan of one other thread; the result says whether the epoch is to be advanced.\<close>

definition so_scan :: "nat \<Rightarrow> nat \<Rightarrow> int \<Rightarrow> bool \<Rightarrow> (debra, bool) cmd" where
  "so_scan numProcesses tid readEpoch readOnly =
     (if readOnly then returnE False
      else
        thenE (upd_thread tid (\<lambda>d. d\<lparr>opsSinceRead := opsSinceRead d + 1\<rparr>))
        (bindE (getsE (\<lambda>s. opsSinceRead (threadData s tid))) (\<lambda>k.
          if k = MIN_OPS_BEFORE_READ then
            thenE (upd_thread tid (\<lambda>d. d\<lparr>opsSinceRead := 0\<rparr>))
            (bindE (getsE (\<lambda>s. checked (threadData s tid))) (\<lambda>otherTid.
            bindE (getsE (\<lambda>s. announcedEpoch (threadData s otherTid))) (\<lambda>otherAnnounce.
              if BITS_EPOCH otherAnnounce = readEpoch \<or> QUIESCENT otherAnnounce then
                thenE (upd_thread tid (\<lambda>d. d\<lparr>checked := checked d + 1\<rparr>))
                (bindE (getsE (\<lambda>s. checked (threadData s tid))) (\<lambda>c. returnE (c \<ge> numProcesses)))
              else returnE False)))
          else returnE False)))"

definition so_cas :: "int \<Rightarrow> (debra, unit) cmd" where
  "so_cas readEpoch = modifyE (\<lambda>s. if d_epoch s = readEpoch then s\<lparr>d_epoch := readEpoch + EPOCH_INCREMENT\<rparr> else s)"

definition startOp :: "pool_ops \<Rightarrow> nat \<Rightarrow> nat \<Rightarrow> bool \<Rightarrow> (debra, bool) cmd" where
  "startOp P numProcesses tid readOnly =
     bindE (so_read tid) (\<lambda>ec.
     thenE (so_rotate P tid (snd ec))
     (thenE (so_announce tid (fst ec))
     (bindE (so_scan numProcesses tid (fst ec) readOnly) (\<lambda>adv.
     thenE (if adv then so_cas (fst ec) else returnE ()) (returnE (snd ec))))))"

definition endOp :: "nat \<Rightarrow> (debra, unit) cmd" where
  "endOp tid = upd_thread tid (\<lambda>d. d\<lparr>announcedEpoch := GET_WITH_QUIESCENT (localvar_announcedEpoch d)\<rparr>)"

definition retire :: "nat \<Rightarrow> obj option \<Rightarrow> (debra, unit) cmd" where
  "retire tid p = bindE (getsE (\<lambda>s. currentBag (threadData s tid))) (\<lambda>b. on_bag b (\<lambda>g. bag_add g p))"

definition debra_initThread :: "nat \<Rightarrow> (debra, unit) cmd" where
  "debra_initThread tid =
     thenE (upd_thread tid (\<lambda>d. d\<lparr>currentBag := epochbags d 0, opsSinceRead := 0, checked := 0\<rparr>))
       (forE [0..<NUMBER_OF_EPOCH_BAGS] (\<lambda>j.
         thenE (on_mem (new_blockbag (Epoch_bag tid j) tid tid))
           (upd_thread tid (\<lambda>d. d\<lparr>epochbags := (epochbags d)(j := Some (Epoch_bag tid j))\<rparr>))))"

definition new_thread_data :: thread_data where
  "new_thread_data = \<lparr>announcedEpoch = GET_WITH_QUIESCENT 0, localvar_announcedEpoch = GET_WITH_QUIESCENT 0,
     epochbags = (\<lambda>_. None), bag_index = 0, currentBag = None, checked = 0, opsSinceRead = 0\<rparr>"

definition new_debra :: "mem \<Rightarrow> debra" where
  "new_debra m = \<lparr>d_epoch = 0, threadData = (\<lambda>_. new_thread_data), d_mem = m\<rparr>"

definition delete_debra :: "pool_ops \<Rightarrow> nat \<Rightarrow> (debra, unit) cmd" where
  "delete_debra P numProcesses =
     forE [0..<numProcesses] (\<lambda>tid. forE [0..<NUMBER_OF_EPOCH_BAGS] (\<lambda>j.
       bindE (getsE (\<lambda>s. epochbags (threadData s tid) j)) (\<lambda>b. case b of
         None \<Rightarrow> returnE ()
       | Some g \<Rightarrow> thenE (on_mem (pool_addMoveAll P tid g)) (on_mem (delete_blockbag g)))))"

end
