(* ===== verification/DebraSafe.thy ===== *)
theory DebraSafe
  imports Debra
begin

text \<open>
  The threads of \<open>reclaimer_debra\<close> interleaved: one step is one atomic access of \<open>startOp\<close>, an
  \<open>endOp\<close>, a \<open>retire\<close>, or a call of the pool. The invariant shows that an object that is
  retired while a thread is inside an operation stays in an epoch bag, neither deleted nor
  handed out again, until that thread ends its operation.
\<close>

section \<open>Interleaved steps\<close>

datatype dpc = D_idle | D_got int bool | D_rot int | D_ann int | D_cas int | D_active

fun in_op :: "dpc \<Rightarrow> bool" where
  "in_op (D_ann e) = True"
| "in_op (D_cas e) = True"
| "in_op D_active = True"
| "in_op _ = False"

fun rotating :: "dpc \<Rightarrow> bool" where
  "rotating (D_got e c) = c"
| "rotating _ = False"

fun scanned :: "dpc \<Rightarrow> bool" where
  "scanned (D_cas e) = True"
| "scanned _ = False"

fun epoch_of :: "dpc \<Rightarrow> int option" where
  "epoch_of (D_got e c) = Some e"
| "epoch_of (D_rot e) = Some e"
| "epoch_of (D_ann e) = Some e"
| "epoch_of (D_cas e) = Some e"
| "epoch_of _ = None"

text \<open>
  The last three fields observe the run: the objects that were retired since the thread
  announced its epoch, the global epoch at that moment, and the objects the clients hold.
\<close>

record dworld =
  dw :: debra
  d_pc :: "nat \<Rightarrow> dpc"
  since :: "nat \<Rightarrow> obj set"
  ann_at :: "nat \<Rightarrow> int"
  owned :: "obj set"

definition new_world :: "debra \<Rightarrow> dworld" where
  "new_world s = \<lparr>dw = s, d_pc = (\<lambda>_. D_idle), since = (\<lambda>_. {}), ann_at = (\<lambda>_. 0), owned = {}\<rparr>"

inductive debra_step :: "pool_ops \<Rightarrow> nat \<Rightarrow> dworld \<Rightarrow> dworld \<Rightarrow> bool" for P n where
  step_read: "t < n \<Longrightarrow> d_pc w t = D_idle \<Longrightarrow> so_read t (dw w) = (Ok (e, c), s') \<Longrightarrow>
     debra_step P n w (w\<lparr>dw := s', d_pc := (d_pc w)(t := D_got e c)\<rparr>)"
| step_rotate: "t < n \<Longrightarrow> d_pc w t = D_got e c \<Longrightarrow> so_rotate P t c (dw w) = (Ok (), s') \<Longrightarrow>
     debra_step P n w (w\<lparr>dw := s', d_pc := (d_pc w)(t := D_rot e)\<rparr>)"
| step_announce: "t < n \<Longrightarrow> d_pc w t = D_rot e \<Longrightarrow> so_announce t e (dw w) = (Ok (), s') \<Longrightarrow>
     debra_step P n w (w\<lparr>dw := s', d_pc := (d_pc w)(t := D_ann e), since := (since w)(t := {}),
       ann_at := (ann_at w)(t := d_epoch (dw w))\<rparr>)"
| step_scan: "t < n \<Longrightarrow> d_pc w t = D_ann e \<Longrightarrow> so_scan n t e readOnly (dw w) = (Ok adv, s') \<Longrightarrow>
     debra_step P n w (w\<lparr>dw := s', d_pc := (d_pc w)(t := if adv then D_cas e else D_active)\<rparr>)"
| step_cas: "t < n \<Longrightarrow> d_pc w t = D_cas e \<Longrightarrow> so_cas e (dw w) = (Ok (), s') \<Longrightarrow>
     debra_step P n w (w\<lparr>dw := s', d_pc := (d_pc w)(t := D_active)\<rparr>)"
| step_end: "t < n \<Longrightarrow> d_pc w t = D_active \<Longrightarrow> endOp t (dw w) = (Ok (), s') \<Longrightarrow>
     debra_step P n w (w\<lparr>dw := s', d_pc := (d_pc w)(t := D_idle), since := (since w)(t := {})\<rparr>)"
| step_retire: "t < n \<Longrightarrow> d_pc w t = D_active \<or> d_pc w t = D_idle \<Longrightarrow> p \<in> owned w \<Longrightarrow> retire t (Some p) (dw w) = (Ok (), s') \<Longrightarrow>
     debra_step P n w (w\<lparr>dw := s', owned := owned w - {p},
       since := (\<lambda>u. if u < n \<and> in_op (d_pc w u) then insert p (since w u) else since w u)\<rparr>)"
| step_get: "t < n \<Longrightarrow> on_mem (pool_get P t) (dw w) = (Ok (Some p), s') \<Longrightarrow>
     debra_step P n w (w\<lparr>dw := s', owned := insert p (owned w)\<rparr>)"
| step_add: "t < n \<Longrightarrow> p \<in> owned w \<Longrightarrow> on_mem (pool_add P t (Some p)) (dw w) = (Ok (), s') \<Longrightarrow>
     debra_step P n w (w\<lparr>dw := s', owned := owned w - {p}\<rparr>)"

section \<open>The invariant\<close>

text \<open>What a thread knows of itself.\<close>

definition thread_ok :: "nat \<Rightarrow> int \<Rightarrow> nat \<Rightarrow> dpc \<Rightarrow> thread_data \<Rightarrow> bool" where
  "thread_ok n E t pc d \<longleftrightarrow>
     bag_index d < NUMBER_OF_EPOCH_BAGS \<and> (\<forall>j<NUMBER_OF_EPOCH_BAGS. epochbags d j = Some (Epoch_bag t j)) \<and>
     (if localvar_announcedEpoch d = 1 then pc = D_idle \<and> currentBag d = None
      else even (localvar_announcedEpoch d) \<and> localvar_announcedEpoch d \<le> E \<and>
        (rotating pc \<or> currentBag d = Some (Epoch_bag t (bag_index d)))) \<and>
     (if in_op pc then announcedEpoch d = localvar_announcedEpoch d else odd (announcedEpoch d)) \<and>
     (\<forall>e. epoch_of pc = Some e \<longrightarrow> e = localvar_announcedEpoch d) \<and>
     (if scanned pc then n \<le> checked d
      else checked d < n \<or> rotating pc \<or> (pc = D_idle \<or> pc = D_active) \<and> localvar_announcedEpoch d \<noteq> E)"

text \<open>What the announcements say of the epoch.\<close>

definition epochs_ok :: "nat \<Rightarrow> dworld \<Rightarrow> bool" where
  "epochs_ok n w \<longleftrightarrow> even (d_epoch (dw w)) \<and>
     (\<forall>t<n. thread_ok n (d_epoch (dw w)) t (d_pc w t) (threadData (dw w) t)) \<and>
     (\<forall>u<n. in_op (d_pc w u) \<longrightarrow> announcedEpoch (threadData (dw w) u) \<le> ann_at w u \<and>
        ann_at w u \<le> d_epoch (dw w) \<and> d_epoch (dw w) \<le> ann_at w u + 2) \<and>
     (\<forall>t<n. \<forall>u<n. localvar_announcedEpoch (threadData (dw w) t) = d_epoch (dw w) \<longrightarrow> \<not> rotating (d_pc w t) \<longrightarrow>
        u < checked (threadData (dw w) t) \<longrightarrow> in_op (d_pc w u) \<longrightarrow> ann_at w u = d_epoch (dw w))"

text \<open>How many rotations ago a bag was the current one.\<close>

definition age :: "dpc \<Rightarrow> thread_data \<Rightarrow> nat \<Rightarrow> nat" where
  "age pc d j = (if rotating pc then 1 else 0) + (if j \<le> bag_index d then bag_index d - j else bag_index d + NUMBER_OF_EPOCH_BAGS - j)"

definition limbo_ok :: "nat \<Rightarrow> dworld \<Rightarrow> (nat \<Rightarrow> nat \<Rightarrow> obj multiset) \<Rightarrow> bool" where
  "limbo_ok n w it \<longleftrightarrow>
     (\<forall>t<n. localvar_announcedEpoch (threadData (dw w) t) = 1 \<longrightarrow> (\<forall>j<NUMBER_OF_EPOCH_BAGS. it t j = {#})) \<and>
     (\<forall>u. since w u \<noteq> {} \<longrightarrow> u < n \<and> in_op (d_pc w u)) \<and>
     (\<forall>u. \<forall>p\<in>since w u. \<exists>t<n. \<exists>j<NUMBER_OF_EPOCH_BAGS. p \<in># it t j) \<and>
     (\<forall>u. \<forall>t<n. \<forall>j<NUMBER_OF_EPOCH_BAGS. \<forall>p\<in>since w u. p \<in># it t j \<longrightarrow> 1 \<le> age (d_pc w t) (threadData (dw w) t) j \<longrightarrow>
        ann_at w u + 2 * (int (age (d_pc w t) (threadData (dw w) t) j) - 1) \<le> localvar_announcedEpoch (threadData (dw w) t))"

abbreviation epoch_items :: "mem \<Rightarrow> (region \<Rightarrow> bptr list) \<Rightarrow> nat \<Rightarrow> nat \<Rightarrow> obj multiset" where
  "epoch_items m F t j \<equiv> items_in m F (Epoch_bag t j)"


section \<open>The epoch\<close>

lemma upd_thread_run [run_simps]:
  "upd_thread t f s = (Ok (), s\<lparr>threadData := (threadData s)(t := f (threadData s t))\<rparr>)"
  by (simp add: upd_thread_def run_simps)

lemma epochs_thread: "epochs_ok n w \<Longrightarrow> t < n \<Longrightarrow> thread_ok n (d_epoch (dw w)) t (d_pc w t) (threadData (dw w) t)"
  by (simp add: epochs_ok_def)

lemma epochs_bound:
  "epochs_ok n w \<Longrightarrow> u < n \<Longrightarrow> in_op (d_pc w u) \<Longrightarrow>
     announcedEpoch (threadData (dw w) u) \<le> ann_at w u \<and> ann_at w u \<le> d_epoch (dw w) \<and> d_epoch (dw w) \<le> ann_at w u + 2"
  by (simp add: epochs_ok_def)

lemma epochs_checked:
  "epochs_ok n w \<Longrightarrow> t < n \<Longrightarrow> u < n \<Longrightarrow> localvar_announcedEpoch (threadData (dw w) t) = d_epoch (dw w) \<Longrightarrow> \<not> rotating (d_pc w t) \<Longrightarrow>
     u < checked (threadData (dw w) t) \<Longrightarrow> in_op (d_pc w u) \<Longrightarrow> ann_at w u = d_epoch (dw w)"
  by (simp add: epochs_ok_def)

text \<open>A step of one thread that keeps the epoch.\<close>

lemma epochs_update:
  assumes "epochs_ok n w" and "t < n"
    and "d_epoch (dw w') = d_epoch (dw w)" and "threadData (dw w') = (threadData (dw w))(t := d')"
    and "d_pc w' = (d_pc w)(t := pc')" and "ann_at w' = (ann_at w)(t := a')"
    and "thread_ok n (d_epoch (dw w)) t pc' d'"
    and "in_op pc' \<Longrightarrow> announcedEpoch d' \<le> a' \<and> a' \<le> d_epoch (dw w) \<and> d_epoch (dw w) \<le> a' + 2"
    and "in_op pc' \<Longrightarrow> in_op (d_pc w t) \<and> a' = ann_at w t \<or> a' = d_epoch (dw w)"
    and "\<And>u. localvar_announcedEpoch d' = d_epoch (dw w) \<Longrightarrow> \<not> rotating pc' \<Longrightarrow> u < n \<Longrightarrow> u < checked d' \<Longrightarrow>
      in_op (d_pc w' u) \<Longrightarrow> ann_at w' u = d_epoch (dw w)"
  shows "epochs_ok n w'"
  unfolding epochs_ok_def assms(3)
proof (intro conjI allI impI)
  show "even (d_epoch (dw w))" using assms(1) by (simp add: epochs_ok_def)
  fix u assume u: "u < n"
  show "thread_ok n (d_epoch (dw w)) u (d_pc w' u) (threadData (dw w') u)"
    using epochs_thread [OF assms(1) u] assms(4,5,7) by simp
  assume "in_op (d_pc w' u)"
  with epochs_bound [OF assms(1) u] assms(4,5,6,8)
  show "announcedEpoch (threadData (dw w') u) \<le> ann_at w' u" "ann_at w' u \<le> d_epoch (dw w)" "d_epoch (dw w) \<le> ann_at w' u + 2"
    by (cases "u = t"; simp)+
next
  fix v u assume h: "v < n" "u < n" "localvar_announcedEpoch (threadData (dw w') v) = d_epoch (dw w)" "\<not> rotating (d_pc w' v)"
    "u < checked (threadData (dw w') v)" "in_op (d_pc w' u)"
  show "ann_at w' u = d_epoch (dw w)"
  proof (cases "v = t")
    case True
    then show ?thesis using assms(10) [of u] assms(4,5) h by simp
  next
    case False
    then show ?thesis
      using epochs_checked [OF assms(1) h(1,2)] assms(4,5,6,9) h by (cases "u = t") auto
  qed
qed

lemma so_read_eq:
  "so_read t s = (Ok (d_epoch s, d_epoch s \<noteq> localvar_announcedEpoch (threadData s t)),
     s\<lparr>threadData := (threadData s)(t := (threadData s t)\<lparr>localvar_announcedEpoch := d_epoch s\<rparr>)\<rparr>)"
  by (simp add: so_read_def run_simps)

lemma epochs_read:
  assumes "epochs_ok n w" and "t < n" and "d_pc w t = D_idle" and "so_read t (dw w) = (Ok (e, c), s')"
  shows "epochs_ok n (w\<lparr>dw := s', d_pc := (d_pc w)(t := D_got e c)\<rparr>)"
proof (rule epochs_update [OF assms(1,2), where d' = "(threadData (dw w) t)\<lparr>localvar_announcedEpoch := d_epoch (dw w)\<rparr>" and a' = "ann_at w t"
      and pc' = "D_got (d_epoch (dw w)) (d_epoch (dw w) \<noteq> localvar_announcedEpoch (threadData (dw w) t))"])
  have "even (d_epoch (dw w))" using assms(1) by (simp add: epochs_ok_def)
  then show "thread_ok n (d_epoch (dw w)) t (D_got (d_epoch (dw w)) (d_epoch (dw w) \<noteq> localvar_announcedEpoch (threadData (dw w) t)))
     ((threadData (dw w) t)\<lparr>localvar_announcedEpoch := d_epoch (dw w)\<rparr>)"
    using epochs_thread [OF assms(1,2)] assms(3) by (auto simp: thread_ok_def split: if_splits)
  fix u
  assume "u < n" and h: "localvar_announcedEpoch ((threadData (dw w) t)\<lparr>localvar_announcedEpoch := d_epoch (dw w)\<rparr>) = d_epoch (dw w)"
    "\<not> rotating (D_got (d_epoch (dw w)) (d_epoch (dw w) \<noteq> localvar_announcedEpoch (threadData (dw w) t)))"
    "u < checked ((threadData (dw w) t)\<lparr>localvar_announcedEpoch := d_epoch (dw w)\<rparr>)"
    "in_op (d_pc (w\<lparr>dw := s', d_pc := (d_pc w)(t := D_got e c)\<rparr>) u)"
  then show "ann_at (w\<lparr>dw := s', d_pc := (d_pc w)(t := D_got e c)\<rparr>) u = d_epoch (dw w)"
    using epochs_checked [OF assms(1,2) \<open>u < n\<close>] assms(3) by (auto split: if_splits)
qed (use assms(4) in \<open>auto simp: so_read_eq\<close>)

text \<open>Memory only, and the bags of the thread.\<close>

lemma epochs_rotate:
  assumes "epochs_ok n w" and "t < n" and "d_pc w t = D_got e c"
    and "d_epoch s' = d_epoch (dw w)"
    and "threadData s' = (threadData (dw w))(t := (if c then (threadData (dw w) t)\<lparr>checked := 0, bag_index := i, currentBag := Some (Epoch_bag t i)\<rparr>
        else threadData (dw w) t))" and "i < NUMBER_OF_EPOCH_BAGS"
  shows "epochs_ok n (w\<lparr>dw := s', d_pc := (d_pc w)(t := D_rot e)\<rparr>)"
proof (rule epochs_update [OF assms(1,2), where a' = "ann_at w t" and pc' = "D_rot e" and
      d' = "if c then (threadData (dw w) t)\<lparr>checked := 0, bag_index := i, currentBag := Some (Epoch_bag t i)\<rparr> else threadData (dw w) t"])
  note th = epochs_thread [OF assms(1,2)]
  show "thread_ok n (d_epoch (dw w)) t (D_rot e)
     (if c then (threadData (dw w) t)\<lparr>checked := 0, bag_index := i, currentBag := Some (Epoch_bag t i)\<rparr> else threadData (dw w) t)"
    using th assms(2,3,6) by (cases c) (auto simp: thread_ok_def split: if_splits)
  fix u
  assume "u < n" "localvar_announcedEpoch (if c then (threadData (dw w) t)\<lparr>checked := 0, bag_index := i, currentBag := Some (Epoch_bag t i)\<rparr> else threadData (dw w) t) = d_epoch (dw w)"
    "u < checked (if c then (threadData (dw w) t)\<lparr>checked := 0, bag_index := i, currentBag := Some (Epoch_bag t i)\<rparr> else threadData (dw w) t)"
    "in_op (d_pc (w\<lparr>dw := s', d_pc := (d_pc w)(t := D_rot e)\<rparr>) u)"
  then show "ann_at (w\<lparr>dw := s', d_pc := (d_pc w)(t := D_rot e)\<rparr>) u = d_epoch (dw w)"
    using epochs_checked [OF assms(1,2) \<open>u < n\<close>] assms(3) by (auto split: if_splits)
qed (use assms(4,5) in \<open>auto\<close>)

lemma epochs_announce:
  assumes "epochs_ok n w" and "t < n" and "d_pc w t = D_rot e" and "so_announce t e (dw w) = (Ok (), s')"
  shows "epochs_ok n (w\<lparr>dw := s', d_pc := (d_pc w)(t := D_ann e), since := S, ann_at := (ann_at w)(t := d_epoch (dw w))\<rparr>)"
proof (rule epochs_update [OF assms(1,2), where a' = "d_epoch (dw w)" and pc' = "D_ann e" and
      d' = "(threadData (dw w) t)\<lparr>announcedEpoch := e\<rparr>"])
  have th: "thread_ok n (d_epoch (dw w)) t (D_rot e) (threadData (dw w) t)" using epochs_thread [OF assms(1,2)] assms(3) by simp
  then show "thread_ok n (d_epoch (dw w)) t (D_ann e) ((threadData (dw w) t)\<lparr>announcedEpoch := e\<rparr>)"
    by (auto simp: thread_ok_def split: if_splits)
  show "announcedEpoch ((threadData (dw w) t)\<lparr>announcedEpoch := e\<rparr>) \<le> d_epoch (dw w) \<and> d_epoch (dw w) \<le> d_epoch (dw w) \<and> d_epoch (dw w) \<le> d_epoch (dw w) + 2"
    using th by (auto simp: thread_ok_def split: if_splits)
  fix u
  assume "u < n" "localvar_announcedEpoch ((threadData (dw w) t)\<lparr>announcedEpoch := e\<rparr>) = d_epoch (dw w)"
    "u < checked ((threadData (dw w) t)\<lparr>announcedEpoch := e\<rparr>)"
    "in_op (d_pc (w\<lparr>dw := s', d_pc := (d_pc w)(t := D_ann e), since := S, ann_at := (ann_at w)(t := d_epoch (dw w))\<rparr>) u)"
  then show "ann_at (w\<lparr>dw := s', d_pc := (d_pc w)(t := D_ann e), since := S, ann_at := (ann_at w)(t := d_epoch (dw w))\<rparr>) u = d_epoch (dw w)"
    using epochs_checked [OF assms(1,2) \<open>u < n\<close>] assms(3) by (auto split: if_splits)
qed (use assms(4) in \<open>auto simp: so_announce_def run_simps\<close>)

lemma epochs_end:
  assumes "epochs_ok n w" and "t < n" and "d_pc w t = D_active" and "endOp t (dw w) = (Ok (), s')"
  shows "epochs_ok n (w\<lparr>dw := s', d_pc := (d_pc w)(t := D_idle), since := S\<rparr>)"
proof (rule epochs_update [OF assms(1,2), where a' = "ann_at w t" and pc' = "D_idle" and
      d' = "(threadData (dw w) t)\<lparr>announcedEpoch := GET_WITH_QUIESCENT (localvar_announcedEpoch (threadData (dw w) t))\<rparr>"])
  show "thread_ok n (d_epoch (dw w)) t D_idle
     ((threadData (dw w) t)\<lparr>announcedEpoch := GET_WITH_QUIESCENT (localvar_announcedEpoch (threadData (dw w) t))\<rparr>)"
    using epochs_thread [OF assms(1,2)] assms(3) by (auto simp: thread_ok_def epoch_bits split: if_splits)
  fix u
  assume "u < n" "localvar_announcedEpoch ((threadData (dw w) t)\<lparr>announcedEpoch := GET_WITH_QUIESCENT (localvar_announcedEpoch (threadData (dw w) t))\<rparr>) = d_epoch (dw w)"
    "u < checked ((threadData (dw w) t)\<lparr>announcedEpoch := GET_WITH_QUIESCENT (localvar_announcedEpoch (threadData (dw w) t))\<rparr>)"
    "in_op (d_pc (w\<lparr>dw := s', d_pc := (d_pc w)(t := D_idle), since := S\<rparr>) u)"
  then show "ann_at (w\<lparr>dw := s', d_pc := (d_pc w)(t := D_idle), since := S\<rparr>) u = d_epoch (dw w)"
    using epochs_checked [OF assms(1,2) \<open>u < n\<close>] assms(3) by (auto split: if_splits)
qed (use assms(4) in \<open>auto simp: endOp_def run_simps\<close>)


text \<open>One step of the scan: nothing is checked, or the next thread is.\<close>

lemma so_scan_run:
  obtains k where "so_scan n t e readOnly s = (Ok False, s\<lparr>threadData := (threadData s)(t := (threadData s t)\<lparr>opsSinceRead := k\<rparr>)\<rparr>)"
  | "so_scan n t e readOnly s = (Ok (n \<le> Suc (checked (threadData s t))),
        s\<lparr>threadData := (threadData s)(t := (threadData s t)\<lparr>opsSinceRead := 0, checked := Suc (checked (threadData s t))\<rparr>)\<rparr>)"
    "BITS_EPOCH (announcedEpoch (threadData s (checked (threadData s t)))) = e \<or> QUIESCENT (announcedEpoch (threadData s (checked (threadData s t))))"
proof -
  let ?d = "threadData s t"
  consider "readOnly" | "\<not> readOnly" "Suc (opsSinceRead ?d) \<noteq> MIN_OPS_BEFORE_READ" | "\<not> readOnly" "Suc (opsSinceRead ?d) = MIN_OPS_BEFORE_READ"
    by blast
  then show thesis
  proof cases
    case 1
    then have "so_scan n t e readOnly s = (Ok False, s\<lparr>threadData := (threadData s)(t := ?d\<lparr>opsSinceRead := opsSinceRead ?d\<rparr>)\<rparr>)"
      by (simp add: so_scan_def run_simps)
    then show thesis by (rule that(1))
  next
    case 2
    then have "so_scan n t e readOnly s = (Ok False, s\<lparr>threadData := (threadData s)(t := ?d\<lparr>opsSinceRead := Suc (opsSinceRead ?d)\<rparr>)\<rparr>)"
      by (simp add: so_scan_def run_simps)
    then show thesis by (rule that(1))
  next
    case 3
    let ?a = "announcedEpoch (threadData s (checked ?d))"
    have a: "announcedEpoch (((threadData s)(t := ?d\<lparr>opsSinceRead := 0\<rparr>)) (checked ?d)) = ?a" by simp
    show thesis
    proof (cases "BITS_EPOCH ?a = e \<or> QUIESCENT ?a")
      case True
      show thesis using 3 True a by (intro that(2)) (auto simp: so_scan_def run_simps)
    next
      case False
      then have "so_scan n t e readOnly s = (Ok False, s\<lparr>threadData := (threadData s)(t := ?d\<lparr>opsSinceRead := 0\<rparr>)\<rparr>)"
        using 3 by (auto simp: so_scan_def run_simps)
      then show thesis by (rule that(1))
    qed
  qed
qed

lemma announced_current:
  assumes "epochs_ok n w" and "u < n" and "in_op (d_pc w u)"
    and "BITS_EPOCH (announcedEpoch (threadData (dw w) u)) = d_epoch (dw w) \<or> QUIESCENT (announcedEpoch (threadData (dw w) u))"
  shows "ann_at w u = d_epoch (dw w)"
proof -
  have th: "thread_ok n (d_epoch (dw w)) u (d_pc w u) (threadData (dw w) u)" by (rule epochs_thread [OF assms(1,2)])
  have "even (announcedEpoch (threadData (dw w) u))"
    using th assms(3) by (cases "d_pc w u") (auto simp: thread_ok_def split: if_splits)
  then have "announcedEpoch (threadData (dw w) u) = d_epoch (dw w)" using assms(4) by (auto simp: epoch_bits)
  then show ?thesis using epochs_bound [OF assms(1-3)] by simp
qed

lemma epochs_scan:
  assumes "epochs_ok n w" and "t < n" and "d_pc w t = D_ann e" and "so_scan n t e readOnly (dw w) = (Ok adv, s')"
  shows "epochs_ok n (w\<lparr>dw := s', d_pc := (d_pc w)(t := if adv then D_cas e else D_active)\<rparr>)"
proof -
  let ?d = "threadData (dw w) t"
  have th: "thread_ok n (d_epoch (dw w)) t (D_ann e) ?d" using epochs_thread [OF assms(1,2)] assms(3) by simp
  have bd: "announcedEpoch ?d \<le> ann_at w t \<and> ann_at w t \<le> d_epoch (dw w) \<and> d_epoch (dw w) \<le> ann_at w t + 2"
    using epochs_bound [OF assms(1,2)] assms(3) by simp
  have e: "e = localvar_announcedEpoch ?d" and c: "checked ?d < n" using th by (auto simp: thread_ok_def split: if_splits)
  show ?thesis
  proof (rule so_scan_run [of n t e readOnly "dw w"])
    fix k assume r: "so_scan n t e readOnly (dw w) = (Ok False, (dw w)\<lparr>threadData := (threadData (dw w))(t := ?d\<lparr>opsSinceRead := k\<rparr>)\<rparr>)"
    show ?thesis
    proof (rule epochs_update [OF assms(1,2), where a' = "ann_at w t" and pc' = D_active and d' = "?d\<lparr>opsSinceRead := k\<rparr>"])
      show "thread_ok n (d_epoch (dw w)) t D_active (?d\<lparr>opsSinceRead := k\<rparr>)" using th by (auto simp: thread_ok_def split: if_splits)
      fix u assume "u < n" "localvar_announcedEpoch (?d\<lparr>opsSinceRead := k\<rparr>) = d_epoch (dw w)" "u < checked (?d\<lparr>opsSinceRead := k\<rparr>)"
        "in_op (d_pc (w\<lparr>dw := s', d_pc := (d_pc w)(t := if adv then D_cas e else D_active)\<rparr>) u)"
      then show "ann_at (w\<lparr>dw := s', d_pc := (d_pc w)(t := if adv then D_cas e else D_active)\<rparr>) u = d_epoch (dw w)"
        using epochs_checked [OF assms(1,2) \<open>u < n\<close>] assms(3) by (cases "u = t") (auto split: if_splits)
    qed (use assms(3,4) bd r in auto)
  next
    let ?d' = "?d\<lparr>opsSinceRead := 0, checked := Suc (checked ?d)\<rparr>"
    assume r: "so_scan n t e readOnly (dw w) = (Ok (n \<le> Suc (checked ?d)), (dw w)\<lparr>threadData := (threadData (dw w))(t := ?d')\<rparr>)"
      and o: "BITS_EPOCH (announcedEpoch (threadData (dw w) (checked ?d))) = e \<or> QUIESCENT (announcedEpoch (threadData (dw w) (checked ?d)))"
    have adv: "adv = (n \<le> Suc (checked ?d))" and s': "s' = (dw w)\<lparr>threadData := (threadData (dw w))(t := ?d')\<rparr>" using r assms(4) by simp_all
    show ?thesis
    proof (rule epochs_update [OF assms(1,2), where a' = "ann_at w t" and pc' = "if adv then D_cas e else D_active" and d' = ?d'])
      show "thread_ok n (d_epoch (dw w)) t (if adv then D_cas e else D_active) ?d'"
        using th by (auto simp: thread_ok_def adv split: if_splits)
      fix u assume u: "u < n" "localvar_announcedEpoch ?d' = d_epoch (dw w)" "u < checked ?d'"
        "in_op (d_pc (w\<lparr>dw := s', d_pc := (d_pc w)(t := if adv then D_cas e else D_active)\<rparr>) u)"
      have i: "in_op (d_pc w u)" using u(4) assms(3) by (cases "u = t") (auto split: if_splits)
      have "ann_at w u = d_epoch (dw w)"
      proof (cases "u = checked ?d")
        case True
        then show ?thesis using announced_current [OF assms(1) u(1) i] o e u(2) by simp
      next
        case False
        then show ?thesis using epochs_checked [OF assms(1,2) u(1)] u(2,3) assms(3) i by simp
      qed
      then show "ann_at (w\<lparr>dw := s', d_pc := (d_pc w)(t := if adv then D_cas e else D_active)\<rparr>) u = d_epoch (dw w)" by simp
    qed (use assms(3) bd s' in auto)
  qed
qed

text \<open>The epoch advances only when every thread inside an operation announced it.\<close>

lemma epochs_cas:
  assumes "epochs_ok n w" and "t < n" and "d_pc w t = D_cas e" and "so_cas e (dw w) = (Ok (), s')"
  shows "epochs_ok n (w\<lparr>dw := s', d_pc := (d_pc w)(t := D_active)\<rparr>)"
proof -
  let ?D = "threadData (dw w)" let ?E = "d_epoch (dw w)"
  have th: "thread_ok n ?E t (D_cas e) (?D t)" using epochs_thread [OF assms(1,2)] assms(3) by simp
  have e: "e = localvar_announcedEpoch (?D t)" and c: "n \<le> checked (?D t)" using th by (auto simp: thread_ok_def split: if_splits)
  show ?thesis
  proof (cases "?E = e")
    case False
    then have s': "s' = dw w" using assms(4) by (simp add: so_cas_def run_simps)
    show ?thesis
    proof (rule epochs_update [OF assms(1,2), where a' = "ann_at w t" and pc' = D_active and d' = "?D t"])
      show "thread_ok n ?E t D_active (?D t)" using th False e by (auto simp: thread_ok_def split: if_splits)
      show "announcedEpoch (?D t) \<le> ann_at w t \<and> ann_at w t \<le> ?E \<and> ?E \<le> ann_at w t + 2" using epochs_bound [OF assms(1,2)] assms(3) by simp
    qed (use assms(3) False e s' in auto)
  next
    case True
    then have s': "d_epoch s' = ?E + 2" "threadData s' = ?D" using assms(4) by (auto simp: so_cas_def run_simps EPOCH_INCREMENT_def)
    have all: "ann_at w u = ?E" if "u < n" "in_op (d_pc w u)" for u
      using epochs_checked [OF assms(1,2) that(1)] that e c True assms(3) by simp
    have loc: "localvar_announcedEpoch (?D u) = 1 \<or> localvar_announcedEpoch (?D u) \<le> ?E" if "u < n" for u
      using epochs_thread [OF assms(1) that] by (auto simp: thread_ok_def split: if_splits)
    have ev: "even ?E" using assms(1) by (simp add: epochs_ok_def)
    have neq: "localvar_announcedEpoch (?D u) \<noteq> ?E + 2" if "u < n" for u
      using loc [OF that] ev by presburger
    have ok: "thread_ok n (?E + 2) u (((d_pc w)(t := D_active)) u) (?D u)" if "u < n" for u
    proof (cases "u = t")
      case True then show ?thesis using th neq [OF that] by (auto simp: thread_ok_def split: if_splits)
    next
      case False then show ?thesis using epochs_thread [OF assms(1) that] neq [OF that] by (auto simp: thread_ok_def)
    qed
    show ?thesis unfolding epochs_ok_def
    proof (intro conjI allI impI)
      fix u assume u: "u < n" and "in_op (d_pc (w\<lparr>dw := s', d_pc := (d_pc w)(t := D_active)\<rparr>) u)"
      then have "in_op (d_pc w u)" using assms(3) by (auto split: if_splits)
      with all [OF u] epochs_bound [OF assms(1) u]
      show "announcedEpoch (threadData (dw (w\<lparr>dw := s', d_pc := (d_pc w)(t := D_active)\<rparr>)) u) \<le> ann_at (w\<lparr>dw := s', d_pc := (d_pc w)(t := D_active)\<rparr>) u"
        "ann_at (w\<lparr>dw := s', d_pc := (d_pc w)(t := D_active)\<rparr>) u \<le> d_epoch (dw (w\<lparr>dw := s', d_pc := (d_pc w)(t := D_active)\<rparr>))"
        "d_epoch (dw (w\<lparr>dw := s', d_pc := (d_pc w)(t := D_active)\<rparr>)) \<le> ann_at (w\<lparr>dw := s', d_pc := (d_pc w)(t := D_active)\<rparr>) u + 2"
        using s' by simp_all
    qed (use ev ok neq s' in \<open>auto\<close>)
  qed
qed


section \<open>The bags\<close>

lemma limbo_okD:
  assumes "limbo_ok n w it"
  shows "t < n \<Longrightarrow> localvar_announcedEpoch (threadData (dw w) t) = 1 \<Longrightarrow> j < NUMBER_OF_EPOCH_BAGS \<Longrightarrow> it t j = {#}"
    and "p \<in> since w u \<Longrightarrow> u < n \<and> in_op (d_pc w u)"
    and "p \<in> since w u \<Longrightarrow> \<exists>t<n. \<exists>j<NUMBER_OF_EPOCH_BAGS. p \<in># it t j"
    and "p \<in> since w u \<Longrightarrow> t < n \<Longrightarrow> j < NUMBER_OF_EPOCH_BAGS \<Longrightarrow> p \<in># it t j \<Longrightarrow> 1 \<le> age (d_pc w t) (threadData (dw w) t) j \<Longrightarrow>
       ann_at w u + 2 * (int (age (d_pc w t) (threadData (dw w) t) j) - 1) \<le> localvar_announcedEpoch (threadData (dw w) t)"
  using assms unfolding limbo_ok_def by blast+

lemma limbo_keep:
  assumes "limbo_ok n w it"
    and "\<And>t. localvar_announcedEpoch (threadData (dw w') t) = localvar_announcedEpoch (threadData (dw w) t)"
    and "\<And>t. bag_index (threadData (dw w') t) = bag_index (threadData (dw w) t)"
    and "\<And>t. rotating (d_pc w' t) = rotating (d_pc w t)"
    and "\<And>u. since w' u = {} \<or> since w' u = since w u \<and> ann_at w' u = ann_at w u \<and> (in_op (d_pc w u) \<longrightarrow> in_op (d_pc w' u))"
  shows "limbo_ok n w' it"
proof -
  have a: "age (d_pc w' t) (threadData (dw w') t) j = age (d_pc w t) (threadData (dw w) t) j" for t j
    by (simp add: age_def assms(3,4))
  have sub: "p \<in> since w u \<and> ann_at w' u = ann_at w u \<and> (in_op (d_pc w u) \<longrightarrow> in_op (d_pc w' u))" if "p \<in> since w' u" for p u
    using assms(5) [of u] that by auto
  show ?thesis unfolding limbo_ok_def a assms(2)
  proof (intro conjI allI ballI impI)
    fix u assume "since w' u \<noteq> {}"
    then obtain p where "p \<in> since w' u" by auto
    then show "u < n" "in_op (d_pc w' u)" using limbo_okD(2) [OF assms(1)] sub by blast+
  next
    fix u p assume "p \<in> since w' u"
    then show "\<exists>t<n. \<exists>j<NUMBER_OF_EPOCH_BAGS. p \<in># it t j" using limbo_okD(3) [OF assms(1)] sub by blast
  next
    fix u t j p
    assume "t < n" "j < NUMBER_OF_EPOCH_BAGS" "p \<in> since w' u" "p \<in># it t j" "1 \<le> age (d_pc w t) (threadData (dw w) t) j"
    then show "ann_at w' u + 2 * (int (age (d_pc w t) (threadData (dw w) t) j) - 1) \<le> localvar_announcedEpoch (threadData (dw w) t)"
      using limbo_okD(4) [OF assms(1)] sub by metis
  qed (rule limbo_okD(1) [OF assms(1)])
qed

text \<open>Reading a newer epoch makes every bag one rotation older.\<close>

lemma limbo_read:
  assumes "limbo_ok n w it" and "epochs_ok n w" and "t < n" and "d_pc w t = D_idle" and "so_read t (dw w) = (Ok (e, c), s')"
  shows "limbo_ok n (w\<lparr>dw := s', d_pc := (d_pc w)(t := D_got e c)\<rparr>) it"
proof -
  let ?w = "w\<lparr>dw := s', d_pc := (d_pc w)(t := D_got e c)\<rparr>"
  let ?d = "threadData (dw w) t" let ?E = "d_epoch (dw w)"
  have e: "e = ?E" "c = (?E \<noteq> localvar_announcedEpoch ?d)"
    and s': "s' = (dw w)\<lparr>threadData := (threadData (dw w))(t := ?d\<lparr>localvar_announcedEpoch := ?E\<rparr>)\<rparr>"
    using assms(5) by (auto simp: so_read_eq)
  have th: "thread_ok n ?E t D_idle ?d" using epochs_thread [OF assms(2,3)] assms(4) by simp
  have ev: "even ?E" using assms(2) by (simp add: epochs_ok_def)
  have old: "ann_at w u + 2 * (int (age (d_pc ?w t) (threadData (dw ?w) t) j) - 1) \<le> ?E"
    if h: "j < NUMBER_OF_EPOCH_BAGS" "p \<in> since w u" "p \<in># it t j" "1 \<le> age (d_pc ?w t) (threadData (dw ?w) t) j" for u j p
  proof -
    let ?a = "age D_idle ?d j"
    have l1: "localvar_announcedEpoch ?d \<noteq> 1" using limbo_okD(1) [OF assms(1,3) _ h(1)] h(3) by auto
    then have l: "even (localvar_announcedEpoch ?d)" "localvar_announcedEpoch ?d \<le> ?E" using th by (auto simp: thread_ok_def)
    have u: "u < n" "in_op (d_pc w u)" using limbo_okD(2) [OF assms(1) h(2)] by auto
    have b: "ann_at w u \<le> ?E" using epochs_bound [OF assms(2) u] by simp
    have a: "age (d_pc ?w t) (threadData (dw ?w) t) j = (if c then 1 else 0) + ?a" using s' by (simp add: age_def)
    show ?thesis
    proof (cases "1 \<le> ?a")
      case True
      then have "ann_at w u + 2 * (int ?a - 1) \<le> localvar_announcedEpoch ?d"
        using limbo_okD(4) [OF assms(1) h(2) assms(3) h(1,3)] assms(4) by simp
      moreover have "c \<Longrightarrow> localvar_announcedEpoch ?d + 2 \<le> ?E" using l ev e(2) by presburger
      ultimately show ?thesis using l(2) unfolding a by (cases c) auto
    next
      case False
      then show ?thesis using b h(4) unfolding a by (cases c) auto
    qed
  qed
  have rest: "limbo_ok n w it" by fact
  show ?thesis unfolding limbo_ok_def
  proof (intro conjI allI ballI impI)
    fix v j assume "v < n" "localvar_announcedEpoch (threadData (dw ?w) v) = 1" "j < NUMBER_OF_EPOCH_BAGS"
    then show "it v j = {#}" using limbo_okD(1) [OF rest, of v j] s' ev by (cases "v = t") auto
  next
    fix u assume "since ?w u \<noteq> {}"
    then obtain p where "p \<in> since w u" by auto
    then show "u < n" "in_op (d_pc ?w u)" using limbo_okD(2) [OF rest] assms(4) by force+
  next
    fix u p assume "p \<in> since ?w u"
    then show "\<exists>t<n. \<exists>j<NUMBER_OF_EPOCH_BAGS. p \<in># it t j" using limbo_okD(3) [OF rest] by simp
  next
    fix u v j p
    assume h: "v < n" "j < NUMBER_OF_EPOCH_BAGS" "p \<in> since ?w u" "p \<in># it v j" "1 \<le> age (d_pc ?w v) (threadData (dw ?w) v) j"
    show "ann_at ?w u + 2 * (int (age (d_pc ?w v) (threadData (dw ?w) v) j) - 1) \<le> localvar_announcedEpoch (threadData (dw ?w) v)"
    proof (cases "v = t")
      case True then show ?thesis using old [of j p u] h s' by simp
    next
      case False then show ?thesis using limbo_okD(4) [OF rest, of p u v j] h s' by simp
    qed
  qed
qed

text \<open>The bag that is emptied holds nothing that a running operation may still use.\<close>

lemma age_freed:
  assumes "i < NUMBER_OF_EPOCH_BAGS" and "bag_index d = i" and "rotating pc"
  shows "age pc d (((i + 1) mod NUMBER_OF_EPOCH_BAGS + NUMBER_OF_ALWAYS_EMPTY_EPOCH_BAGS) mod NUMBER_OF_EPOCH_BAGS) = 6"
proof -
  have "i \<in> {0..<9}" using assms(1) by (simp add: NUMBER_OF_EPOCH_BAGS_def)
  then have "i \<in> set [0..<9]" by simp
  then show ?thesis using assms(2,3)
    by (auto simp: age_def NUMBER_OF_EPOCH_BAGS_def NUMBER_OF_ALWAYS_EMPTY_EPOCH_BAGS_def upt_conv_Cons)
qed

lemma freed_not_since:
  assumes "limbo_ok n w it" and "epochs_ok n w" and "t < n" and "rotating (d_pc w t)" and "p \<in> since w u"
  shows "p \<notin># it t (((bag_index (threadData (dw w) t) + 1) mod NUMBER_OF_EPOCH_BAGS + NUMBER_OF_ALWAYS_EMPTY_EPOCH_BAGS) mod NUMBER_OF_EPOCH_BAGS)"
    (is "_ \<notin># it t ?j")
proof
  assume p: "p \<in># it t ?j"
  note th = epochs_thread [OF assms(2,3)]
  have i: "bag_index (threadData (dw w) t) < NUMBER_OF_EPOCH_BAGS" using th by (simp add: thread_ok_def)
  have a: "age (d_pc w t) (threadData (dw w) t) ?j = 6" by (rule age_freed [OF i refl assms(4)])
  have j: "?j < NUMBER_OF_EPOCH_BAGS" by (simp add: NUMBER_OF_EPOCH_BAGS_def)
  have u: "u < n" "in_op (d_pc w u)" using limbo_okD(2) [OF assms(1,5)] by auto
  have "ann_at w u + 10 \<le> localvar_announcedEpoch (threadData (dw w) t)"
    using limbo_okD(4) [OF assms(1,5,3) j p] a by simp
  moreover have "d_pc w t \<noteq> D_idle" using assms(4) by auto
  then have "localvar_announcedEpoch (threadData (dw w) t) \<le> d_epoch (dw w)" using th by (auto simp: thread_ok_def split: if_splits)
  ultimately show False using epochs_bound [OF assms(2) u] by simp
qed


lemma age_rotated:
  assumes "i < NUMBER_OF_EPOCH_BAGS" and "bag_index d = i" and "rotating pc" and "\<not> rotating pc'"
    and "bag_index d' = (i + 1) mod NUMBER_OF_EPOCH_BAGS" and "j < NUMBER_OF_EPOCH_BAGS" and "1 \<le> age pc' d' j"
  shows "age pc' d' j = age pc d j"
proof (cases "i + 1 = NUMBER_OF_EPOCH_BAGS")
  case True
  then show ?thesis using assms by (auto simp: age_def split: if_splits)
next
  case False
  then have "(i + 1) mod NUMBER_OF_EPOCH_BAGS = i + 1" using assms(1) by simp
  then show ?thesis using assms by (auto simp: age_def split: if_splits)
qed

lemma limbo_rotate:
  assumes "limbo_ok n w it" and "epochs_ok n w" and "t < n" and "d_pc w t = D_got e True"
    and "i = (bag_index (threadData (dw w) t) + 1) mod NUMBER_OF_EPOCH_BAGS"
    and "threadData s' = (threadData (dw w))(t := (threadData (dw w) t)\<lparr>checked := 0, bag_index := i, currentBag := b\<rparr>)"
    and "\<And>v j p. p \<in># it' v j \<Longrightarrow> p \<in># it v j"
    and "\<And>v j. v < n \<Longrightarrow> (v, j) \<noteq> (t, (i + NUMBER_OF_ALWAYS_EMPTY_EPOCH_BAGS) mod NUMBER_OF_EPOCH_BAGS) \<Longrightarrow> it' v j = it v j"
  shows "limbo_ok n (w\<lparr>dw := s', d_pc := (d_pc w)(t := D_rot e)\<rparr>) it'"
proof -
  let ?w = "w\<lparr>dw := s', d_pc := (d_pc w)(t := D_rot e)\<rparr>"
  have rot: "rotating (d_pc w t)" using assms(4) by simp
  note fr = freed_not_since [OF assms(1-3) rot, folded assms(5)]
  have ix: "bag_index (threadData (dw w) t) < NUMBER_OF_EPOCH_BAGS" using epochs_thread [OF assms(2,3)] by (simp add: thread_ok_def)
  show ?thesis unfolding limbo_ok_def
  proof (intro conjI allI ballI impI)
    fix v j assume "v < n" "localvar_announcedEpoch (threadData (dw ?w) v) = 1" "j < NUMBER_OF_EPOCH_BAGS"
    then have "it v j = {#}" using limbo_okD(1) [OF assms(1), of v j] assms(6) by (cases "v = t") auto
    then show "it' v j = {#}" using assms(7) [of _ v j] by (cases "it' v j") auto
  next
    fix u assume "since ?w u \<noteq> {}"
    then obtain p where "p \<in> since w u" by auto
    then show "u < n" "in_op (d_pc ?w u)" using limbo_okD(2) [OF assms(1)] assms(4) by force+
  next
    fix u p assume p: "p \<in> since ?w u"
    then obtain v j where v: "v < n" "j < NUMBER_OF_EPOCH_BAGS" "p \<in># it v j" using limbo_okD(3) [OF assms(1), of p u] by auto
    have "(v, j) \<noteq> (t, (i + NUMBER_OF_ALWAYS_EMPTY_EPOCH_BAGS) mod NUMBER_OF_EPOCH_BAGS)" using fr [of p u] p v(3) by auto
    then have "p \<in># it' v j" using assms(8) [OF v(1), of j] v(3) by simp
    then show "\<exists>t<n. \<exists>j<NUMBER_OF_EPOCH_BAGS. p \<in># it' t j" using v(1,2) by blast
  next
    fix u v j p
    assume h: "v < n" "j < NUMBER_OF_EPOCH_BAGS" "p \<in> since ?w u" "p \<in># it' v j" "1 \<le> age (d_pc ?w v) (threadData (dw ?w) v) j"
    have pi: "p \<in># it v j" using assms(7) h(4) by auto
    show "ann_at ?w u + 2 * (int (age (d_pc ?w v) (threadData (dw ?w) v) j) - 1) \<le> localvar_announcedEpoch (threadData (dw ?w) v)"
    proof (cases "v = t")
      case True
      then have "age (d_pc ?w t) (threadData (dw ?w) t) j = age (d_pc w t) (threadData (dw w) t) j"
        using age_rotated [OF ix refl rot, of "d_pc ?w t" "threadData (dw ?w) t" j] h assms(5,6) by simp
      then show ?thesis using limbo_okD(4) [OF assms(1), of p u t j] h pi True assms(6) by simp
    next
      case False
      then show ?thesis using limbo_okD(4) [OF assms(1), of p u v j] h pi assms(6) by simp
    qed
  qed
qed

lemma limbo_retire:
  assumes "limbo_ok n w it" and "epochs_ok n w" and "t < n" and "d_pc w t = D_active \<or> d_pc w t = D_idle"
    and "localvar_announcedEpoch (threadData (dw w) t) \<noteq> 1" and "threadData s' = threadData (dw w)" and "i = bag_index (threadData (dw w) t)"
    and "\<And>v j. v < n \<Longrightarrow> (v, j) \<noteq> (t, i) \<Longrightarrow> it' v j = it v j" and "it' t i = add_mset p (it t i)" and "\<And>v j. v < n \<Longrightarrow> p \<notin># it v j"
  shows "limbo_ok n (w\<lparr>dw := s', owned := own, since := (\<lambda>u. if u < n \<and> in_op (d_pc w u) then insert p (since w u) else since w u)\<rparr>) it'"
proof -
  let ?w = "w\<lparr>dw := s', owned := own, since := (\<lambda>u. if u < n \<and> in_op (d_pc w u) then insert p (since w u) else since w u)\<rparr>"
  have ix: "i < NUMBER_OF_EPOCH_BAGS" using epochs_thread [OF assms(2,3)] assms(7) by (simp add: thread_ok_def)
  note l = assms(5)
  have mono: "q \<in># it' v j" if "q \<in># it v j" "v < n" for q v j
    using assms(8) [of v j] assms(9) that by (cases "(v, j) = (t, i)") auto
  show ?thesis unfolding limbo_ok_def
  proof (intro conjI allI ballI impI)
    fix v j assume h: "v < n" "localvar_announcedEpoch (threadData (dw ?w) v) = 1" "j < NUMBER_OF_EPOCH_BAGS"
    then have "v \<noteq> t" using l assms(6) by auto
    then show "it' v j = {#}" using limbo_okD(1) [OF assms(1) h(1) _ h(3)] h(2) assms(6,8) h(1) by simp
  next
    fix u assume "since ?w u \<noteq> {}"
    then show "u < n" "in_op (d_pc ?w u)" using limbo_okD(2) [OF assms(1)] by (auto split: if_splits)
  next
    fix u q assume q: "q \<in> since ?w u"
    show "\<exists>t<n. \<exists>j<NUMBER_OF_EPOCH_BAGS. q \<in># it' t j"
    proof (cases "q = p")
      case True then show ?thesis using assms(3,9) ix by (intro exI [of _ t] exI [of _ i] conjI) auto
    next
      case False
      then have "q \<in> since w u" using q by (auto split: if_splits)
      then show ?thesis using limbo_okD(3) [OF assms(1)] mono by blast
    qed
  next
    fix u v j q
    assume h: "v < n" "j < NUMBER_OF_EPOCH_BAGS" "q \<in> since ?w u" "q \<in># it' v j" "1 \<le> age (d_pc ?w v) (threadData (dw ?w) v) j"
    have "(v, j) \<noteq> (t, i)" using h(5) assms(4,6,7) by (auto simp: age_def)
    then have qi: "q \<in># it v j" and "q \<noteq> p" using assms(8) [OF h(1), of j] h(4) assms(10) [OF h(1), of j] by auto
    then have "q \<in> since w u" using h(3) by (auto split: if_splits)
    then show "ann_at ?w u + 2 * (int (age (d_pc ?w v) (threadData (dw ?w) v) j) - 1) \<le> localvar_announcedEpoch (threadData (dw ?w) v)"
      using limbo_okD(4) [OF assms(1), of q u v j] h qi assms(6) by simp
  qed
qed

section \<open>The steps keep the invariant\<close>

definition debra_inv :: "(mem \<Rightarrow> (region \<Rightarrow> bptr list) \<Rightarrow> bool) \<Rightarrow> nat \<Rightarrow> dworld \<Rightarrow> (region \<Rightarrow> bptr list) \<Rightarrow> bool" where
  "debra_inv pinv n w F \<longleftrightarrow> pinv (d_mem (dw w)) F \<and> finite (owned w) \<and> held (d_mem (dw w)) F = mset_set (owned w) \<and>
     (\<forall>t<n. \<forall>j<NUMBER_OF_EPOCH_BAGS. bags (d_mem (dw w)) (Epoch_bag t j) \<noteq> None) \<and> epochs_ok n w \<and>
     limbo_ok n w (epoch_items (d_mem (dw w)) F)"

lemma debra_invD:
  assumes "debra_inv pinv n w F"
  shows "pinv (d_mem (dw w)) F" and "finite (owned w)" and "held (d_mem (dw w)) F = mset_set (owned w)"
    and "t < n \<Longrightarrow> j < NUMBER_OF_EPOCH_BAGS \<Longrightarrow> \<exists>B. bags (d_mem (dw w)) (Epoch_bag t j) = Some B"
    and "epochs_ok n w" and "limbo_ok n w (epoch_items (d_mem (dw w)) F)"
  using assms by (auto simp: debra_inv_def)

text \<open>Steps of one thread that leave the memory alone.\<close>

lemma debra_keep:
  assumes "debra_inv pinv n w F" and "d_mem (dw w') = d_mem (dw w)" and "owned w' = owned w" and "epochs_ok n w'"
    and "limbo_ok n w' (epoch_items (d_mem (dw w)) F)"
  shows "debra_inv pinv n w' F"
  using assms by (simp add: debra_inv_def)

lemma so_read_keeps:
  assumes "debra_inv pinv n w F" and "t < n" and "d_pc w t = D_idle" and "so_read t (dw w) = (Ok (e, c), s')"
  shows "debra_inv pinv n (w\<lparr>dw := s', d_pc := (d_pc w)(t := D_got e c)\<rparr>) F"
  by (rule debra_keep [OF assms(1) _ _ epochs_read [OF debra_invD(5) [OF assms(1)] assms(2-4)]
        limbo_read [OF debra_invD(6,5) [OF assms(1)] assms(2-4)]]) (use assms(4) in \<open>auto simp: so_read_eq\<close>)

lemma so_announce_keeps:
  assumes "debra_inv pinv n w F" and "t < n" and "d_pc w t = D_rot e" and "so_announce t e (dw w) = (Ok (), s')"
  shows "debra_inv pinv n (w\<lparr>dw := s', d_pc := (d_pc w)(t := D_ann e), since := (since w)(t := {}),
       ann_at := (ann_at w)(t := d_epoch (dw w))\<rparr>) F"
  by (rule debra_keep [OF assms(1) _ _ epochs_announce [OF debra_invD(5) [OF assms(1)] assms(2-4)]
        limbo_keep [OF debra_invD(6) [OF assms(1)]]]) (use assms(3,4) in \<open>auto simp: so_announce_def run_simps\<close>)

lemma so_scan_keeps:
  assumes "debra_inv pinv n w F" and "t < n" and "d_pc w t = D_ann e" and "so_scan n t e readOnly (dw w) = (Ok adv, s')"
  shows "debra_inv pinv n (w\<lparr>dw := s', d_pc := (d_pc w)(t := if adv then D_cas e else D_active)\<rparr>) F"
proof -
  have "d_mem s' = d_mem (dw w) \<and> (\<forall>v. localvar_announcedEpoch (threadData s' v) = localvar_announcedEpoch (threadData (dw w) v) \<and>
      bag_index (threadData s' v) = bag_index (threadData (dw w) v))"
    by (rule so_scan_run [of n t e readOnly "dw w"]) (use assms(4) in auto)
  then show ?thesis
    by (intro debra_keep [OF assms(1) _ _ epochs_scan [OF debra_invD(5) [OF assms(1)] assms(2-4)]
        limbo_keep [OF debra_invD(6) [OF assms(1)]]]) (use assms(3) in auto)
qed

lemma so_cas_keeps:
  assumes "debra_inv pinv n w F" and "t < n" and "d_pc w t = D_cas e" and "so_cas e (dw w) = (Ok (), s')"
  shows "debra_inv pinv n (w\<lparr>dw := s', d_pc := (d_pc w)(t := D_active)\<rparr>) F"
  by (rule debra_keep [OF assms(1) _ _ epochs_cas [OF debra_invD(5) [OF assms(1)] assms(2-4)]
        limbo_keep [OF debra_invD(6) [OF assms(1)]]]) (use assms(3,4) in \<open>auto simp: so_cas_def run_simps split: if_splits\<close>)

lemma endOp_keeps:
  assumes "debra_inv pinv n w F" and "t < n" and "d_pc w t = D_active" and "endOp t (dw w) = (Ok (), s')"
  shows "debra_inv pinv n (w\<lparr>dw := s', d_pc := (d_pc w)(t := D_idle), since := (since w)(t := {})\<rparr>) F"
  by (rule debra_keep [OF assms(1) _ _ epochs_end [OF debra_invD(5) [OF assms(1)] assms(2-4)]
        limbo_keep [OF debra_invD(6) [OF assms(1)]]]) (use assms(3,4) in \<open>auto simp: endOp_def run_simps\<close>)


text \<open>The thread \<open>t\<close> has its first \<open>k\<close> bags, all empty.\<close>

definition bags_created :: "nat \<Rightarrow> nat \<Rightarrow> debra \<Rightarrow> (region \<Rightarrow> bptr list) \<Rightarrow> debra \<Rightarrow> (region \<Rightarrow> bptr list) \<Rightarrow> bool" where
  "bags_created k t s F s' F' \<longleftrightarrow> held (d_mem s') F' = held (d_mem s) F \<and> d_epoch s' = d_epoch s \<and>
     threadData s' = (threadData s)(t := (threadData s t)\<lparr>epochbags := (\<lambda>j. if j < k then Some (Epoch_bag t j) else epochbags (threadData s t) j)\<rparr>) \<and>
     (\<forall>j<k. epoch_items (d_mem s') F' t j = {#} \<and> bags (d_mem s') (Epoch_bag t j) \<noteq> None) \<and>
     (\<forall>g. (\<forall>j<k. g \<noteq> Epoch_bag t j) \<longrightarrow> items_in (d_mem s') F' g = items_in (d_mem s) F g \<and> bags (d_mem s') g = bags (d_mem s) g)"

context record_pool
begin

lemma so_rotate_keeps:
  assumes "debra_inv pool_inv n w F" and "t < n" and "d_pc w t = D_got e c"
  shows "\<exists>s' F'. so_rotate P t c (dw w) = (Ok (), s') \<and> debra_inv pool_inv n (w\<lparr>dw := s', d_pc := (d_pc w)(t := D_rot e)\<rparr>) F'"
proof (cases c)
  case False
  have "epochs_ok n (w\<lparr>dw := dw w, d_pc := (d_pc w)(t := D_rot e)\<rparr>)"
    by (rule epochs_rotate [OF debra_invD(5) [OF assms(1)] assms(2,3), of _ 0]) (use False in \<open>auto simp: NUMBER_OF_EPOCH_BAGS_def\<close>)
  moreover have "limbo_ok n (w\<lparr>dw := dw w, d_pc := (d_pc w)(t := D_rot e)\<rparr>) (epoch_items (d_mem (dw w)) F)"
    by (rule limbo_keep [OF debra_invD(6) [OF assms(1)]]) (use assms(3) False in auto)
  ultimately have "debra_inv pool_inv n (w\<lparr>dw := dw w, d_pc := (d_pc w)(t := D_rot e)\<rparr>) F"
    by (intro debra_keep [OF assms(1)]) auto
  then show ?thesis using False by (intro exI [of _ "dw w"] exI [of _ F]) (simp add: so_rotate_def run_simps)
next
  case True
  let ?d = "threadData (dw w) t" let ?m = "d_mem (dw w)"
  let ?i = "(bag_index ?d + 1) mod NUMBER_OF_EPOCH_BAGS"
  let ?j = "(?i + NUMBER_OF_ALWAYS_EMPTY_EPOCH_BAGS) mod NUMBER_OF_EPOCH_BAGS"
  have lt: "?i < NUMBER_OF_EPOCH_BAGS" "?j < NUMBER_OF_EPOCH_BAGS" by (simp_all add: NUMBER_OF_EPOCH_BAGS_def)
  have eb: "epochbags ?d ?i = Some (Epoch_bag t ?i)" "epochbags ?d ?j = Some (Epoch_bag t ?j)"
    using epochs_thread [OF debra_invD(5) [OF assms(1)] assms(2)] lt by (auto simp: thread_ok_def)
  obtain B where B: "bags ?m (Epoch_bag t ?j) = Some B" using debra_invD(4) [OF assms(1,2) lt(2)] by auto
  obtain m' F' where 1: "pool_addMoveFullBlocks P t (Epoch_bag t ?j) ?m = (Ok (), m')" "pool_inv m' F'" "held m' F' = held ?m F"
    "items_in m' F' (Epoch_bag t ?j) \<subseteq># items_in ?m F (Epoch_bag t ?j)" "clients_kept {Epoch_bag t ?j} ?m F m' F'"
    using move_full_law [OF debra_invD(1) [OF assms(1)] assms(2) B] by auto
  let ?d' = "?d\<lparr>checked := 0, bag_index := ?i, currentBag := Some (Epoch_bag t ?i)\<rparr>"
  let ?s = "(dw w)\<lparr>threadData := (threadData (dw w))(t := ?d'), d_mem := m'\<rparr>"
  let ?w = "w\<lparr>dw := ?s, d_pc := (d_pc w)(t := D_rot e)\<rparr>"
  have run: "so_rotate P t c (dw w) = (Ok (), ?s)"
    using True eb 1(1) by (simp add: so_rotate_def rotateEpochBags_def run_simps on_bag_def on_mem_def Let_def)
  have "epochs_ok n ?w"
    by (rule epochs_rotate [OF debra_invD(5) [OF assms(1)] assms(2,3) _ _ lt(1)]) (use True in auto)
  moreover have "p \<in># epoch_items ?m F v j" if "p \<in># epoch_items m' F' v j" for v j p
  proof (cases "(v, j) = (t, ?j)")
    case True then show ?thesis using mset_subset_eqD [OF 1(4)] that by simp
  next
    case False then show ?thesis using 1(5) that by (simp add: clients_kept_def)
  qed
  then have "limbo_ok n ?w (epoch_items m' F')"
    by (intro limbo_rotate [OF debra_invD(6,5) [OF assms(1)] assms(2) _ refl, of e])
      (use assms(3) True 1(5) in \<open>auto simp: clients_kept_def\<close>)
  moreover have "\<forall>v<n. \<forall>j<NUMBER_OF_EPOCH_BAGS. bags m' (Epoch_bag v j) \<noteq> None"
    using debra_invD(4) [OF assms(1)] 1(5) by (fastforce simp: clients_kept_def dom_def)
  ultimately have "debra_inv pool_inv n ?w F'" using 1(2,3) debra_invD(2,3) [OF assms(1)] by (simp add: debra_inv_def)
  then show ?thesis using run by blast
qed

lemma held_not_stored:
  assumes "pool_inv m F" and "p \<in># held m F" and "bags m g = Some B"
  shows "p \<notin># items_in m F g"
proof
  note H = mem_okD [OF pool_heap [OF assms(1)]]
  assume "p \<in># items_in m F g"
  then have "p \<in># stored m F" using in_stored [OF H(2) assms(3)] by simp
  then have "0 < count (stored m F) p" by (simp only: count_greater_zero_iff)
  moreover have "count (mset (live_objs m)) p \<le> 1" using H(4) by (simp add: distinct_count_atmost_1)
  moreover have "0 < count (held m F) p" using assms(2) by (simp only: count_greater_zero_iff)
  then have "0 < count (mset (live_objs m)) p - count (stored m F) p" by (simp only: held_def count_diff)
  ultimately show False by linarith
qed

lemma retire_keeps:
  assumes "debra_inv pool_inv n w F" and "t < n" and "d_pc w t = D_active \<or> d_pc w t = D_idle" and "p \<in> owned w"
    and "localvar_announcedEpoch (threadData (dw w) t) \<noteq> 1"
  shows "\<exists>s' F'. retire t (Some p) (dw w) = (Ok (), s') \<and> debra_inv pool_inv n (w\<lparr>dw := s', owned := owned w - {p},
       since := (\<lambda>u. if u < n \<and> in_op (d_pc w u) then insert p (since w u) else since w u)\<rparr>) F'"
proof -
  let ?d = "threadData (dw w) t" let ?m = "d_mem (dw w)" let ?i = "bag_index ?d" let ?g = "Epoch_bag t ?i"
  note I = debra_invD [OF assms(1)]
  note th = epochs_thread [OF I(5) assms(2)]
  have i: "?i < NUMBER_OF_EPOCH_BAGS" "currentBag ?d = Some ?g" using th assms(3,5) by (auto simp: thread_ok_def split: if_splits)
  obtain B where B: "bags ?m ?g = Some B" using I(4) [OF assms(2) i(1)] by auto
  have p: "p \<in># held ?m F" using assms(4) I(2,3) by simp
  obtain m' F' where 1: "bag_add ?g (Some p) ?m = (Ok (), m')" "mem_ok m' F'" "held m' F' = held ?m F - {#p#}"
    "bags_kept {?g} ?m F m' F'" "items_in m' F' ?g = add_mset p (items_in ?m F ?g)" "\<exists>B'. bags m' ?g = Some B' \<and> bag_pool B' = bag_pool B"
    using pool_heap [OF I(1)] B p by (rule bag_add_held)
  let ?s = "(dw w)\<lparr>d_mem := m'\<rparr>"
  let ?w = "w\<lparr>dw := ?s, owned := owned w - {p}, since := (\<lambda>u. if u < n \<and> in_op (d_pc w u) then insert p (since w u) else since w u)\<rparr>"
  have run: "retire t (Some p) (dw w) = (Ok (), ?s)"
    using i(2) 1(1) by (simp add: retire_def run_simps on_bag_def on_mem_def)
  have inv: "pool_inv m' F'" by (rule client_law [OF I(1) 1(2)]) (use 1(4) in \<open>auto simp: bags_kept_def\<close>)
  have ex: "\<forall>v<n. \<forall>j<NUMBER_OF_EPOCH_BAGS. bags m' (Epoch_bag v j) \<noteq> None"
    using I(4) 1(4) by (fastforce simp: bags_kept_def dom_def)
  have new: "p \<notin># items_in ?m F g" for g
  proof (cases "bags ?m g")
    case None
    then show ?thesis using no_bag_items [OF mem_okD(1) [OF pool_heap [OF I(1)]]] by simp
  qed (rule held_not_stored [OF I(1) p])
  have "epochs_ok n ?w" using I(5) by (simp add: epochs_ok_def)
  moreover have "limbo_ok n ?w (epoch_items m' F')"
    by (rule limbo_retire [OF I(6,5) assms(2,3,5) _ refl]) (use 1(4,5) new in \<open>auto simp: bags_kept_def\<close>)
  moreover have "held m' F' = mset_set (owned w - {p})" using 1(3) I(2,3) assms(4) by (simp add: mset_set_Diff)
  ultimately have "debra_inv pool_inv n ?w F'" using inv ex I(2) by (simp add: debra_inv_def)
  then show ?thesis using run by blast
qed

text \<open>A call of the pool keeps the epoch bags.\<close>

lemma pool_call_keeps:
  assumes "debra_inv pool_inv n w F" and "pool_inv m' F'" and "clients_kept {} (d_mem (dw w)) F m' F'" and "finite own" and "held m' F' = mset_set own"
  shows "debra_inv pool_inv n (w\<lparr>dw := (dw w)\<lparr>d_mem := m'\<rparr>, owned := own\<rparr>) F'"
proof -
  let ?w = "w\<lparr>dw := (dw w)\<lparr>d_mem := m'\<rparr>, owned := own\<rparr>"
  note I = debra_invD [OF assms(1)]
  have it: "epoch_items m' F' = epoch_items (d_mem (dw w)) F" using assms(3) by (simp add: clients_kept_def fun_eq_iff)
  have "limbo_ok n ?w (epoch_items (d_mem (dw w)) F)" by (rule limbo_keep [OF I(6)]) auto
  moreover have "epochs_ok n ?w" using I(5) by (simp add: epochs_ok_def)
  moreover have "\<forall>v<n. \<forall>j<NUMBER_OF_EPOCH_BAGS. bags m' (Epoch_bag v j) \<noteq> None" using I(4) assms(3) by (fastforce simp: clients_kept_def dom_def)
  ultimately show ?thesis using assms(2,4,5) it by (simp add: debra_inv_def)
qed

lemma get_keeps:
  assumes "debra_inv pool_inv n w F" and "t < n"
  shows "\<exists>p s' F'. on_mem (pool_get P t) (dw w) = (Ok (Some p), s') \<and> p \<notin> owned w \<and>
    debra_inv pool_inv n (w\<lparr>dw := s', owned := insert p (owned w)\<rparr>) F'"
proof -
  note I = debra_invD [OF assms(1)]
  obtain p m' F' where 1: "pool_get P t (d_mem (dw w)) = (Ok (Some p), m')" "pool_inv m' F'" "p \<notin># held (d_mem (dw w)) F"
    "held m' F' = add_mset p (held (d_mem (dw w)) F)" "clients_kept {} (d_mem (dw w)) F m' F'"
    using get_law [OF I(1) assms(2)] by auto
  have "debra_inv pool_inv n (w\<lparr>dw := (dw w)\<lparr>d_mem := m'\<rparr>, owned := insert p (owned w)\<rparr>) F'"
    by (rule pool_call_keeps [OF assms(1) 1(2,5)]) (use 1(3,4) I(2,3) in auto)
  then show ?thesis using 1(1,3) I(2,3) by (intro exI [of _ p] exI [of _ "(dw w)\<lparr>d_mem := m'\<rparr>"] exI [of _ F']) (auto simp: on_mem_def)
qed

lemma add_keeps:
  assumes "debra_inv pool_inv n w F" and "t < n" and "p \<in> owned w"
  shows "\<exists>s' F'. on_mem (pool_add P t (Some p)) (dw w) = (Ok (), s') \<and> debra_inv pool_inv n (w\<lparr>dw := s', owned := owned w - {p}\<rparr>) F'"
proof -
  note I = debra_invD [OF assms(1)]
  have p: "p \<in># held (d_mem (dw w)) F" using I(2,3) assms(3) by simp
  obtain m' F' where 1: "pool_add P t (Some p) (d_mem (dw w)) = (Ok (), m')" "pool_inv m' F'"
    "held m' F' = held (d_mem (dw w)) F - {#p#}" "clients_kept {} (d_mem (dw w)) F m' F'"
    using add_law [OF I(1) assms(2) p] by auto
  have "debra_inv pool_inv n (w\<lparr>dw := (dw w)\<lparr>d_mem := m'\<rparr>, owned := owned w - {p}\<rparr>) F'"
    by (rule pool_call_keeps [OF assms(1) 1(2,4)]) (use 1(3) I(2,3) assms(3) in \<open>auto simp: mset_set_Diff\<close>)
  then show ?thesis using 1(1) by (intro exI [of _ "(dw w)\<lparr>d_mem := m'\<rparr>"] exI [of _ F']) (auto simp: on_mem_def)
qed

theorem debra_step_keeps:
  assumes "debra_step P n w w'" and "debra_inv pool_inv n w F"
  shows "\<exists>F'. debra_inv pool_inv n w' F'"
  using assms(1)
proof cases
  case (step_read t e c s')
  then show ?thesis using so_read_keeps [OF assms(2), of t e c s'] by blast
next
  case (step_rotate t e c s')
  then show ?thesis using so_rotate_keeps [OF assms(2), of t e c] by auto
next
  case (step_announce t e s')
  then show ?thesis using so_announce_keeps [OF assms(2), of t e s'] by blast
next
  case (step_scan t e readOnly adv s')
  then show ?thesis using so_scan_keeps [OF assms(2), of t e readOnly adv s'] by blast
next
  case (step_cas t e s')
  then show ?thesis using so_cas_keeps [OF assms(2), of t e s'] by blast
next
  case (step_end t s')
  then show ?thesis using endOp_keeps [OF assms(2), of t s'] by blast
next
  case (step_retire t p s')
  have "localvar_announcedEpoch (threadData (dw w) t) \<noteq> 1"
  proof
    assume "localvar_announcedEpoch (threadData (dw w) t) = 1"
    then have "currentBag (threadData (dw w) t) = None"
      using epochs_thread [OF debra_invD(5) [OF assms(2)] step_retire(2)] by (simp add: thread_ok_def)
    then show False using step_retire(5) by (simp add: retire_def run_simps on_bag_def)
  qed
  then show ?thesis using retire_keeps [OF assms(2), of t p] step_retire by auto
next
  case (step_get t p s')
  then show ?thesis using get_keeps [OF assms(2), of t] by auto
next
  case (step_add t p s')
  then show ?thesis using add_keeps [OF assms(2), of t p] by auto
qed

text \<open>Objects retired since a thread announced are live, and no client holds them.\<close>

theorem since_safe:
  assumes "debra_inv pool_inv n w F" and "p \<in> since w u"
  shows "p \<in> set (live_objs (d_mem (dw w))) \<and> p \<notin> owned w"
proof -
  note I = debra_invD [OF assms(1)]
  obtain t j where tj: "t < n" "j < NUMBER_OF_EPOCH_BAGS" "p \<in># items_in (d_mem (dw w)) F (Epoch_bag t j)"
    using limbo_okD(3) [OF I(6) assms(2)] by auto
  obtain B where B: "bags (d_mem (dw w)) (Epoch_bag t j) = Some B" using I(4) [OF tj(1,2)] by auto
  note H = mem_okD [OF pool_heap [OF I(1)]]
  have "p \<in># stored (d_mem (dw w)) F" using in_stored [OF H(2) B] tj(3) by simp
  then have "p \<in> set (live_objs (d_mem (dw w)))" using H(3) mset_subset_eqD by fastforce
  moreover have "p \<notin># held (d_mem (dw w)) F" using held_not_stored [OF I(1) _ B] tj(3) by blast
  ultimately show ?thesis using I(2,3) by simp
qed


text \<open>The constructor and the registration of the threads.\<close>

lemma init_bags_run:
  assumes "pool_inv (d_mem s) F" and "\<And>j. j < k \<Longrightarrow> bags (d_mem s) (Epoch_bag t j) = None"
  shows "\<exists>s' F'. forE [0..<k] (\<lambda>j. thenE (on_mem (new_blockbag (Epoch_bag t j) t t))
           (upd_thread t (\<lambda>d. d\<lparr>epochbags := (epochbags d)(j := Some (Epoch_bag t j))\<rparr>))) s = (Ok (), s') \<and>
     pool_inv (d_mem s') F' \<and> bags_created k t s F s' F'"
  using assms
proof (induction k)
  case 0
  then show ?case by (intro exI [of _ s] exI [of _ F]) (simp add: run_simps bags_created_def)
next
  case (Suc k)
  let ?f = "\<lambda>j. thenE (on_mem (new_blockbag (Epoch_bag t j) t t))
     (upd_thread t (\<lambda>d. d\<lparr>epochbags := (epochbags d)(j := Some (Epoch_bag t j))\<rparr>))"
  let ?g = "Epoch_bag t k"
  have q: "\<And>j. j < k \<Longrightarrow> bags (d_mem s) (Epoch_bag t j) = None" using Suc.prems(2) by simp
  obtain s1 F1 where 1: "forE [0..<k] ?f s = (Ok (), s1)" "pool_inv (d_mem s1) F1" and c: "bags_created k t s F s1 F1"
    using Suc.IH [OF Suc.prems(1) q] by blast
  have n: "bags (d_mem s1) ?g = None" using c Suc.prems(2) [of k] by (auto simp: bags_created_def)
  obtain m' F' where 2: "new_blockbag ?g t t (d_mem s1) = (Ok (), m')" "mem_ok m' F'" "held m' F' = held (d_mem s1) F1" "items_in m' F' ?g = {#}"
    "\<forall>e. e \<noteq> ?g \<longrightarrow> items_in m' F' e = items_in (d_mem s1) F1 e \<and> bags m' e = bags (d_mem s1) e" "bags m' ?g \<noteq> None"
    "shared_head m' = shared_head (d_mem s1)"
    using pool_heap [OF 1(2)] n by (rule new_bag_held)
  let ?s = "s1\<lparr>d_mem := m', threadData := (threadData s1)(t := (threadData s1 t)\<lparr>epochbags := (epochbags (threadData s1 t))(k := Some ?g)\<rparr>)\<rparr>"
  have "forE [0..<Suc k] ?f s = (Ok (), ?s)" using 1(1) 2(1) by (simp add: forE_append run_simps on_mem_def)
  moreover have "pool_inv (d_mem ?s) F'" using client_law [OF 1(2) 2(2)] 2(5) by simp
  moreover have "bags_created (Suc k) t s F ?s F'"
    unfolding bags_created_def
  proof (intro conjI)
    show "threadData ?s = (threadData s)(t := (threadData s t)\<lparr>epochbags := (\<lambda>j. if j < Suc k then Some (Epoch_bag t j) else epochbags (threadData s t) j)\<rparr>)"
      using c by (auto simp: bags_created_def fun_eq_iff less_Suc_eq intro!: thread_data.equality)
    show "\<forall>j<Suc k. epoch_items (d_mem ?s) F' t j = {#} \<and> bags (d_mem ?s) (Epoch_bag t j) \<noteq> None"
    proof (intro allI impI)
      fix j assume "j < Suc k"
      then show "epoch_items (d_mem ?s) F' t j = {#} \<and> bags (d_mem ?s) (Epoch_bag t j) \<noteq> None"
        using c 2(4,6) spec [OF 2(5), of "Epoch_bag t j"] by (cases "j = k") (simp_all add: bags_created_def)
    qed
    show "\<forall>g. (\<forall>j<Suc k. g \<noteq> Epoch_bag t j) \<longrightarrow> items_in (d_mem ?s) F' g = items_in (d_mem s) F g \<and> bags (d_mem ?s) g = bags (d_mem s) g"
      using c 2(5) by (auto simp: bags_created_def)
  qed (use c 2(3) in \<open>auto simp: bags_created_def\<close>)
  ultimately show ?case by blast
qed

lemma initThread_run:
  assumes "pool_inv (d_mem s) F" and "threadData s t = new_thread_data" and "\<And>j. bags (d_mem s) (Epoch_bag t j) = None"
  shows "\<exists>s' F'. debra_initThread t s = (Ok (), s') \<and> pool_inv (d_mem s') F' \<and> bags_created NUMBER_OF_EPOCH_BAGS t s F s' F'"
proof -
  let ?d = "(threadData s t)\<lparr>currentBag := epochbags (threadData s t) 0, opsSinceRead := 0, checked := 0\<rparr>"
  let ?s = "s\<lparr>threadData := (threadData s)(t := ?d)\<rparr>"
  have "?d = new_thread_data" by (simp add: assms(2)) (simp add: new_thread_data_def)
  then have s: "?s = s" using assms(2) by (metis (no_types, lifting) fun_upd_triv debra.surjective debra.update_convs(2))
  have "debra_initThread t s = forE [0..<NUMBER_OF_EPOCH_BAGS] (\<lambda>j. thenE (on_mem (new_blockbag (Epoch_bag t j) t t))
     (upd_thread t (\<lambda>d. d\<lparr>epochbags := (epochbags d)(j := Some (Epoch_bag t j))\<rparr>))) ?s"
    by (simp add: debra_initThread_def thenE_eval upd_thread_run del: upt_Suc)
  then show ?thesis unfolding s using init_bags_run [OF assms(1), of NUMBER_OF_EPOCH_BAGS t] assms(3) by auto
qed

lemma init_threads_run:
  assumes "pool_inv m F" and "\<And>t j. bags m (Epoch_bag t j) = None"
  shows "\<exists>s' F'. forE [0..<k] debra_initThread (new_debra m) = (Ok (), s') \<and> pool_inv (d_mem s') F' \<and> held (d_mem s') F' = held m F \<and>
     d_epoch s' = 0 \<and> (\<forall>t<k. threadData s' t = new_thread_data\<lparr>epochbags := (\<lambda>j. if j < NUMBER_OF_EPOCH_BAGS then Some (Epoch_bag t j) else None)\<rparr> \<and>
        (\<forall>j<NUMBER_OF_EPOCH_BAGS. epoch_items (d_mem s') F' t j = {#} \<and> bags (d_mem s') (Epoch_bag t j) \<noteq> None)) \<and>
     (\<forall>t\<ge>k. threadData s' t = new_thread_data \<and> (\<forall>j. bags (d_mem s') (Epoch_bag t j) = None))"
proof (induction k)
  case 0
  then show ?case using assms by (intro exI [of _ "new_debra m"] exI [of _ F]) (simp add: run_simps new_debra_def)
next
  case (Suc k)
  then obtain s1 F1 where 1: "forE [0..<k] debra_initThread (new_debra m) = (Ok (), s1)" "pool_inv (d_mem s1) F1" "held (d_mem s1) F1 = held m F"
    "d_epoch s1 = 0"
    and old: "\<forall>t<k. threadData s1 t = new_thread_data\<lparr>epochbags := (\<lambda>j. if j < NUMBER_OF_EPOCH_BAGS then Some (Epoch_bag t j) else None)\<rparr> \<and>
        (\<forall>j<NUMBER_OF_EPOCH_BAGS. epoch_items (d_mem s1) F1 t j = {#} \<and> bags (d_mem s1) (Epoch_bag t j) \<noteq> None)"
    and new: "\<forall>t\<ge>k. threadData s1 t = new_thread_data \<and> (\<forall>j. bags (d_mem s1) (Epoch_bag t j) = None)" by blast
  obtain s2 F2 where 2: "debra_initThread k s1 = (Ok (), s2)" "pool_inv (d_mem s2) F2" "bags_created NUMBER_OF_EPOCH_BAGS k s1 F1 s2 F2"
    using initThread_run [OF 1(2), of k] new by auto
  note c = 2(3) [unfolded bags_created_def]
  have cb: "\<forall>j<NUMBER_OF_EPOCH_BAGS. epoch_items (d_mem s2) F2 k j = {#} \<and> bags (d_mem s2) (Epoch_bag k j) \<noteq> None" using c by blast
  have k: "threadData s1 k = new_thread_data" using new by simp
  have td: "threadData s2 = (threadData s1)(k := new_thread_data\<lparr>epochbags := (\<lambda>j. if j < NUMBER_OF_EPOCH_BAGS then Some (Epoch_bag k j) else None)\<rparr>)"
  proof -
    have "epochbags new_thread_data = (\<lambda>_. None)" by (simp add: new_thread_data_def)
    then show ?thesis using c k by (simp cong: if_cong)
  qed
  have o: "epoch_items (d_mem s2) F2 t j = epoch_items (d_mem s1) F1 t j \<and> bags (d_mem s2) (Epoch_bag t j) = bags (d_mem s1) (Epoch_bag t j)" if "t \<noteq> k" for t j
    using c that by simp
  have "\<forall>t<Suc k. threadData s2 t = new_thread_data\<lparr>epochbags := (\<lambda>j. if j < NUMBER_OF_EPOCH_BAGS then Some (Epoch_bag t j) else None)\<rparr> \<and>
        (\<forall>j<NUMBER_OF_EPOCH_BAGS. epoch_items (d_mem s2) F2 t j = {#} \<and> bags (d_mem s2) (Epoch_bag t j) \<noteq> None)"
    (is "\<forall>t<Suc k. ?Q t")
  proof (intro allI impI)
    fix t assume "t < Suc k"
    then show "?Q t" using old o [of t] cb by (cases "t = k") (simp_all add: td cong: if_cong del: mset_zero_iff mset_zero_iff_right)
  qed
  moreover have "\<forall>t\<ge>Suc k. threadData s2 t = new_thread_data \<and> (\<forall>j. bags (d_mem s2) (Epoch_bag t j) = None)"
    using new o by (simp add: td Suc_le_eq)
  moreover have "forE [0..<Suc k] debra_initThread (new_debra m) = (Ok (), s2)" using 1(1) 2(1) by (simp add: forE_append run_simps)
  ultimately show ?case using 2(2) 1(3,4) c by (intro exI [of _ s2] exI [of _ F2]) auto
qed

theorem debra_init:
  assumes "pool_inv m F" and "\<And>t j. bags m (Epoch_bag t j) = None" and "held m F = {#}"
  shows "\<exists>s F'. forE [0..<n] debra_initThread (new_debra m) = (Ok (), s) \<and> debra_inv pool_inv n (new_world s) F' \<and>
    (\<forall>t<n. currentBag (threadData s t) = None)"
proof -
  obtain s F' where 1: "forE [0..<n] debra_initThread (new_debra m) = (Ok (), s)" "pool_inv (d_mem s) F'" "held (d_mem s) F' = {#}" "d_epoch s = 0"
    and td: "\<forall>t<n. threadData s t = new_thread_data\<lparr>epochbags := (\<lambda>j. if j < NUMBER_OF_EPOCH_BAGS then Some (Epoch_bag t j) else None)\<rparr> \<and>
        (\<forall>j<NUMBER_OF_EPOCH_BAGS. epoch_items (d_mem s) F' t j = {#} \<and> bags (d_mem s) (Epoch_bag t j) \<noteq> None)"
    using init_threads_run [of m F n] assms by auto
  have "thread_ok n 0 t D_idle (threadData s t)" if "t < n" for t
    using td that by (simp add: thread_ok_def new_thread_data_def epoch_bits NUMBER_OF_EPOCH_BAGS_def)
  then have "epochs_ok n (new_world s)" using 1(4) by (simp add: epochs_ok_def new_world_def new_thread_data_def)
  moreover have "limbo_ok n (new_world s) (epoch_items (d_mem s) F')" using td by (simp add: limbo_ok_def new_world_def)
  ultimately have "debra_inv pool_inv n (new_world s) F'" using 1(2,3) td by (simp add: debra_inv_def) (simp add: new_world_def)
  moreover have "\<forall>t<n. currentBag (threadData s t) = None" using td by (simp add: new_thread_data_def)
  ultimately show ?thesis using 1(1) by blast
qed

theorem debra_reach:
  assumes "(debra_step P n)\<^sup>*\<^sup>* w w'" and "debra_inv pool_inv n w F"
  shows "\<exists>F'. debra_inv pool_inv n w' F'"
  using assms(1) by induction (use assms(2) debra_step_keeps in blast)+

end

end
