(* ===== verification/DebraRun.thy ===== *)
theory DebraRun
  imports DebraSafe
begin

text \<open>Runs of the reclaimer: a thread can always enter its operation, and retire objects there.\<close>

lemma star_step: "(debra_step P n)\<^sup>*\<^sup>* w a \<Longrightarrow> debra_step P n a b \<Longrightarrow> (debra_step P n)\<^sup>*\<^sup>* w b"
  by (rule rtranclp.rtrancl_into_rtrancl)

context record_pool
begin

lemma enter_run:
  assumes "debra_inv pool_inv n w F" and "t < n" and "d_pc w t = D_idle"
  shows "\<exists>w' F'. (debra_step P n)\<^sup>*\<^sup>* w w' \<and> debra_inv pool_inv n w' F' \<and> d_pc w' = (d_pc w)(t := D_active) \<and> owned w' = owned w \<and>
    (\<forall>u. u \<noteq> t \<longrightarrow> since w' u = since w u)"
proof -
  obtain e c s1 where 1: "so_read t (dw w) = (Ok (e, c), s1)" by (simp add: so_read_eq)
  define w1 where w1: "w1 = w\<lparr>dw := s1, d_pc := (d_pc w)(t := D_got e c)\<rparr>"
  have r1: "debra_step P n w w1" unfolding w1 by (rule step_read [OF assms(2,3) 1])
  have i1: "debra_inv pool_inv n w1 F" unfolding w1 by (rule so_read_keeps [OF assms 1])
  have pc1: "d_pc w1 t = D_got e c" by (simp add: w1)
  obtain s2 F2 where 2: "so_rotate P t c (dw w1) = (Ok (), s2)" "debra_inv pool_inv n (w1\<lparr>dw := s2, d_pc := (d_pc w1)(t := D_rot e)\<rparr>) F2"
    using so_rotate_keeps [OF i1 assms(2) pc1] by blast
  define w2 where w2: "w2 = w1\<lparr>dw := s2, d_pc := (d_pc w1)(t := D_rot e)\<rparr>"
  have r2: "debra_step P n w1 w2" unfolding w2 by (rule step_rotate [OF assms(2) pc1 2(1)])
  have i2: "debra_inv pool_inv n w2 F2" unfolding w2 by (rule 2(2))
  have pc2: "d_pc w2 t = D_rot e" by (simp add: w2)
  obtain s3 where 3: "so_announce t e (dw w2) = (Ok (), s3)" by (simp add: so_announce_def run_simps)
  define w3 where w3: "w3 = w2\<lparr>dw := s3, d_pc := (d_pc w2)(t := D_ann e), since := (since w2)(t := {}), ann_at := (ann_at w2)(t := d_epoch (dw w2))\<rparr>"
  have r3: "debra_step P n w2 w3" unfolding w3 by (rule step_announce [OF assms(2) pc2 3])
  have i3: "debra_inv pool_inv n w3 F2" unfolding w3 by (rule so_announce_keeps [OF i2 assms(2) pc2 3])
  have pc3: "d_pc w3 t = D_ann e" by (simp add: w3)
  have 4: "so_scan n t e True (dw w3) = (Ok False, dw w3)" by (simp add: so_scan_def run_simps)
  define w4 where w4: "w4 = w3\<lparr>dw := dw w3, d_pc := (d_pc w3)(t := if False then D_cas e else D_active)\<rparr>"
  have r4: "debra_step P n w3 w4" unfolding w4 by (rule step_scan [OF assms(2) pc3 4])
  have i4: "debra_inv pool_inv n w4 F2" unfolding w4 by (rule so_scan_keeps [OF i3 assms(2) pc3 4])
  have "(debra_step P n)\<^sup>*\<^sup>* w w4"
    by (rule star_step [OF star_step [OF star_step [OF star_step [OF rtranclp.rtrancl_refl r1] r2] r3] r4])
  moreover have "d_pc w4 = (d_pc w)(t := D_active)" "owned w4 = owned w" "\<forall>u. u \<noteq> t \<longrightarrow> since w4 u = since w u"
    by (simp_all add: w4 w3 w2 w1)
  ultimately show ?thesis using i4 by blast
qed

text \<open>A run in which thread \<open>v\<close> retires an object while \<open>u\<close> is inside an operation.\<close>

lemma retire_run:
  assumes "debra_inv pool_inv n w F" and "u < n" and "v < n" and "u \<noteq> v" and "d_pc w u = D_idle" and "d_pc w v = D_idle"
  shows "\<exists>w' p. (debra_step P n)\<^sup>*\<^sup>* w w' \<and> p \<in> since w' u \<and> d_pc w' u = D_active"
proof -
  obtain w1 F1 where 1: "(debra_step P n)\<^sup>*\<^sup>* w w1" "debra_inv pool_inv n w1 F1" "d_pc w1 = (d_pc w)(u := D_active)"
    using enter_run [OF assms(1,2,5)] by blast
  have "d_pc w1 v = D_idle" using 1(3) assms(4,6) by simp
  then obtain w2 F2 where 2: "(debra_step P n)\<^sup>*\<^sup>* w1 w2" "debra_inv pool_inv n w2 F2" "d_pc w2 = (d_pc w1)(v := D_active)"
    using enter_run [OF 1(2) assms(3)] by blast
  obtain p s3 F3 where 3: "on_mem (pool_get P v) (dw w2) = (Ok (Some p), s3)" "debra_inv pool_inv n (w2\<lparr>dw := s3, owned := insert p (owned w2)\<rparr>) F3"
    using get_keeps [OF 2(2) assms(3)] by blast
  define w3 where w3: "w3 = w2\<lparr>dw := s3, owned := insert p (owned w2)\<rparr>"
  have r3: "debra_step P n w2 w3" unfolding w3 by (rule step_get [OF assms(3) 3(1)])
  have i3: "debra_inv pool_inv n w3 F3" unfolding w3 by (rule 3(2))
  have pc: "d_pc w3 v = D_active \<or> d_pc w3 v = D_idle" "p \<in> owned w3" using 2(3) by (simp_all add: w3)
  have l: "localvar_announcedEpoch (threadData (dw w3) v) \<noteq> 1"
    using epochs_thread [OF debra_invD(5) [OF i3] assms(3)] 2(3) by (auto simp: thread_ok_def w3 split: if_splits)
  obtain s4 where 4: "retire v (Some p) (dw w3) = (Ok (), s4)" using retire_keeps [OF i3 assms(3) pc l] by blast
  define w4 where w4: "w4 = w3\<lparr>dw := s4, owned := owned w3 - {p}, since := (\<lambda>u. if u < n \<and> in_op (d_pc w3 u) then insert p (since w3 u) else since w3 u)\<rparr>"
  have r4: "debra_step P n w3 w4" unfolding w4 by (rule step_retire [OF assms(3) pc 4])
  have "(debra_step P n)\<^sup>*\<^sup>* w w4" by (rule star_step [OF star_step [OF rtranclp_trans [OF 1(1) 2(1)] r3] r4])
  moreover have "d_pc w4 u = D_active" using 1(3) 2(3) assms(4) by (simp add: w4 w3)
  moreover have "p \<in> since w4 u" using calculation(2) assms(2) by (simp add: w4)
  ultimately show ?thesis by blast
qed

end

end
