(* ===== verification/RecordMgr.thy ===== *)
theory RecordMgr
  imports DebraRun
begin

text \<open>
  The record manager, \<^verbatim>\<open>record_manager.h\<close>, \<^verbatim>\<open>record_manager_single_type.h\<close> and the class
  \<open>RecordMgr\<close> of \<^verbatim>\<open>nodes/record_mgr.h\<close> as it is built with \<open>DEBRA\<close>: one record type, the
  reclaimer \<open>reclaimer_debra\<close>, the allocator \<open>allocator_new\<close>; the program uses \<open>pool_none\<close>. The
  signal handling of \<open>RecoveryMgr\<close> is not modelled, and a thread registers once, as in
  \<^verbatim>\<open>main.cpp\<close>.
\<close>

section \<open>Operations\<close>

record rec_mgr =
  rm_init :: "nat \<Rightarrow> bool"
  rm_debra :: debra

definition new_pool_none :: "nat \<Rightarrow> (mem, unit) cmd" where
  "new_pool_none numProcesses = returnE ()"

definition new_record_manager :: "(mem, unit) cmd \<Rightarrow> unit outcome \<times> rec_mgr" where
  "new_record_manager new_pool =
     (case new_pool empty_mem of (r, m) \<Rightarrow> (r, \<lparr>rm_init = (\<lambda>_. False), rm_debra = new_debra m\<rparr>))"

text \<open>
  \<open>record_manager_single_type\<close>. The reclaimer does not support crash recovery, so that the
  assertions of \<open>retire\<close>, \<open>allocate\<close> and \<open>deallocate\<close> hold at once.
\<close>

definition supportsCrashRecovery :: bool where
  "supportsCrashRecovery = False"

definition quiescenceIsPerRecordType :: bool where
  "quiescenceIsPerRecordType = False"

definition crash_guard :: "nat \<Rightarrow> (debra, unit) cmd" where
  "crash_guard tid = bindE (isQuiescent tid) (\<lambda>q. assertE (\<not> supportsCrashRecovery \<or> q))"

definition st_initThread :: "nat \<Rightarrow> (debra, unit) cmd" where
  "st_initThread tid = debra_initThread tid"

definition st_deinitThread :: "nat \<Rightarrow> (debra, unit) cmd" where
  "st_deinitThread tid = returnE ()"

definition st_isQuiescent :: "nat \<Rightarrow> (debra, bool) cmd" where
  "st_isQuiescent tid = isQuiescent tid"

definition st_endOp :: "nat \<Rightarrow> (debra, unit) cmd" where
  "st_endOp tid = endOp tid"

definition st_startOp :: "pool_ops \<Rightarrow> nat \<Rightarrow> nat \<Rightarrow> bool \<Rightarrow> (debra, unit) cmd" where
  "st_startOp P numProcesses tid readOnly = thenE (startOp P numProcesses tid readOnly) (returnE ())"

definition st_retire :: "nat \<Rightarrow> obj option \<Rightarrow> (debra, unit) cmd" where
  "st_retire tid p = thenE (crash_guard tid) (retire tid p)"

definition st_allocate :: "pool_ops \<Rightarrow> nat \<Rightarrow> (debra, obj option) cmd" where
  "st_allocate P tid = thenE (crash_guard tid) (on_mem (pool_get P tid))"

definition st_deallocate :: "pool_ops \<Rightarrow> nat \<Rightarrow> obj option \<Rightarrow> (debra, unit) cmd" where
  "st_deallocate P tid p = thenE (crash_guard tid) (on_mem (pool_add P tid p))"

text \<open>\<open>RecordManagerSet\<close> with one record type; \<open>get\<close> finds its manager.\<close>

definition set_registerThread :: "nat \<Rightarrow> (debra, unit) cmd" where
  "set_registerThread tid = thenE (st_initThread tid) (returnE ())"

definition set_unregisterThread :: "nat \<Rightarrow> (debra, unit) cmd" where
  "set_unregisterThread tid = thenE (st_deinitThread tid) (returnE ())"

definition set_endOp :: "nat \<Rightarrow> (debra, unit) cmd" where
  "set_endOp tid = thenE (st_endOp tid) (returnE ())"

text \<open>
  With \<open>callForEach\<close> the manager would be called with a null array of reclaimers, which
  \<open>reclaimer_debra\<close> dereferences when it rotates; its \<open>quiescenceIsPerRecordType\<close> excludes it.
\<close>

definition set_startOp :: "pool_ops \<Rightarrow> nat \<Rightarrow> nat \<Rightarrow> bool \<Rightarrow> bool \<Rightarrow> (debra, unit) cmd" where
  "set_startOp P numProcesses tid callForEach readOnly =
     (if callForEach then throwE NullPointer else st_startOp P numProcesses tid readOnly)"

text \<open>\<open>record_manager\<close>\<close>

definition on_debra :: "(debra, 'a) cmd \<Rightarrow> (rec_mgr, 'a) cmd" where
  "on_debra c = (\<lambda>s. case c (rm_debra s) of (r, d) \<Rightarrow> (r, s\<lparr>rm_debra := d\<rparr>))"

definition rm_initThread :: "nat \<Rightarrow> (rec_mgr, unit) cmd" where
  "rm_initThread tid =
     bindE (getsE (\<lambda>s. rm_init s tid)) (\<lambda>b.
       if b then returnE ()
       else thenE (modifyE (\<lambda>s. s\<lparr>rm_init := (rm_init s)(tid := \<not> rm_init s tid)\<rparr>)) (on_debra (set_registerThread tid)))"

definition rm_deinitThread :: "nat \<Rightarrow> (rec_mgr, unit) cmd" where
  "rm_deinitThread tid =
     bindE (getsE (\<lambda>s. rm_init s tid)) (\<lambda>b.
       if \<not> b then returnE ()
       else thenE (modifyE (\<lambda>s. s\<lparr>rm_init := (rm_init s)(tid := \<not> rm_init s tid)\<rparr>)) (on_debra (set_unregisterThread tid)))"

definition rm_isQuiescent :: "nat \<Rightarrow> (rec_mgr, bool) cmd" where
  "rm_isQuiescent tid = on_debra (st_isQuiescent tid)"

definition rm_endOp :: "nat \<Rightarrow> (rec_mgr, unit) cmd" where
  "rm_endOp tid = (if quiescenceIsPerRecordType then on_debra (set_endOp tid) else on_debra (st_endOp tid))"

definition rm_startOp :: "pool_ops \<Rightarrow> nat \<Rightarrow> nat \<Rightarrow> bool \<Rightarrow> (rec_mgr, unit) cmd" where
  "rm_startOp P numProcesses tid readOnly = on_debra (set_startOp P numProcesses tid quiescenceIsPerRecordType readOnly)"

definition rm_retire :: "nat \<Rightarrow> obj option \<Rightarrow> (rec_mgr, unit) cmd" where
  "rm_retire tid p = thenE (on_debra (crash_guard tid)) (on_debra (st_retire tid p))"

definition rm_allocate :: "pool_ops \<Rightarrow> nat \<Rightarrow> (rec_mgr, obj option) cmd" where
  "rm_allocate P tid = thenE (on_debra (crash_guard tid)) (on_debra (st_allocate P tid))"

definition rm_deallocate :: "pool_ops \<Rightarrow> nat \<Rightarrow> obj option \<Rightarrow> (rec_mgr, unit) cmd" where
  "rm_deallocate P tid p = thenE (on_debra (crash_guard tid)) (on_debra (st_deallocate P tid p))"

text \<open>The guard: its destructor runs when the body returns and when it throws.\<close>

definition with_guard :: "pool_ops \<Rightarrow> nat \<Rightarrow> nat \<Rightarrow> (rec_mgr, 'a) cmd \<Rightarrow> (rec_mgr, 'a) cmd" where
  "with_guard P numProcesses tid body =
     thenE (rm_startOp P numProcesses tid False)
       (\<lambda>s. case body s of (r, s1) \<Rightarrow> (case rm_endOp tid s1 of (Ok _, s2) \<Rightarrow> (r, s2) | (Throw e, s2) \<Rightarrow> (Throw e, s2)))"

text \<open>\<open>RecordMgr\<close>: the manager of the program, and one object per thread.\<close>

definition make_record_mgr :: "nat \<Rightarrow> unit outcome \<times> rec_mgr" where
  "make_record_mgr max_threads = new_record_manager (new_pool_none max_threads)"

definition register_threads :: "nat \<Rightarrow> (rec_mgr, unit) cmd" where
  "register_threads k = forE [0..<k] rm_initThread"

lemma crash_guard_run [run_simps]: "crash_guard t s = (Ok (), s)"
  by (simp add: crash_guard_def isQuiescent_def supportsCrashRecovery_def run_simps)

lemma set_registerThread_eq: "set_registerThread t s = debra_initThread t s"
  by (auto simp: set_registerThread_def st_initThread_def run_simps split: prod.splits outcome.splits)

section \<open>Start\<close>

lemma new_shared_pool_ok:
  "\<exists>m F. new_shared_pool n empty_mem = (Ok (), m) \<and> shared_pool_inv n m F \<and> held m F = {#} \<and> (\<forall>t j. bags m (Epoch_bag t j) = None)"
proof -
  have "\<exists>m F. forE [0..<k] (\<lambda>tid. new_blockbag (Free_bag tid) tid tid) empty_mem = (Ok (), m) \<and> mem_ok m F \<and> held m F = {#} \<and>
      (\<forall>t. bags m (Free_bag t) \<noteq> None \<longleftrightarrow> t < k) \<and> (\<forall>t j. bags m (Epoch_bag t j) = None) \<and> shared_head m = None" for k
  proof (induction k)
    case 0
    show ?case using empty_mem_ok by (intro exI [of _ empty_mem] exI [of _ "\<lambda>_. []"]) (simp add: run_simps, simp add: empty_mem_def)
  next
    case (Suc k)
    then obtain m F where 1: "forE [0..<k] (\<lambda>tid. new_blockbag (Free_bag tid) tid tid) empty_mem = (Ok (), m)" "mem_ok m F" "held m F = {#}"
      "\<forall>t. bags m (Free_bag t) \<noteq> None \<longleftrightarrow> t < k" "\<forall>t j. bags m (Epoch_bag t j) = None" "shared_head m = None" by auto
    have n: "bags m (Free_bag k) = None" using 1(4) by auto
    obtain m' F' where 2: "new_blockbag (Free_bag k) k k m = (Ok (), m')" "mem_ok m' F'" "held m' F' = held m F" "items_in m' F' (Free_bag k) = {#}"
      "\<forall>e. e \<noteq> Free_bag k \<longrightarrow> items_in m' F' e = items_in m F e \<and> bags m' e = bags m e" "bags m' (Free_bag k) \<noteq> None"
      "shared_head m' = shared_head m"
      using 1(2) n by (rule new_bag_held)
    have "\<forall>t. bags m' (Free_bag t) \<noteq> None \<longleftrightarrow> t < Suc k" using 1(4) 2(5,6) by (metis bag_id.inject(1) less_Suc_eq)
    moreover have "forE [0..<Suc k] (\<lambda>tid. new_blockbag (Free_bag tid) tid tid) empty_mem = (Ok (), m')"
      using 1(1) 2(1) by (simp add: forE_append run_simps)
    ultimately show ?case using 2(2,3,5,7) 1(3,5,6) by (intro exI [of _ m'] exI [of _ F']) auto
  qed
  then obtain m F where 1: "forE [0..<n] (\<lambda>tid. new_blockbag (Free_bag tid) tid tid) empty_mem = (Ok (), m)" "mem_ok m F" "held m F = {#}"
    "\<forall>t. bags m (Free_bag t) \<noteq> None \<longleftrightarrow> t < n" "\<forall>t j. bags m (Epoch_bag t j) = None" "shared_head m = None" by blast
  let ?m = "m\<lparr>shared_tag := 0\<rparr>"
  have "m\<lparr>shared_head := None, shared_tag := 0\<rparr> = ?m" using 1(6) by simp
  then have "new_shared_pool n empty_mem = (Ok (), ?m)" using 1(1) by (simp add: new_shared_pool_def thenE_eval modifyE_apply)
  moreover have "shared_pool_inv n ?m F" using 1(2,4) by (auto simp: shared_pool_inv_def mem_ok_tag)
  moreover have "held ?m F = {#}" using 1(3) by (simp add: mem_ok_tag)
  ultimately show ?thesis using 1(5) by (intro exI [of _ ?m] exI [of _ F]) auto
qed

text \<open>Registering the threads is the registration in the reclaimer.\<close>

lemma register_threads_run:
  assumes "\<And>t. t < k \<Longrightarrow> \<not> rm_init s t" and "forE [0..<k] debra_initThread (rm_debra s) = (Ok (), d)"
  shows "register_threads k s = (Ok (), s\<lparr>rm_init := (\<lambda>t. t < k \<or> rm_init s t), rm_debra := d\<rparr>)"
  using assms
proof (induction k arbitrary: d)
  case 0
  then show ?case by (simp add: register_threads_def run_simps)
next
  case (Suc k)
  obtain d1 where 1: "forE [0..<k] debra_initThread (rm_debra s) = (Ok (), d1)" "debra_initThread k d1 = (Ok (), d)"
    using Suc.prems(2) by (auto simp: forE_append run_simps split: prod.splits outcome.splits)
  have "register_threads k s = (Ok (), s\<lparr>rm_init := (\<lambda>t. t < k \<or> rm_init s t), rm_debra := d1\<rparr>)" using Suc.IH [OF _ 1(1)] Suc.prems(1) by simp
  moreover have "(\<lambda>t. t < Suc k \<or> rm_init s t) = (\<lambda>t. t < k \<or> rm_init s t)(k := True)" by (auto simp: fun_eq_iff less_Suc_eq)
  ultimately show ?case using Suc.prems(1) [of k] 1(2)
    by (simp add: register_threads_def forE_append rm_initThread_def run_simps on_debra_def set_registerThread_eq)
qed

text \<open>The manager with its threads registered satisfies the invariant of the reclaimer.\<close>

lemma start_none: "\<exists>s F. register_threads n (snd (make_record_mgr n)) = (Ok (), s) \<and> debra_inv mem_ok n (new_world (rm_debra s)) F \<and>
    (\<forall>t<n. currentBag (threadData (rm_debra s) t) = None)"
proof -
  have b: "bags empty_mem (Epoch_bag t j) = None" for t j by (simp add: empty_mem_def)
  obtain d F where d: "forE [0..<n] debra_initThread (new_debra empty_mem) = (Ok (), d)" "debra_inv mem_ok n (new_world d) F" "\<forall>t<n. currentBag (threadData d t) = None"
    using none.debra_init [OF empty_mem_ok(1) b empty_mem_ok(2)] by blast
  have m: "snd (make_record_mgr n) = \<lparr>rm_init = (\<lambda>_. False), rm_debra = new_debra empty_mem\<rparr>"
    by (simp add: make_record_mgr_def new_record_manager_def new_pool_none_def run_simps)
  have "register_threads n (snd (make_record_mgr n)) = (Ok (), \<lparr>rm_init = (\<lambda>_. False), rm_debra = new_debra empty_mem\<rparr>\<lparr>rm_init := (\<lambda>t. t < n), rm_debra := d\<rparr>)"
    unfolding m by (subst register_threads_run [OF _, of _ _ d]) (use d(1) in simp_all)
  then show ?thesis using d(2,3) by auto
qed

lemma start_shared: "\<exists>s F. register_threads n (snd (new_record_manager (new_shared_pool n))) = (Ok (), s) \<and>
   debra_inv (shared_pool_inv n) n (new_world (rm_debra s)) F"
proof -
  obtain m0 F0 where 0: "new_shared_pool n empty_mem = (Ok (), m0)" "shared_pool_inv n m0 F0" "held m0 F0 = {#}" "\<forall>t j. bags m0 (Epoch_bag t j) = None"
    using new_shared_pool_ok by blast
  obtain d F where d: "forE [0..<n] debra_initThread (new_debra m0) = (Ok (), d)" "debra_inv (shared_pool_inv n) n (new_world d) F"
    using shared.debra_init [OF 0(2) _ 0(3)] 0(4) by auto
  have m: "snd (new_record_manager (new_shared_pool n)) = \<lparr>rm_init = (\<lambda>_. False), rm_debra = new_debra m0\<rparr>"
    by (simp add: new_record_manager_def 0(1))
  have "register_threads n (snd (new_record_manager (new_shared_pool n))) = (Ok (), \<lparr>rm_init = (\<lambda>_. False), rm_debra = new_debra m0\<rparr>\<lparr>rm_init := (\<lambda>t. t < n), rm_debra := d\<rparr>)"
    unfolding m by (subst register_threads_run [OF _, of _ _ d]) (use d(1) in simp_all)
  then show ?thesis using d(2) by auto
qed


section \<open>Safety of reclamation\<close>

lemma none_reach:
  assumes "register_threads n (snd (make_record_mgr n)) = (Ok (), s)" and "(debra_step pool_none n)\<^sup>*\<^sup>* (new_world (rm_debra s)) w"
  obtains F where "debra_inv mem_ok n w F"
  using start_none [of n] assms none.debra_reach by fastforce

lemma shared_reach:
  assumes "register_threads n (snd (new_record_manager (new_shared_pool n))) = (Ok (), s)"
    and "(debra_step pool_perthread_and_shared n)\<^sup>*\<^sup>* (new_world (rm_debra s)) w"
  obtains F where "debra_inv (shared_pool_inv n) n w F"
  using start_shared [of n] assms shared.debra_reach by fastforce

text \<open>
  (C22) No early reclamation. In every interleaving of the threads of the program, with their
  \<open>startOp\<close> cut at each atomic access, an object that was retired while thread \<open>u\<close> was inside an
  operation is neither deleted nor handed out again before \<open>u\<close> ends that operation.
\<close>

theorem debra_safe:
  assumes "register_threads n (snd (make_record_mgr n)) = (Ok (), s)" and "(debra_step pool_none n)\<^sup>*\<^sup>* (new_world (rm_debra s)) w"
    and "p \<in> since w u"
  shows "p \<in> set (live_objs (d_mem (dw w))) \<and> p \<notin> owned w"
  using none_reach [OF assms(1,2)] none.since_safe assms(3) by metis

theorem debra_safe_witness:
  "\<exists>s w p. register_threads 2 (snd (make_record_mgr 2)) = (Ok (), s) \<and> (debra_step pool_none 2)\<^sup>*\<^sup>* (new_world (rm_debra s)) w \<and>
     p \<in> since w 0 \<and> p \<in> set (live_objs (d_mem (dw w))) \<and> p \<notin> owned w"
proof -
  obtain s F where s: "register_threads 2 (snd (make_record_mgr 2)) = (Ok (), s)" "debra_inv mem_ok 2 (new_world (rm_debra s)) F"
    using start_none by blast
  obtain w p where w: "(debra_step pool_none 2)\<^sup>*\<^sup>* (new_world (rm_debra s)) w" "p \<in> since w 0"
    using none.retire_run [OF s(2), of 0 1] by (auto simp: new_world_def)
  show ?thesis using debra_safe [OF s(1) w] s(1) w by blast
qed

text \<open>
  (C23) The same with \<open>pool_perthread_and_shared\<close>, which recycles the objects: what \<open>allocate\<close>
  hands out was not retired during an operation that is still running.
\<close>

theorem debra_recycles_safely:
  assumes "register_threads n (snd (new_record_manager (new_shared_pool n))) = (Ok (), s)"
    and "(debra_step pool_perthread_and_shared n)\<^sup>*\<^sup>* (new_world (rm_debra s)) w"
    and "t < n" and "on_mem (pool_get pool_perthread_and_shared t) (dw w) = (Ok (Some p), s')"
  shows "p \<in> set (live_objs (d_mem s')) \<and> p \<notin> owned w \<and> p \<notin> since w u"
proof -
  obtain F where I: "debra_inv (shared_pool_inv n) n w F" using shared_reach [OF assms(1,2)] .
  obtain F' where I': "p \<notin> owned w" "debra_inv (shared_pool_inv n) n (w\<lparr>dw := s', owned := insert p (owned w)\<rparr>) F'"
    using shared.get_keeps [OF I assms(3)] assms(4) by auto
  have "p \<in># held (d_mem s') F'" using debra_invD(2,3) [OF I'(2)] by simp
  then have "p \<in> set (live_objs (d_mem s'))" by (auto simp: held_def dest: in_diffD)
  moreover have "p \<notin> since w u" using shared.since_safe [OF I'(2), of p u] by auto
  ultimately show ?thesis using I'(1) by simp
qed

theorem debra_recycles_safely_witness:
  "\<exists>s w p s'. register_threads 2 (snd (new_record_manager (new_shared_pool 2))) = (Ok (), s) \<and>
     (debra_step pool_perthread_and_shared 2)\<^sup>*\<^sup>* (new_world (rm_debra s)) w \<and> since w 0 \<noteq> {} \<and>
     on_mem (pool_get pool_perthread_and_shared 1) (dw w) = (Ok (Some p), s') \<and> p \<notin> since w 0"
proof -
  obtain s F where s: "register_threads 2 (snd (new_record_manager (new_shared_pool 2))) = (Ok (), s)" "debra_inv (shared_pool_inv 2) 2 (new_world (rm_debra s)) F"
    using start_shared by blast
  obtain w q where w: "(debra_step pool_perthread_and_shared 2)\<^sup>*\<^sup>* (new_world (rm_debra s)) w" "q \<in> since w 0"
    using shared.retire_run [OF s(2), of 0 1] by (auto simp: new_world_def)
  obtain F' where "debra_inv (shared_pool_inv 2) 2 w F'" using shared_reach [OF s(1) w(1)] .
  then obtain p s' where g: "on_mem (pool_get pool_perthread_and_shared 1) (dw w) = (Ok (Some p), s')"
    using shared.get_keeps [of 2 w F' 1] by auto
  have "p \<notin> since w 0" using debra_recycles_safely [OF s(1) w(1) _ g] by simp
  then show ?thesis using s(1) w g by blast
qed

text \<open>
  (C24) The epoch of the reclaimer never runs more than one step of two ahead of a thread inside
  an operation, and never goes below the epoch at which the thread announced itself.
\<close>

theorem debra_epoch_bound:
  assumes "register_threads n (snd (make_record_mgr n)) = (Ok (), s)" and "(debra_step pool_none n)\<^sup>*\<^sup>* (new_world (rm_debra s)) w"
    and "u < n" and "in_op (d_pc w u)"
  shows "announcedEpoch (threadData (dw w) u) \<le> ann_at w u \<and> ann_at w u \<le> d_epoch (dw w) \<and> d_epoch (dw w) \<le> ann_at w u + EPOCH_INCREMENT"
proof -
  obtain F where I: "debra_inv mem_ok n w F" using none_reach [OF assms(1,2)] .
  show ?thesis using epochs_bound [OF debra_invD(5) [OF I] assms(3,4)] by (simp add: EPOCH_INCREMENT_def)
qed

theorem debra_epoch_bound_witness:
  "\<exists>s w. register_threads 2 (snd (make_record_mgr 2)) = (Ok (), s) \<and> (debra_step pool_none 2)\<^sup>*\<^sup>* (new_world (rm_debra s)) w \<and>
     in_op (d_pc w 0) \<and> d_epoch (dw w) \<le> ann_at w 0 + EPOCH_INCREMENT"
proof -
  obtain s F where s: "register_threads 2 (snd (make_record_mgr 2)) = (Ok (), s)" "debra_inv mem_ok 2 (new_world (rm_debra s)) F"
    using start_none by blast
  obtain w p where w: "(debra_step pool_none 2)\<^sup>*\<^sup>* (new_world (rm_debra s)) w" "d_pc w 0 = D_active"
    using none.retire_run [OF s(2), of 0 1] by (auto simp: new_world_def)
  then have "in_op (d_pc w 0)" by simp
  with debra_epoch_bound [OF s(1) w(1), of 0] s(1) w(1) show ?thesis by force
qed



text \<open>
  (C26) A thread that registers and retires an object before its first \<open>startOp\<close> dereferences a
  null pointer: \<open>initThread\<close> stores \<open>epochbags[0]\<close> in \<open>currentBag\<close> before it creates the bags.
\<close>

theorem retire_before_startOp:
  "t < n \<Longrightarrow> \<exists>s. register_threads n (snd (make_record_mgr n)) = (Ok (), s) \<and> fst (rm_retire t p s) = Throw NullPointer"
proof -
  assume t: "t < n"
  then obtain s where s: "register_threads n (snd (make_record_mgr n)) = (Ok (), s)" "currentBag (threadData (rm_debra s) t) = None"
    using start_none by blast
  then have "fst (rm_retire t p s) = Throw NullPointer" by (simp add: rm_retire_def st_retire_def on_debra_def retire_def on_bag_def run_simps)
  then show ?thesis using s(1) by blast
qed

theorem retire_before_startOp_witness:
  "\<exists>s. register_threads 1 (snd (make_record_mgr 1)) = (Ok (), s) \<and> fst (rm_retire 0 (Some 7) s) = Throw NullPointer"
  using retire_before_startOp [of 0 1] by simp

end
