(* ===== verification/NodeBuilds.thy ===== *)
theory NodeBuilds
  imports RecordMgr TxState
begin

text \<open>
  The nodes of the builds \<open>tds_unsafe\<close> and \<open>tds_debra\<close>: the classes \<open>LNodeWrapper\<close> of
  \<^verbatim>\<open>nodes/LNodeWrapper.h\<close> and \<open>RecordMgr\<close> of \<^verbatim>\<open>nodes/record_mgr.h\<close> as \<open>UNSAFE\<close> and \<open>DEBRA\<close>
  select them. A wrapper is a raw pointer and a shared flag. The default build is in TxState.
\<close>

section \<open>Wrappers\<close>

text \<open>
  The process: the record manager with the memory it allocates from, the nodes by address, and
  the flags that the wrappers share.
\<close>

record node_world =
  nw_mgr :: rec_mgr
  nw_nodes :: "obj \<rightharpoonup> lnode"
  nw_flags :: "nat \<Rightarrow> bool"
  nw_next_flag :: nat

record wrapper =
  wr_node :: "obj option"
  wr_flag :: nat

text \<open>\<open>std::make_shared<bool>(false)\<close>\<close>

definition make_flag :: "(node_world, nat) cmd" where
  "make_flag = (\<lambda>s. (Ok (nw_next_flag s), s\<lparr>nw_flags := (nw_flags s)(nw_next_flag s := False), nw_next_flag := Suc (nw_next_flag s)\<rparr>))"

definition on_mgr :: "(rec_mgr, 'a) cmd \<Rightarrow> (node_world, 'a) cmd" where
  "on_mgr c = (\<lambda>s. case c (nw_mgr s) of (r, g) \<Rightarrow> (r, s\<lparr>nw_mgr := g\<rparr>))"

text \<open>Access through \<open>operator->\<close>.\<close>

definition arrow :: "wrapper \<Rightarrow> (lnode \<Rightarrow> lnode) \<Rightarrow> (node_world, unit) cmd" where
  "arrow x f = (\<lambda>s. case wr_node x of
      None \<Rightarrow> (Throw NullPointer, s)
    | Some p \<Rightarrow> (case nw_nodes s p of
          None \<Rightarrow> (Throw NullPointer, s)
        | Some nd \<Rightarrow> (Ok (), s\<lparr>nw_nodes := (nw_nodes s)(p \<mapsto> f nd)\<rparr>)))"

text \<open>A constructor runs on new memory.\<close>

definition construct :: "obj \<Rightarrow> lnode \<Rightarrow> (node_world, unit) cmd" where
  "construct p nd = modifyE (\<lambda>s. s\<lparr>nw_nodes := (nw_nodes s)(p \<mapsto> nd)\<rparr>)"

section \<open>The build with DEBRA\<close>

definition debra_wrapper_null :: "(node_world, wrapper) cmd" where
  "debra_wrapper_null = bindE make_flag (\<lambda>f. returnE \<lparr>wr_node = None, wr_flag = f\<rparr>)"

definition debra_wrapper_of :: "obj option \<Rightarrow> (node_world, wrapper) cmd" where
  "debra_wrapper_of node = bindE make_flag (\<lambda>f. returnE \<lparr>wr_node = node, wr_flag = f\<rparr>)"

definition debra_wrapper_copy :: "wrapper \<Rightarrow> (node_world, wrapper) cmd" where
  "debra_wrapper_copy other = bindE make_flag (\<lambda>f. returnE \<lparr>wr_node = wr_node other, wr_flag = f\<rparr>)"

definition debra_eq :: "wrapper \<Rightarrow> wrapper \<Rightarrow> bool" where
  "debra_eq x other \<longleftrightarrow> wr_node x = wr_node other"

definition debra_is_null :: "wrapper \<Rightarrow> bool" where
  "debra_is_null x \<longleftrightarrow> wr_node x = None"

definition debra_is_deleted :: "wrapper \<Rightarrow> (node_world, bool) cmd" where
  "debra_is_deleted x = getsE (\<lambda>s. nw_flags s (wr_flag x))"

definition debra_delete_wrapped_node :: "wrapper \<Rightarrow> (node_world, obj option) cmd" where
  "debra_delete_wrapped_node x = returnE (wr_node x)"

text \<open>\<open>RecordMgr\<close>; \<open>allocate\<close> runs the default constructor of the node.\<close>

definition debra_allocate_node :: "nat \<Rightarrow> (node_world, obj option) cmd" where
  "debra_allocate_node tid =
     bindE (on_mgr (rm_allocate pool_none tid)) (\<lambda>p.
     thenE (case p of None \<Rightarrow> returnE () | Some a \<Rightarrow> construct a (new_LNode 0)) (returnE p))"

definition debra_get_new_node_key :: "nat \<Rightarrow> key_t \<Rightarrow> (node_world, wrapper) cmd" where
  "debra_get_new_node_key tid key =
     bindE (debra_allocate_node tid) (\<lambda>myNode.
     thenE (arrow \<lparr>wr_node = myNode, wr_flag = 0\<rparr> (\<lambda>nd. nd\<lparr>m_key := key\<rparr>)) (debra_wrapper_of myNode))"

definition debra_get_new_node :: "nat \<Rightarrow> key_t \<Rightarrow> val_t \<Rightarrow> (node_world, wrapper) cmd" where
  "debra_get_new_node tid key val =
     bindE (debra_get_new_node_key tid key) (\<lambda>n. thenE (arrow n (\<lambda>nd. nd\<lparr>m_val := Some val\<rparr>)) (returnE n))"

text \<open>The parameter is passed by value: the copy constructor runs.\<close>

definition debra_retire_node :: "nat \<Rightarrow> wrapper \<Rightarrow> (node_world, unit) cmd" where
  "debra_retire_node tid n =
     bindE (debra_wrapper_copy n) (\<lambda>n.
     bindE (debra_delete_wrapped_node n) (\<lambda>inner_node. on_mgr (rm_retire tid inner_node)))"

definition debra_getGuard :: "nat \<Rightarrow> nat \<Rightarrow> (rec_mgr, 'a) cmd \<Rightarrow> (rec_mgr, 'a) cmd" where
  "debra_getGuard numProcesses tid body = with_guard pool_none numProcesses tid body"

definition debra_delete_RecordMgr :: "nat \<Rightarrow> (node_world, unit) cmd" where
  "debra_delete_RecordMgr tid = on_mgr (rm_deinitThread tid)"

section \<open>The unsafe build\<close>

definition unsafe_wrapper_null :: "(node_world, wrapper) cmd" where
  "unsafe_wrapper_null = bindE make_flag (\<lambda>f. returnE \<lparr>wr_node = None, wr_flag = f\<rparr>)"

definition unsafe_wrapper_key :: "key_t \<Rightarrow> (node_world, wrapper) cmd" where
  "unsafe_wrapper_key key =
     bindE (on_mgr (on_debra (on_mem new_obj))) (\<lambda>p.
     thenE (case p of None \<Rightarrow> returnE () | Some a \<Rightarrow> construct a (new_LNode key))
       (bindE make_flag (\<lambda>f. returnE \<lparr>wr_node = p, wr_flag = f\<rparr>)))"

definition unsafe_wrapper :: "key_t \<Rightarrow> val_t \<Rightarrow> (node_world, wrapper) cmd" where
  "unsafe_wrapper key val =
     bindE (unsafe_wrapper_key key) (\<lambda>x.
     thenE (arrow x (\<lambda>nd. nd\<lparr>m_val := Some val\<rparr>))
       (bindE make_flag (\<lambda>f. returnE (x\<lparr>wr_flag := f\<rparr>))))"

definition unsafe_delete_wrapped_node :: "wrapper \<Rightarrow> (node_world, unit) cmd" where
  "unsafe_delete_wrapped_node x = modifyE (\<lambda>s. s\<lparr>nw_flags := (nw_flags s)(wr_flag x := False)\<rparr>)"

definition unsafe_is_deleted :: "wrapper \<Rightarrow> (node_world, bool) cmd" where
  "unsafe_is_deleted x = getsE (\<lambda>s. nw_flags s (wr_flag x))"

section \<open>The flag is never set\<close>

datatype wrap_op =
    D_null | D_of "obj option" | D_copy wrapper | D_delete wrapper | D_new nat key_t val_t | D_retire nat wrapper
  | U_null | U_new key_t val_t | U_delete wrapper

fun wrap_exec :: "wrap_op \<Rightarrow> (node_world, unit) cmd" where
  "wrap_exec D_null = bindE debra_wrapper_null (\<lambda>_. returnE ())"
| "wrap_exec (D_of p) = bindE (debra_wrapper_of p) (\<lambda>_. returnE ())"
| "wrap_exec (D_copy x) = bindE (debra_wrapper_copy x) (\<lambda>_. returnE ())"
| "wrap_exec (D_delete x) = bindE (debra_delete_wrapped_node x) (\<lambda>_. returnE ())"
| "wrap_exec (D_new t k v) = bindE (debra_get_new_node t k v) (\<lambda>_. returnE ())"
| "wrap_exec (D_retire t x) = debra_retire_node t x"
| "wrap_exec U_null = bindE unsafe_wrapper_null (\<lambda>_. returnE ())"
| "wrap_exec (U_new k v) = bindE (unsafe_wrapper k v) (\<lambda>_. returnE ())"
| "wrap_exec (U_delete x) = unsafe_delete_wrapped_node x"

definition unflagged :: "node_world \<Rightarrow> bool" where
  "unflagged s \<longleftrightarrow> (\<forall>f. \<not> nw_flags s f)"

text \<open>A command that leaves every flag clear.\<close>

definition clears :: "(node_world, 'a) cmd \<Rightarrow> bool" where
  "clears c \<longleftrightarrow> (\<forall>s. unflagged s \<longrightarrow> unflagged (snd (c s)))"

lemma clears_basic:
  "clears (returnE v)" "clears make_flag" "clears (on_mgr c)" "clears (arrow x f)" "clears (construct p nd)"
  "clears (unsafe_delete_wrapped_node x)"
  by (auto simp: clears_def unflagged_def run_simps make_flag_def on_mgr_def arrow_def construct_def unsafe_delete_wrapped_node_def
      split: prod.splits option.splits)

lemma clears_bindE: "clears c \<Longrightarrow> (\<And>x. clears (k x)) \<Longrightarrow> clears (bindE c k)"
  by (force simp: clears_def bindE_def split: prod.splits outcome.splits)

lemma clears_thenE: "clears c \<Longrightarrow> clears k \<Longrightarrow> clears (thenE c k)"
  by (simp add: thenE_def clears_bindE)

lemma clears_option: "clears c \<Longrightarrow> (\<And>x. clears (k x)) \<Longrightarrow> clears (case p of None \<Rightarrow> c | Some x \<Rightarrow> k x)"
  by (cases p) simp_all

lemmas clears_rules = clears_basic clears_bindE clears_thenE clears_option

lemma wrap_exec_clears: "clears (wrap_exec p)"
  by (cases p; simp only: wrap_exec.simps debra_wrapper_null_def debra_wrapper_of_def debra_wrapper_copy_def debra_delete_wrapped_node_def
      debra_get_new_node_def debra_get_new_node_key_def debra_allocate_node_def debra_retire_node_def unsafe_wrapper_null_def
      unsafe_wrapper_def unsafe_wrapper_key_def; intro clears_rules)

text \<open>
  The answer of \<open>is_deleted\<close>, on which the index relies to drop removed nodes, is \<open>false\<close> in both
  builds after any calls.
\<close>

lemma wrappers_never_deleted:
  assumes "unflagged s" and "forE ps wrap_exec s = (r, s')"
  shows "debra_is_deleted x s' = (Ok False, s')" and "unsafe_is_deleted x s' = (Ok False, s')"
proof -
  have "clears (forE ps wrap_exec)" by (induction ps) (simp_all add: clears_basic clears_thenE wrap_exec_clears)
  then have "unflagged s'" using assms by (auto simp: clears_def dest: spec [of _ s])
  then show "debra_is_deleted x s' = (Ok False, s')" "unsafe_is_deleted x s' = (Ok False, s')"
    by (simp_all add: debra_is_deleted_def unsafe_is_deleted_def unflagged_def run_simps)
qed

section \<open>The life of a node\<close>

lemma get_new_node_run:
  assumes "on_mem (pool_get pool_none t) (rm_debra (nw_mgr s)) = (Ok (Some p), d)"
  obtains x s1 where "debra_get_new_node t key val s = (Ok x, s1)" and "wr_node x = Some p" and "rm_debra (nw_mgr s1) = d"
    and "nw_nodes s1 = (nw_nodes s)(p \<mapsto> (new_LNode key)\<lparr>m_val := Some val\<rparr>)"
  using assms
  by (auto simp: debra_get_new_node_def debra_get_new_node_key_def debra_allocate_node_def on_mgr_def rm_allocate_def st_allocate_def on_debra_def
      construct_def arrow_def debra_wrapper_of_def make_flag_def new_LNode_def run_simps)

lemma build_retire_run:
  assumes "retire t (wr_node x) (rm_debra (nw_mgr s)) = (Ok (), d)"
  obtains s1 where "debra_retire_node t x s = (Ok (), s1)" and "rm_debra (nw_mgr s1) = d" and "nw_nodes s1 = nw_nodes s"
  using assms
  by (auto simp: debra_retire_node_def debra_wrapper_copy_def debra_delete_wrapped_node_def make_flag_def on_mgr_def rm_retire_def st_retire_def
      on_debra_def run_simps)

text \<open>
  (C36) The life of a node in the build with DEBRA. Inside an operation, at any moment of any
  interleaving, \<open>get_new_node\<close> returns a wrapper of a node with the key, the value, an unlocked word
  of version 0 and no successor, at an address that nobody uses: neither a node in use nor one
  retired during a running operation; it changes no other node. \<open>retire_node\<close> on it then
  succeeds, and the node stays allocated for every operation that is running.
\<close>

theorem debra_node_life:
  assumes "register_threads n (snd (make_record_mgr n)) = (Ok (), g)" and "(debra_step pool_none n)\<^sup>*\<^sup>* (new_world (rm_debra g)) w"
    and "t < n" and "d_pc w t = D_active" and "rm_debra (nw_mgr s) = dw w"
  shows "\<exists>x p s1 s2 w2. debra_get_new_node t key val s = (Ok x, s1) \<and> wr_node x = Some p \<and> p \<notin> owned w \<and> (\<forall>u. p \<notin> since w u) \<and>
     nw_nodes s1 = (nw_nodes s)(p \<mapsto> \<lparr>m_key = key, m_val = Some val, m_next = None, m_version_mask = 0, w_deleted = False\<rparr>) \<and>
     debra_retire_node t x s1 = (Ok (), s2) \<and> nw_nodes s2 = nw_nodes s1 \<and>
     (debra_step pool_none n)\<^sup>*\<^sup>* (new_world (rm_debra g)) w2 \<and> dw w2 = rm_debra (nw_mgr s2) \<and>
     (\<forall>u<n. in_op (d_pc w2 u) \<longrightarrow> p \<in> since w2 u) \<and> p \<in> set (live_objs (d_mem (dw w2)))"
proof -
  obtain F where I: "debra_inv mem_ok n w F" using none_reach [OF assms(1,2)] .
  obtain p d F1 where 1: "on_mem (pool_get pool_none t) (dw w) = (Ok (Some p), d)" "p \<notin> owned w"
    "debra_inv mem_ok n (w\<lparr>dw := d, owned := insert p (owned w)\<rparr>) F1"
    using none.get_keeps [OF I assms(3)] by blast
  define w1 where w1: "w1 = w\<lparr>dw := d, owned := insert p (owned w)\<rparr>"
  have st1: "debra_step pool_none n w w1" unfolding w1 by (rule step_get [OF assms(3) 1(1)])
  have I1: "debra_inv mem_ok n w1 F1" using 1(3) w1 by simp
  have fresh: "p \<notin> since w u" for u using none.since_safe [OF I1, of p u] by (auto simp: w1)
  obtain x s1 where 2: "debra_get_new_node t key val s = (Ok x, s1)" "wr_node x = Some p" "rm_debra (nw_mgr s1) = d"
    "nw_nodes s1 = (nw_nodes s)(p \<mapsto> (new_LNode key)\<lparr>m_val := Some val\<rparr>)"
    using 1(1) by (rule get_new_node_run [where s = s, unfolded assms(5)])
  have a: "d_pc w1 t = D_active \<or> d_pc w1 t = D_idle" "p \<in> owned w1" using assms(4) by (simp_all add: w1)
  have "localvar_announcedEpoch (threadData (dw w1) t) \<noteq> 1"
    using epochs_thread [OF debra_invD(5) [OF I1] assms(3)] assms(4) by (auto simp: thread_ok_def w1 split: if_splits)
  then obtain d2 F2 where 3: "retire t (Some p) (dw w1) = (Ok (), d2)" "debra_inv mem_ok n (w1\<lparr>dw := d2, owned := owned w1 - {p},
      since := (\<lambda>u. if u < n \<and> in_op (d_pc w1 u) then insert p (since w1 u) else since w1 u)\<rparr>) F2"
    using none.retire_keeps [OF I1 assms(3) a] by blast
  define w2 where w2: "w2 = w1\<lparr>dw := d2, owned := owned w1 - {p}, since := (\<lambda>u. if u < n \<and> in_op (d_pc w1 u) then insert p (since w1 u) else since w1 u)\<rparr>"
  have st2: "debra_step pool_none n w1 w2" unfolding w2 by (rule step_retire [OF assms(3) a 3(1)])
  have I2: "debra_inv mem_ok n w2 F2" using 3(2) w2 by simp
  have "retire t (wr_node x) (rm_debra (nw_mgr s1)) = (Ok (), d2)" using 3(1) 2(2,3) by (simp add: w1)
  then obtain s2 where 4: "debra_retire_node t x s1 = (Ok (), s2)" "rm_debra (nw_mgr s2) = d2" "nw_nodes s2 = nw_nodes s1"
    by (rule build_retire_run)
  have sn: "\<forall>u<n. in_op (d_pc w2 u) \<longrightarrow> p \<in> since w2 u" by (simp add: w2)
  moreover have "in_op (d_pc w2 t)" using assms(4) by (simp add: w2 w1)
  ultimately have "p \<in> set (live_objs (d_mem (dw w2)))" using none.since_safe [OF I2] assms(3) by blast
  moreover have "(debra_step pool_none n)\<^sup>*\<^sup>* (new_world (rm_debra g)) w2" by (rule star_step [OF star_step [OF assms(2) st1] st2])
  moreover have "dw w2 = rm_debra (nw_mgr s2)" using 4(2) by (simp add: w2)
  moreover have "nw_nodes s1 = (nw_nodes s)(p \<mapsto> \<lparr>m_key = key, m_val = Some val, m_next = None, m_version_mask = 0, w_deleted = False\<rparr>)"
    using 2(4) by (simp add: new_LNode_def)
  ultimately show ?thesis using 1(2) fresh 2(1,2) 4(1,3) sn by blast
qed

text \<open>One thread inside its first operation makes and retires the node with key 5.\<close>

theorem debra_node_life_witness:
  "\<exists>s x s1 s2 p. debra_get_new_node 0 5 7 s = (Ok x, s1) \<and> wr_node x = Some p \<and> map_option m_key (nw_nodes s1 p) = Some 5 \<and>
     debra_retire_node 0 x s1 = (Ok (), s2)"
proof -
  obtain g F where g: "register_threads 1 (snd (make_record_mgr 1)) = (Ok (), g)" "debra_inv mem_ok 1 (new_world (rm_debra g)) F"
    using start_none by blast
  obtain w where w: "(debra_step pool_none 1)\<^sup>*\<^sup>* (new_world (rm_debra g)) w" "d_pc w = (d_pc (new_world (rm_debra g)))(0 := D_active)"
    using none.enter_run [OF g(2), of 0] by (auto simp: new_world_def)
  let ?s = "\<lparr>nw_mgr = g\<lparr>rm_debra := dw w\<rparr>, nw_nodes = Map.empty, nw_flags = (\<lambda>_. False), nw_next_flag = 0\<rparr>"
  have "d_pc w 0 = D_active" "rm_debra (nw_mgr ?s) = dw w" using w(2) by simp_all
  from debra_node_life [OF g(1) w(1) _ this, of 5 7] show ?thesis by fastforce
qed

end
