(* ===== verification/BagSpec.thy ===== *)
theory BagSpec
  imports PoolSpec BagIter
begin

text \<open>
  What the block bags promise: a bag is a multiset of objects. The operations of
  \<^verbatim>\<open>recordmgr/blockbag.h\<close> on blocks, heads and tails simulate operations on multisets.
\<close>

section \<open>The operations and their specification\<close>

datatype bag_op =
    B_new bag_id nat nat
  | B_add bag_id obj
  | B_remove bag_id
  | B_isEmpty bag_id
  | B_computeSize bag_id
  | B_validate bag_id
  | B_iterate bag_id
  | B_appendMoveAll bag_id bag_id
  | B_appendMoveFullBlocks bag_id bag_id
  | B_clear bag_id

datatype bag_result = B_done | B_item "obj option" | B_answer bool | B_count nat | B_visited "obj option list"

fun bag_exec :: "bag_op \<Rightarrow> (mem, bag_result) cmd" where
  "bag_exec (B_new g tid t) = thenE (new_blockbag g tid t) (returnE B_done)"
| "bag_exec (B_add g x) = thenE (bag_add g (Some x)) (returnE B_done)"
| "bag_exec (B_remove g) = bindE (bag_remove g) (\<lambda>x. returnE (B_item x))"
| "bag_exec (B_isEmpty g) = bindE (bag_isEmpty g) (\<lambda>x. returnE (B_answer x))"
| "bag_exec (B_computeSize g) = bindE (computeSize g) (\<lambda>n. returnE (B_count n))"
| "bag_exec (B_validate g) = thenE (validate g) (returnE B_done)"
| "bag_exec (B_iterate g) = bindE (bag_elements g) (\<lambda>xs. returnE (B_visited xs))"
| "bag_exec (B_appendMoveAll g e) = thenE (appendMoveAll g e) (returnE B_done)"
| "bag_exec (B_appendMoveFullBlocks g e) = thenE (appendMoveFullBlocks g e) (returnE B_done)"
| "bag_exec (B_clear g) = thenE (clearWithoutFreeingElements g) (returnE B_done)"

type_synonym bag_state = "bag_id \<rightharpoonup> obj multiset"

text \<open>\<open>bag_spec A p r A'\<close>: the operation \<open>p\<close> may answer \<open>r\<close> and take the bags \<open>A\<close> to \<open>A'\<close>.\<close>

inductive bag_spec :: "bag_state \<Rightarrow> bag_op \<Rightarrow> bag_result outcome \<Rightarrow> bag_state \<Rightarrow> bool" where
  spec_new: "A g = None \<Longrightarrow> bag_spec A (B_new g tid t) (Ok B_done) (A(g \<mapsto> {#}))"
| spec_add: "A g = Some M \<Longrightarrow> bag_spec A (B_add g x) (Ok B_done) (A(g \<mapsto> add_mset x M))"
| spec_remove: "A g = Some (add_mset x M) \<Longrightarrow> bag_spec A (B_remove g) (Ok (B_item (Some x))) (A(g \<mapsto> M))"
| spec_remove_empty: "A g = Some {#} \<Longrightarrow> bag_spec A (B_remove g) (Throw AssertionFailed) A"
| spec_is_empty: "A g = Some M \<Longrightarrow> bag_spec A (B_isEmpty g) (Ok (B_answer (M = {#}))) A"
| spec_size: "A g = Some M \<Longrightarrow> bag_spec A (B_computeSize g) (Ok (B_count (size M))) A"
| spec_validate: "A g = Some M \<Longrightarrow> bag_spec A (B_validate g) (Ok B_done) A"
| spec_iterate: "A g = Some (mset xs) \<Longrightarrow> bag_spec A (B_iterate g) (Ok (B_visited (map Some xs))) A"
| spec_move_all: "A g = Some M \<Longrightarrow> A e = Some N \<Longrightarrow> g \<noteq> e \<Longrightarrow>
    bag_spec A (B_appendMoveAll g e) (Ok B_done) (A(g \<mapsto> M + N, e \<mapsto> {#}))"
| spec_move_full: "A g = Some M \<Longrightarrow> A e = Some (N + K) \<Longrightarrow> g \<noteq> e \<Longrightarrow> BLOCK_SIZE dvd size N \<Longrightarrow> size K < BLOCK_SIZE \<Longrightarrow>
    bag_spec A (B_appendMoveFullBlocks g e) (Ok B_done) (A(g \<mapsto> M + N, e \<mapsto> K))"
| spec_clear: "A g = Some M \<Longrightarrow> bag_spec A (B_clear g) (Ok B_done) (A(g \<mapsto> {#}))"

text \<open>The client names bags that exist, and moves between different ones.\<close>

fun op_ok :: "bag_id set \<Rightarrow> bag_op \<Rightarrow> bool" where
  "op_ok D (B_new g tid t) = (g \<notin> D)"
| "op_ok D (B_appendMoveAll g e) = (g \<in> D \<and> e \<in> D \<and> g \<noteq> e)"
| "op_ok D (B_appendMoveFullBlocks g e) = (g \<in> D \<and> e \<in> D \<and> g \<noteq> e)"
| "op_ok D (B_add g x) = (g \<in> D)"
| "op_ok D (B_remove g) = (g \<in> D)"
| "op_ok D (B_isEmpty g) = (g \<in> D)"
| "op_ok D (B_computeSize g) = (g \<in> D)"
| "op_ok D (B_validate g) = (g \<in> D)"
| "op_ok D (B_iterate g) = (g \<in> D)"
| "op_ok D (B_clear g) = (g \<in> D)"

fun bags_after :: "bag_id set \<Rightarrow> bag_op \<Rightarrow> bag_id set" where
  "bags_after D (B_new g tid t) = insert g D"
| "bags_after D p = D"

primrec script_ok :: "bag_id set \<Rightarrow> bag_op list \<Rightarrow> bool" where
  "script_ok D [] = True"
| "script_ok D (p # ps) = (op_ok D p \<and> script_ok (bags_after D p) ps)"

primrec bag_runs :: "bag_op list \<Rightarrow> mem \<Rightarrow> bag_result outcome list \<times> mem" where
  "bag_runs [] m = ([], m)"
| "bag_runs (p # ps) m = (case bag_exec p m of (r, m1) \<Rightarrow> (case bag_runs ps m1 of (rs, m2) \<Rightarrow> (r # rs, m2)))"

inductive spec_runs :: "bag_state \<Rightarrow> bag_op list \<Rightarrow> bag_result outcome list \<Rightarrow> bag_state \<Rightarrow> bool" where
  spec_nil: "spec_runs A [] [] A"
| spec_step: "bag_spec A p r A1 \<Longrightarrow> spec_runs A1 ps rs A2 \<Longrightarrow> spec_runs A (p # ps) (r # rs) A2"

section \<open>The simulation\<close>

definition bag_abs :: "mem \<Rightarrow> (region \<Rightarrow> bptr list) \<Rightarrow> bag_state" where
  "bag_abs m F = (\<lambda>g. map_option (\<lambda>_. items_in m F g) (bags m g))"

definition bag_rep :: "mem \<Rightarrow> bag_state \<Rightarrow> bool" where
  "bag_rep m A \<longleftrightarrow> (\<exists>F. layout {} m F \<and> A = bag_abs m F)"

lemma bag_abs_frame2:
  assumes "frame R m F m' F'" and "\<And>d. Bag d \<in> R \<Longrightarrow> d = g \<or> d = e" and "bags m' g \<noteq> None" and "bags m' e \<noteq> None"
  shows "bag_abs m' F' = (bag_abs m F)(g \<mapsto> items_in m' F' g, e \<mapsto> items_in m' F' e)"
proof (rule ext)
  fix d
  show "bag_abs m' F' d = ((bag_abs m F)(g \<mapsto> items_in m' F' g, e \<mapsto> items_in m' F' e)) d"
  proof (cases "Bag d \<in> R")
    case True
    then show ?thesis using assms(2) [of d] assms(3,4) by (auto simp: bag_abs_def)
  next
    case False
    note eq = frame_items(1,3) [OF assms(1) False]
    show ?thesis using assms(3,4) by (auto simp: bag_abs_def simp flip: eq)
  qed
qed

lemma bag_abs_frame:
  assumes "frame R m F m' F'" and "\<And>e. Bag e \<in> R \<Longrightarrow> e = g" and "bags m' g \<noteq> None"
  shows "bag_abs m' F' = (bag_abs m F)(g \<mapsto> items_in m' F' g)"
  using bag_abs_frame2 [OF assms(1) _ assms(3,3)] assms(2) by auto

lemma bag_abs_Some: "bags m g = Some B \<Longrightarrow> bag_abs m F g = Some (items_in m F g)"
  by (simp add: bag_abs_def)

lemma dom_bag_abs: "g \<in> dom (bag_abs m F) \<longleftrightarrow> (\<exists>B. bags m g = Some B)"
  by (auto simp: bag_abs_def)

lemma full_blocks_size: "blocks_ok h (\<lambda>n. n = BLOCK_SIZE) P \<Longrightarrow> BLOCK_SIZE dvd length (contents_of h P)"
  by (induction P) auto

text \<open>One bag changes.\<close>

lemma simI:
  assumes "bag_exec p m = (r, m')" and "bag_spec (bag_abs m F) p r A" and "layout {} m' F'" and "A = bag_abs m' F'"
  shows "\<exists>r m' A'. bag_exec p m = (r, m') \<and> bag_spec (bag_abs m F) p r A' \<and> bag_rep m' A'"
  using assms by (auto simp: bag_rep_def)

lemma sim_new:
  assumes "layout {} m F" and "bags m g = None"
  shows "\<exists>r m' A'. bag_exec (B_new g tid t) m = (r, m') \<and> bag_spec (bag_abs m F) (B_new g tid t) r A' \<and> bag_rep m' A'"
proof -
  obtain m' F' where 1: "new_blockbag g tid t m = (Ok (), m')" "layout {} m' F'" "frame {Bag g, Pool t} m F m' F'"
    "contents_of (blocks m') (F' (Bag g)) = []" "\<exists>B'. bags m' g = Some B' \<and> bag_pool B' = t"
    using assms by (rule new_blockbag_run)
  have "bag_abs m' F' = (bag_abs m F)(g \<mapsto> {#})" using bag_abs_frame [OF 1(3), of g] 1(4,5) by auto
  moreover have "bag_abs m F g = None" using assms(2) by (simp add: bag_abs_def)
  ultimately show ?thesis using 1(1,2) by (intro simI [OF _ spec_new]) (auto simp: run_simps)
qed

lemma sim_add:
  assumes "layout {} m F" and "bags m g = Some B"
  shows "\<exists>r m' A'. bag_exec (B_add g x) m = (r, m') \<and> bag_spec (bag_abs m F) (B_add g x) r A' \<and> bag_rep m' A'"
proof -
  obtain m' F' where 1: "bag_add g (Some x) m = (Ok (), m')" "layout {} m' F'" "frame {Bag g, Pool (bag_pool B)} m F m' F'"
    "items_in m' F' g = add_mset x (items_in m F g)" "\<exists>B'. bags m' g = Some B' \<and> bag_pool B' = bag_pool B"
    using assms by (rule bag_add_run)
  have "bag_abs m' F' = (bag_abs m F)(g \<mapsto> add_mset x (items_in m F g))" using bag_abs_frame [OF 1(3), of g] 1(4,5) by auto
  with 1(1,2) show ?thesis by (intro simI [OF _ spec_add [of "bag_abs m F" g, OF bag_abs_Some [OF assms(2)]]]) (auto simp: run_simps)
qed

lemma sim_remove:
  assumes "layout {} m F" and "bags m g = Some B"
  shows "\<exists>r m' A'. bag_exec (B_remove g) m = (r, m') \<and> bag_spec (bag_abs m F) (B_remove g) r A' \<and> bag_rep m' A'"
proof (cases "contents_of (blocks m) (F (Bag g)) = []")
  case True
  then have "bag_exec (B_remove g) m = (Throw AssertionFailed, m)"
    using bag_isEmpty_run [OF assms] by (simp add: bag_remove_def run_simps)
  moreover have "bag_abs m F g = Some {#}" using bag_abs_Some [OF assms(2), of F] True by simp
  ultimately show ?thesis using assms(1) by (intro simI [OF _ spec_remove_empty]) auto
next
  case False
  obtain x m' F' where 1: "bag_remove g m = (Ok (Some x), m')" "layout {} m' F'" "frame {Bag g, Pool (bag_pool B)} m F m' F'"
    "items_in m F g = add_mset x (items_in m' F' g)" "\<exists>B'. bags m' g = Some B' \<and> bag_pool B' = bag_pool B"
    using assms False by (rule bag_remove_run)
  have "bag_abs m' F' = (bag_abs m F)(g \<mapsto> items_in m' F' g)" using bag_abs_frame [OF 1(3), of g] 1(5) by auto
  moreover have "bag_abs m F g = Some (add_mset x (items_in m' F' g))" using bag_abs_Some [OF assms(2), of F] 1(4) by simp
  ultimately show ?thesis using 1(1,2) by (intro simI [OF _ spec_remove]) (auto simp: run_simps)
qed

lemma sim_clear:
  assumes "layout {} m F" and "bags m g = Some B"
  shows "\<exists>r m' A'. bag_exec (B_clear g) m = (r, m') \<and> bag_spec (bag_abs m F) (B_clear g) r A' \<and> bag_rep m' A'"
proof -
  obtain m' F' where 1: "clearWithoutFreeingElements g m = (Ok (), m')" "layout {} m' F'" "frame {Bag g, Pool (bag_pool B)} m F m' F'"
    "contents_of (blocks m') (F' (Bag g)) = []" "\<exists>B'. bags m' g = Some B' \<and> bag_pool B' = bag_pool B"
    using assms by (rule clearWithoutFreeingElements_run)
  have "bag_abs m' F' = (bag_abs m F)(g \<mapsto> {#})" using bag_abs_frame [OF 1(3), of g] 1(4,5) by auto
  with 1(1,2) show ?thesis by (intro simI [OF _ spec_clear [of "bag_abs m F" g, OF bag_abs_Some [OF assms(2)]]]) (auto simp: run_simps)
qed

text \<open>Reading changes nothing.\<close>

lemma sim_read:
  assumes "layout {} m F" and "bags m g = Some B" and "p = B_isEmpty g \<or> p = B_computeSize g \<or> p = B_validate g \<or> p = B_iterate g"
  shows "\<exists>r m' A'. bag_exec p m = (r, m') \<and> bag_spec (bag_abs m F) p r A' \<and> bag_rep m' A'"
proof -
  note a = bag_abs_Some [OF assms(2), of F] and run = computeSize_run [OF assms(1,2)] bag_isEmpty_run [OF assms(1,2)]
  obtain xs where xs: "bag_elements g m = (Ok (map Some xs), m)" "mset xs = items_in m F g"
    using assms(1,2) by (rule bag_elements_run)
  have "bag_spec (bag_abs m F) (B_iterate g) (Ok (B_visited (map Some xs))) (bag_abs m F)"
    using a xs(2) by (intro spec_iterate) simp
  moreover have "bag_spec (bag_abs m F) (B_computeSize g) (Ok (B_count (length (contents_of (blocks m) (F (Bag g)))))) (bag_abs m F)"
    using spec_size [of "bag_abs m F", OF a] by simp
  moreover have "bag_spec (bag_abs m F) (B_isEmpty g) (Ok (B_answer (contents_of (blocks m) (F (Bag g)) = []))) (bag_abs m F)"
    using spec_is_empty [of "bag_abs m F", OF a] by simp
  moreover have "bag_rep m (bag_abs m F)" using assms(1) by (auto simp: bag_rep_def)
  ultimately show ?thesis
    using assms(3) run xs(1) spec_validate [of "bag_abs m F" g, OF a]
    by (elim disjE) (simp add: run_simps, blast)+
qed

text \<open>Two bags change.\<close>

lemma sim_move_all:
  assumes "layout {} m F" and "bags m g = Some B" and "bags m e = Some E" and "g \<noteq> e"
  shows "\<exists>r m' A'. bag_exec (B_appendMoveAll g e) m = (r, m') \<and> bag_spec (bag_abs m F) (B_appendMoveAll g e) r A' \<and> bag_rep m' A'"
proof -
  obtain m' F' where 1: "appendMoveAll g e m = (Ok (), m')" "layout {} m' F'"
    "frame {Bag g, Bag e, Pool (bag_pool B), Pool (bag_pool E)} m F m' F'"
    "items_in m' F' g = items_in m F g + items_in m F e" "contents_of (blocks m') (F' (Bag e)) = []"
    "\<exists>B'. bags m' g = Some B' \<and> bag_pool B' = bag_pool B" "\<exists>E'. bags m' e = Some E' \<and> bag_pool E' = bag_pool E"
    using assms by (rule appendMoveAll_run)
  have "bag_abs m' F' = (bag_abs m F)(g \<mapsto> items_in m F g + items_in m F e, e \<mapsto> {#})"
    using bag_abs_frame2 [OF 1(3), of g e] 1(4-7) by auto
  with 1(1,2) show ?thesis
    by (intro simI [OF _ spec_move_all [of "bag_abs m F" g _ e, OF bag_abs_Some [OF assms(2)] bag_abs_Some [OF assms(3)] assms(4)]]) (auto simp: run_simps)
qed

lemma sim_move_full:
  assumes "layout {} m F" and "bags m g = Some B" and "bags m e = Some E" and "g \<noteq> e"
  shows "\<exists>r m' A'. bag_exec (B_appendMoveFullBlocks g e) m = (r, m') \<and> bag_spec (bag_abs m F) (B_appendMoveFullBlocks g e) r A' \<and> bag_rep m' A'"
proof -
  obtain m' F' where 1: "appendMoveFullBlocks g e m = (Ok (), m')" "layout {} m' F'" "frame {Bag g, Bag e} m F m' F'"
    "contents_of (blocks m') (F' (Bag g)) = contents_of (blocks m) (F (Bag g) @ tl (F (Bag e)))"
    "contents_of (blocks m') (F' (Bag e)) = contents_of (blocks m) [hd (F (Bag e))]"
    "\<exists>B'. bags m' g = Some B' \<and> bag_pool B' = bag_pool B" "\<exists>E'. bags m' e = Some E' \<and> bag_pool E' = bag_pool E"
    using assms by (rule appendMoveFullBlocks_run)
  let ?N = "mset (contents_of (blocks m) (tl (F (Bag e))))" and ?K = "mset (contents_of (blocks m) [hd (F (Bag e))])"
  have ok: "F (Bag e) \<noteq> []" "blocks_ok (blocks m) (\<lambda>n. n < BLOCK_SIZE) [hd (F (Bag e))]" "blocks_ok (blocks m) (\<lambda>n. n = BLOCK_SIZE) (tl (F (Bag e)))"
    using bag_regionD [OF assms(1,3)] by (auto simp: bag_ok_def)
  then have "items_in m F e = ?N + ?K" by (cases "F (Bag e)") (auto simp: ac_simps)
  then have e: "bag_abs m F e = Some (?N + ?K)" using bag_abs_Some [OF assms(3), of F] by simp
  have sz: "BLOCK_SIZE dvd size ?N" "size ?K < BLOCK_SIZE" using full_blocks_size [OF ok(3)] ok(2) by auto
  have "bag_abs m' F' = (bag_abs m F)(g \<mapsto> items_in m F g + ?N, e \<mapsto> ?K)"
    using bag_abs_frame2 [OF 1(3), of g e] 1(4-7) by auto
  with 1(1,2) show ?thesis
    by (intro simI [OF _ spec_move_full [of "bag_abs m F" g _ e, OF bag_abs_Some [OF assms(2)] e assms(4) sz]]) (auto simp: run_simps)
qed

lemma bag_op_sim:
  assumes "bag_rep m A" and "op_ok (dom A) p"
  shows "\<exists>r m' A'. bag_exec p m = (r, m') \<and> bag_spec A p r A' \<and> bag_rep m' A'"
proof -
  obtain F where F: "layout {} m F" and A: "A = bag_abs m F" using assms(1) by (auto simp: bag_rep_def)
  have ex: "\<exists>B. bags m g = Some B" if "g \<in> dom A" for g using that unfolding A dom_bag_abs .
  have nw: "bags m g = None" if "g \<notin> dom A" for g using that dom_bag_abs [of g m F] A by auto
  show ?thesis
  proof (cases p)
    case (B_new g tid t)
    then show ?thesis using sim_new [OF F nw] assms(2) A by simp
  next
    case (B_add g x)
    then show ?thesis using sim_add [OF F] ex [of g] assms(2) A by simp blast
  next
    case (B_remove g)
    then show ?thesis using sim_remove [OF F] ex [of g] assms(2) A by simp blast
  next
    case (B_clear g)
    then show ?thesis using sim_clear [OF F] ex [of g] assms(2) A by simp blast
  next
    case (B_appendMoveAll g e)
    then show ?thesis using sim_move_all [OF F, of g _ e] ex [of g] ex [of e] assms(2) A by auto
  next
    case (B_appendMoveFullBlocks g e)
    then show ?thesis using sim_move_full [OF F, of g _ e] ex [of g] ex [of e] assms(2) A by auto
  qed (use sim_read [OF F _ , of _ _ p] ex assms(2) A in \<open>fastforce\<close>)+
qed

lemma bag_spec_dom: "bag_spec A p r A' \<Longrightarrow> dom A' = bags_after (dom A) p"
  by (induction rule: bag_spec.induct) (auto split: if_splits)

lemma bag_script_sim:
  assumes "bag_rep m A" and "script_ok (dom A) ps"
  shows "\<exists>A'. spec_runs A ps (fst (bag_runs ps m)) A' \<and> bag_rep (snd (bag_runs ps m)) A'"
  using assms
proof (induction ps arbitrary: m A)
  case Nil
  then show ?case by (auto intro: spec_nil)
next
  case (Cons p ps)
  obtain r m1 A1 where 1: "bag_exec p m = (r, m1)" "bag_spec A p r A1" "bag_rep m1 A1"
    using bag_op_sim [OF Cons.prems(1), of p] Cons.prems(2) by (simp only: script_ok.simps) blast
  obtain A2 where 2: "spec_runs A1 ps (fst (bag_runs ps m1)) A2" "bag_rep (snd (bag_runs ps m1)) A2"
    using Cons.IH [OF 1(3)] Cons.prems(2) bag_spec_dom [OF 1(2)] by auto
  show ?case using spec_step [OF 1(2) 2(1)] 2(2) 1(1) by (auto simp: case_prod_beta)
qed

lemma bag_rep_empty: "bag_rep empty_mem Map.empty"
  using mem_okD(1) [OF empty_mem_ok(1)] by (auto simp: bag_rep_def bag_abs_def empty_mem_def)

text \<open>
  (C34) Bags are multisets. Whatever sequence of constructions, additions, removals, moves between
  bags, clearings, size computations, validations and iterations a client runs from an empty
  memory on bags it has made, the answers are those of a client working on multisets of objects.
  In particular removing from an empty bag fails its assertion, the iterator visits every item
  once, \<open>validate\<close> passes always, and \<open>appendMoveFullBlocks\<close> leaves less than one block
  behind.
\<close>

theorem bag_scripts_refine:
  "script_ok {} ps \<Longrightarrow> \<exists>A. spec_runs Map.empty ps (fst (bag_runs ps empty_mem)) A"
  using bag_script_sim [OF bag_rep_empty, of ps] by auto

inductive_cases spec_runsE: "spec_runs A (p # ps) rs A'" "spec_runs A [] rs A'"
inductive_cases bag_specE: "bag_spec A (B_new g tid t) r A'" "bag_spec A (B_add g x) r A'" "bag_spec A (B_remove g) r A'"
  "bag_spec A (B_appendMoveAll g e) r A'" "bag_spec A (B_computeSize g) r A'"

text \<open>Two objects go into two bags, the bags are joined, one object comes out.\<close>

theorem bag_scripts_refine_witness:
  "\<exists>x\<in>{7, 9}. fst (bag_runs [B_new (Free_bag 0) 0 0, B_new (Free_bag 1) 1 1, B_add (Free_bag 0) 7, B_add (Free_bag 1) 9,
      B_appendMoveAll (Free_bag 0) (Free_bag 1), B_computeSize (Free_bag 0), B_remove (Free_bag 1), B_remove (Free_bag 0)] empty_mem) =
    [Ok B_done, Ok B_done, Ok B_done, Ok B_done, Ok B_done, Ok (B_count 2), Throw AssertionFailed, Ok (B_item (Some x))]"
proof -
  let ?ps = "[B_new (Free_bag 0) 0 0, B_new (Free_bag 1) 1 1, B_add (Free_bag 0) 7, B_add (Free_bag 1) 9,
      B_appendMoveAll (Free_bag 0) (Free_bag 1), B_computeSize (Free_bag 0), B_remove (Free_bag 1), B_remove (Free_bag 0)]"
  have "script_ok {} ?ps" by simp
  from bag_scripts_refine [OF this] obtain A where "spec_runs Map.empty ?ps (fst (bag_runs ?ps empty_mem)) A" ..
  then show ?thesis by (elim spec_runsE bag_specE) (auto simp: add_eq_conv_ex)
qed

end
