(* ===== verification/LockFreeBag.thy ===== *)
theory LockFreeBag
  imports Prelude
begin

text \<open>
  The shared bag of blocks of \<^verbatim>\<open>recordmgr/lockfreeblockbag.h\<close> under interference. \<open>BlockBag\<close> has
  \<open>getBlock\<close> and \<open>addBlock\<close> as they run undisturbed; here a step is one access to memory by
  one thread. The tag of the head is a \<open>long\<close>, taken not to overflow.
\<close>

section \<open>Steps\<close>

text \<open>
  Where a thread stands: outside; in \<open>getBlock\<close> before the load, with the head it has loaded, before the
  compare-and-swap with the successor it has read, before it clears the successor of its block;
  in \<open>addBlock\<close> before the load, before it links its block to the head it has loaded, before the
  compare-and-swap.
\<close>

datatype lf_pc =
    L_out
  | G_load
  | G_loaded nat nat
  | G_cas nat nat "nat option"
  | G_clear nat
  | A_load nat
  | A_link nat "nat option" nat
  | A_cas nat "nat option" nat

text \<open>The blocks a thread has outside the bag are its own.\<close>

record lf_sys =
  lf_head :: "nat option \<times> nat"
  lf_next :: "nat \<Rightarrow> nat option"
  lf_own :: "nat \<Rightarrow> nat set"
  lf_dead :: "nat set"
  lf_pc :: "nat \<Rightarrow> lf_pc"

text \<open>\<open>compare_exchange_weak\<close> may fail whatever the head is.\<close>

inductive lf_step :: "lf_sys \<Rightarrow> lf_sys \<Rightarrow> bool" where
  get_start: "lf_pc s t = L_out \<Longrightarrow> lf_step s (s\<lparr>lf_pc := (lf_pc s)(t := G_load)\<rparr>)"
| get_load: "lf_pc s t = G_load \<Longrightarrow>
    lf_step s (s\<lparr>lf_pc := (lf_pc s)(t := case fst (lf_head s) of None \<Rightarrow> L_out | Some p \<Rightarrow> G_loaded p (snd (lf_head s)))\<rparr>)"
| get_next: "lf_pc s t = G_loaded p g \<Longrightarrow> lf_step s (s\<lparr>lf_pc := (lf_pc s)(t := G_cas p g (lf_next s p))\<rparr>)"
| get_cas: "lf_pc s t = G_cas p g q \<Longrightarrow> compare_exchange_strong (lf_head s) (Some p, g) (q, g + 1) = (True, h) \<Longrightarrow>
    lf_step s (s\<lparr>lf_head := h, lf_own := (lf_own s)(t := insert p (lf_own s t)), lf_pc := (lf_pc s)(t := G_clear p)\<rparr>)"
| get_fail: "lf_pc s t = G_cas p g q \<Longrightarrow> lf_step s (s\<lparr>lf_pc := (lf_pc s)(t := G_load)\<rparr>)"
| get_clear: "lf_pc s t = G_clear p \<Longrightarrow> lf_step s (s\<lparr>lf_next := (lf_next s)(p := None), lf_pc := (lf_pc s)(t := L_out)\<rparr>)"
| add_start: "lf_pc s t = L_out \<Longrightarrow> b \<in> lf_own s t \<Longrightarrow> lf_step s (s\<lparr>lf_pc := (lf_pc s)(t := A_load b)\<rparr>)"
| add_load: "lf_pc s t = A_load b \<Longrightarrow> lf_step s (s\<lparr>lf_pc := (lf_pc s)(t := A_link b (fst (lf_head s)) (snd (lf_head s)))\<rparr>)"
| add_link: "lf_pc s t = A_link b q g \<Longrightarrow> lf_step s (s\<lparr>lf_next := (lf_next s)(b := q), lf_pc := (lf_pc s)(t := A_cas b q g)\<rparr>)"
| add_cas: "lf_pc s t = A_cas b q g \<Longrightarrow> compare_exchange_strong (lf_head s) (q, g) (Some b, g + 1) = (True, h) \<Longrightarrow>
    lf_step s (s\<lparr>lf_head := h, lf_own := (lf_own s)(t := lf_own s t - {b}), lf_pc := (lf_pc s)(t := L_out)\<rparr>)"
| add_fail: "lf_pc s t = A_cas b q g \<Longrightarrow> lf_step s (s\<lparr>lf_pc := (lf_pc s)(t := A_load b)\<rparr>)"
| use_own: "lf_pc s t = L_out \<Longrightarrow> b \<in> lf_own s t \<Longrightarrow> lf_step s (s\<lparr>lf_next := (lf_next s)(b := q)\<rparr>)"

text \<open>A new bag; the threads have any blocks, no two the same.\<close>

definition lf_start :: "(nat \<Rightarrow> nat set) \<Rightarrow> (nat \<Rightarrow> nat option) \<Rightarrow> lf_sys" where
  "lf_start own nx = \<lparr>lf_head = (None, 0), lf_next = nx, lf_own = own, lf_dead = {}, lf_pc = (\<lambda>_. L_out)\<rparr>"

section \<open>The stack\<close>

definition stack_of :: "lf_sys \<Rightarrow> nat list \<Rightarrow> bool" where
  "stack_of s S \<longleftrightarrow> path (lf_next s) (fst (lf_head s)) S None"

text \<open>
  What a thread knows: as long as the tag is the one it has loaded, the head is too, and with it
  the successor of the first block.
\<close>

fun knows :: "nat option \<times> nat \<Rightarrow> (nat \<Rightarrow> nat option) \<Rightarrow> nat set \<Rightarrow> lf_pc \<Rightarrow> bool" where
  "knows h nx own L_out = True"
| "knows h nx own G_load = True"
| "knows h nx own (G_loaded p g) = (g \<le> snd h \<and> (g = snd h \<longrightarrow> fst h = Some p))"
| "knows h nx own (G_cas p g q) = (g \<le> snd h \<and> (g = snd h \<longrightarrow> fst h = Some p \<and> nx p = q))"
| "knows h nx own (G_clear p) = (p \<in> own)"
| "knows h nx own (A_load b) = (b \<in> own)"
| "knows h nx own (A_link b q g) = (b \<in> own)"
| "knows h nx own (A_cas b q g) = (b \<in> own \<and> nx b = q)"

definition lf_inv :: "lf_sys \<Rightarrow> nat list \<Rightarrow> bool" where
  "lf_inv s S \<longleftrightarrow> stack_of s S \<and> (\<forall>t. lf_own s t \<inter> set S = {}) \<and> (\<forall>t u. t \<noteq> u \<longrightarrow> lf_own s t \<inter> lf_own s u = {}) \<and>
     (\<forall>t. knows (lf_head s) (lf_next s) (lf_own s t) (lf_pc s t))"

text \<open>What a step does to the stack and to the blocks outside.\<close>

definition lf_effect :: "nat list \<Rightarrow> (nat \<Rightarrow> nat set) \<Rightarrow> nat list \<Rightarrow> (nat \<Rightarrow> nat set) \<Rightarrow> bool" where
  "lf_effect S own S' own' \<longleftrightarrow> S' = S \<and> own' = own \<or>
     (\<exists>t b. S' = b # S \<and> b \<in> own t \<and> own' = own(t := own t - {b})) \<or>
     (\<exists>t b. S = b # S' \<and> own' = own(t := insert b (own t)))"

lemma lf_invD:
  assumes "lf_inv s S"
  shows "path (lf_next s) (fst (lf_head s)) S None" and "knows (lf_head s) (lf_next s) (lf_own s t) (lf_pc s t)"
    and "b \<in> lf_own s t \<Longrightarrow> b \<notin> set S" and "b \<in> lf_own s t \<Longrightarrow> t \<noteq> u \<Longrightarrow> b \<notin> lf_own s u"
  using assms unfolding lf_inv_def stack_of_def by blast+

text \<open>A step that moves one thread and touches no memory.\<close>

lemma lf_inv_pc:
  assumes "lf_inv s S" and "knows (lf_head s) (lf_next s) (lf_own s t) p"
  shows "lf_inv (s\<lparr>lf_pc := (lf_pc s)(t := p)\<rparr>) S"
  using assms by (simp add: lf_inv_def stack_of_def)

text \<open>A thread writes the successor of a block of its own.\<close>

lemma knows_write:
  assumes "lf_inv s S" and "b \<in> lf_own s t" and "u \<noteq> t"
  shows "knows (lf_head s) ((lf_next s)(b := q)) (lf_own s u) (lf_pc s u)"
proof -
  note D = lf_invD [OF assms(1)]
  have k: "knows (lf_head s) (lf_next s) (lf_own s u) (lf_pc s u)" and b: "b \<notin> lf_own s u" "b \<notin> set S"
    and S: "path (lf_next s) (fst (lf_head s)) S None"
    using D(1,2) D(3) [OF assms(2)] D(4) [OF assms(2)] assms(3) by auto
  have "fst (lf_head s) \<noteq> Some b" using S b(2) by (cases S) auto
  with k b(1) show ?thesis by (cases "lf_pc s u") auto
qed

lemma lf_inv_write:
  assumes "lf_inv s S" and "b \<in> lf_own s t" and "knows (lf_head s) ((lf_next s)(b := q)) (lf_own s t) p"
  shows "lf_inv (s\<lparr>lf_next := (lf_next s)(b := q), lf_pc := (lf_pc s)(t := p)\<rparr>) S"
proof -
  have "b \<notin> set S" using assms(1,2) by (auto simp: lf_inv_def)
  then show ?thesis using assms(1,3) knows_write [OF assms(1,2)] by (auto simp: lf_inv_def stack_of_def)
qed

text \<open>When the head moves its tag grows, so nobody else's compare-and-swap can succeed.\<close>

lemma knows_newer:
  assumes "knows (q, k) nx own p" and "own \<subseteq> own'"
  shows "knows (q', Suc k) nx own' p"
  using assms by (cases p) auto

lemma lf_step_inv:
  assumes "lf_step s s'" and "lf_inv s S"
  shows "\<exists>S'. lf_inv s' S' \<and> lf_effect S (lf_own s) S' (lf_own s')"
  using assms(1)
proof cases
  case (get_start t)
  then show ?thesis using assms(2) by (auto intro!: exI [of _ S] lf_inv_pc simp: lf_effect_def)
next
  case (get_load t)
  then show ?thesis using assms(2) by (auto intro!: exI [of _ S] lf_inv_pc simp: lf_effect_def split: option.splits)
next
  case (get_next t p g)
  then have "knows (lf_head s) (lf_next s) (lf_own s t) (G_loaded p g)" using lf_invD(2) [OF assms(2), of t] by simp
  then have "lf_inv s' S" using get_next lf_inv_pc [OF assms(2), of t "G_cas p g (lf_next s p)"] by simp
  then show ?thesis using get_next by (auto simp: lf_effect_def)
next
  case (get_cas t p g q h)
  have h: "lf_head s = (Some p, g)" "h = (q, Suc g)" using get_cas(3) by (auto simp: compare_exchange_strong_def split: if_splits)
  have "knows (lf_head s) (lf_next s) (lf_own s t) (G_cas p g q)" using lf_invD(2) [OF assms(2), of t] get_cas(2) by simp
  then have nx: "lf_next s p = q" using h by simp
  have S: "path (lf_next s) (Some p) S None" "\<forall>u. lf_own s u \<inter> set S = {}" using assms(2) h by (auto simp: lf_inv_def stack_of_def)
  then obtain S' where S': "S = p # S'" "path (lf_next s) q S' None" "p \<notin> set S'" using nx path_distinct [OF S(1)] by (cases S) auto
  have k: "knows (Some p, g) (lf_next s) (lf_own s u) (lf_pc s u)" for u using assms(2) h by (auto simp: lf_inv_def)
  have own: "lf_own s' = (lf_own s)(t := insert p (lf_own s t))" and pc: "lf_pc s' = (lf_pc s)(t := G_clear p)"
    and m: "lf_head s' = h" "lf_next s' = lf_next s"
    using get_cas by simp_all
  have dis: "\<forall>u v. u \<noteq> v \<longrightarrow> lf_own s u \<inter> lf_own s v = {}" using assms(2) by (simp add: lf_inv_def)
  have "lf_inv s' S'" unfolding lf_inv_def
  proof (intro conjI allI impI)
    show "stack_of s' S'" using S' h m by (simp add: stack_of_def)
    show "lf_own s' u \<inter> set S' = {}" for u using own S(2) S' by auto
    show "lf_own s' u \<inter> lf_own s' v = {}" if "u \<noteq> v" for u v using own dis S(2) S'(1) that by auto
    show "knows (lf_head s') (lf_next s') (lf_own s' u) (lf_pc s' u)" for u
    proof (cases "u = t")
      case False
      then show ?thesis using knows_newer [OF k [of u], of "lf_own s u" q] own pc m h by simp
    qed (use own pc in simp)
  qed
  moreover have "lf_effect S (lf_own s) S' (lf_own s')" unfolding own lf_effect_def using S'(1) by blast
  ultimately show ?thesis by blast
next
  case (get_fail t p g q)
  then show ?thesis using assms(2) by (auto intro!: exI [of _ S] lf_inv_pc simp: lf_effect_def split: option.splits)
next
  case (get_clear t p)
  then have "p \<in> lf_own s t" using lf_invD(2) [OF assms(2), of t] by simp
  then show ?thesis using get_clear assms(2) by (auto intro!: exI [of _ S] lf_inv_write simp: lf_effect_def)
next
  case (add_start t b)
  then show ?thesis using assms(2) by (auto intro!: exI [of _ S] lf_inv_pc simp: lf_effect_def)
next
  case (add_load t b)
  then have "b \<in> lf_own s t" using lf_invD(2) [OF assms(2), of t] by simp
  then show ?thesis using add_load assms(2) by (auto intro!: exI [of _ S] lf_inv_pc simp: lf_effect_def)
next
  case (add_link t b q g)
  then have "b \<in> lf_own s t" using lf_invD(2) [OF assms(2), of t] by simp
  then show ?thesis using add_link assms(2) by (auto intro!: exI [of _ S] lf_inv_write simp: lf_effect_def)
next
  case (add_cas t b q g h)
  have h: "lf_head s = (q, g)" "h = (Some b, Suc g)" using add_cas(3) by (auto simp: compare_exchange_strong_def split: if_splits)
  have "knows (lf_head s) (lf_next s) (lf_own s t) (A_cas b q g)" using lf_invD(2) [OF assms(2), of t] add_cas(2) by simp
  then have nx: "lf_next s b = q" "b \<in> lf_own s t" by auto
  have S: "path (lf_next s) q S None" "\<forall>u. lf_own s u \<inter> set S = {}" and dis: "\<forall>u v. u \<noteq> v \<longrightarrow> lf_own s u \<inter> lf_own s v = {}"
    and k: "knows (q, g) (lf_next s) (lf_own s u) (lf_pc s u)" for u using assms(2) h by (auto simp: lf_inv_def stack_of_def)
  have own: "lf_own s' = (lf_own s)(t := lf_own s t - {b})" and pc: "lf_pc s' = (lf_pc s)(t := L_out)" and m: "lf_head s' = h" "lf_next s' = lf_next s"
    using add_cas by simp_all
  have "lf_inv s' (b # S)" unfolding lf_inv_def
  proof (intro conjI allI impI)
    show "stack_of s' (b # S)" using S nx h m by (simp add: stack_of_def)
    show "lf_own s' u \<inter> set (b # S) = {}" for u using own S(2) lf_invD(4) [OF assms(2) nx(2), of u] by (cases "u = t") auto
    show "lf_own s' u \<inter> lf_own s' v = {}" if "u \<noteq> v" for u v using own dis that by auto
    show "knows (lf_head s') (lf_next s') (lf_own s' u) (lf_pc s' u)" for u
    proof (cases "u = t")
      case False
      then show ?thesis using knows_newer [OF k [of u], of "lf_own s u" "Some b"] own pc m h by simp
    qed (use own pc in simp)
  qed
  moreover have "lf_effect S (lf_own s) (b # S) (lf_own s')" unfolding own lf_effect_def using nx(2) by blast
  ultimately show ?thesis by blast
next
  case (add_fail t b q g)
  then have "b \<in> lf_own s t" using lf_invD(2) [OF assms(2), of t] by simp
  then show ?thesis using add_fail assms(2) by (auto intro!: exI [of _ S] lf_inv_pc simp: lf_effect_def)
next
  case (use_own t b q)
  have "lf_inv (s\<lparr>lf_next := (lf_next s)(b := q), lf_pc := (lf_pc s)(t := L_out)\<rparr>) S"
    using use_own assms(2) by (intro lf_inv_write) auto
  moreover have "(lf_pc s)(t := L_out) = lf_pc s" using use_own by auto
  ultimately show ?thesis using use_own by (auto intro!: exI [of _ S] simp: lf_effect_def)
qed

lemma lf_start_inv: "(\<And>t u. t \<noteq> u \<Longrightarrow> own t \<inter> own u = {}) \<Longrightarrow> lf_inv (lf_start own nx) []"
  by (auto simp: lf_inv_def lf_start_def stack_of_def)

lemma lf_reach_inv:
  assumes "lf_step\<^sup>*\<^sup>* (lf_start own nx) s" and "\<And>t u. t \<noteq> u \<Longrightarrow> own t \<inter> own u = {}"
  shows "\<exists>S. lf_inv s S \<and> set S \<union> (\<Union>t. lf_own s t) = (\<Union>t. own t)"
  using assms(1)
proof (induction rule: rtranclp_induct)
  case base
  have "lf_inv (lf_start own nx) []" by (rule lf_start_inv) (rule assms(2))
  then show ?case by (intro exI [of _ "[]"]) (simp add: lf_start_def)
next
  case (step s s')
  then obtain S where S: "lf_inv s S" "set S \<union> (\<Union>t. lf_own s t) = (\<Union>t. own t)" by blast
  then obtain S' where S': "lf_inv s' S'" "lf_effect S (lf_own s) S' (lf_own s')" using lf_step_inv [OF step(2)] by blast
  have "set S' \<union> (\<Union>t. lf_own s' t) = set S \<union> (\<Union>t. lf_own s t)"
    using S'(2) unfolding lf_effect_def by (elim disjE exE conjE) (auto split: if_splits, metis+)
  then show ?case using S' S(2) by auto
qed

text \<open>
  (C39) The shared bag is a concurrent stack. In every interleaving of the accesses of any number of
  threads, with compare-and-swaps that fail for no reason and with owners that rewrite the links of
  their blocks, the bag is a finite chain of different blocks, no block is lost, in the bag and
  outside, or owned twice, and every step leaves the chain alone, or pushes a block of the thread,
  which loses it, or pops the first block, which the thread gets. The tag excludes the ABA
  problem.
\<close>

theorem shared_bag_linearizable:
  assumes "lf_step\<^sup>*\<^sup>* (lf_start own nx) s" and "\<forall>t u. t \<noteq> u \<longrightarrow> own t \<inter> own u = {}"
  shows "\<exists>S. stack_of s S \<and> distinct S \<and> (\<forall>t. lf_own s t \<inter> set S = {}) \<and> (\<forall>t u. t \<noteq> u \<longrightarrow> lf_own s t \<inter> lf_own s u = {}) \<and>
     set S \<union> (\<Union>t. lf_own s t) = (\<Union>t. own t) \<and>
     (\<forall>s'. lf_step s s' \<longrightarrow> (\<exists>S'. stack_of s' S' \<and> lf_effect S (lf_own s) S' (lf_own s')))"
proof -
  obtain S where S: "lf_inv s S" "set S \<union> (\<Union>t. lf_own s t) = (\<Union>t. own t)" using lf_reach_inv [OF assms(1)] assms(2) by blast
  have "distinct S" using path_distinct [OF lf_invD(1) [OF S(1)]] .
  moreover have "\<exists>S'. stack_of s' S' \<and> lf_effect S (lf_own s) S' (lf_own s')" if "lf_step s s'" for s'
    using lf_step_inv [OF that S(1)] by (auto simp: lf_inv_def)
  ultimately show ?thesis using S by (intro exI [of _ S]) (auto simp: lf_inv_def)
qed

text \<open>Thread 0 puts its block 7 into the bag while thread 1 is inside \<open>getBlock\<close>.\<close>

lemma lf_then: "lf_step\<^sup>*\<^sup>* a s \<Longrightarrow> lf_step s s' \<Longrightarrow> s' = b \<Longrightarrow> lf_step\<^sup>*\<^sup>* a b"
  by (simp add: rtranclp.rtrancl_into_rtrancl)

definition lf_demo :: "nat option \<times> nat \<Rightarrow> nat set \<Rightarrow> nat set \<Rightarrow> lf_pc \<Rightarrow> lf_pc \<Rightarrow> lf_sys" where
  "lf_demo h x y p q = \<lparr>lf_head = h, lf_next = (\<lambda>_. None), lf_own = (\<lambda>_. {})(1 := y, 0 := x), lf_dead = {}, lf_pc = (\<lambda>_. L_out)(1 := q, 0 := p)\<rparr>"

lemma lf_demo_run:
  defines "a \<equiv> lf_start ((\<lambda>_. {})(0 := {7})) (\<lambda>_. None)"
  shows "lf_step\<^sup>*\<^sup>* a (lf_demo (Some 7, 1) {} {} L_out L_out)"
proof -
  have "lf_step\<^sup>*\<^sup>* a (lf_demo (None, 0) {7} {} L_out L_out)" by (simp add: a_def lf_start_def lf_demo_def fun_upd_idem fun_upd_twist)
  then have "lf_step\<^sup>*\<^sup>* a (lf_demo (None, 0) {7} {} (A_load 7) L_out)" by (rule lf_then [OF _ add_start [where t = 0 and b = 7]]) (auto simp: lf_demo_def)
  then have "lf_step\<^sup>*\<^sup>* a (lf_demo (None, 0) {7} {} (A_link 7 None 0) L_out)" by (rule lf_then [OF _ add_load [where t = 0 and b = 7]]) (auto simp: lf_demo_def)
  then have "lf_step\<^sup>*\<^sup>* a (lf_demo (None, 0) {7} {} (A_cas 7 None 0) L_out)"
    by (rule lf_then [OF _ add_link [where t = 0 and b = 7 and q = None and g = 0]]) (auto simp: lf_demo_def)
  then show ?thesis
    by (rule lf_then [OF _ add_cas [where t = 0 and b = 7 and q = None and g = 0 and h = "(Some 7, 1)"]])
      (auto simp: lf_demo_def compare_exchange_strong_def)
qed

theorem shared_bag_linearizable_witness:
  "\<exists>s. lf_step\<^sup>*\<^sup>* (lf_start ((\<lambda>_. {})(0 := {7})) (\<lambda>_. None)) s \<and> stack_of s [7] \<and> (\<forall>t. lf_own s t = {})"
proof -
  let ?s = "lf_demo (Some 7, 1) {} {} L_out L_out"
  have "\<forall>t u. t \<noteq> u \<longrightarrow> ((\<lambda>_. {})(0 := {7 :: nat})) t \<inter> ((\<lambda>_. {})(0 := {7})) (u :: nat) = {}" by auto
  from shared_bag_linearizable [OF lf_demo_run this] obtain S where S: "stack_of ?s S" by (elim exE conjE)
  have "path (\<lambda>_. None) (Some 7) [7] None" by simp
  then have "stack_of ?s [7]" unfolding stack_of_def lf_demo_def by simp
  moreover have "\<forall>t. lf_own ?s t = {}" by (simp add: lf_demo_def)
  ultimately show ?thesis using lf_demo_run by blast
qed

section \<open>Blocks that are deleted\<close>

text \<open>
  The owner of a block may hand it to its block pool, which deletes it when the pool is full.
\<close>

inductive lf_del_step :: "lf_sys \<Rightarrow> lf_sys \<Rightarrow> bool" where
  lf_del: "lf_pc s t = L_out \<Longrightarrow> b \<in> lf_own s t \<Longrightarrow>
    lf_del_step s (s\<lparr>lf_own := (lf_own s)(t := lf_own s t - {b}), lf_dead := insert b (lf_dead s)\<rparr>)"
| lf_keep: "lf_step s s' \<Longrightarrow> lf_del_step s s'"

lemma lf_steps_del: "lf_step\<^sup>*\<^sup>* a s \<Longrightarrow> lf_del_step\<^sup>*\<^sup>* a s"
  by (induction rule: rtranclp_induct) (auto intro: rtranclp.rtrancl_into_rtrancl lf_keep)

text \<open>
  (C40) The tag does not protect the block: \<open>getBlock\<close> reads the successor of the first block after
  another thread has taken the block out of the bag, emptied it and deleted it.
\<close>

theorem getBlock_reads_deleted:
  "\<exists>s t p g. lf_del_step\<^sup>*\<^sup>* (lf_start ((\<lambda>_. {})(0 := {7})) (\<lambda>_. None)) s \<and> lf_pc s t = G_loaded p g \<and> p \<in> lf_dead s"
proof -
  let ?a = "lf_start ((\<lambda>_. {})(0 := {7})) (\<lambda>_. None)" and ?s = "lf_demo (None, 2) {7} {} L_out (G_loaded 7 1)"
  let ?d = "?s\<lparr>lf_own := (lf_own ?s)(0 := lf_own ?s 0 - {7}), lf_dead := insert 7 (lf_dead ?s)\<rparr>"
  have "lf_step\<^sup>*\<^sup>* ?a (lf_demo (Some 7, 1) {} {} L_out L_out)" by (rule lf_demo_run)
  then have "lf_step\<^sup>*\<^sup>* ?a (lf_demo (Some 7, 1) {} {} L_out G_load)" by (rule lf_then [OF _ get_start [where t = 1]]) (auto simp: lf_demo_def)
  then have "lf_step\<^sup>*\<^sup>* ?a (lf_demo (Some 7, 1) {} {} L_out (G_loaded 7 1))" by (rule lf_then [OF _ get_load [where t = 1]]) (auto simp: lf_demo_def)
  then have "lf_step\<^sup>*\<^sup>* ?a (lf_demo (Some 7, 1) {} {} G_load (G_loaded 7 1))" by (rule lf_then [OF _ get_start [where t = 0]]) (auto simp: lf_demo_def)
  then have "lf_step\<^sup>*\<^sup>* ?a (lf_demo (Some 7, 1) {} {} (G_loaded 7 1) (G_loaded 7 1))" by (rule lf_then [OF _ get_load [where t = 0]]) (auto simp: lf_demo_def)
  then have "lf_step\<^sup>*\<^sup>* ?a (lf_demo (Some 7, 1) {} {} (G_cas 7 1 None) (G_loaded 7 1))"
    by (rule lf_then [OF _ get_next [where t = 0 and p = 7 and g = 1]]) (auto simp: lf_demo_def)
  then have "lf_step\<^sup>*\<^sup>* ?a (lf_demo (None, 2) {7} {} (G_clear 7) (G_loaded 7 1))"
    by (rule lf_then [OF _ get_cas [where t = 0 and p = 7 and g = 1 and q = None and h = "(None, 2)"]]) (auto simp: lf_demo_def compare_exchange_strong_def)
  then have "lf_step\<^sup>*\<^sup>* ?a (lf_demo (None, 2) {7} {} L_out (G_loaded 7 1))"
    by (rule lf_then [OF _ get_clear [where t = 0 and p = 7]]) (auto simp: lf_demo_def)
  then have "lf_del_step\<^sup>*\<^sup>* ?a (lf_demo (None, 2) {7} {} L_out (G_loaded 7 1))" by (rule lf_steps_del)
  moreover have "lf_del_step ?s ?d" by (rule lf_del [where t = 0 and b = 7]) (auto simp: lf_demo_def)
  ultimately have "lf_del_step\<^sup>*\<^sup>* ?a ?d" by (rule rtranclp.rtrancl_into_rtrancl)
  moreover have "lf_pc ?d 1 = G_loaded 7 1" "7 \<in> lf_dead ?d" by (simp_all add: lf_demo_def)
  ultimately show ?thesis by blast
qed

end
