(* ===== verification/RWLock.thy ===== *)
theory RWLock
  imports LockProtocol
begin

text \<open>
  The readers-writer locks of \<^verbatim>\<open>common/rwlock.h\<close>, in both of its own variants: one word with the
  number of readers and a writer bit, the variant that favours readers with an upgrade bit too.
  A step is one access to the word by one thread. Weights relate the word to the threads: every
  thread accounts for what it has added.
\<close>

unbundle bit_operations_syntax

section \<open>Words that count threads\<close>

lemma word_bit_test:
  fixes w :: "'a :: len word"
  shows "w AND 1 = 0 \<longleftrightarrow> \<not> bit w 0" and "w AND 2 = 0 \<longleftrightarrow> \<not> bit w 1"
  using and_exp_eq_0_iff_not_bit [of w 0] and_exp_eq_0_iff_not_bit [of w 1] by simp_all

lemma bit_nat_iff_unat: "bit (unat w) k = bit w k"
  by (simp add: bit_unsigned_iff)

lemma nat_low_bits: "bit (m :: nat) 0 \<longleftrightarrow> m mod 4 mod 2 = 1" "bit m 1 \<longleftrightarrow> m mod 4 div 2 = 1"
  by (simp_all add: bit_iff_odd) presburger+

locale weighted_lock =
  fixes wt :: "'pc \<Rightarrow> nat"
  assumes wt_le: "wt x \<le> 4"
begin

definition weight :: "nat \<Rightarrow> (nat \<Rightarrow> 'pc) \<Rightarrow> nat" where
  "weight n pc = (\<Sum>t<n. wt (pc t))"

lemma weight_bound: "n < 2 ^ 62 \<Longrightarrow> weight n pc < 2 ^ 64"
proof -
  assume n: "n < 2 ^ 62"
  have "weight n pc \<le> (\<Sum>t<n. 4)" unfolding weight_def by (rule sum_mono) (rule wt_le)
  then show ?thesis using n by simp
qed

lemma weight_split: "t < n \<Longrightarrow> weight n pc = wt (pc t) + (\<Sum>u\<in>{..<n} - {t}. wt (pc u))"
  unfolding weight_def by (rule sum.remove) auto

lemma weight_upd: "t < n \<Longrightarrow> weight n (pc(t := x)) + wt (pc t) = weight n pc + wt x"
  using weight_split [of t n pc] weight_split [of t n "pc(t := x)"] by simp

lemma weight_zero: "weight n pc = 0 \<longleftrightarrow> (\<forall>t<n. wt (pc t) = 0)"
  by (auto simp: weight_def)

lemma weight_alone: "t < n \<Longrightarrow> weight n pc = wt (pc t) \<longleftrightarrow> (\<forall>u<n. u \<noteq> t \<longrightarrow> wt (pc u) = 0)"
  using weight_split [of t n pc] by auto

lemma weight_mod:
  assumes "t < n" and "\<And>u. u < n \<Longrightarrow> u \<noteq> t \<Longrightarrow> k dvd wt (pc u)"
  shows "weight n pc mod k = wt (pc t) mod k"
proof -
  have "k dvd (\<Sum>u\<in>{..<n} - {t}. wt (pc u))" using assms(2) by (intro dvd_sum) auto
  then show ?thesis using weight_split [OF assms(1)] by (metis add.right_neutral dvd_imp_mod_0 mod_add_right_eq)
qed

lemma weight_mod_0: "(\<And>u. u < n \<Longrightarrow> k dvd wt (pc u)) \<Longrightarrow> weight n pc mod k = 0"
  unfolding weight_def by (intro dvd_imp_mod_0 dvd_sum) auto

text \<open>The word that counts.\<close>

definition counts :: "nat \<Rightarrow> u64 \<Rightarrow> (nat \<Rightarrow> 'pc) \<Rightarrow> bool" where
  "counts n l pc \<longleftrightarrow> l = of_nat (weight n pc)"

lemma counts_upd:
  assumes "counts n l pc" and "t < n" and "l' = l + of_nat (wt x) - of_nat (wt (pc t))"
  shows "counts n l' (pc(t := x))"
proof -
  have "(of_nat (weight n (pc(t := x))) :: u64) + of_nat (wt (pc t)) = of_nat (weight n pc) + of_nat (wt x)"
    using weight_upd [OF assms(2), of pc x] by (metis of_nat_add)
  then have "of_nat (weight n (pc(t := x))) = of_nat (weight n pc) + of_nat (wt x) - (of_nat (wt (pc t)) :: u64)"
    by (simp only: eq_diff_eq)
  then show ?thesis using assms(1,3) by (simp only: counts_def)
qed

lemma counts_unat: "counts n l pc \<Longrightarrow> n < 2 ^ 62 \<Longrightarrow> unat l = weight n pc"
  using weight_bound [of n pc] by (simp add: counts_def unat_of_nat take_bit_nat_eq_self)

lemma counts_bit: "counts n l pc \<Longrightarrow> n < 2 ^ 62 \<Longrightarrow> k < 64 \<Longrightarrow> bit l k \<longleftrightarrow> bit (weight n pc) k"
  using counts_unat [of n l pc] by (metis (no_types) bit_nat_iff_unat)

end

section \<open>The lock that favours readers\<close>

definition rd_isWriteLocked :: "u64 \<Rightarrow> bool" where
  "rd_isWriteLocked l \<longleftrightarrow> l AND 1 \<noteq> 0"

definition rd_isReadLocked :: "u64 \<Rightarrow> bool" where
  "rd_isReadLocked l \<longleftrightarrow> l AND NOT 3 \<noteq> 0"

definition rd_isUpgrading :: "u64 \<Rightarrow> bool" where
  "rd_isUpgrading l \<longleftrightarrow> l AND 2 \<noteq> 0"

definition rd_isLocked :: "u64 \<Rightarrow> bool" where
  "rd_isLocked l \<longleftrightarrow> l \<noteq> 0"

definition new_rd_RWLock :: u64 where
  "new_rd_RWLock = 0"

text \<open>
  Where a thread stands: outside; after its increment in \<open>readLock\<close>; reading; before the load of
  \<open>upgradeLock\<close>, and before its first compare-and-swap with the word it has loaded; waiting for the
  readers to leave, and before the second compare-and-swap; in the loop of \<open>writeLock\<close>, and before its
  compare-and-swap; writing.
\<close>

datatype rd_pc = R_out | R_wait | R_read | U_load | U_cas u64 | U_wait | U_write | W_wait | W_cas | W_hold

record 'pc rw_sys =
  rw_lock :: u64
  rw_pc :: "nat \<Rightarrow> 'pc"

definition upgrade_val :: "u64 \<Rightarrow> u64" where
  "upgrade_val expval = (expval - 4) OR 2"

inductive rd_step :: "nat \<Rightarrow> rd_pc rw_sys \<Rightarrow> rd_pc rw_sys \<Rightarrow> bool" for n where
  rd_add: "t < n \<Longrightarrow> rw_pc s t = R_out \<Longrightarrow>
    rd_step n s (s\<lparr>rw_lock := rw_lock s + 4, rw_pc := (rw_pc s)(t := R_wait)\<rparr>)"
| rd_spin: "t < n \<Longrightarrow> rw_pc s t = R_wait \<Longrightarrow>
    rd_step n s (s\<lparr>rw_pc := (rw_pc s)(t := if rd_isWriteLocked (rw_lock s) then R_wait else R_read)\<rparr>)"
| rd_unlock: "t < n \<Longrightarrow> rw_pc s t = R_read \<Longrightarrow>
    rd_step n s (s\<lparr>rw_lock := rw_lock s + - 4, rw_pc := (rw_pc s)(t := R_out)\<rparr>)"
| rd_upgrade: "t < n \<Longrightarrow> rw_pc s t = R_read \<Longrightarrow> rd_step n s (s\<lparr>rw_pc := (rw_pc s)(t := U_load)\<rparr>)"
| rd_upgrade_load: "t < n \<Longrightarrow> rw_pc s t = U_load \<Longrightarrow>
    rd_step n s (s\<lparr>rw_pc := (rw_pc s)(t := if rw_lock s AND 2 \<noteq> 0 then R_read else U_cas (rw_lock s))\<rparr>)"
| rd_upgrade_cas: "t < n \<Longrightarrow> rw_pc s t = U_cas e \<Longrightarrow> compare_exchange_strong (rw_lock s) e (upgrade_val e) = (ok, w) \<Longrightarrow>
    rd_step n s (s\<lparr>rw_lock := w, rw_pc := (rw_pc s)(t := if ok then U_wait else U_load)\<rparr>)"
| rd_upgrade_spin: "t < n \<Longrightarrow> rw_pc s t = U_wait \<Longrightarrow>
    rd_step n s (s\<lparr>rw_pc := (rw_pc s)(t := if rw_lock s AND NOT 2 \<noteq> 0 then U_wait else U_write)\<rparr>)"
| rd_upgrade_write: "t < n \<Longrightarrow> rw_pc s t = U_write \<Longrightarrow> compare_exchange_strong (rw_lock s) 2 1 = (ok, w) \<Longrightarrow>
    rd_step n s (s\<lparr>rw_lock := w, rw_pc := (rw_pc s)(t := if ok then W_hold else U_wait)\<rparr>)"
| rd_write: "t < n \<Longrightarrow> rw_pc s t = R_out \<Longrightarrow> rd_step n s (s\<lparr>rw_pc := (rw_pc s)(t := W_wait)\<rparr>)"
| rd_write_spin: "t < n \<Longrightarrow> rw_pc s t = W_wait \<Longrightarrow>
    rd_step n s (s\<lparr>rw_pc := (rw_pc s)(t := if rd_isLocked (rw_lock s) then W_wait else W_cas)\<rparr>)"
| rd_write_cas: "t < n \<Longrightarrow> rw_pc s t = W_cas \<Longrightarrow> compare_exchange_strong (rw_lock s) 0 1 = (ok, w) \<Longrightarrow>
    rd_step n s (s\<lparr>rw_lock := w, rw_pc := (rw_pc s)(t := if ok then W_hold else W_wait)\<rparr>)"
| rd_write_unlock: "t < n \<Longrightarrow> rw_pc s t = W_hold \<Longrightarrow>
    rd_step n s (s\<lparr>rw_lock := rw_lock s + - 1, rw_pc := (rw_pc s)(t := R_out)\<rparr>)"

fun rd_wt :: "rd_pc \<Rightarrow> nat" where
  "rd_wt R_wait = 4" | "rd_wt R_read = 4" | "rd_wt U_load = 4" | "rd_wt (U_cas e) = 4"
| "rd_wt U_wait = 2" | "rd_wt U_write = 2" | "rd_wt W_hold = 1" | "rd_wt _ = 0"

fun rd_reading :: "rd_pc \<Rightarrow> bool" where
  "rd_reading R_read = True" | "rd_reading U_load = True" | "rd_reading (U_cas e) = True" | "rd_reading _ = False"

interpretation rd: weighted_lock rd_wt
proof
  show "rd_wt x \<le> 4" for x by (cases x) auto
qed

text \<open>A thread that has taken the upgrade bit or the writer bit.\<close>

definition rd_special :: "rd_pc \<Rightarrow> bool" where
  "rd_special p \<longleftrightarrow> p = U_wait \<or> p = U_write \<or> p = W_hold"

definition rd_inv :: "nat \<Rightarrow> rd_pc rw_sys \<Rightarrow> bool" where
  "rd_inv n s \<longleftrightarrow> rd.counts n (rw_lock s) (rw_pc s) \<and>
     (\<forall>t<n. \<forall>u<n. rd_special (rw_pc s t) \<longrightarrow> rd_special (rw_pc s u) \<longrightarrow> t = u) \<and>
     (\<forall>t<n. \<forall>u<n. rw_pc s t = W_hold \<longrightarrow> \<not> rd_reading (rw_pc s u)) \<and>
     (\<forall>t<n. \<forall>e. rw_pc s t = U_cas e \<longrightarrow> e AND 2 = 0)"

lemma rd_wt_4: "4 dvd rd_wt p \<longleftrightarrow> \<not> rd_special p"
  by (cases p) (auto simp: rd_special_def)

text \<open>The two low bits of the word tell whether some thread is special.\<close>

lemma rd_low_bits:
  assumes "rd_inv n s"
  shows "t < n \<Longrightarrow> rd_special (rw_pc s t) \<Longrightarrow> rd.weight n (rw_pc s) mod 4 = rd_wt (rw_pc s t)"
    and "(\<And>t. t < n \<Longrightarrow> \<not> rd_special (rw_pc s t)) \<Longrightarrow> rd.weight n (rw_pc s) mod 4 = 0"
proof -
  show "rd.weight n (rw_pc s) mod 4 = rd_wt (rw_pc s t)" if t: "t < n" "rd_special (rw_pc s t)"
  proof -
    have "4 dvd rd_wt (rw_pc s u)" if "u < n" "u \<noteq> t" for u
      unfolding rd_wt_4 using assms t that by (auto simp: rd_inv_def)
    then have "rd.weight n (rw_pc s) mod 4 = rd_wt (rw_pc s t) mod 4" by (rule rd.weight_mod [OF t(1)])
    then show ?thesis using t(2) by (auto simp: rd_special_def)
  qed
  show "rd.weight n (rw_pc s) mod 4 = 0" if "\<And>t. t < n \<Longrightarrow> \<not> rd_special (rw_pc s t)"
    using that by (intro rd.weight_mod_0) (simp add: rd_wt_4)
qed

lemma rd_tests:
  assumes "rd_inv n s" and "n < 2 ^ 62"
  shows "rd_isWriteLocked (rw_lock s) \<longleftrightarrow> (\<exists>t<n. rw_pc s t = W_hold)"
    and "rw_lock s AND 2 \<noteq> 0 \<longleftrightarrow> (\<exists>t<n. rw_pc s t = U_wait \<or> rw_pc s t = U_write)"
proof -
  let ?W = "rd.weight n (rw_pc s)"
  have c: "rd.counts n (rw_lock s) (rw_pc s)" using assms(1) by (simp add: rd_inv_def)
  have w: "rd_isWriteLocked (rw_lock s) \<longleftrightarrow> ?W mod 4 mod 2 = 1" and u: "rw_lock s AND 2 \<noteq> 0 \<longleftrightarrow> ?W mod 4 div 2 = 1"
    using rd.counts_bit [OF c assms(2), of 0] rd.counts_bit [OF c assms(2), of 1]
    by (simp_all only: rd_isWriteLocked_def word_bit_test nat_low_bits) simp_all
  have "?W mod 4 = 0" if "\<forall>t<n. \<not> rd_special (rw_pc s t)" using rd_low_bits(2) [OF assms(1)] that by blast
  moreover have "?W mod 4 = rd_wt (rw_pc s t)" if "t < n" "rd_special (rw_pc s t)" for t using rd_low_bits(1) [OF assms(1) that] .
  moreover have "t = u" if "t < n" "u < n" "rd_special (rw_pc s t)" "rd_special (rw_pc s u)" for t u using assms(1) that by (simp add: rd_inv_def)
  ultimately show "rd_isWriteLocked (rw_lock s) \<longleftrightarrow> (\<exists>t<n. rw_pc s t = W_hold)"
    "rw_lock s AND 2 \<noteq> 0 \<longleftrightarrow> (\<exists>t<n. rw_pc s t = U_wait \<or> rw_pc s t = U_write)"
    unfolding w u by (cases "\<exists>t<n. rd_special (rw_pc s t)"; force simp: rd_special_def)+
qed

text \<open>One thread moves.\<close>

lemma rd_move:
  assumes "rd_inv n s" and "t < n" and "l = rw_lock s + of_nat (rd_wt x) - of_nat (rd_wt (rw_pc s t))"
    and "rd_special x \<Longrightarrow> \<forall>u<n. u \<noteq> t \<longrightarrow> \<not> rd_special (rw_pc s u)"
    and "x = W_hold \<Longrightarrow> \<forall>u<n. u \<noteq> t \<longrightarrow> \<not> rd_reading (rw_pc s u)"
    and "rd_reading x \<Longrightarrow> \<forall>u<n. u \<noteq> t \<longrightarrow> rw_pc s u \<noteq> W_hold" and "\<And>e. x = U_cas e \<Longrightarrow> e AND 2 = 0"
  shows "rd_inv n (s\<lparr>rw_lock := l, rw_pc := (rw_pc s)(t := x)\<rparr>)"
proof -
  have "rd.counts n l ((rw_pc s)(t := x))" using assms(1) by (intro rd.counts_upd [where l = "rw_lock s" and pc = "rw_pc s" and x = x, OF _ assms(2,3)]) (simp add: rd_inv_def)
  moreover have "rd_reading x \<Longrightarrow> x \<noteq> W_hold" by auto
  ultimately show ?thesis using assms(1,4-7) unfolding rd_inv_def by simp blast
qed

lemma rd_stay:
  assumes "rd_inv n s" and "t < n" and "rd_wt x = rd_wt (rw_pc s t)"
    and "rd_special x \<Longrightarrow> \<forall>u<n. u \<noteq> t \<longrightarrow> \<not> rd_special (rw_pc s u)"
    and "x = W_hold \<Longrightarrow> \<forall>u<n. u \<noteq> t \<longrightarrow> \<not> rd_reading (rw_pc s u)"
    and "rd_reading x \<Longrightarrow> \<forall>u<n. u \<noteq> t \<longrightarrow> rw_pc s u \<noteq> W_hold" and "\<And>e. x = U_cas e \<Longrightarrow> e AND 2 = 0"
  shows "rd_inv n (s\<lparr>rw_pc := (rw_pc s)(t := x)\<rparr>)"
  using rd_move [OF assms(1,2) _ assms(4-7), of "rw_lock s"] assms(3) by simp

lemma rd_others:
  assumes "rd_inv n s" and "t < n"
  shows "rd_special (rw_pc s t) \<Longrightarrow> \<forall>u<n. u \<noteq> t \<longrightarrow> \<not> rd_special (rw_pc s u)"
    and "rd_reading (rw_pc s t) \<Longrightarrow> \<forall>u<n. rw_pc s u \<noteq> W_hold"
  using assms by (auto simp: rd_inv_def)

lemma rd_wt_0: "rd_wt p = 0 \<Longrightarrow> \<not> rd_special p \<and> \<not> rd_reading p \<and> p \<noteq> W_hold"
  by (cases p) (auto simp: rd_special_def)

lemma upgrade_val_eq:
  assumes "rd_inv n s" and "n < 2 ^ 62" and "t < n" and "rw_pc s t = U_cas (rw_lock s)"
  shows "upgrade_val (rw_lock s) = rw_lock s + 2 - 4" and "\<forall>u<n. \<not> rd_special (rw_pc s u)"
proof -
  let ?l = "rw_lock s" and ?W = "rd.weight n (rw_pc s)"
  have "?l AND 2 = 0" using assms(1,3,4) by (simp add: rd_inv_def)
  then show sp: "\<forall>u<n. \<not> rd_special (rw_pc s u)"
    using rd_tests(2) [OF assms(1,2)] rd_others(2) [OF assms(1,3)] assms(4) by (auto simp: rd_special_def)
  then have m: "?W mod 4 = 0" using rd_low_bits(2) [OF assms(1)] by blast
  have c: "rd.counts n ?l (rw_pc s)" using assms(1) by (simp add: rd_inv_def)
  obtain k where W: "?W = k + 4"
  proof
    have "rd_wt (rw_pc s t) = 4" using assms(4) by simp
    then show "?W = (\<Sum>u\<in>{..<n} - {t}. rd_wt (rw_pc s u)) + 4" using rd.weight_split [OF assms(3), of "rw_pc s"] by (simp only: add.commute)
  qed
  then have "(of_nat ?W :: u64) = of_nat k + 4" by (simp only: of_nat_add of_nat_numeral)
  then have l: "?l - 4 = of_nat k" using c by (simp only: rd.counts_def add_diff_cancel)
  have "k < 2 ^ 64" using rd.weight_bound [OF assms(2), of "rw_pc s"] W by linarith
  then have "unat (?l - 4) = k" unfolding l by (simp add: unat_of_nat take_bit_nat_eq_self)
  moreover have "\<not> bit k 1" using m unfolding nat_low_bits W by presburger
  ultimately have "\<not> bit (?l - 4) 1" by (metis bit_nat_iff_unat)
  then have "?l - 4 + 2 = (?l - 4) OR 2" by (intro disjunctive_add_eq_or) (simp only: word_bit_test, simp)
  then show "upgrade_val ?l = ?l + 2 - 4" by (simp add: upgrade_val_def)
qed

lemma rd_step_inv:
  assumes "rd_step n s s'" and "rd_inv n s" and "n < 2 ^ 62"
  shows "rd_inv n s'"
  using assms(1)
proof cases
  case (rd_add t)
  then show ?thesis by (auto intro!: rd_move [OF assms(2)] simp: rd_special_def)
next
  case (rd_spin t)
  then show ?thesis using rd_tests(1) [OF assms(2,3)] by (auto intro!: rd_stay [OF assms(2)] simp: rd_special_def)
next
  case (rd_unlock t)
  then show ?thesis by (auto intro!: rd_move [OF assms(2)] simp: rd_special_def)
next
  case (rd_upgrade t)
  then show ?thesis using rd_others(2) [OF assms(2), of t] by (auto intro!: rd_stay [OF assms(2)] simp: rd_special_def)
next
  case (rd_upgrade_load t)
  then show ?thesis using rd_others(2) [OF assms(2), of t] by (auto intro!: rd_stay [OF assms(2)] simp: rd_special_def)
next
  case (rd_upgrade_cas t e ok w)
  then show ?thesis
  proof (cases "rw_lock s = e")
    case True
    note up = upgrade_val_eq [OF assms(2,3) rd_upgrade_cas(2) rd_upgrade_cas(3) [folded True]]
    show ?thesis using rd_upgrade_cas True up by (auto intro!: rd_move [OF assms(2)] simp: compare_exchange_strong_def)
  next
    case False
    then show ?thesis using rd_upgrade_cas rd_others(2) [OF assms(2), of t]
      by (auto intro!: rd_move [OF assms(2)] simp: compare_exchange_strong_def rd_special_def)
  qed
next
  case (rd_upgrade_spin t)
  then show ?thesis using rd_others(1) [OF assms(2), of t] by (auto intro!: rd_stay [OF assms(2)] simp: rd_special_def)
next
  case (rd_upgrade_write t ok w)
  have sp: "\<forall>u<n. u \<noteq> t \<longrightarrow> \<not> rd_special (rw_pc s u)" using rd_others(1) [OF assms(2), of t] rd_upgrade_write by (simp add: rd_special_def)
  show ?thesis
  proof (cases "rw_lock s = 2")
    case True
    then have "rd.weight n (rw_pc s) = rd_wt (rw_pc s t)"
      using rd.counts_unat [of n 2 "rw_pc s"] assms(2,3) rd_upgrade_write(3) by (simp add: rd_inv_def)
    then have "\<forall>u<n. u \<noteq> t \<longrightarrow> \<not> rd_reading (rw_pc s u)" using rd.weight_alone [OF rd_upgrade_write(2)] rd_wt_0 by blast
    then show ?thesis using rd_upgrade_write True sp by (auto intro!: rd_move [OF assms(2)] simp: compare_exchange_strong_def)
  next
    case False
    then show ?thesis using rd_upgrade_write sp by (auto intro!: rd_move [OF assms(2)] simp: compare_exchange_strong_def)
  qed
next
  case (rd_write t)
  then show ?thesis by (auto intro!: rd_stay [OF assms(2)] simp: rd_special_def)
next
  case (rd_write_spin t)
  then show ?thesis by (auto intro!: rd_stay [OF assms(2)] simp: rd_special_def)
next
  case (rd_write_cas t ok w)
  show ?thesis
  proof (cases "rw_lock s = 0")
    case True
    then have "rd.weight n (rw_pc s) = 0" using rd.counts_unat [of n 0 "rw_pc s"] assms(2,3) by (simp add: rd_inv_def)
    then have "\<forall>u<n. \<not> rd_special (rw_pc s u) \<and> \<not> rd_reading (rw_pc s u)" using rd.weight_zero rd_wt_0 by blast
    then show ?thesis using rd_write_cas True by (auto intro!: rd_move [OF assms(2)] simp: compare_exchange_strong_def)
  next
    case False
    then show ?thesis using rd_write_cas by (auto intro!: rd_move [OF assms(2)] simp: compare_exchange_strong_def rd_special_def)
  qed
next
  case (rd_write_unlock t)
  then show ?thesis by (auto intro!: rd_move [OF assms(2)] simp: rd_special_def)
qed

definition rd_start :: "rd_pc rw_sys" where
  "rd_start = \<lparr>rw_lock = new_rd_RWLock, rw_pc = (\<lambda>_. R_out)\<rparr>"

lemma rd_start_inv: "rd_inv n rd_start"
proof -
  have "rd.weight n (\<lambda>_. R_out) = 0" by (simp add: rd.weight_zero)
  then show ?thesis by (auto simp: rd_inv_def rd_start_def new_rd_RWLock_def rd.counts_def rd_special_def)
qed

lemma rd_reach_inv: "(rd_step n)\<^sup>*\<^sup>* rd_start s \<Longrightarrow> n < 2 ^ 62 \<Longrightarrow> rd_inv n s"
  by (induction rule: rtranclp_induct) (auto intro: rd_start_inv rd_step_inv)

lemma word_high_test:
  fixes w :: u64
  shows "w AND NOT 3 = 0 \<longleftrightarrow> unat w < 4" and "w AND NOT 1 = 0 \<longleftrightarrow> unat w < 2"
proof -
  have m: "w AND NOT (mask k) = 0 \<longleftrightarrow> unat w < 2 ^ k" if "k = 1 \<or> k = 2" for k
  proof -
    have "w AND NOT (mask k) = 0 \<longleftrightarrow> take_bit k w = w"
      by (auto simp: take_bit_eq_mask bit_eq_iff bit_simps)
    also have "\<dots> \<longleftrightarrow> take_bit k (unat w) = unat w" by (metis unsigned_take_bit_eq unsigned_word_eqI)
    finally show ?thesis by (simp add: take_bit_nat_eq_self_iff)
  qed
  show "w AND NOT 3 = 0 \<longleftrightarrow> unat w < 4" using m [of 2] by (simp add: mask_eq_exp_minus_1)
  show "w AND NOT 1 = 0 \<longleftrightarrow> unat w < 2" using m [of 1] by (simp add: mask_eq_exp_minus_1)
qed

lemma rd_isReadLocked_iff:
  assumes "rd_inv n s" and "n < 2 ^ 62"
  shows "rd_isReadLocked (rw_lock s) \<longleftrightarrow> (\<exists>t<n. rd_wt (rw_pc s t) = 4)"
proof -
  have w: "unat (rw_lock s) = rd.weight n (rw_pc s)" using assms by (intro rd.counts_unat) (simp_all add: rd_inv_def)
  have "4 \<le> rd.weight n (rw_pc s)" if "t < n" "rd_wt (rw_pc s t) = 4" for t using rd.weight_split [OF that(1), of "rw_pc s"] that(2) by simp
  moreover have "rd.weight n (rw_pc s) < 4" if no: "\<forall>t<n. rd_wt (rw_pc s t) \<noteq> 4"
  proof (cases "\<exists>t<n. rd_special (rw_pc s t)")
    case True
    then obtain t where t: "t < n" "rd_special (rw_pc s t)" by blast
    have "rd_wt (rw_pc s u) = 0" if "u < n" "u \<noteq> t" for u
      using rd_others(1) [OF assms(1) t] that no by (cases "rw_pc s u") (auto simp: rd_special_def)
    then have "rd.weight n (rw_pc s) = rd_wt (rw_pc s t)" using rd.weight_alone [OF t(1)] by blast
    then show ?thesis using t(2) by (auto simp: rd_special_def)
  next
    case False
    have "rd_wt (rw_pc s t) = 0" if "t < n" for t using False no that by (cases "rw_pc s t") (auto simp: rd_special_def)
    then have "rd.weight n (rw_pc s) = 0" by (simp add: rd.weight_zero)
    then show ?thesis by simp
  qed
  ultimately show ?thesis unfolding rd_isReadLocked_def word_high_test w by (meson leD not_less)
qed

text \<open>
  (C37) The lock that favours readers excludes. In every interleaving of the accesses of fewer than
  \<open>2 ^ 62\<close> threads that lock, unlock and upgrade, at most one thread writes, no thread reads while
  one writes, at most one thread upgrades, and the tests of the word say what the threads hold:
  \<open>isWriteLocked\<close> that one writes, \<open>isUpgrading\<close> that one upgrades, \<open>isReadLocked\<close> that one has
  read-locked or is about to, \<open>isLocked\<close> any of these.
\<close>

theorem rd_lock_excludes:
  assumes "(rd_step n)\<^sup>*\<^sup>* rd_start s" and "n < 2 ^ 62" and "t < n" and "u < n"
  shows "(rw_pc s t = W_hold \<longrightarrow> rw_pc s u = W_hold \<longrightarrow> t = u) \<and> (rw_pc s t = W_hold \<longrightarrow> \<not> rd_reading (rw_pc s u)) \<and>
    (rd_special (rw_pc s t) \<longrightarrow> rd_special (rw_pc s u) \<longrightarrow> t = u) \<and>
    (rd_isWriteLocked (rw_lock s) \<longleftrightarrow> (\<exists>v<n. rw_pc s v = W_hold)) \<and>
    (rd_isUpgrading (rw_lock s) \<longleftrightarrow> (\<exists>v<n. rw_pc s v = U_wait \<or> rw_pc s v = U_write)) \<and>
    (rd_isReadLocked (rw_lock s) \<longleftrightarrow> (\<exists>v<n. rd_wt (rw_pc s v) = 4)) \<and>
    (rd_isLocked (rw_lock s) \<longleftrightarrow> (\<exists>v<n. rd_wt (rw_pc s v) \<noteq> 0))"
proof -
  have I: "rd_inv n s" using assms(1,2) by (rule rd_reach_inv)
  have "unat (rw_lock s) = rd.weight n (rw_pc s)" using I assms(2) by (intro rd.counts_unat) (simp_all add: rd_inv_def)
  then have "rd_isLocked (rw_lock s) \<longleftrightarrow> (\<exists>v<n. rd_wt (rw_pc s v) \<noteq> 0)"
    using rd.weight_zero [of n "rw_pc s"] by (simp add: rd_isLocked_def unat_eq_0 [symmetric])
  moreover have "rw_pc s t = W_hold \<longrightarrow> \<not> rd_reading (rw_pc s u)" "rd_special (rw_pc s t) \<longrightarrow> rd_special (rw_pc s u) \<longrightarrow> t = u"
    using I assms(3,4) by (auto simp: rd_inv_def)
  ultimately show ?thesis
    using rd_tests [OF I assms(2)] rd_isReadLocked_iff [OF I assms(2)] by (auto simp: rd_isUpgrading_def rd_special_def)
qed

text \<open>A reader of two threads upgrades its lock.\<close>

lemma rd_then: "(rd_step n)\<^sup>*\<^sup>* a s \<Longrightarrow> rd_step n s s' \<Longrightarrow> s' = b \<Longrightarrow> (rd_step n)\<^sup>*\<^sup>* a b"
  by (simp add: rtranclp.rtrancl_into_rtrancl)

theorem rd_lock_excludes_witness:
  "\<exists>s. (rd_step 2)\<^sup>*\<^sup>* rd_start s \<and> rw_pc s 0 = W_hold \<and> rw_pc s 1 = R_wait \<and> \<not> rd_reading (rw_pc s 1) \<and> rd_isWriteLocked (rw_lock s)"
proof -
  let ?s = "\<lambda>l p q. \<lparr>rw_lock = l, rw_pc = (\<lambda>_. R_out)(1 := q, 0 := p)\<rparr>"
  have "(rd_step 2)\<^sup>*\<^sup>* rd_start (?s 0 R_out R_out)" by (simp add: rd_start_def new_rd_RWLock_def fun_upd_idem)
  then have "(rd_step 2)\<^sup>*\<^sup>* rd_start (?s 4 R_wait R_out)" by (rule rd_then [OF _ rd_add [where t = 0]]) auto
  then have "(rd_step 2)\<^sup>*\<^sup>* rd_start (?s 4 R_read R_out)" by (rule rd_then [OF _ rd_spin [where t = 0]]) (auto simp: rd_isWriteLocked_def)
  then have "(rd_step 2)\<^sup>*\<^sup>* rd_start (?s 4 U_load R_out)" by (rule rd_then [OF _ rd_upgrade [where t = 0]]) auto
  then have "(rd_step 2)\<^sup>*\<^sup>* rd_start (?s 4 (U_cas 4) R_out)" by (rule rd_then [OF _ rd_upgrade_load [where t = 0]]) auto
  then have "(rd_step 2)\<^sup>*\<^sup>* rd_start (?s 2 U_wait R_out)"
    by (rule rd_then [OF _ rd_upgrade_cas [where t = 0 and e = 4 and ok = True and w = 2]]) (auto simp: compare_exchange_strong_def upgrade_val_def)
  then have "(rd_step 2)\<^sup>*\<^sup>* rd_start (?s 2 U_write R_out)" by (rule rd_then [OF _ rd_upgrade_spin [where t = 0]]) auto
  then have "(rd_step 2)\<^sup>*\<^sup>* rd_start (?s 1 W_hold R_out)"
    by (rule rd_then [OF _ rd_upgrade_write [where t = 0 and ok = True and w = 1]]) (auto simp: compare_exchange_strong_def)
  then have r: "(rd_step 2)\<^sup>*\<^sup>* rd_start (?s 5 W_hold R_wait)" by (rule rd_then [OF _ rd_add [where t = 1]]) auto
  show ?thesis using rd_lock_excludes [OF r, of 0 1] r by (intro exI [of _ "?s 5 W_hold R_wait"]) auto
qed

section \<open>The lock that favours writers\<close>

definition wr_isWriteLocked :: "u64 \<Rightarrow> bool" where
  "wr_isWriteLocked l \<longleftrightarrow> l AND 1 \<noteq> 0"

definition wr_isReadLocked :: "u64 \<Rightarrow> bool" where
  "wr_isReadLocked l \<longleftrightarrow> l AND NOT 1 \<noteq> 0"

definition wr_isLocked :: "u64 \<Rightarrow> bool" where
  "wr_isLocked l \<longleftrightarrow> l \<noteq> 0"

definition new_wr_RWLock :: u64 where
  "new_wr_RWLock = 0"

text \<open>
  Where a thread stands: outside; in the inner loop of \<open>readLock\<close>, before its increment, reading, or
  about to take the increment back; before the load of \<open>writeLock\<close>, before its compare-and-swap with
  the word it has loaded, waiting for the readers to leave, writing.
\<close>

datatype wr_pc = V_out | V_wait | V_try | V_read | V_undo | X_load | X_cas u64 | X_drain | X_hold

inductive wr_step :: "nat \<Rightarrow> wr_pc rw_sys \<Rightarrow> wr_pc rw_sys \<Rightarrow> bool" for n where
  wr_read: "t < n \<Longrightarrow> rw_pc s t = V_out \<Longrightarrow> wr_step n s (s\<lparr>rw_pc := (rw_pc s)(t := V_wait)\<rparr>)"
| wr_spin: "t < n \<Longrightarrow> rw_pc s t = V_wait \<Longrightarrow>
    wr_step n s (s\<lparr>rw_pc := (rw_pc s)(t := if wr_isLocked (rw_lock s) then V_wait else V_try)\<rparr>)"
| wr_add: "t < n \<Longrightarrow> rw_pc s t = V_try \<Longrightarrow>
    wr_step n s (s\<lparr>rw_lock := rw_lock s + 2, rw_pc := (rw_pc s)(t := if (rw_lock s + 2) AND 1 = 0 then V_read else V_undo)\<rparr>)"
| wr_undo: "t < n \<Longrightarrow> rw_pc s t = V_undo \<Longrightarrow>
    wr_step n s (s\<lparr>rw_lock := rw_lock s + - 2, rw_pc := (rw_pc s)(t := V_wait)\<rparr>)"
| wr_unlock: "t < n \<Longrightarrow> rw_pc s t = V_read \<Longrightarrow>
    wr_step n s (s\<lparr>rw_lock := rw_lock s + - 2, rw_pc := (rw_pc s)(t := V_out)\<rparr>)"
| wr_write: "t < n \<Longrightarrow> rw_pc s t = V_out \<Longrightarrow> wr_step n s (s\<lparr>rw_pc := (rw_pc s)(t := X_load)\<rparr>)"
| wr_load: "t < n \<Longrightarrow> rw_pc s t = X_load \<Longrightarrow> wr_step n s (s\<lparr>rw_pc := (rw_pc s)(t := X_cas (rw_lock s))\<rparr>)"
| wr_cas: "t < n \<Longrightarrow> rw_pc s t = X_cas v \<Longrightarrow> compare_exchange_strong (rw_lock s) (v AND NOT 1) (v OR 1) = (ok, w) \<Longrightarrow>
    wr_step n s (s\<lparr>rw_lock := w, rw_pc := (rw_pc s)(t := if ok then (if v AND NOT 1 \<noteq> 0 then X_drain else X_hold) else X_load)\<rparr>)"
| wr_drain: "t < n \<Longrightarrow> rw_pc s t = X_drain \<Longrightarrow>
    wr_step n s (s\<lparr>rw_pc := (rw_pc s)(t := if rw_lock s AND NOT 1 \<noteq> 0 then X_drain else X_hold)\<rparr>)"
| wr_write_unlock: "t < n \<Longrightarrow> rw_pc s t = X_hold \<Longrightarrow>
    wr_step n s (s\<lparr>rw_lock := rw_lock s + - 1, rw_pc := (rw_pc s)(t := V_out)\<rparr>)"

fun wr_wt :: "wr_pc \<Rightarrow> nat" where
  "wr_wt V_read = 2" | "wr_wt V_undo = 2" | "wr_wt X_drain = 1" | "wr_wt X_hold = 1" | "wr_wt _ = 0"

interpretation wr: weighted_lock wr_wt
proof
  show "wr_wt x \<le> 4" for x by (cases x) auto
qed

definition wr_special :: "wr_pc \<Rightarrow> bool" where
  "wr_special p \<longleftrightarrow> p = X_drain \<or> p = X_hold"

definition wr_inv :: "nat \<Rightarrow> wr_pc rw_sys \<Rightarrow> bool" where
  "wr_inv n s \<longleftrightarrow> wr.counts n (rw_lock s) (rw_pc s) \<and>
     (\<forall>t<n. \<forall>u<n. wr_special (rw_pc s t) \<longrightarrow> wr_special (rw_pc s u) \<longrightarrow> t = u) \<and>
     (\<forall>t<n. \<forall>u<n. rw_pc s t = X_hold \<longrightarrow> rw_pc s u \<noteq> V_read)"

lemma wr_wt_2: "2 dvd wr_wt p \<longleftrightarrow> \<not> wr_special p"
  by (cases p) (auto simp: wr_special_def)

lemma wr_wt_0: "wr_wt p = 0 \<Longrightarrow> \<not> wr_special p \<and> p \<noteq> V_read"
  by (cases p) (auto simp: wr_special_def)

lemma wr_unat: "wr_inv n s \<Longrightarrow> n < 2 ^ 62 \<Longrightarrow> unat (rw_lock s) = wr.weight n (rw_pc s)"
  by (rule wr.counts_unat) (simp_all add: wr_inv_def)

lemma wr_test:
  assumes "wr_inv n s" and "n < 2 ^ 62"
  shows "wr_isWriteLocked (rw_lock s) \<longleftrightarrow> (\<exists>t<n. wr_special (rw_pc s t))"
proof -
  have "wr.counts n (rw_lock s) (rw_pc s)" using assms(1) by (simp add: wr_inv_def)
  then have b: "wr_isWriteLocked (rw_lock s) \<longleftrightarrow> wr.weight n (rw_pc s) mod 2 = 1"
    using wr.counts_bit [OF _ assms(2), of "rw_lock s" "rw_pc s" 0] by (simp add: wr_isWriteLocked_def word_bit_test bit_iff_odd odd_iff_mod_2_eq_one)
  show ?thesis
  proof (cases "\<exists>t<n. wr_special (rw_pc s t)")
    case True
    then obtain t where t: "t < n" "wr_special (rw_pc s t)" by blast
    have "2 dvd wr_wt (rw_pc s u)" if "u < n" "u \<noteq> t" for u
      unfolding wr_wt_2 using assms(1) t that by (auto simp: wr_inv_def)
    then have "wr.weight n (rw_pc s) mod 2 = wr_wt (rw_pc s t) mod 2" by (rule wr.weight_mod [OF t(1)])
    then show ?thesis unfolding b using t by (auto simp: wr_special_def)
  next
    case False
    then have "wr.weight n (rw_pc s) mod 2 = 0" by (intro wr.weight_mod_0) (simp add: wr_wt_2)
    then show ?thesis unfolding b using False by auto
  qed
qed

lemma wr_move:
  assumes "wr_inv n s" and "t < n" and "l = rw_lock s + of_nat (wr_wt x) - of_nat (wr_wt (rw_pc s t))"
    and "wr_special x \<Longrightarrow> \<forall>u<n. u \<noteq> t \<longrightarrow> \<not> wr_special (rw_pc s u)"
    and "x = X_hold \<Longrightarrow> \<forall>u<n. u \<noteq> t \<longrightarrow> rw_pc s u \<noteq> V_read" and "x = V_read \<Longrightarrow> \<forall>u<n. u \<noteq> t \<longrightarrow> rw_pc s u \<noteq> X_hold"
  shows "wr_inv n (s\<lparr>rw_lock := l, rw_pc := (rw_pc s)(t := x)\<rparr>)"
proof -
  have "wr.counts n l ((rw_pc s)(t := x))"
    using assms(1) by (intro wr.counts_upd [where l = "rw_lock s" and pc = "rw_pc s" and x = x, OF _ assms(2,3)]) (simp add: wr_inv_def)
  then show ?thesis using assms(1,4-6) unfolding wr_inv_def by simp blast
qed

lemma wr_stay:
  assumes "wr_inv n s" and "t < n" and "wr_wt x = wr_wt (rw_pc s t)"
    and "wr_special x \<Longrightarrow> \<forall>u<n. u \<noteq> t \<longrightarrow> \<not> wr_special (rw_pc s u)"
    and "x = X_hold \<Longrightarrow> \<forall>u<n. u \<noteq> t \<longrightarrow> rw_pc s u \<noteq> V_read" and "x = V_read \<Longrightarrow> \<forall>u<n. u \<noteq> t \<longrightarrow> rw_pc s u \<noteq> X_hold"
  shows "wr_inv n (s\<lparr>rw_pc := (rw_pc s)(t := x)\<rparr>)"
  using wr_move [OF assms(1,2) _ assms(4-6), of "rw_lock s"] assms(3) by simp

lemma writer_bit:
  fixes v :: u64
  shows "v OR 1 = (v AND NOT 1) + 1" and "(v AND NOT 1) AND 1 = 0" and "(v + 2) AND 1 = v AND 1"
proof -
  show z: "(v AND NOT 1) AND 1 = 0" by (simp add: word_bit_test bit_simps)
  have "v OR 1 = (v AND NOT 1) OR 1" by (rule bit_eqI) (auto simp: bit_simps)
  then show "v OR 1 = (v AND NOT 1) + 1" using disjunctive_add_eq_or [OF z] by simp
  show "(v + 2) AND 1 = v AND 1" by (simp add: and_one_eq mod_2_eq_odd)
qed

lemma wr_step_inv:
  assumes "wr_step n s s'" and "wr_inv n s" and "n < 2 ^ 62"
  shows "wr_inv n s'"
  using assms(1)
proof cases
  case (wr_read t)
  then show ?thesis by (auto intro!: wr_stay [OF assms(2)] simp: wr_special_def)
next
  case (wr_spin t)
  then show ?thesis by (auto intro!: wr_stay [OF assms(2)] simp: wr_special_def)
next
  case (wr_add t)
  then show ?thesis using wr_test [OF assms(2,3)]
    by (auto intro!: wr_move [OF assms(2)] simp: wr_special_def writer_bit wr_isWriteLocked_def)
next
  case (wr_undo t)
  then show ?thesis by (auto intro!: wr_move [OF assms(2)] simp: wr_special_def)
next
  case (wr_unlock t)
  then show ?thesis by (auto intro!: wr_move [OF assms(2)] simp: wr_special_def)
next
  case (wr_write t)
  then show ?thesis by (auto intro!: wr_stay [OF assms(2)] simp: wr_special_def)
next
  case (wr_load t)
  then show ?thesis by (auto intro!: wr_stay [OF assms(2)] simp: wr_special_def)
next
  case (wr_cas t v ok w)
  show ?thesis
  proof (cases "rw_lock s = v AND NOT 1")
    case True
    then have sp: "\<forall>u<n. \<not> wr_special (rw_pc s u)" using wr_test [OF assms(2,3)] writer_bit(2) [of v] by (simp add: wr_isWriteLocked_def)
    have "\<forall>u<n. rw_pc s u \<noteq> V_read" if "v AND NOT 1 = 0"
      using wr_unat [OF assms(2,3)] True that wr.weight_zero [of n "rw_pc s"] wr_wt_0 by auto
    then show ?thesis using wr_cas True sp writer_bit(1) [of v]
      by (auto intro!: wr_move [OF assms(2)] simp: compare_exchange_strong_def)
  next
    case False
    then show ?thesis using wr_cas by (auto intro!: wr_move [OF assms(2)] simp: compare_exchange_strong_def wr_special_def)
  qed
next
  case (wr_drain t)
  have sp: "\<forall>u<n. u \<noteq> t \<longrightarrow> \<not> wr_special (rw_pc s u)" using assms(2) wr_drain by (auto simp: wr_inv_def wr_special_def)
  have "\<forall>u<n. u \<noteq> t \<longrightarrow> rw_pc s u \<noteq> V_read" if "rw_lock s AND NOT 1 = 0"
  proof -
    have "wr.weight n (rw_pc s) < 2" using that unfolding word_high_test wr_unat [OF assms(2,3)] .
    moreover have "wr_wt (rw_pc s t) = 1" using wr_drain by simp
    ultimately have "wr.weight n (rw_pc s) = wr_wt (rw_pc s t)" using wr.weight_split [OF wr_drain(2), of "rw_pc s"] by linarith
    then show ?thesis using wr.weight_alone [OF wr_drain(2)] wr_wt_0 by blast
  qed
  then show ?thesis using wr_drain sp by (auto intro!: wr_stay [OF assms(2)])
next
  case (wr_write_unlock t)
  then show ?thesis by (auto intro!: wr_move [OF assms(2)] simp: wr_special_def)
qed

definition wr_start :: "wr_pc rw_sys" where
  "wr_start = \<lparr>rw_lock = new_wr_RWLock, rw_pc = (\<lambda>_. V_out)\<rparr>"

lemma wr_start_inv: "wr_inv n wr_start"
proof -
  have "wr.weight n (\<lambda>_. V_out) = 0" by (simp add: wr.weight_zero)
  then show ?thesis by (auto simp: wr_inv_def wr_start_def new_wr_RWLock_def wr.counts_def wr_special_def)
qed

lemma wr_reach_inv: "(wr_step n)\<^sup>*\<^sup>* wr_start s \<Longrightarrow> n < 2 ^ 62 \<Longrightarrow> wr_inv n s"
  by (induction rule: rtranclp_induct) (auto intro: wr_start_inv wr_step_inv)

text \<open>
  (C38) The lock that favours writers excludes. In every interleaving of the accesses of fewer than
  \<open>2 ^ 62\<close> threads, at most one thread writes or waits for the readers to leave, no thread reads
  while one writes, although readers may have raised the count on their way out, and
  \<open>isWriteLocked\<close> says that a thread has taken the writer bit.
\<close>

theorem wr_lock_excludes:
  assumes "(wr_step n)\<^sup>*\<^sup>* wr_start s" and "n < 2 ^ 62" and "t < n" and "u < n"
  shows "(wr_special (rw_pc s t) \<longrightarrow> wr_special (rw_pc s u) \<longrightarrow> t = u) \<and> (rw_pc s t = X_hold \<longrightarrow> rw_pc s u \<noteq> V_read) \<and>
    (wr_isWriteLocked (rw_lock s) \<longleftrightarrow> (\<exists>v<n. wr_special (rw_pc s v))) \<and>
    (wr_isLocked (rw_lock s) \<longleftrightarrow> (\<exists>v<n. wr_wt (rw_pc s v) \<noteq> 0))"
proof -
  have I: "wr_inv n s" using assms(1,2) by (rule wr_reach_inv)
  have "wr_isLocked (rw_lock s) \<longleftrightarrow> (\<exists>v<n. wr_wt (rw_pc s v) \<noteq> 0)"
    using wr_unat [OF I assms(2)] wr.weight_zero [of n "rw_pc s"] by (simp add: wr_isLocked_def unat_eq_0 [symmetric])
  moreover have "rw_pc s t = X_hold \<longrightarrow> rw_pc s u \<noteq> V_read" "wr_special (rw_pc s t) \<longrightarrow> wr_special (rw_pc s u) \<longrightarrow> t = u"
    using I assms(3,4) by (auto simp: wr_inv_def)
  ultimately show ?thesis using wr_test [OF I assms(2)] by blast
qed

text \<open>A reader that passed its test runs into a writer and will step back.\<close>

lemma wr_then: "(wr_step n)\<^sup>*\<^sup>* a s \<Longrightarrow> wr_step n s s' \<Longrightarrow> s' = b \<Longrightarrow> (wr_step n)\<^sup>*\<^sup>* a b"
  by (simp add: rtranclp.rtrancl_into_rtrancl)

theorem wr_lock_excludes_witness:
  "\<exists>s. (wr_step 2)\<^sup>*\<^sup>* wr_start s \<and> rw_pc s 0 = X_hold \<and> rw_pc s 1 = V_undo \<and> wr_isWriteLocked (rw_lock s) \<and> wr_isReadLocked (rw_lock s)"
proof -
  let ?s = "\<lambda>l p q. \<lparr>rw_lock = l, rw_pc = (\<lambda>_. V_out)(1 := q, 0 := p)\<rparr>"
  have "(wr_step 2)\<^sup>*\<^sup>* wr_start (?s 0 V_out V_out)" by (simp add: wr_start_def new_wr_RWLock_def fun_upd_idem)
  then have "(wr_step 2)\<^sup>*\<^sup>* wr_start (?s 0 V_out V_wait)" by (rule wr_then [OF _ wr_read [where t = 1]]) auto
  then have "(wr_step 2)\<^sup>*\<^sup>* wr_start (?s 0 V_out V_try)" by (rule wr_then [OF _ wr_spin [where t = 1]]) (auto simp: wr_isLocked_def)
  then have "(wr_step 2)\<^sup>*\<^sup>* wr_start (?s 0 X_load V_try)" by (rule wr_then [OF _ wr_write [where t = 0]]) auto
  then have "(wr_step 2)\<^sup>*\<^sup>* wr_start (?s 0 (X_cas 0) V_try)" by (rule wr_then [OF _ wr_load [where t = 0]]) auto
  then have "(wr_step 2)\<^sup>*\<^sup>* wr_start (?s 1 X_hold V_try)"
    by (rule wr_then [OF _ wr_cas [where t = 0 and v = 0 and ok = True and w = 1]]) (auto simp: compare_exchange_strong_def)
  then have r: "(wr_step 2)\<^sup>*\<^sup>* wr_start (?s 3 X_hold V_undo)" by (rule wr_then [OF _ wr_add [where t = 1]]) auto
  have "wr_isWriteLocked 3" using wr_lock_excludes [OF r, of 0 1] by (auto simp: wr_special_def)
  moreover have "wr_isReadLocked 3" by (simp add: wr_isReadLocked_def)
  ultimately show ?thesis using r by (intro exI [of _ "?s 3 X_hold V_undo"]) auto
qed

end
