(* ===== verification/OptionalClass.thy ===== *)
theory OptionalClass
  imports Prelude
begin

text \<open>
  The class \<open>Optional\<close> of \<^verbatim>\<open>optional.h\<close>: a value and a flag. The other theories write its
  values as \<open>option\<close>; the refinement below is what makes that faithful. The value of an
  object without one is whatever the constructor of \<open>T\<close> left there, the parameter \<open>junk\<close>.
\<close>

record 'a optional =
  opt_m_val :: 'a
  opt_m_init :: bool

definition new_Optional :: "'a \<Rightarrow> 'a optional" where
  "new_Optional junk = \<lparr>opt_m_val = junk, opt_m_init = False\<rparr>"

definition Optional_of :: "'a \<Rightarrow> 'a optional" where
  "Optional_of val = \<lparr>opt_m_val = val, opt_m_init = True\<rparr>"

definition Optional_value :: "'a optional \<Rightarrow> 'a outcome" where
  "Optional_value o1 = (if \<not> opt_m_init o1 then Throw OptionalException else Ok (opt_m_val o1))"

definition Optional_bool :: "'a optional \<Rightarrow> bool" where
  "Optional_bool o1 = opt_m_init o1"

definition Optional_assign_null :: "'a optional \<Rightarrow> 'a optional" where
  "Optional_assign_null o1 = o1\<lparr>opt_m_init := False\<rparr>"

definition Optional_assign :: "'a \<Rightarrow> 'a optional \<Rightarrow> 'a optional" where
  "Optional_assign val o1 = o1\<lparr>opt_m_init := True, opt_m_val := val\<rparr>"

definition Optional_eq_null :: "'a optional \<Rightarrow> bool" where
  "Optional_eq_null o1 \<longleftrightarrow> \<not> opt_m_init o1"

definition Optional_eq :: "'a optional \<Rightarrow> 'a \<Rightarrow> bool" where
  "Optional_eq o1 val \<longleftrightarrow> opt_m_init o1 \<and> opt_m_val o1 = val"

text \<open>What the object stands for.\<close>

definition opt_of :: "'a optional \<Rightarrow> 'a option" where
  "opt_of o1 = (if opt_m_init o1 then Some (opt_m_val o1) else None)"


end
