(* ===== verification/QueueLock.thy ===== *)
theory QueueLock
  imports LNode TXManager
begin

text \<open>
  The lock word of the transactional queue (\<^verbatim>\<open>datatypes/Queue.h\<close>) and its check of the version at the
  start of an operation. The word has no deleted bit. The queue operations themselves do not
  compile: they assign \<open>shared_ptr\<close>s to nodes and copy the thread's map of local queues; they
  are not modelled.
\<close>

unbundle bit_operations_syntax

section \<open>The methods on the lock word\<close>

definition Queue_LOCK_MASK :: u64 where
  "Queue_LOCK_MASK = 0x1000000000000000"

definition Queue_SINGLETON_MASK :: u64 where
  "Queue_SINGLETON_MASK = 0x4000000000000000"

definition Queue_VERSIONNEG_MASK :: u64 where
  "Queue_VERSIONNEG_MASK = Queue_LOCK_MASK OR Queue_SINGLETON_MASK"

definition Queue_getVersion :: "u64 \<Rightarrow> u64" where
  "Queue_getVersion l = l AND NOT Queue_VERSIONNEG_MASK"

definition Queue_setVersion :: "u64 \<Rightarrow> u64 \<Rightarrow> u64 outcome" where
  "Queue_setVersion version l =
     (if l AND Queue_LOCK_MASK \<noteq> 0
      then Ok ((l AND Queue_VERSIONNEG_MASK) OR (version AND NOT Queue_VERSIONNEG_MASK))
      else Throw AssertionFailed)"

definition Queue_isSingleton :: "u64 \<Rightarrow> bool" where
  "Queue_isSingleton l \<longleftrightarrow> l AND Queue_SINGLETON_MASK \<noteq> 0"

definition Queue_setSingleton :: "bool \<Rightarrow> u64 \<Rightarrow> u64 outcome" where
  "Queue_setSingleton value l =
     (if l AND Queue_LOCK_MASK \<noteq> 0
      then Ok (if value then l OR Queue_SINGLETON_MASK else l AND NOT Queue_SINGLETON_MASK)
      else Throw AssertionFailed)"

definition Queue_tryLock_load :: "u64 \<Rightarrow> u64 option" where
  "Queue_tryLock_load l = (if l AND Queue_LOCK_MASK \<noteq> 0 then None else Some (l OR Queue_LOCK_MASK))"

definition Queue_tryLock :: "u64 \<Rightarrow> bool \<times> u64" where
  "Queue_tryLock l =
     (case Queue_tryLock_load l of None \<Rightarrow> (False, l) | Some locked \<Rightarrow> compare_exchange_strong l l locked)"

definition Queue_unlock_load :: "u64 \<Rightarrow> u64 outcome" where
  "Queue_unlock_load l =
     (if l AND Queue_LOCK_MASK \<noteq> 0 then Ok (l AND NOT Queue_LOCK_MASK) else Throw AssertionFailed)"

definition Queue_unlock :: "u64 \<Rightarrow> u64 outcome" where
  "Queue_unlock l =
     (case Queue_unlock_load l of
        Throw e \<Rightarrow> Throw e
      | Ok unlocked \<Rightarrow>
          (case compare_exchange_strong l l unlocked of
             (ret, w) \<Rightarrow> if ret then Ok w else Throw AssertionFailed))"

definition Queue_isLocked :: "u64 \<Rightarrow> bool" where
  "Queue_isLocked l \<longleftrightarrow> l AND Queue_LOCK_MASK \<noteq> 0"

text \<open>The argument is the word of the queue, which the method only reads.\<close>

definition Queue_validateTxSafe :: "u64 \<Rightarrow> ('ix state, unit) cmd" where
  "Queue_validateTxSafe l =
     bindE (getsE (\<lambda>s. readVersion (lt s))) (\<lambda>rv.
       if rv < Queue_getVersion l then
         thenE (modifyLT (\<lambda>t. t\<lparr>TX := False\<rparr>)) (throwE TxAbortException)
       else if rv = Queue_getVersion l \<and> Queue_isSingleton l then
         thenE incrementAndGetVersion (thenE (modifyLT (\<lambda>t. t\<lparr>TX := False\<rparr>)) (throwE TxAbortException))
       else returnE ())"

section \<open>The word of a queue is the word of a node\<close>

lemma Queue_masks:
  "Queue_LOCK_MASK = LOCK_MASK" "Queue_SINGLETON_MASK = SINGLETON_MASK"
  by (simp_all add: Queue_LOCK_MASK_def LOCK_MASK_def Queue_SINGLETON_MASK_def SINGLETON_MASK_def)

lemma bit_Queue_VERSIONNEG_MASK [simp]: "bit Queue_VERSIONNEG_MASK n \<longleftrightarrow> n = 60 \<or> n = 62"
  by (auto simp: Queue_VERSIONNEG_MASK_def Queue_masks bit_simps)

lemma Queue_lock_eqs:
  "Queue_tryLock_load = tryLock_load" "Queue_unlock_load = unlock_load" "Queue_isLocked = isLocked"
  "Queue_tryLock = tryLock" "Queue_unlock = unlock" "Queue_setSingleton = setSingleton" "Queue_isSingleton = isSingleton"
  by (simp_all add: fun_eq_iff Queue_masks Queue_tryLock_load_def tryLock_load_def Queue_unlock_load_def unlock_load_def
      Queue_isLocked_def isLocked_def Queue_tryLock_def tryLock_def Queue_unlock_def unlock_def Queue_setSingleton_def setSingleton_def
      setSingletonNoLockAssert_def Queue_isSingleton_def isSingleton_def)

definition queue_write :: "u64 \<Rightarrow> u64 \<Rightarrow> bool" where
  "queue_write l w \<longleftrightarrow> (\<exists>b. Queue_setSingleton b l = Ok w) \<or> (\<exists>v. Queue_setVersion v l = Ok w)"

lemma queue_write_locked:
  assumes "Queue_isLocked l" and "queue_write l w"
  shows "Queue_isLocked w"
  using assms setters_keep_lock(2) [of l _ w]
  by (auto simp: queue_write_def Queue_lock_eqs Queue_setVersion_def Queue_masks isLocked_def bit_simps)

interpretation queue_lock: versioned_lock Queue_isLocked Queue_tryLock_load Queue_unlock_load queue_write
proof unfold_locales
  show "Queue_tryLock_load w = None \<longleftrightarrow> Queue_isLocked w" for w
    unfolding Queue_lock_eqs by (rule node_lock.try_load_None)
  show "Queue_tryLock_load w = Some d \<Longrightarrow> Queue_isLocked d" for w d
    unfolding Queue_lock_eqs by (rule node_lock.try_load_Some)
  show "Queue_isLocked w \<Longrightarrow> \<exists>u. Queue_unlock_load w = Ok u \<and> \<not> Queue_isLocked u" for w
    unfolding Queue_lock_eqs by (rule node_lock.unlk_load_Ok)
  show "Queue_isLocked w \<Longrightarrow> queue_write w w' \<Longrightarrow> Queue_isLocked w'" for w w' by (rule queue_write_locked)
qed

text \<open>
  (C28) The lock of a queue is exclusive: in every interleaving of the loads and
  compare-and-swaps of any number of threads at most one thread holds it, and no assertion of
  its \<open>unlock\<close> fails.
\<close>

theorem queue_lock_mutex:
  assumes "lock_reach Queue_tryLock_load Queue_unlock_load queue_write w0 s" and "\<not> Queue_isLocked w0"
  shows "(in_section (lpc s t) \<longrightarrow> in_section (lpc s t') \<longrightarrow> t = t') \<and> lpc s t \<noteq> Crashed \<and>
    (Queue_isLocked (lword s) \<longleftrightarrow> (\<exists>t. in_section (lpc s t)))"
  using queue_lock.mutual_exclusion [OF assms] queue_lock.no_assertion_fails [OF assms]
    queue_lock.locked_iff_held [OF assms] by blast

theorem queue_lock_mutex_witness:
  "\<exists>s. lock_reach Queue_tryLock_load Queue_unlock_load queue_write 0 s \<and> in_section (lpc s 0) \<and> \<not> in_section (lpc s 1) \<and> Queue_isLocked (lword s)"
proof -
  let ?d = "0 OR LOCK_MASK :: u64" and ?pc = "(\<lambda>_. Outside) :: nat \<Rightarrow> u64 lock_pc"
  let ?R = "lock_reach Queue_tryLock_load Queue_unlock_load queue_write 0"
  have d: "Queue_tryLock_load 0 = Some ?d" by (simp add: Queue_lock_eqs tryLock_load_def)
  have "?R \<lparr>lword = 0, lpc = ?pc\<rparr>" by (rule lock_init)
  from lock_next [OF this lock_load [where t = 0 and d = ?d]] d have "?R \<lparr>lword = 0, lpc = ?pc(0 := Locking 0 ?d)\<rparr>" by simp
  from lock_next [OF this lock_cas [where t = 0 and e = 0 and d = ?d and ok = True and w = ?d]]
  have r: "?R \<lparr>lword = ?d, lpc = ?pc(0 := Holding)\<rparr>" by (simp add: compare_exchange_strong_def)
  have nl: "\<not> Queue_isLocked 0" by (simp add: Queue_isLocked_def)
  have "Queue_isLocked ?d" using queue_lock_mutex [OF r nl, of 1 0] by (auto simp: in_section_def)
  then show ?thesis using r by (intro exI [of _ "\<lparr>lword = ?d, lpc = ?pc(0 := Holding)\<rparr>"]) simp
qed



text \<open>
  The check at the start of a queue operation: a transaction that began before the version
  of the queue aborts and loses its transaction flag; one that began at that version, on a queue
  last written outside a transaction, aborts too and moves the clock on; any other passes and
  changes nothing.
\<close>

lemma Queue_validateTxSafe_cases:
  "Queue_validateTxSafe l s =
     (if readVersion (lt s) < Queue_getVersion l then (Throw TxAbortException, s\<lparr>lt := (lt s)\<lparr>TX := False\<rparr>\<rparr>)
      else if readVersion (lt s) = Queue_getVersion l \<and> Queue_isSingleton l
      then (Throw TxAbortException, s\<lparr>gvc := gvc s + 1, lt := (lt s)\<lparr>TX := False\<rparr>\<rparr>)
      else (Ok (), s))"
  by (simp add: Queue_validateTxSafe_def incrementAndGetVersion_def modifyLT_def run_simps)

end
