(* ===== verification/DebugInfo.thy ===== *)
theory DebugInfo
  imports Prelude
begin

text \<open>
  The counters of the record manager: \<open>debugInfo\<close> (\<^verbatim>\<open>debug_info.h\<close>) with seven counters per
  thread, and \<open>debugCounter\<close> (\<^verbatim>\<open>debugcounter.h\<close>) with one, padded. The counters are \<open>long\<close>s;
  they are integers here, as a run that counts \<open>2 ^ 63\<close> events does not end.
\<close>

section \<open>debugInfo\<close>

record memrecl_counters =
  allocated :: int
  deallocated :: int
  fromPool :: int
  toPool :: int
  given :: int
  taken :: int
  retired_objs :: int

type_synonym debug_info = "nat \<Rightarrow> memrecl_counters"

definition zero_counters :: memrecl_counters where
  "zero_counters = \<lparr>allocated = 0, deallocated = 0, fromPool = 0, toPool = 0, given = 0, taken = 0, retired_objs = 0\<rparr>"

definition debug_clear :: "nat \<Rightarrow> debug_info \<Rightarrow> debug_info" where
  "debug_clear numProcesses c = fold (\<lambda>tid c. c(tid := zero_counters)) [0..<numProcesses] c"

text \<open>The constructor clears the counters of the threads; the others are not initialised.\<close>

definition new_debugInfo :: "nat \<Rightarrow> debug_info \<Rightarrow> debug_info" where
  "new_debugInfo numProcesses junk = debug_clear numProcesses junk"

definition addAllocated :: "nat \<Rightarrow> int \<Rightarrow> debug_info \<Rightarrow> debug_info" where
  "addAllocated tid val c = c(tid := (c tid)\<lparr>allocated := allocated (c tid) + val\<rparr>)"

definition addDeallocated :: "nat \<Rightarrow> int \<Rightarrow> debug_info \<Rightarrow> debug_info" where
  "addDeallocated tid val c = c(tid := (c tid)\<lparr>deallocated := deallocated (c tid) + val\<rparr>)"

definition addFromPool :: "nat \<Rightarrow> int \<Rightarrow> debug_info \<Rightarrow> debug_info" where
  "addFromPool tid val c = c(tid := (c tid)\<lparr>fromPool := fromPool (c tid) + val\<rparr>)"

definition addToPool :: "nat \<Rightarrow> int \<Rightarrow> debug_info \<Rightarrow> debug_info" where
  "addToPool tid val c = c(tid := (c tid)\<lparr>toPool := toPool (c tid) + val\<rparr>)"

definition addGiven :: "nat \<Rightarrow> int \<Rightarrow> debug_info \<Rightarrow> debug_info" where
  "addGiven tid val c = c(tid := (c tid)\<lparr>given := given (c tid) + val\<rparr>)"

definition addTaken :: "nat \<Rightarrow> int \<Rightarrow> debug_info \<Rightarrow> debug_info" where
  "addTaken tid val c = c(tid := (c tid)\<lparr>taken := taken (c tid) + val\<rparr>)"

definition addRetired :: "nat \<Rightarrow> int \<Rightarrow> debug_info \<Rightarrow> debug_info" where
  "addRetired tid val c = c(tid := (c tid)\<lparr>retired_objs := retired_objs (c tid) + val\<rparr>)"

text \<open>The totals: one loop over the threads for each counter.\<close>

definition total_of :: "(memrecl_counters \<Rightarrow> int) \<Rightarrow> nat \<Rightarrow> debug_info \<Rightarrow> int" where
  "total_of counter numProcesses c = fold (\<lambda>tid result. result + counter (c tid)) [0..<numProcesses] 0"

definition getTotalAllocated :: "nat \<Rightarrow> debug_info \<Rightarrow> int" where
  "getTotalAllocated = total_of allocated"

definition getTotalDeallocated :: "nat \<Rightarrow> debug_info \<Rightarrow> int" where
  "getTotalDeallocated = total_of deallocated"

definition getTotalFromPool :: "nat \<Rightarrow> debug_info \<Rightarrow> int" where
  "getTotalFromPool = total_of fromPool"

definition getTotalToPool :: "nat \<Rightarrow> debug_info \<Rightarrow> int" where
  "getTotalToPool = total_of toPool"

definition getTotalGiven :: "nat \<Rightarrow> debug_info \<Rightarrow> int" where
  "getTotalGiven = total_of given"

definition getTotalTaken :: "nat \<Rightarrow> debug_info \<Rightarrow> int" where
  "getTotalTaken = total_of taken"

definition getTotalRetired :: "nat \<Rightarrow> debug_info \<Rightarrow> int" where
  "getTotalRetired = total_of retired_objs"

section \<open>debugCounter\<close>

text \<open>The array starts one padding before the pointer; \<open>data\<close> is indexed from the pointer.\<close>

definition PREFETCH_SIZE_WORDS :: nat where
  "PREFETCH_SIZE_WORDS = 16"

definition counter_add :: "nat \<Rightarrow> int \<Rightarrow> (nat \<Rightarrow> int) \<Rightarrow> nat \<Rightarrow> int" where
  "counter_add tid val data = data(tid * PREFETCH_SIZE_WORDS := data (tid * PREFETCH_SIZE_WORDS) + val)"

definition counter_inc :: "nat \<Rightarrow> (nat \<Rightarrow> int) \<Rightarrow> nat \<Rightarrow> int" where
  "counter_inc tid data = counter_add tid 1 data"

definition counter_get :: "nat \<Rightarrow> (nat \<Rightarrow> int) \<Rightarrow> int" where
  "counter_get tid data = data (tid * PREFETCH_SIZE_WORDS)"

definition counter_getTotal :: "nat \<Rightarrow> (nat \<Rightarrow> int) \<Rightarrow> int" where
  "counter_getTotal numProcesses data = fold (\<lambda>tid result. result + counter_get tid data) [0..<numProcesses] 0"

definition counter_clear :: "nat \<Rightarrow> (nat \<Rightarrow> int) \<Rightarrow> nat \<Rightarrow> int" where
  "counter_clear numProcesses data = fold (\<lambda>tid data. data(tid * PREFETCH_SIZE_WORDS := 0)) [0..<numProcesses] data"

definition new_debugCounter :: "nat \<Rightarrow> (nat \<Rightarrow> int) \<Rightarrow> nat \<Rightarrow> int" where
  "new_debugCounter numProcesses junk = counter_clear numProcesses junk"

section \<open>What the totals count\<close>

lemma fold_sum_from: "fold (\<lambda>x r. r + f x) xs (a :: int) = a + sum_list (map f xs)"
  by (induction xs arbitrary: a) auto

lemma total_of_sum: "total_of counter n c = (\<Sum>t<n. counter (c t))"
  by (simp add: total_of_def fold_sum_from sum_list_distinct_conv_sum_set atLeast0LessThan)

lemma counter_total_sum: "counter_getTotal n data = (\<Sum>t<n. counter_get t data)"
  by (simp add: counter_getTotal_def fold_sum_from sum_list_distinct_conv_sum_set atLeast0LessThan)

lemma debug_clear_eq: "debug_clear n c = (\<lambda>t. if t < n then zero_counters else c t)"
  by (induction n) (auto simp: debug_clear_def fun_eq_iff)

lemma counter_clear_get: "counter_get t (counter_clear n data) = (if t < n then 0 else counter_get t data)"
  by (induction n) (auto simp: counter_clear_def counter_get_def PREFETCH_SIZE_WORDS_def)

lemma counter_get_add: "counter_get t (counter_add u v data) = (if t = u then counter_get t data + v else counter_get t data)"
  by (auto simp: counter_get_def counter_add_def PREFETCH_SIZE_WORDS_def)

text \<open>The events of a run, and what the counters hold after them.\<close>

datatype mem_event = Allocated nat int | Deallocated nat int | FromPool nat int | ToPool nat int | Given nat int | Taken nat int | Retired nat int

fun count_event :: "mem_event \<Rightarrow> debug_info \<Rightarrow> debug_info" where
  "count_event (Allocated t v) = addAllocated t v"
| "count_event (Deallocated t v) = addDeallocated t v"
| "count_event (FromPool t v) = addFromPool t v"
| "count_event (ToPool t v) = addToPool t v"
| "count_event (Given t v) = addGiven t v"
| "count_event (Taken t v) = addTaken t v"
| "count_event (Retired t v) = addRetired t v"

fun amount :: "mem_event \<Rightarrow> memrecl_counters" where
  "amount (Allocated t v) = zero_counters\<lparr>allocated := v\<rparr>"
| "amount (Deallocated t v) = zero_counters\<lparr>deallocated := v\<rparr>"
| "amount (FromPool t v) = zero_counters\<lparr>fromPool := v\<rparr>"
| "amount (ToPool t v) = zero_counters\<lparr>toPool := v\<rparr>"
| "amount (Given t v) = zero_counters\<lparr>given := v\<rparr>"
| "amount (Taken t v) = zero_counters\<lparr>taken := v\<rparr>"
| "amount (Retired t v) = zero_counters\<lparr>retired_objs := v\<rparr>"

fun event_tid :: "mem_event \<Rightarrow> nat" where
  "event_tid (Allocated t v) = t"
| "event_tid (Deallocated t v) = t"
| "event_tid (FromPool t v) = t"
| "event_tid (ToPool t v) = t"
| "event_tid (Given t v) = t"
| "event_tid (Taken t v) = t"
| "event_tid (Retired t v) = t"

definition counters_of :: "(memrecl_counters \<Rightarrow> int) list" where
  "counters_of = [allocated, deallocated, fromPool, toPool, given, taken, retired_objs]"

lemmas add_defs = addAllocated_def addDeallocated_def addFromPool_def addToPool_def addGiven_def addTaken_def addRetired_def

lemma count_event_counter:
  "f \<in> set counters_of \<Longrightarrow> f (count_event e c t) = f (c t) + (if t = event_tid e then f (amount e) else 0)"
  by (cases e) (auto simp: counters_of_def add_defs zero_counters_def)

lemma total_count_event:
  assumes "f \<in> set counters_of" and "event_tid e < n"
  shows "total_of f n (count_event e c) = total_of f n c + f (amount e)"
  using assms by (simp add: total_of_sum count_event_counter sum.distrib sum.delta)

lemma total_events:
  assumes "f \<in> set counters_of" and "\<And>e. e \<in> set es \<Longrightarrow> event_tid e < n"
  shows "total_of f n (fold count_event es c) = total_of f n c + (\<Sum>e\<leftarrow>es. f (amount e))"
  using assms by (induction es arbitrary: c) (auto simp: total_count_event)

lemma total_cleared: "f \<in> set counters_of \<Longrightarrow> total_of f n (debug_clear n c) = 0"
  by (auto simp: total_of_sum debug_clear_eq counters_of_def zero_counters_def)

text \<open>
  Whatever the counters held before their construction and whatever events the threads
  record in whatever order, each of the seven totals is the sum of the amounts recorded for that
  counter: no event is lost and no event is counted for another counter.
\<close>

lemma totals_count_events:
  assumes "\<forall>e\<in>set es. event_tid e < n"
  shows "(let c = fold count_event es (new_debugInfo n junk); s = (\<lambda>f. \<Sum>e\<leftarrow>es. f (amount e)) in
     getTotalAllocated n c = s allocated \<and> getTotalDeallocated n c = s deallocated \<and> getTotalFromPool n c = s fromPool \<and>
     getTotalToPool n c = s toPool \<and> getTotalGiven n c = s given \<and> getTotalTaken n c = s taken \<and> getTotalRetired n c = s retired_objs)"
proof -
  have "total_of f n (fold count_event es (new_debugInfo n junk)) = (\<Sum>e\<leftarrow>es. f (amount e))" if "f \<in> set counters_of" for f
    using total_events [OF that, of es n] assms total_cleared [OF that] by (simp add: new_debugInfo_def)
  then show ?thesis
    by (simp add: Let_def getTotalAllocated_def getTotalDeallocated_def getTotalFromPool_def getTotalToPool_def getTotalGiven_def
        getTotalTaken_def getTotalRetired_def counters_of_def)
qed

text \<open>
  \<open>debugCounter\<close>: after its construction the total is the sum of the increments, each
  thread's count is the sum of its own, and clearing resets every count.
\<close>

lemma counter_counts:
  "(\<forall>u\<in>set us. u < n) \<longrightarrow>
   counter_getTotal n (fold counter_inc us (new_debugCounter n junk)) = int (length us) \<and>
   (\<forall>t<n. counter_get t (fold counter_inc us (new_debugCounter n junk)) = int (count_list us t)) \<and>
   counter_getTotal n (counter_clear n data) = 0"
proof (intro impI conjI allI)
  assume u: "\<forall>u\<in>set us. u < n"
  have get: "counter_get t (fold counter_inc us d) = counter_get t d + int (count_list us t)" for t d
    by (induction us arbitrary: d) (auto simp: counter_inc_def counter_get_add)
  show g: "counter_get t (fold counter_inc us (new_debugCounter n junk)) = int (count_list us t)" if "t < n" for t
    using get that by (simp add: new_debugCounter_def counter_clear_get)
  have "(\<Sum>t<n. count_list us t) = length us" using u sum_count_set [of us "{..<n}"] by auto
  then show "counter_getTotal n (fold counter_inc us (new_debugCounter n junk)) = int (length us)"
    unfolding counter_total_sum using g by (simp flip: of_nat_sum)
  show "counter_getTotal n (counter_clear n data) = 0" by (simp add: counter_total_sum counter_clear_get)
qed

end
