(* ===== verification/ArrayList.thy ===== *)
theory ArrayList
  imports DebugInfo "HOL-Library.Multiset"
begin

text \<open>
  The bounded lists of \<^verbatim>\<open>recordmgr/arraylist.h\<close>: \<open>ArrayList\<close>, and \<open>AtomicArrayList\<close>, whose cells
  other threads may read. An element is a pointer, \<open>'a\<close> here. The buffer has a padding of
  \<open>PREFETCH_SIZE_WORDS\<close> cells at each end; an access past it is an access out of bounds. Indices
  are \<open>int\<close>s, and a missing element has index -1.
\<close>

section \<open>ArrayList\<close>

record 'a array_list =
  al_size :: nat
  al_data :: "int \<Rightarrow> 'a"
  al_capacity :: nat

definition new_ArrayList :: "(int \<Rightarrow> 'a) \<Rightarrow> nat \<Rightarrow> 'a array_list" where
  "new_ArrayList junk cap = \<lparr>al_size = 0, al_data = junk, al_capacity = cap\<rparr>"

definition al_get :: "int \<Rightarrow> 'a array_list \<Rightarrow> 'a outcome" where
  "al_get ix a =
     (if - int PREFETCH_SIZE_WORDS \<le> ix \<and> ix < int (al_capacity a + PREFETCH_SIZE_WORDS) then Ok (al_data a ix) else Throw NullPointer)"

definition al_add :: "'a \<Rightarrow> ('a array_list, unit) cmd" where
  "al_add obj =
     bindE (getsE id) (\<lambda>a.
     thenE (assertE (al_size a < al_capacity a))
       (modifyE (\<lambda>a. a\<lparr>al_data := (al_data a)(int (al_size a) := obj), al_size := al_size a + 1\<rparr>)))"

definition al_erase :: "int \<Rightarrow> ('a array_list, unit) cmd" where
  "al_erase ix =
     bindE (getsE id) (\<lambda>a.
     thenE (assertE (0 \<le> ix \<and> ix < int (al_size a)))
       (modifyE (\<lambda>a. a\<lparr>al_size := al_size a - 1, al_data := (al_data a)(ix := al_data a (int (al_size a - 1)))\<rparr>)))"

definition al_getIndex :: "'a \<Rightarrow> 'a array_list \<Rightarrow> int" where
  "al_getIndex obj a =
     (case List.find (\<lambda>j. al_data a (int j) = obj) [0..<al_size a] of None \<Rightarrow> -1 | Some j \<Rightarrow> int j)"

definition al_erase_obj :: "'a \<Rightarrow> ('a array_list, unit) cmd" where
  "al_erase_obj obj = bindE (getsE (al_getIndex obj)) (\<lambda>ix. if ix \<noteq> -1 then al_erase ix else returnE ())"

definition al_contains :: "'a \<Rightarrow> 'a array_list \<Rightarrow> bool" where
  "al_contains obj a \<longleftrightarrow> al_getIndex obj a \<noteq> -1"

definition al_clear :: "('a array_list, unit) cmd" where
  "al_clear = modifyE (\<lambda>a. a\<lparr>al_size := 0\<rparr>)"

definition al_isFull :: "'a array_list \<Rightarrow> bool" where
  "al_isFull a \<longleftrightarrow> al_size a = al_capacity a"

definition al_isEmpty :: "'a array_list \<Rightarrow> bool" where
  "al_isEmpty a \<longleftrightarrow> al_size a = 0"

section \<open>AtomicArrayList\<close>

text \<open>Its one writer loads the size, stores the cell and stores the size.\<close>

definition aal_add :: "'a \<Rightarrow> ('a array_list, unit) cmd" where
  "aal_add obj =
     bindE (getsE al_size) (\<lambda>sz.
     bindE (getsE al_capacity) (\<lambda>cap.
     thenE (assertE (sz < cap))
     (thenE (modifyE (\<lambda>a. a\<lparr>al_data := (al_data a)(int sz := obj)\<rparr>))
       (modifyE (\<lambda>a. a\<lparr>al_size := sz + 1\<rparr>)))))"

definition aal_erase :: "int \<Rightarrow> ('a array_list, unit) cmd" where
  "aal_erase ix =
     bindE (getsE al_size) (\<lambda>sz.
     thenE (assertE (0 \<le> ix \<and> ix < int sz))
     (thenE (if ix \<noteq> int sz - 1 then modifyE (\<lambda>a. a\<lparr>al_data := (al_data a)(ix := al_data a (int sz - 1))\<rparr>) else returnE ())
       (modifyE (\<lambda>a. a\<lparr>al_size := sz - 1\<rparr>))))"

primrec aal_getIndex_loop :: "nat \<Rightarrow> nat \<Rightarrow> 'a \<Rightarrow> 'a array_list \<Rightarrow> int" where
  "aal_getIndex_loop 0 j obj a = -1"
| "aal_getIndex_loop (Suc n) j obj a = (if al_data a (int j) = obj then int j else aal_getIndex_loop n (j + 1) obj a)"

definition aal_getIndex :: "'a \<Rightarrow> 'a array_list \<Rightarrow> int" where
  "aal_getIndex obj a = aal_getIndex_loop (al_size a) 0 obj a"

definition aal_erase_obj :: "'a \<Rightarrow> ('a array_list, unit) cmd" where
  "aal_erase_obj obj = bindE (getsE (aal_getIndex obj)) (\<lambda>ix. if ix \<noteq> -1 then aal_erase ix else returnE ())"

section \<open>The list a state stands for\<close>

definition al_contents :: "'a array_list \<Rightarrow> 'a list" where
  "al_contents a = map (\<lambda>j. al_data a (int j)) [0..<al_size a]"

definition al_ok :: "'a array_list \<Rightarrow> bool" where
  "al_ok a \<longleftrightarrow> al_size a \<le> al_capacity a"

lemma length_al_contents [simp]: "length (al_contents a) = al_size a"
  by (simp add: al_contents_def)

lemma al_add_run:
  "al_add x a = (if al_size a < al_capacity a then (Ok (), a\<lparr>al_data := (al_data a)(int (al_size a) := x), al_size := al_size a + 1\<rparr>)
     else (Throw AssertionFailed, a))"
  by (simp add: al_add_def run_simps)

lemma al_erase_run:
  "al_erase ix a = (if 0 \<le> ix \<and> ix < int (al_size a)
     then (Ok (), a\<lparr>al_size := al_size a - 1, al_data := (al_data a)(ix := al_data a (int (al_size a - 1)))\<rparr>)
     else (Throw AssertionFailed, a))"
  by (simp add: al_erase_def run_simps)

lemma contents_after_add:
  "al_contents (a\<lparr>al_data := (al_data a)(int (al_size a) := x), al_size := al_size a + 1\<rparr>) = al_contents a @ [x]"
  by (simp add: al_contents_def)

lemma contents_after_erase:
  assumes "j < al_size a"
  shows "al_contents (a\<lparr>al_size := al_size a - 1, al_data := (al_data a)(int j := al_data a (int (al_size a - 1)))\<rparr>) =
    butlast ((al_contents a)[j := last (al_contents a)])"
proof (rule nth_equalityI)
  have ne: "al_contents a \<noteq> []" using assms by (metis length_al_contents less_nat_zero_code list.size(3))
  fix i assume "i < length (al_contents (a\<lparr>al_size := al_size a - 1, al_data := (al_data a)(int j := al_data a (int (al_size a - 1)))\<rparr>))"
  then have i: "i < al_size a - 1" by simp
  have "last (al_contents a) = al_data a (int (al_size a - 1))"
    using ne assms by (simp add: last_conv_nth) (simp add: al_contents_def)
  then show "al_contents (a\<lparr>al_size := al_size a - 1, al_data := (al_data a)(int j := al_data a (int (al_size a - 1)))\<rparr>) ! i =
      butlast ((al_contents a)[j := last (al_contents a)]) ! i"
    using i by (simp add: nth_butlast nth_list_update) (auto simp: al_contents_def)
qed simp

lemma butlast_replace: "j < length xs \<Longrightarrow> mset (butlast (xs[j := last xs])) = mset xs - {#xs ! j#}"
proof (cases xs rule: rev_cases)
  case (snoc ys y)
  assume j: "j < length xs"
  show ?thesis
  proof (cases "j = length ys")
    case True then show ?thesis using snoc by (simp add: list_update_append)
  next
    case False
    then have "j < length ys" using j snoc by simp
    then show ?thesis using snoc by (simp add: list_update_append nth_append mset_update)
  qed
qed simp

lemma find_upt_nth:
  "List.find (\<lambda>j. f j = x) [0..<n] = (if x \<in> f ` {..<n} then Some (LEAST j. f j = x) else None)"
proof (cases "x \<in> f ` {..<n}")
  case True
  then obtain j where j: "j < n" "f j = x" by auto
  let ?l = "LEAST j. f j = x"
  have l: "f ?l = x" "?l \<le> j" using j(2) by (rule LeastI, rule Least_le)
  have "List.find (\<lambda>j. f j = x) [0..<n] = Some ?l"
    unfolding find_Some_iff using l j(1) by (intro exI [of _ ?l]) (auto dest: not_less_Least)
  then show ?thesis using True by simp
next
  case False
  then show ?thesis by (auto simp: find_None_iff)
qed

lemma al_getIndex_eq:
  "al_getIndex x a = (if x \<in> set (al_contents a) then int (LEAST j. al_data a (int j) = x) else -1)"
  by (auto simp: al_getIndex_def find_upt_nth al_contents_def)

lemma aal_getIndex_eq: "aal_getIndex x a = al_getIndex x a"
proof -
  have "aal_getIndex_loop n j x a = (case List.find (\<lambda>j. al_data a (int j) = x) [j..<j + n] of None \<Rightarrow> -1 | Some k \<Rightarrow> int k)" for n j
  proof (induction n arbitrary: j)
    case (Suc n)
    have "[j..<j + Suc n] = j # [Suc j..<Suc j + n]" by (simp add: upt_conv_Cons del: upt_Suc)
    then show ?case using Suc [of "Suc j"] by (simp del: upt_Suc)
  qed simp
  from this [of "al_size a" 0] show ?thesis by (simp add: aal_getIndex_def al_getIndex_def)
qed

text \<open>
  (C30) The list of the record manager behaves as a bounded list: \<open>add\<close> appends, or fails its
  assertion when the list is full; \<open>erase\<close> removes one occurrence of the element at the index by
  moving the last element there, or fails its assertion when the index is out of range;
  \<open>contains\<close> is membership, and every operation keeps the size within the capacity.
\<close>

theorem ArrayList_bounded_list:
  assumes "al_ok a"
  shows "(al_size a < al_capacity a \<longrightarrow> (\<exists>a'. al_add x a = (Ok (), a') \<and> al_contents a' = al_contents a @ [x] \<and> al_ok a')) \<and>
    (al_size a = al_capacity a \<longrightarrow> al_isFull a \<and> al_add x a = (Throw AssertionFailed, a)) \<and>
    (j < al_size a \<longrightarrow> (\<exists>a'. al_erase (int j) a = (Ok (), a') \<and>
        mset (al_contents a') = mset (al_contents a) - {#al_contents a ! j#} \<and> al_ok a')) \<and>
    (ix < 0 \<or> int (al_size a) \<le> ix \<longrightarrow> al_erase ix a = (Throw AssertionFailed, a)) \<and>
    (al_contains x a \<longleftrightarrow> x \<in> set (al_contents a)) \<and> (j < al_size a \<longrightarrow> al_get (int j) a = Ok (al_contents a ! j)) \<and>
    (\<exists>a'. al_erase_obj x a = (Ok (), a') \<and> mset (al_contents a') = mset (al_contents a) - {#x#} \<and> al_ok a')"
proof (intro conjI impI)
  show "\<exists>a'. al_add x a = (Ok (), a') \<and> al_contents a' = al_contents a @ [x] \<and> al_ok a'" if "al_size a < al_capacity a"
    using that contents_after_add [of a x] by (simp add: al_add_run al_ok_def)
  show "al_isFull a" "al_add x a = (Throw AssertionFailed, a)" if "al_size a = al_capacity a"
    using that by (simp_all add: al_isFull_def al_add_run)
  have erase: "\<exists>a'. al_erase (int j) a = (Ok (), a') \<and> mset (al_contents a') = mset (al_contents a) - {#al_contents a ! j#} \<and> al_ok a'"
    if "j < al_size a" for j
    using that contents_after_erase [OF that] butlast_replace [of j "al_contents a"] assms by (simp add: al_erase_run al_ok_def)
  then show "\<exists>a'. al_erase (int j) a = (Ok (), a') \<and> mset (al_contents a') = mset (al_contents a) - {#al_contents a ! j#} \<and> al_ok a'"
    if "j < al_size a" using that by blast
  show "al_erase ix a = (Throw AssertionFailed, a)" if "ix < 0 \<or> int (al_size a) \<le> ix" using that by (auto simp: al_erase_run)
  show "al_contains x a \<longleftrightarrow> x \<in> set (al_contents a)" by (simp add: al_contains_def al_getIndex_eq)
  show "al_get (int j) a = Ok (al_contents a ! j)" if "j < al_size a"
    using that assms by (simp add: al_get_def al_ok_def al_contents_def)
  show "\<exists>a'. al_erase_obj x a = (Ok (), a') \<and> mset (al_contents a') = mset (al_contents a) - {#x#} \<and> al_ok a'"
  proof (cases "x \<in> set (al_contents a)")
    case True
    let ?j = "LEAST j. al_data a (int j) = x"
    obtain k where k: "k < al_size a" "al_data a (int k) = x" using True by (auto simp: al_contents_def)
    have "al_data a (int ?j) = x" using k(2) by (rule LeastI)
    moreover have "?j \<le> k" using k(2) by (rule Least_le)
    ultimately have j: "?j < al_size a" "al_contents a ! ?j = x" using k(1) by (auto simp: al_contents_def)
    then show ?thesis using erase [OF j(1)] True by (simp add: al_erase_obj_def al_getIndex_eq run_simps)
  next
    case False
    then show ?thesis using assms by (simp add: al_erase_obj_def al_getIndex_eq run_simps)
  qed
qed

theorem ArrayList_bounded_list_witness:
  "(\<exists>a. al_add (7 :: nat) (new_ArrayList (\<lambda>_. 0) 2) = (Ok (), a) \<and> al_contents a = [7]) \<and>
   al_add (7 :: nat) (new_ArrayList (\<lambda>_. 0) 0) = (Throw AssertionFailed, new_ArrayList (\<lambda>_. 0) 0)"
proof -
  have ok: "al_ok (new_ArrayList (\<lambda>_. 0 :: nat) n)" for n by (simp add: new_ArrayList_def al_ok_def)
  have "al_size (new_ArrayList (\<lambda>_. 0 :: nat) n) = 0" "al_capacity (new_ArrayList (\<lambda>_. 0 :: nat) n) = n"
    "al_contents (new_ArrayList (\<lambda>_. 0 :: nat) n) = []" for n
    by (simp_all add: new_ArrayList_def al_contents_def)
  note sz = this
  note a = conjunct1 [OF ArrayList_bounded_list [OF ok [of 2], of 7 0 0], unfolded sz]
    and b = conjunct1 [OF conjunct2 [OF ArrayList_bounded_list [OF ok [of 0], of 7 0 0]], unfolded sz]
  have "al_add (7 :: nat) (new_ArrayList (\<lambda>_. 0) 0) = (Throw AssertionFailed, new_ArrayList (\<lambda>_. 0) 0)" using b by blast
  then show ?thesis using a by auto
qed

text \<open>
  \<open>AtomicArrayList\<close>, run by its one writer, is \<open>ArrayList\<close>: its operations give the same
  results and leave the same state, assertion failures included.
\<close>

lemma AtomicArrayList_equivalent:
  "aal_add x a = al_add x a \<and> aal_erase ix a = al_erase ix a \<and> aal_getIndex x a = al_getIndex x a \<and> aal_erase_obj x a = al_erase_obj x a"
proof -
  have e: "aal_erase ix a = al_erase ix a" for ix
    by (auto simp: aal_erase_def al_erase_run run_simps of_nat_diff fun_upd_idem)
  show ?thesis
    by (simp add: e aal_add_def al_add_run run_simps aal_getIndex_eq aal_erase_obj_def al_erase_obj_def)
qed

end
