(* ===== verification/HashSet.thy ===== *)
theory HashSet
  imports Prelude
begin

text \<open>
  The hash sets of pointers of \<^verbatim>\<open>recordmgr/hashtable.h\<close>: \<open>hashset\<close> with its fixed table, and
  \<open>hashset_new\<close>, sized for a number of elements. Both probe linearly. A pointer is a 64-bit
  word, the empty cell is the null pointer.
\<close>

unbundle bit_operations_syntax

section \<open>The hash function\<close>

definition HASHSET_EMPTY_CELL :: u64 where
  "HASHSET_EMPTY_CELL = 0"

text \<open>\<open>k >> 33\<close> on a \<open>long long\<close> keeps the sign; the multiplications wrap.\<close>

definition hash :: "u64 \<Rightarrow> u64" where
  "hash key =
     (let k = key XOR signed_drop_bit 33 key;
          k = k * 0xff51afd7ed558ccd;
          k = k XOR signed_drop_bit 33 k;
          k = k * 0xc4ceb9fe1a85ec53
      in k XOR signed_drop_bit 33 k)"

section \<open>hashset\<close>

definition HASHSET_TABLE_SIZE :: nat where
  "HASHSET_TABLE_SIZE = 32"

definition HASHSET_FIRST_INDEX :: "u64 \<Rightarrow> nat" where
  "HASHSET_FIRST_INDEX key = unat (hash key AND of_nat (HASHSET_TABLE_SIZE - 1))"

text \<open>\<open>%\<close> binds tighter than \<open>+\<close>.\<close>

definition HASHSET_NEXT_INDEX :: "nat \<Rightarrow> nat" where
  "HASHSET_NEXT_INDEX ix = ix + 1 mod HASHSET_TABLE_SIZE"

record hashset =
  hs_cleared :: bool
  hs_keys :: "nat \<Rightarrow> u64"

text \<open>The loop of \<open>getIndex\<close>; reading a cell past the table is an access out of bounds.\<close>

function hs_probe :: "(nat \<Rightarrow> u64) \<Rightarrow> u64 \<Rightarrow> nat \<Rightarrow> nat outcome" where
  "hs_probe ks key ix =
     (if ix \<ge> HASHSET_TABLE_SIZE then Throw NullPointer
      else if ks ix \<noteq> HASHSET_EMPTY_CELL \<and> ks ix \<noteq> key then hs_probe ks key (HASHSET_NEXT_INDEX ix)
      else Ok ix)"
  by pat_completeness auto

termination hs_probe
  by (relation "measure (\<lambda>(ks, key, ix). HASHSET_TABLE_SIZE - ix)") (auto simp: HASHSET_NEXT_INDEX_def HASHSET_TABLE_SIZE_def)

definition hs_getIndex :: "u64 \<Rightarrow> (hashset, nat) cmd" where
  "hs_getIndex key = (\<lambda>s. (hs_probe (hs_keys s) key (HASHSET_FIRST_INDEX key), s))"

definition hs_clear :: "hashset \<Rightarrow> hashset" where
  "hs_clear s = (if \<not> hs_cleared s then s\<lparr>hs_keys := (\<lambda>_. HASHSET_EMPTY_CELL), hs_cleared := True\<rparr> else s)"

definition new_hashset :: "(nat \<Rightarrow> u64) \<Rightarrow> hashset" where
  "new_hashset junk = hs_clear \<lparr>hs_cleared = False, hs_keys = junk\<rparr>"

definition hs_get :: "u64 \<Rightarrow> (hashset, u64) cmd" where
  "hs_get key = bindE (hs_getIndex key) (\<lambda>ix. getsE (\<lambda>s. hs_keys s ix))"

definition hs_contains :: "u64 \<Rightarrow> (hashset, bool) cmd" where
  "hs_contains key = bindE (hs_get key) (\<lambda>k. returnE (k \<noteq> HASHSET_EMPTY_CELL))"

definition hs_insert :: "u64 \<Rightarrow> (hashset, unit) cmd" where
  "hs_insert key = bindE (hs_getIndex key) (\<lambda>ix. modifyE (\<lambda>s. s\<lparr>hs_keys := (hs_keys s)(ix := key)\<rparr>))"

definition hs_erase :: "u64 \<Rightarrow> (hashset, unit) cmd" where
  "hs_erase key = bindE (hs_getIndex key) (\<lambda>ix. modifyE (\<lambda>s. s\<lparr>hs_keys := (hs_keys s)(ix := HASHSET_EMPTY_CELL)\<rparr>))"

section \<open>hashset_new\<close>

record hashset_new =
  tableSize :: nat
  hn_keys :: "nat \<Rightarrow> u64"
  hn_size :: int

definition firstIndex :: "nat \<Rightarrow> u64 \<Rightarrow> nat" where
  "firstIndex ts key = unat (hash key AND of_nat (ts - 1))"

definition nextIndex :: "nat \<Rightarrow> nat \<Rightarrow> nat" where
  "nextIndex ts ix = (ix + 1) AND (ts - 1)"

text \<open>
  The loop of \<open>getIndex\<close>. After \<open>tableSize\<close> steps it has seen every cell and goes round for
  ever.
\<close>

primrec hn_probe :: "nat \<Rightarrow> nat \<Rightarrow> (nat \<Rightarrow> u64) \<Rightarrow> u64 \<Rightarrow> nat \<Rightarrow> nat outcome" where
  "hn_probe 0 ts ks key ix = Throw Diverges"
| "hn_probe (Suc n) ts ks key ix =
     (if ks ix = HASHSET_EMPTY_CELL \<or> ks ix = key then Ok ix
      else let ix' = nextIndex ts ix in
        if ix' < ts then hn_probe n ts ks key ix' else Throw AssertionFailed)"

definition hn_getIndex :: "u64 \<Rightarrow> (hashset_new, nat) cmd" where
  "hn_getIndex key = (\<lambda>s.
     let ix = firstIndex (tableSize s) key in
     if ix < tableSize s then (hn_probe (tableSize s) (tableSize s) (hn_keys s) key ix, s) else (Throw AssertionFailed, s))"

function grow_table :: "nat \<Rightarrow> nat \<Rightarrow> nat" where
  "grow_table numberOfElements ts = (if 0 < ts \<and> ts < numberOfElements * 2 then grow_table numberOfElements (ts * 2) else ts)"
  by pat_completeness auto

termination grow_table
  by (relation "measure (\<lambda>(m, ts). m * 2 - ts)") auto

definition hn_clear :: "hashset_new \<Rightarrow> hashset_new" where
  "hn_clear s = (if hn_size s \<noteq> 0 then s\<lparr>hn_keys := (\<lambda>_. HASHSET_EMPTY_CELL), hn_size := 0\<rparr> else s)"

definition new_hashset_new :: "(nat \<Rightarrow> u64) \<Rightarrow> nat \<Rightarrow> hashset_new" where
  "new_hashset_new junk numberOfElements = hn_clear \<lparr>tableSize = grow_table numberOfElements 32, hn_keys = junk, hn_size = -1\<rparr>"

definition hn_get :: "u64 \<Rightarrow> (hashset_new, u64) cmd" where
  "hn_get key = bindE (hn_getIndex key) (\<lambda>ix. getsE (\<lambda>s. hn_keys s ix))"

definition hn_contains :: "u64 \<Rightarrow> (hashset_new, bool) cmd" where
  "hn_contains key = bindE (hn_get key) (\<lambda>k. returnE (k \<noteq> HASHSET_EMPTY_CELL))"

definition hn_insert :: "u64 \<Rightarrow> (hashset_new, unit) cmd" where
  "hn_insert key =
     bindE (hn_getIndex key) (\<lambda>ix.
     bindE (getsE (\<lambda>s. hn_keys s ix)) (\<lambda>k.
       if k = HASHSET_EMPTY_CELL then
         thenE (modifyE (\<lambda>s. s\<lparr>hn_keys := (hn_keys s)(ix := key), hn_size := hn_size s + 1\<rparr>))
           (bindE (getsE id) (\<lambda>s. assertE (hn_size s < int (tableSize s))))
       else returnE ()))"

section \<open>The table of hashset_new\<close>

definition pow2 :: "nat \<Rightarrow> bool" where
  "pow2 n \<longleftrightarrow> (\<exists>m. n = 2 ^ m)"

declare grow_table.simps [simp del] and hs_probe.simps [simp del]

lemma nextIndex_mod: "pow2 ts \<Longrightarrow> nextIndex ts ix = (ix + 1) mod ts"
proof -
  assume "pow2 ts"
  then obtain m where m: "ts = 2 ^ m" by (auto simp: pow2_def)
  have "nextIndex ts ix = (ix + 1) AND mask m" by (simp only: nextIndex_def m mask_eq_exp_minus_1)
  also have "\<dots> = (ix + 1) mod ts" by (simp only: m take_bit_eq_mod flip: take_bit_eq_mask)
  finally show ?thesis .
qed

lemma firstIndex_less: "0 < ts \<Longrightarrow> firstIndex ts key < ts"
proof -
  assume ts: "0 < ts"
  have "unat (hash key AND of_nat (ts - 1)) \<le> unat (of_nat (ts - 1) :: u64)" by (simp add: word_le_nat_alt [symmetric] word_and_le1)
  also have "\<dots> \<le> ts - 1" by (simp add: unat_of_nat)
  finally show ?thesis using ts by (simp add: firstIndex_def)
qed

lemma grow_table_pow2: "pow2 ts \<Longrightarrow> pow2 (grow_table m ts)"
proof (induction m ts rule: grow_table.induct)
  case (1 m ts)
  have "pow2 (ts * 2)" using 1(2) by (auto simp: pow2_def intro: exI [of _ "Suc _"])
  then show ?case using 1 by (subst grow_table.simps) simp
qed

lemma grow_table_ge: "0 < ts \<Longrightarrow> ts \<le> grow_table m ts \<and> 2 * m \<le> grow_table m ts"
proof (induction m ts rule: grow_table.induct)
  case (1 m ts)
  then show ?case by (subst (1 2) grow_table.simps) auto
qed

lemma grow_table_le: "0 < ts \<Longrightarrow> grow_table m ts = ts \<or> grow_table m ts < 4 * m"
proof (induction m ts rule: grow_table.induct)
  case (1 m ts)
  then show ?case using grow_table.simps [of m ts] by (cases "ts < m * 2") auto
qed

text \<open>
  The invariant: the table has a power of two of cells, the size counts the cells in use, at
  least one cell is free, and probing for a stored key finds its cell.
\<close>

definition used :: "hashset_new \<Rightarrow> nat set" where
  "used s = {i. i < tableSize s \<and> hn_keys s i \<noteq> HASHSET_EMPTY_CELL}"

definition hn_ok :: "hashset_new \<Rightarrow> bool" where
  "hn_ok s \<longleftrightarrow> pow2 (tableSize s) \<and> hn_size s = int (card (used s)) \<and> hn_size s < int (tableSize s) \<and>
     (\<forall>i\<in>used s. hn_probe (tableSize s) (tableSize s) (hn_keys s) (hn_keys s i) (firstIndex (tableSize s) (hn_keys s i)) = Ok i)"

definition hn_set :: "hashset_new \<Rightarrow> u64 set" where
  "hn_set s = hn_keys s ` used s"

lemma hn_probe_finds:
  assumes "pow2 ts" and "j < n" and "ix < ts" and "ks ((ix + j) mod ts) = 0 \<or> ks ((ix + j) mod ts) = key"
  shows "\<exists>i. hn_probe n ts ks key ix = Ok i"
  using assms
proof (induction n arbitrary: ix j)
  case (Suc n)
  have ts: "0 < ts" using Suc.prems(3) by simp
  show ?case
  proof (cases j)
    case 0
    then show ?thesis using Suc.prems(3,4) by (simp add: HASHSET_EMPTY_CELL_def)
  next
    case (Suc k)
    then have "((ix + 1) mod ts + k) mod ts = (ix + j) mod ts" using mod_add_left_eq [of "ix + 1" ts k] by simp
    moreover have "(ix + 1) mod ts < ts" using ts by simp
    ultimately have "\<exists>i. hn_probe n ts ks key ((ix + 1) mod ts) = Ok i"
      using Suc.IH [of k "(ix + 1) mod ts"] Suc.prems(1,2,4) Suc by simp
    then show ?thesis using ts by (auto simp: nextIndex_mod [OF Suc.prems(1)] Let_def)
  qed
qed simp

lemma hn_probe_Ok:
  "hn_probe n ts ks key ix = Ok i \<Longrightarrow> ix < ts \<Longrightarrow> i < ts \<and> (ks i = HASHSET_EMPTY_CELL \<or> ks i = key)"
  by (induction n arbitrary: ix) (auto simp: Let_def split: if_splits)

lemma hn_probe_upd:
  "hn_probe n ts ks k ix = Ok i \<Longrightarrow> ks i \<noteq> HASHSET_EMPTY_CELL \<Longrightarrow> ks c = HASHSET_EMPTY_CELL \<Longrightarrow> hn_probe n ts (ks(c := key)) k ix = Ok i"
  by (induction n arbitrary: ix) (auto simp: Let_def split: if_splits)

lemma hn_probe_new:
  "hn_probe n ts ks key ix = Ok c \<Longrightarrow> ks c = HASHSET_EMPTY_CELL \<Longrightarrow> hn_probe n ts (ks(c := key)) key ix = Ok c"
  by (induction n arbitrary: ix) (auto simp: Let_def split: if_splits)

lemma hn_okD:
  assumes "hn_ok s"
  shows "pow2 (tableSize s)" and "hn_size s = int (card (used s))" and "hn_size s < int (tableSize s)" and "0 < tableSize s"
    and "i < tableSize s \<Longrightarrow> hn_keys s i \<noteq> HASHSET_EMPTY_CELL \<Longrightarrow>
      hn_probe (tableSize s) (tableSize s) (hn_keys s) (hn_keys s i) (firstIndex (tableSize s) (hn_keys s i)) = Ok i"
  using assms by (auto simp: hn_ok_def used_def pow2_def)

text \<open>A free cell ends every probe.\<close>

lemma hn_getIndex_run:
  assumes "hn_ok s"
  obtains i where "hn_getIndex key s = (Ok i, s)" and "i < tableSize s"
    and "hn_probe (tableSize s) (tableSize s) (hn_keys s) key (firstIndex (tableSize s) key) = Ok i"
    and "hn_keys s i = HASHSET_EMPTY_CELL \<or> hn_keys s i = key"
proof -
  note H = hn_okD [OF assms]
  let ?N = "tableSize s" let ?f = "firstIndex ?N key"
  have f: "?f < ?N" by (rule firstIndex_less [OF H(4)])
  have "card (used s) < ?N" using H(2,3) by linarith
  then have "used s \<noteq> {..<?N}" by (metis card_lessThan less_irrefl)
  then obtain c where c: "c < ?N" "hn_keys s c = 0" by (auto simp: used_def HASHSET_EMPTY_CELL_def)
  have "(?f + (c + ?N - ?f) mod ?N) mod ?N = (?f + (c + ?N - ?f)) mod ?N" by (rule mod_add_right_eq)
  also have "?f + (c + ?N - ?f) = c + ?N" using f by linarith
  also have "(c + ?N) mod ?N = c" using c(1) by simp
  finally have "(?f + (c + ?N - ?f) mod ?N) mod ?N = c" .
  then obtain i where i: "hn_probe ?N ?N (hn_keys s) key ?f = Ok i"
    using hn_probe_finds [OF H(1) _ f, of "(c + ?N - ?f) mod ?N" ?N] c H(4) by auto
  show thesis using hn_probe_Ok [OF i f] i f by (intro that [of i]) (auto simp: hn_getIndex_def Let_def)
qed

lemma hn_stored_iff:
  assumes "hn_ok s" and "key \<noteq> HASHSET_EMPTY_CELL"
    and "hn_probe (tableSize s) (tableSize s) (hn_keys s) key (firstIndex (tableSize s) key) = Ok i"
  shows "key \<in> hn_set s \<longleftrightarrow> hn_keys s i = key"
proof -
  have i: "i < tableSize s" using hn_probe_Ok [OF assms(3) firstIndex_less [OF hn_okD(4) [OF assms(1)]]] by simp
  have "hn_keys s i = key" if k: "k < tableSize s" "hn_keys s k = key" for k
    using hn_okD(5) [OF assms(1) k(1)] k(2) assms(2,3) by simp
  then show ?thesis using i assms(2) by (auto simp: hn_set_def used_def)
qed

lemma new_hashset_new_ok:
  "hn_ok (new_hashset_new junk m)" "hn_set (new_hashset_new junk m) = {}" "2 * m \<le> tableSize (new_hashset_new junk m)"
  "m \<le> 2 ^ 29 \<Longrightarrow> tableSize (new_hashset_new junk m) < 2 ^ 31"
proof -
  have p: "pow2 (grow_table m 32)" by (rule grow_table_pow2) (auto simp: pow2_def intro: exI [of _ 5])
  have g: "32 \<le> grow_table m 32" "2 * m \<le> grow_table m 32" using grow_table_ge [of 32 m] by auto
  have u: "used (new_hashset_new junk m) = {}" by (simp add: used_def new_hashset_new_def hn_clear_def)
  show "hn_ok (new_hashset_new junk m)" using p g u by (simp add: hn_ok_def) (simp add: new_hashset_new_def hn_clear_def)
  show "hn_set (new_hashset_new junk m) = {}" using u by (simp add: hn_set_def)
  show "2 * m \<le> tableSize (new_hashset_new junk m)" using g by (simp add: new_hashset_new_def hn_clear_def)
  show "tableSize (new_hashset_new junk m) < 2 ^ 31" if "m \<le> 2 ^ 29"
    using grow_table_le [of 32 m] that by (auto simp: new_hashset_new_def hn_clear_def)
qed

lemma hn_contains_run:
  assumes "hn_ok s" and "key \<noteq> HASHSET_EMPTY_CELL"
  shows "hn_contains key s = (Ok (key \<in> hn_set s), s)"
proof -
  obtain i where i: "hn_getIndex key s = (Ok i, s)" "hn_probe (tableSize s) (tableSize s) (hn_keys s) key (firstIndex (tableSize s) key) = Ok i"
    "hn_keys s i = HASHSET_EMPTY_CELL \<or> hn_keys s i = key"
    using assms(1) by (rule hn_getIndex_run)
  show ?thesis using i(1,3) hn_stored_iff [OF assms i(2)] assms(2) by (auto simp: hn_contains_def hn_get_def run_simps)
qed

lemma hn_insert_run:
  assumes "hn_ok s" and "key \<noteq> HASHSET_EMPTY_CELL"
  shows "key \<in> hn_set s \<Longrightarrow> hn_insert key s = (Ok (), s)"
    and "key \<notin> hn_set s \<Longrightarrow> hn_size s + 1 < int (tableSize s) \<Longrightarrow>
      \<exists>s'. hn_insert key s = (Ok (), s') \<and> hn_ok s' \<and> hn_set s' = insert key (hn_set s) \<and> hn_size s' = hn_size s + 1 \<and> tableSize s' = tableSize s"
    and "key \<notin> hn_set s \<Longrightarrow> hn_size s + 1 = int (tableSize s) \<Longrightarrow> fst (hn_insert key s) = Throw AssertionFailed"
proof -
  note H = hn_okD [OF assms(1)]
  let ?N = "tableSize s"
  obtain i where i: "hn_getIndex key s = (Ok i, s)" "i < ?N" "hn_probe ?N ?N (hn_keys s) key (firstIndex ?N key) = Ok i"
    "hn_keys s i = HASHSET_EMPTY_CELL \<or> hn_keys s i = key"
    using assms(1) by (rule hn_getIndex_run)
  note st = hn_stored_iff [OF assms i(3)]
  show "key \<in> hn_set s \<Longrightarrow> hn_insert key s = (Ok (), s)" using i(1) st assms(2) by (simp add: hn_insert_def run_simps)
  let ?s = "s\<lparr>hn_keys := (hn_keys s)(i := key), hn_size := hn_size s + 1\<rparr>"
  assume n: "key \<notin> hn_set s"
  then have e: "hn_keys s i = HASHSET_EMPTY_CELL" using i(4) st by auto
  show "hn_size s + 1 = int ?N \<Longrightarrow> fst (hn_insert key s) = Throw AssertionFailed"
    using i(1) e by (simp add: hn_insert_def run_simps)
  assume lt: "hn_size s + 1 < int ?N"
  have run: "hn_insert key s = (Ok (), ?s)" using i(1) e lt by (simp add: hn_insert_def run_simps)
  have u: "used ?s = insert i (used s)" "i \<notin> used s" "finite (used s)" using i(2) e assms(2) by (auto simp: used_def)
  have set: "hn_set ?s = insert key (hn_set s)" unfolding hn_set_def u(1) using u(2) by auto
  have "hn_ok ?s" unfolding hn_ok_def
  proof (intro conjI ballI)
    fix j assume j: "j \<in> used ?s"
    show "hn_probe (tableSize ?s) (tableSize ?s) (hn_keys ?s) (hn_keys ?s j) (firstIndex (tableSize ?s) (hn_keys ?s j)) = Ok j"
    proof (cases "j = i")
      case True
      then show ?thesis using hn_probe_new [OF i(3) e] by simp
    next
      case False
      then have "j < ?N" "hn_keys s j \<noteq> HASHSET_EMPTY_CELL" using j u(1) by (auto simp: used_def)
      then show ?thesis using hn_probe_upd [OF H(5) _ e] False by simp
    qed
  qed (use H u lt in simp_all)
  then show "\<exists>s'. hn_insert key s = (Ok (), s') \<and> hn_ok s' \<and> hn_set s' = insert key (hn_set s) \<and> hn_size s' = hn_size s + 1 \<and> tableSize s' = tableSize s"
    using run set by (intro exI [of _ ?s]) simp
qed

lemma card_hn_set: "hn_ok s \<Longrightarrow> hn_size s = int (card (hn_set s))"
proof -
  assume ok: "hn_ok s"
  have "inj_on (hn_keys s) (used s)"
  proof (rule inj_onI)
    fix x y assume "x \<in> used s" "y \<in> used s" and e: "hn_keys s x = hn_keys s y"
    then have "x < tableSize s" "hn_keys s x \<noteq> HASHSET_EMPTY_CELL" "y < tableSize s" by (auto simp: used_def)
    moreover from this e have "hn_keys s y \<noteq> HASHSET_EMPTY_CELL" by metis
    ultimately have "Ok x = Ok y" using hn_okD(5) [OF ok, of x] hn_okD(5) [OF ok, of y] by (metis e)
    then show "x = y" by simp
  qed
  then show ?thesis using hn_okD(2) [OF ok] by (simp add: hn_set_def card_image)
qed

text \<open>
  (C31) \<open>hashset_new\<close> implements a finite set of pointers. A new table is empty, has at least twice
  the number of cells it was asked for and, up to \<open>2 ^ 29\<close> elements, a size that fits an
  \<open>int\<close>; looking a pointer up ends and answers membership; inserting adds the pointer, unless the
  table has only one free cell left, when the assertion fails; \<open>size\<close> is the number of elements.
\<close>

theorem hashset_new_refines_set:
  "hn_ok (new_hashset_new junk m) \<and> hn_set (new_hashset_new junk m) = {} \<and> 2 * m \<le> tableSize (new_hashset_new junk m) \<and>
   (m \<le> 2 ^ 29 \<longrightarrow> tableSize (new_hashset_new junk m) < 2 ^ 31) \<and>
   (hn_ok s \<longrightarrow> key \<noteq> HASHSET_EMPTY_CELL \<longrightarrow>
      hn_contains key s = (Ok (key \<in> hn_set s), s) \<and> hn_size s = int (card (hn_set s)) \<and>
      (key \<in> hn_set s \<longrightarrow> hn_insert key s = (Ok (), s)) \<and>
      (key \<notin> hn_set s \<longrightarrow> card (hn_set s) + 1 < tableSize s \<longrightarrow>
         (\<exists>s'. hn_insert key s = (Ok (), s') \<and> hn_ok s' \<and> hn_set s' = insert key (hn_set s))) \<and>
      (key \<notin> hn_set s \<longrightarrow> card (hn_set s) + 1 = tableSize s \<longrightarrow> fst (hn_insert key s) = Throw AssertionFailed))"
proof (intro conjI impI)
  assume ok: "hn_ok s" and k: "key \<noteq> HASHSET_EMPTY_CELL"
  show "hn_contains key s = (Ok (key \<in> hn_set s), s)" by (rule hn_contains_run [OF ok k])
  show c: "hn_size s = int (card (hn_set s))" by (rule card_hn_set [OF ok])
  show "hn_insert key s = (Ok (), s)" if "key \<in> hn_set s" by (rule hn_insert_run(1) [OF ok k that])
  show "\<exists>s'. hn_insert key s = (Ok (), s') \<and> hn_ok s' \<and> hn_set s' = insert key (hn_set s)"
    if "key \<notin> hn_set s" "card (hn_set s) + 1 < tableSize s"
    using hn_insert_run(2) [OF ok k that(1)] that(2) c by auto
  show "fst (hn_insert key s) = Throw AssertionFailed" if "key \<notin> hn_set s" "card (hn_set s) + 1 = tableSize s"
    using hn_insert_run(3) [OF ok k that(1)] that(2) c by simp
qed (rule new_hashset_new_ok; assumption?)+

text \<open>A table made for four pointers, before and after the pointer 8 goes in.\<close>

theorem hashset_new_refines_set_witness:
  "let s = new_hashset_new (\<lambda>_. 0) 4 in
     hn_contains 8 s = (Ok False, s) \<and> (\<exists>s'. hn_insert 8 s = (Ok (), s') \<and> hn_ok s' \<and> hn_set s' = {8})"
proof -
  let ?s = "new_hashset_new (\<lambda>_. 0) 4"
  have n: "hn_ok ?s" "hn_set ?s = {}" "2 * 4 \<le> tableSize ?s"
    using hashset_new_refines_set [of "\<lambda>_. 0" 4] by simp_all
  have k: "(8 :: u64) \<noteq> HASHSET_EMPTY_CELL" by (simp add: HASHSET_EMPTY_CELL_def)
  show ?thesis using hashset_new_refines_set [of "\<lambda>_. 0" 4 ?s 8] n k by (simp add: Let_def)
qed

section \<open>The boundary cases of hashset\<close>

text \<open>The keys 808 and 872 hash to the last cell, 432 and 728 to cell 5.\<close>

lemma hashset_first_indices:
  "HASHSET_FIRST_INDEX 808 = 31" "HASHSET_FIRST_INDEX 872 = 31" "HASHSET_FIRST_INDEX 432 = 5" "HASHSET_FIRST_INDEX 728 = 5"
  by code_simp+

lemma hs_probe_at:
  "ix < HASHSET_TABLE_SIZE \<Longrightarrow> ks ix = HASHSET_EMPTY_CELL \<or> ks ix = key \<Longrightarrow> hs_probe ks key ix = Ok ix"
  "ix < HASHSET_TABLE_SIZE \<Longrightarrow> ks ix \<noteq> HASHSET_EMPTY_CELL \<Longrightarrow> ks ix \<noteq> key \<Longrightarrow> hs_probe ks key ix = hs_probe ks key (Suc ix)"
  "HASHSET_TABLE_SIZE \<le> ix \<Longrightarrow> hs_probe ks key ix = Throw NullPointer"
  by (subst hs_probe.simps; auto simp: HASHSET_NEXT_INDEX_def HASHSET_TABLE_SIZE_def)+

lemmas hs_run = hs_insert_def hs_erase_def hs_contains_def hs_get_def hs_getIndex_def run_simps hs_probe_at
  HASHSET_TABLE_SIZE_def HASHSET_EMPTY_CELL_def hashset_first_indices


end
