(* ===== verification/HashList.thy ===== *)
theory HashList
  imports HashSet
begin

text \<open>
  The set of the range-query providers, \<^verbatim>\<open>rq/hashlist.h\<close> in its default variant
  (\<open>USE_SIMPLIFIED_HASHLIST\<close>) for elements of eight bytes: a singly linked list of the elements,
  newest first, with a hash table of its nodes. The table probes with steps 1, 4, 9, \<dots> and is
  rebuilt with twice the cells from the list when it is half full; cleared nodes are kept for reuse.
  The lemmas show that the probe sequence reaches every cell, that lookups end, and that insertion
  and rebuilding keep the table's invariant; \<open>HashListSpec\<close> has the list and its specification.
\<close>

section \<open>Nodes and state\<close>

record hl_node =
  hl_next :: "addr option"
  hl_element :: u64
  hashTableIndex :: int

text \<open>
  The nodes allocated with \<open>new\<close> and not deleted, with the next unused address; the hash table
  \<open>ht\<close>, whose array is a function on \<open>0, \<dots>, capacity - 1\<close>; the list.
\<close>

record hashlist =
  hl_nodes :: "addr \<Rightarrow> hl_node option"
  hl_fresh :: addr
  ht_data :: "nat \<Rightarrow> addr option"
  ht_size :: nat
  ht_capacity :: nat
  hl_head :: "addr option"
  hl_tail :: "addr option"
  freeNodes :: "addr option"
  hl_size :: nat

definition hl_deref :: "addr option \<Rightarrow> (hashlist, hl_node) cmd" where
  "hl_deref p = (\<lambda>s. case Option.bind p (hl_nodes s) of None \<Rightarrow> (Throw NullPointer, s) | Some n \<Rightarrow> (Ok n, s))"

definition hl_upd :: "addr \<Rightarrow> (hl_node \<Rightarrow> hl_node) \<Rightarrow> (hashlist, unit) cmd" where
  "hl_upd a f = bindE (hl_deref (Some a)) (\<lambda>n. modifyE (\<lambda>s. s\<lparr>hl_nodes := (hl_nodes s)(a \<mapsto> f n)\<rparr>))"

definition readCell :: "nat \<Rightarrow> (hashlist, addr option) cmd" where
  "readCell ix = (\<lambda>s. if ix < ht_capacity s then (Ok (ht_data s ix), s) else (Throw NullPointer, s))"

section \<open>The hash table\<close>

text \<open>\<open>__builtin_popcount\<close> reads an \<open>unsigned int\<close>.\<close>

definition popcount :: "nat \<Rightarrow> nat" where
  "popcount n = length (filter (bit (of_nat n :: 32 word)) [0..<32])"

definition assert_pow2 :: "(hashlist, unit) cmd" where
  "assert_pow2 = bindE (getsE ht_capacity) (\<lambda>c. assertE (popcount c = 1))"

definition hl_mix :: "u64 \<Rightarrow> u64" where
  "hl_mix e =
     (let p = e XOR drop_bit 33 e;
          p = p * 0xff51afd7ed558ccd;
          p = p XOR drop_bit 33 p;
          p = p * 0xc4ceb9fe1a85ec53
      in p XOR drop_bit 33 p)"

definition hl_hash :: "u64 \<Rightarrow> (hashlist, nat) cmd" where
  "hl_hash e =
     thenE assert_pow2
    (bindE (getsE ht_capacity) (\<lambda>c.
     let p = unat (hl_mix e AND of_nat (c - 1)) in
     thenE (assertE (p < 2 ^ 31 - 1)) (returnE p)))"

text \<open>
  \<open>(ix + i*i) & (capacity - 1)\<close>: the sum is an \<open>int\<close>, taken modulo \<open>2 ^ 32\<close> and extended with
  its sign.
\<close>

definition next_probe :: "nat \<Rightarrow> nat \<Rightarrow> nat \<Rightarrow> nat" where
  "next_probe c ix i = nat (and (sint (of_nat (ix + i * i) :: 32 word)) (int c - 1))"

primrec findIx_loop :: "nat \<Rightarrow> u64 \<Rightarrow> nat \<Rightarrow> nat \<Rightarrow> (hashlist, nat) cmd" where
  "findIx_loop 0 e ix i = throwE Diverges"
| "findIx_loop (Suc fuel) e ix i =
     bindE (readCell ix) (\<lambda>p.
     if p = None then returnE ix
     else bindE (hl_deref p) (\<lambda>n.
       if hl_element n = e then returnE ix
       else bindE (getsE ht_capacity) (\<lambda>c. findIx_loop fuel e (next_probe c ix (Suc i)) (Suc i))))"

definition findIx :: "u64 \<Rightarrow> (hashlist, nat) cmd" where
  "findIx e =
     thenE assert_pow2
    (bindE (hl_hash e) (\<lambda>ix.
     bindE (getsE ht_capacity) (\<lambda>c. findIx_loop (2 * c) e ix 0)))"

definition ht_find :: "u64 \<Rightarrow> (hashlist, addr option) cmd" where
  "ht_find e = bindE (findIx e) readCell"

definition ht_init :: "nat \<Rightarrow> (hashlist, unit) cmd" where
  "ht_init c =
     thenE (assertE (popcount c = 1))
       (modifyE (\<lambda>s. s\<lparr>ht_size := 0, ht_capacity := c, ht_data := (\<lambda>_. None)\<rparr>))"

text \<open>
  \<open>tryExpand\<close> and \<open>insertNode\<close> call each other; \<open>ins\<close> is the call of \<open>insertNode\<close> in the loop
  over the list.
\<close>

primrec rehash_loop :: "(addr \<Rightarrow> (hashlist, unit) cmd) \<Rightarrow> nat \<Rightarrow> addr option \<Rightarrow> (hashlist, unit) cmd" where
  "rehash_loop ins 0 cur = throwE Diverges"
| "rehash_loop ins (Suc fuel) cur =
     (case cur of
        None \<Rightarrow> returnE ()
      | Some a \<Rightarrow> thenE (ins a) (bindE (hl_deref (Some a)) (\<lambda>n. rehash_loop ins fuel (hl_next n))))"

definition tryExpand :: "(addr \<Rightarrow> (hashlist, unit) cmd) \<Rightarrow> addr option \<Rightarrow> (hashlist, unit) cmd" where
  "tryExpand ins head =
     bindE (getsE id) (\<lambda>s.
     if ht_size s * 2 < ht_capacity s then returnE ()
     else thenE (modifyE (\<lambda>s. s\<lparr>ht_capacity := ht_capacity s * 2, ht_data := (\<lambda>_. None), ht_size := 0\<rparr>))
       (rehash_loop ins (Suc (hl_fresh s)) head))"

primrec insertNode :: "nat \<Rightarrow> addr option \<Rightarrow> addr \<Rightarrow> (hashlist, unit) cmd" where
  "insertNode 0 head node = throwE Diverges"
| "insertNode (Suc depth) head node =
     bindE (hl_deref (Some node)) (\<lambda>n.
     bindE (ht_find (hl_element n)) (\<lambda>p.
     thenE (assertE (p = None))
    (thenE (tryExpand (insertNode depth head) head)
    (thenE assert_pow2
    (bindE (findIx (hl_element n)) (\<lambda>ix.
     bindE (getsE ht_capacity) (\<lambda>c.
     thenE (assertE (ix < c))
    (bindE (readCell ix) (\<lambda>q.
     thenE (assertE (q = None))
    (thenE (modifyE (\<lambda>s. s\<lparr>ht_data := (ht_data s)(ix := Some node)\<rparr>))
    (thenE (hl_upd node (\<lambda>n. n\<lparr>hashTableIndex := int ix\<rparr>))
    (bindE (hl_deref (Some node)) (\<lambda>n.
     bindE (readCell (nat (hashTableIndex n))) (\<lambda>r.
     thenE (assertE (r = Some node))
           (modifyE (\<lambda>s. s\<lparr>ht_size := ht_size s + 1\<rparr>))))))))))))))))"

primrec ht_clear_loop :: "nat \<Rightarrow> addr option \<Rightarrow> (hashlist, unit) cmd" where
  "ht_clear_loop 0 cur = throwE Diverges"
| "ht_clear_loop (Suc fuel) cur =
     (case cur of
        None \<Rightarrow> returnE ()
      | Some a \<Rightarrow>
          bindE (hl_deref (Some a)) (\<lambda>n.
          bindE (getsE ht_capacity) (\<lambda>c.
          thenE (assertE (0 \<le> hashTableIndex n \<and> hashTableIndex n < int c))
         (bindE (readCell (nat (hashTableIndex n))) (\<lambda>p.
          thenE (assertE (p = Some a))
         (thenE (modifyE (\<lambda>s. s\<lparr>ht_data := (ht_data s)(nat (hashTableIndex n) := None)\<rparr>))
                (ht_clear_loop fuel (hl_next n))))))))"

definition ht_clear :: "addr option \<Rightarrow> (hashlist, unit) cmd" where
  "ht_clear head =
     bindE (getsE id) (\<lambda>s.
     if ht_size s * 4 < ht_capacity s
     then thenE (ht_clear_loop (Suc (hl_fresh s)) head) (modifyE (\<lambda>s. s\<lparr>ht_size := 0\<rparr>))
     else modifyE (\<lambda>s. s\<lparr>ht_data := (\<lambda>_. None), ht_size := 0\<rparr>))"

section \<open>The list\<close>

definition allocateNode :: "u64 \<Rightarrow> (hashlist, addr) cmd" where
  "allocateNode e =
     bindE (getsE id) (\<lambda>s.
     case freeNodes s of
       Some a \<Rightarrow>
         bindE (hl_deref (Some a)) (\<lambda>n.
         thenE (modifyE (\<lambda>s. s\<lparr>freeNodes := hl_next n\<rparr>))
        (thenE (hl_upd a (\<lambda>n. n\<lparr>hl_element := e\<rparr>))
        (thenE (hl_upd a (\<lambda>n. n\<lparr>hl_next := hl_head s\<rparr>))
               (returnE a))))
     | None \<Rightarrow>
         thenE (modifyE (\<lambda>s. s\<lparr>hl_nodes := (hl_nodes s)(hl_fresh s \<mapsto>
                  \<lparr>hl_next = hl_head s, hl_element = e, hashTableIndex = - 1\<rparr>), hl_fresh := Suc (hl_fresh s)\<rparr>))
               (returnE (hl_fresh s)))"

definition hl_init :: "nat \<Rightarrow> (hashlist, unit) cmd" where
  "hl_init c =
     thenE (modifyE (\<lambda>s. s\<lparr>hl_head := None, hl_tail := None, freeNodes := None, hl_size := 0\<rparr>)) (ht_init c)"

definition hl_clear :: "(hashlist, unit) cmd" where
  "hl_clear =
     bindE (getsE hl_head) (\<lambda>head.
     thenE (ht_clear head)
    (bindE (getsE hl_tail) (\<lambda>tail.
     thenE (case tail of
              None \<Rightarrow> returnE ()
            | Some t \<Rightarrow>
                bindE (getsE freeNodes) (\<lambda>fr.
                thenE (hl_upd t (\<lambda>n. n\<lparr>hl_next := fr\<rparr>))
                      (modifyE (\<lambda>s. s\<lparr>freeNodes := head\<rparr>))))
       (modifyE (\<lambda>s. s\<lparr>hl_head := None, hl_tail := None, hl_size := 0\<rparr>)))))"

primrec destroy_loop :: "nat \<Rightarrow> addr option \<Rightarrow> (hashlist, unit) cmd" where
  "destroy_loop 0 cur = throwE Diverges"
| "destroy_loop (Suc fuel) cur =
     (case cur of
        None \<Rightarrow> returnE ()
      | Some a \<Rightarrow>
          bindE (hl_deref (Some a)) (\<lambda>n.
          thenE (modifyE (\<lambda>s. s\<lparr>hl_nodes := (hl_nodes s)(a := None)\<rparr>))
                (destroy_loop fuel (hl_next n))))"

text \<open>\<open>ht.destroy()\<close> deletes the array: no cell is left to read.\<close>

definition hl_destroy :: "(hashlist, unit) cmd" where
  "hl_destroy =
     thenE hl_clear
    (thenE (modifyE (\<lambda>s. s\<lparr>ht_capacity := 0\<rparr>))
    (bindE (getsE id) (\<lambda>s. destroy_loop (Suc (hl_fresh s)) (freeNodes s))))"

definition hl_contains :: "u64 \<Rightarrow> (hashlist, bool) cmd" where
  "hl_contains e = bindE (ht_find e) (\<lambda>p. returnE (p \<noteq> None))"

definition hl_insert :: "u64 \<Rightarrow> (hashlist, unit) cmd" where
  "hl_insert e =
     bindE (ht_find e) (\<lambda>p.
     if p = None then
       bindE (allocateNode e) (\<lambda>node.
       bindE (getsE hl_head) (\<lambda>head.
       thenE (insertNode 2 head node)
      (thenE (if head = None then modifyE (\<lambda>s. s\<lparr>hl_tail := Some node\<rparr>) else returnE ())
             (modifyE (\<lambda>s. s\<lparr>hl_head := Some node, hl_size := hl_size s + 1\<rparr>)))))
     else returnE ())"

definition hl_getSize :: "(hashlist, nat) cmd" where
  "hl_getSize = getsE hl_size"

definition empty_hashlist :: hashlist where
  "empty_hashlist = \<lparr>hl_nodes = Map.empty, hl_fresh = 0, ht_data = (\<lambda>_. None), ht_size = 0, ht_capacity = 0,
     hl_head = None, hl_tail = None, freeNodes = None, hl_size = 0\<rparr>"

section \<open>The probe sequence\<close>

text \<open>
  Capacities are powers of two. The steps 1, 4, 9, \<dots> reach every cell: already the even
  positions of the sequence do, because \<open>3 (1 + 4 + \<dots> + (2k)\<^sup>2) = k (2k + 1) (4k + 1)\<close> takes
  different values modulo \<open>2 ^ m\<close> for different \<open>k\<close>.
\<close>

primrec squares :: "nat \<Rightarrow> nat" where
  "squares 0 = 0"
| "squares (Suc i) = squares i + Suc i * Suc i"

lemma squares_even: "3 * squares (2 * k) = k * (2 * k + 1) * (4 * k + 1)"
  by (induction k) (auto simp: algebra_simps)

lemma squares_inj: "inj_on (\<lambda>k. (x + squares (2 * k)) mod 2 ^ m) {..<2 ^ m}"
proof (rule inj_onI)
  fix k j :: nat
  assume kj: "k \<in> {..<2 ^ m}" "j \<in> {..<2 ^ m}"
    and eq: "(x + squares (2 * k)) mod 2 ^ m = (x + squares (2 * j)) mod 2 ^ m"
  let ?k = "int k" and ?j = "int j"
  have "(int (x + squares (2 * k))) mod 2 ^ m = (int (x + squares (2 * j))) mod 2 ^ m"
    using eq by (metis of_nat_mod of_nat_numeral of_nat_power)
  then have "2 ^ m dvd int (squares (2 * k)) - int (squares (2 * j))"
    by (simp add: mod_eq_dvd_iff)
  then have "2 ^ m dvd 3 * (int (squares (2 * k)) - int (squares (2 * j)))" by (rule dvd_mult)
  also have "3 * (int (squares (2 * k)) - int (squares (2 * j))) =
      int (3 * squares (2 * k)) - int (3 * squares (2 * j))" by simp
  also have "\<dots> = (?k - ?j) * (2 * (4 * (?k * ?k + ?k * ?j + ?j * ?j) + 3 * (?k + ?j)) + 1)"
    unfolding squares_even by (simp add: algebra_simps)
  finally have "2 ^ m dvd (?k - ?j) * (2 * (4 * (?k * ?k + ?k * ?j + ?j * ?j) + 3 * (?k + ?j)) + 1)" .
  moreover have "coprime (2 ^ m) (2 * (4 * (?k * ?k + ?k * ?j + ?j * ?j) + 3 * (?k + ?j)) + 1)"
    by (metis coprime_power_left_iff coprime_left_2_iff_odd even_plus_one_iff dvd_triv_left)
  ultimately have "2 ^ m dvd ?k - ?j" by (metis coprime_dvd_mult_left_iff)
  then have "?k mod 2 ^ m = ?j mod 2 ^ m" by (simp add: mod_eq_dvd_iff)
  then show "k = j" using kj by (simp flip: of_nat_mod)
qed

lemma squares_reach:
  assumes "c < 2 ^ m"
  shows "\<exists>j < 2 * 2 ^ m. (x + squares j) mod 2 ^ m = c"
proof -
  have "(\<lambda>k. (x + squares (2 * k)) mod 2 ^ m) ` {..<2 ^ m} = {..<2 ^ m}"
    by (rule endo_inj_surj) (use squares_inj in auto)
  with assms have "c \<in> (\<lambda>k. (x + squares (2 * k)) mod 2 ^ m) ` {..<2 ^ m}" by simp
  then obtain k where "k < 2 ^ m" "(x + squares (2 * k)) mod 2 ^ m = c" by blast
  then show ?thesis by (intro exI [of _ "2 * k"]) simp
qed

lemma next_probe_mod:
  assumes "m \<le> 31"
  shows "next_probe (2 ^ m) ix i = (ix + i * i) mod 2 ^ m"
proof -
  have "and (sint (of_nat (ix + i * i) :: 32 word)) (int (2 ^ m) - 1) = take_bit m (sint (of_nat (ix + i * i) :: 32 word))"
    by (simp add: take_bit_eq_mask mask_eq_exp_minus_1)
  also have "\<dots> = take_bit m (int (ix + i * i))"
    using assms by (simp add: signed_of_nat take_bit_signed_take_bit del: of_nat_add of_nat_mult)
  also have "\<dots> = int (take_bit m (ix + i * i))" by (simp only: take_bit_of_nat)
  finally show ?thesis by (simp only: next_probe_def nat_int take_bit_eq_mod)
qed

lemma popcount_pow2:
  assumes "m < 32"
  shows "popcount (2 ^ m) = 1"
proof -
  have "popcount (2 ^ m) = card ({n. bit (of_nat (2 ^ m) :: 32 word) n} \<inter> {0..<32})"
    unfolding popcount_def by (subst distinct_length_filter) simp_all
  also have "{n. bit (of_nat (2 ^ m) :: 32 word) n} \<inter> {0..<32} = {m}" using assms by (auto simp: bit_simps)
  finally show ?thesis by simp
qed

section \<open>The table\<close>

definition elem :: "hashlist \<Rightarrow> addr \<Rightarrow> u64" where
  "elem s a = (case hl_nodes s a of None \<Rightarrow> 0 | Some n \<Rightarrow> hl_element n)"

definition cells :: "hashlist \<Rightarrow> nat \<Rightarrow> u64 option" where
  "cells s ix = map_option (elem s) (ht_data s ix)"

text \<open>The loop of \<open>findIx\<close> on the contents of the cells.\<close>

primrec probe :: "nat \<Rightarrow> nat \<Rightarrow> (nat \<Rightarrow> u64 option) \<Rightarrow> u64 \<Rightarrow> nat \<Rightarrow> nat \<Rightarrow> nat option" where
  "probe 0 m K e ix i = None"
| "probe (Suc n) m K e ix i =
     (if K ix = None \<or> K ix = Some e then Some ix else probe n m K e ((ix + Suc i * Suc i) mod 2 ^ m) (Suc i))"

lemma probe_finds:
  assumes "j < n" and "K ((x + squares (i + j)) mod 2 ^ m) = None"
  shows "\<exists>c. probe n m K e ((x + squares i) mod 2 ^ m) i = Some c"
  using assms
proof (induction n arbitrary: i j)
  case (Suc n)
  have step: "((x + squares i) mod 2 ^ m + Suc i * Suc i) mod 2 ^ m = (x + squares (Suc i)) mod 2 ^ m"
    by (simp only: squares.simps mod_add_left_eq add.assoc)
  show ?case
  proof (cases j)
    case 0
    then show ?thesis using Suc.prems by simp
  next
    case (Suc k)
    then have "\<exists>c. probe n m K e ((x + squares (Suc i)) mod 2 ^ m) (Suc i) = Some c"
      using Suc.IH [of k "Suc i"] Suc.prems by simp
    then show ?thesis unfolding probe.simps step by simp
  qed
qed simp

lemma probe_Some:
  "probe n m K e ix i = Some c \<Longrightarrow> ix < 2 ^ m \<Longrightarrow> c < 2 ^ m \<and> (K c = None \<or> K c = Some e)"
  by (induction n arbitrary: ix i) (auto split: if_splits)

lemma probe_upd:
  "probe n m K e ix i = Some c \<Longrightarrow> K c \<noteq> None \<Longrightarrow> K d = None \<Longrightarrow> probe n m (K(d \<mapsto> x)) e ix i = Some c"
  by (induction n arbitrary: ix i) (auto split: if_splits)

lemma probe_new:
  "probe n m K e ix i = Some c \<Longrightarrow> K c = None \<Longrightarrow> probe n m (K(c \<mapsto> e)) e ix i = Some c"
  by (induction n arbitrary: ix i) (auto split: if_splits)

definition start :: "nat \<Rightarrow> u64 \<Rightarrow> nat" where
  "start m e = unat (hl_mix e AND of_nat (2 ^ m - 1))"

lemma start_less: "start m e < 2 ^ m"
proof -
  have "unat (hl_mix e AND of_nat (2 ^ m - 1)) \<le> unat (of_nat (2 ^ m - 1) :: u64)"
    by (simp add: word_le_nat_alt [symmetric] word_and_le1)
  also have "\<dots> \<le> 2 ^ m - 1" by (metis unsigned_of_nat of_nat_id take_bit_nat_less_eq_self)
  also have "\<dots> < 2 ^ m" by simp
  finally show ?thesis unfolding start_def .
qed

text \<open>
  \<open>ht_ok m s P\<close>: the table has \<open>2 ^ m\<close> cells and holds exactly the nodes \<open>P\<close>, each in the cell
  its \<open>hashTableIndex\<close> names and in which a probe for its element ends; no element is there
  twice, and at most half of the cells are in use.
\<close>

definition ht_ok :: "nat \<Rightarrow> hashlist \<Rightarrow> addr set \<Rightarrow> bool" where
  "ht_ok m s P \<longleftrightarrow> ht_capacity s = 2 ^ m \<and> 1 \<le> m \<and> m \<le> 30 \<and> finite P \<and> ht_size s = card P \<and> 2 * card P \<le> 2 ^ m \<and>
     inj_on (elem s) P \<and>
     (\<forall>a\<in>P. \<exists>n c. hl_nodes s a = Some n \<and> hashTableIndex n = int c \<and> c < 2 ^ m \<and> ht_data s c = Some a \<and>
        probe (2 * 2 ^ m) m (cells s) (elem s a) (start m (elem s a)) 0 = Some c) \<and>
     (\<forall>c a. c < 2 ^ m \<longrightarrow> ht_data s c = Some a \<longrightarrow>
        a \<in> P \<and> (\<exists>n. hl_nodes s a = Some n \<and> hashTableIndex n = int c))"

lemma ht_okD:
  assumes "ht_ok m s P"
  shows "ht_capacity s = 2 ^ m" and "1 \<le> m" and "m \<le> 30" and "finite P" and "ht_size s = card P" and "2 * card P \<le> 2 ^ m"
    and "inj_on (elem s) P"
    and "a \<in> P \<Longrightarrow> \<exists>n c. hl_nodes s a = Some n \<and> hashTableIndex n = int c \<and> c < 2 ^ m \<and> ht_data s c = Some a \<and>
        probe (2 * 2 ^ m) m (cells s) (elem s a) (start m (elem s a)) 0 = Some c"
    and "c < 2 ^ m \<Longrightarrow> ht_data s c = Some a \<Longrightarrow> a \<in> P \<and> (\<exists>n. hl_nodes s a = Some n \<and> hashTableIndex n = int c)"
  using assms unfolding ht_ok_def by blast+

lemma assert_pow2_run: "ht_capacity s = 2 ^ m \<Longrightarrow> m \<le> 30 \<Longrightarrow> assert_pow2 s = (Ok (), s)"
  by (simp add: assert_pow2_def run_simps popcount_pow2)

lemma hl_hash_run:
  assumes "ht_capacity s = 2 ^ m" and "m \<le> 30"
  shows "hl_hash e s = (Ok (start m e), s)"
proof -
  have "start m e < 2 ^ m" by (rule start_less)
  also have "(2 :: nat) ^ m \<le> 2 ^ 30" using assms(2) by (rule power_increasing) simp
  finally have "start m e < 2 ^ 31 - 1" by simp
  then show ?thesis
    using assms by (simp add: hl_hash_def run_simps assert_pow2_run Let_def start_def)
qed

lemma findIx_loop_run:
  assumes "ht_capacity s = 2 ^ m" and "m \<le> 30" and "\<And>c a. c < 2 ^ m \<Longrightarrow> ht_data s c = Some a \<Longrightarrow> hl_nodes s a \<noteq> None"
    and "probe n m (cells s) e ix i = Some c" and "ix < 2 ^ m"
  shows "findIx_loop n e ix i s = (Ok c, s)"
  using assms(4,5)
proof (induction n arbitrary: ix i)
  case (Suc n)
  show ?case
  proof (cases "ht_data s ix")
    case None
    then show ?thesis using Suc.prems assms(1) by (simp add: run_simps readCell_def cells_def)
  next
    case (Some a)
    obtain nd where nd: "hl_nodes s a = Some nd" using assms(3) [OF Suc.prems(2) Some] by blast
    have K: "cells s ix = Some (hl_element nd)" by (simp add: cells_def Some elem_def nd)
    show ?thesis
    proof (cases "hl_element nd = e")
      case True
      then have "c = ix" using Suc.prems(1) by (simp add: K)
      then show ?thesis
        using True Suc.prems(2) assms(1) by (simp add: run_simps readCell_def Some hl_deref_def nd)
    next
      case False
      have m31: "m \<le> 31" using assms(2) by simp
      have "probe n m (cells s) e ((ix + Suc i * Suc i) mod 2 ^ m) (Suc i) = Some c" using Suc.prems(1) False by (simp add: K)
      from Suc.IH [OF this] have "findIx_loop n e (next_probe (2 ^ m) ix (Suc i)) (Suc i) s = (Ok c, s)"
        unfolding next_probe_mod [OF m31] by simp
      then show ?thesis
        using False Suc.prems(2) assms(1) by (simp add: run_simps readCell_def Some hl_deref_def nd)
    qed
  qed
qed simp

lemma free_cell:
  assumes "ht_ok m s P"
  obtains c where "c < 2 ^ m" and "cells s c = None"
proof -
  note H = ht_okD [OF assms]
  let ?U = "{c. c < 2 ^ m \<and> ht_data s c \<noteq> None}"
  have "inj_on (\<lambda>c. the (ht_data s c)) ?U"
  proof (rule inj_onI)
    fix c d assume "c \<in> ?U" "d \<in> ?U" "the (ht_data s c) = the (ht_data s d)"
    then obtain a where "c < 2 ^ m" "d < 2 ^ m" "ht_data s c = Some a" "ht_data s d = Some a" by auto
    with H(9) [of c a] H(9) [of d a] show "c = d" by auto
  qed
  moreover have "(\<lambda>c. the (ht_data s c)) ` ?U \<subseteq> P" using H(9) by auto
  ultimately have "card ?U \<le> card P" by (rule card_inj_on_le) (rule H(4))
  moreover have "(0 :: nat) < 2 ^ m" by simp
  ultimately have "card ?U < 2 ^ m" using H(6) by linarith
  then have "card ?U < card {..<2 ^ m :: nat}" by (simp only: card_lessThan)
  then have "?U \<noteq> {..<2 ^ m}" by (metis less_irrefl)
  then show thesis using that by (auto simp: cells_def)
qed

lemma findIx_run:
  assumes "ht_ok m s P"
  obtains c where "findIx e s = (Ok c, s)" and "c < 2 ^ m" and "probe (2 * 2 ^ m) m (cells s) e (start m e) 0 = Some c"
    and "ht_data s c = None \<and> e \<notin> elem s ` P \<or> (\<exists>a\<in>P. ht_data s c = Some a \<and> elem s a = e)"
proof -
  note H = ht_okD [OF assms]
  obtain c where c: "c < 2 ^ m" "cells s c = None" by (rule free_cell [OF assms])
  obtain j where j: "j < 2 * 2 ^ m" "(start m e + squares j) mod 2 ^ m = c" using squares_reach [OF c(1)] by blast
  have st: "start m e mod 2 ^ m = start m e" using start_less by simp
  obtain d where d: "probe (2 * 2 ^ m) m (cells s) e (start m e) 0 = Some d"
    using probe_finds [of j "2 * 2 ^ m" "cells s" "start m e" 0 m e] j c(2) st by auto
  note dp = probe_Some [OF d start_less]
  have "findIx_loop (2 * 2 ^ m) e (start m e) 0 s = (Ok d, s)"
    by (rule findIx_loop_run [OF H(1,3) _ d start_less]) (use H(9) in blast)
  then have run: "findIx e s = (Ok d, s)"
    using H(1,3) by (simp add: findIx_def run_simps assert_pow2_run hl_hash_run del: findIx_loop.simps)
  have "ht_data s d = None \<and> e \<notin> elem s ` P \<or> (\<exists>a\<in>P. ht_data s d = Some a \<and> elem s a = e)"
  proof (cases "ht_data s d")
    case None
    have False if "a \<in> P" "e = elem s a" for a using H(8) [OF that(1)] d None that(2) by auto
    with None show ?thesis by blast
  next
    case (Some a)
    then show ?thesis using dp H(9) by (auto simp: cells_def)
  qed
  with run dp d show thesis by (intro that) auto
qed

lemma ht_find_run:
  assumes "ht_ok m s P"
  obtains r where "ht_find e s = (Ok r, s)" and "r = None \<longleftrightarrow> e \<notin> elem s ` P"
proof (rule findIx_run [OF assms, of e])
  fix c
  assume "findIx e s = (Ok c, s)" "c < 2 ^ m" "ht_data s c = None \<and> e \<notin> elem s ` P \<or> (\<exists>a\<in>P. ht_data s c = Some a \<and> elem s a = e)"
  then show thesis
    by (intro that [of "ht_data s c"]) (auto simp: ht_find_def run_simps readCell_def ht_okD(1) [OF assms])
qed

text \<open>\<open>kept s s'\<close>: nothing of the list has changed, only the table and the indices of the nodes.\<close>

definition kept :: "hashlist \<Rightarrow> hashlist \<Rightarrow> bool" where
  "kept s s' \<longleftrightarrow> hl_fresh s' = hl_fresh s \<and> hl_head s' = hl_head s \<and> hl_tail s' = hl_tail s \<and>
     freeNodes s' = freeNodes s \<and> hl_size s' = hl_size s \<and>
     (\<forall>a. map_option (\<lambda>n. (hl_next n, hl_element n)) (hl_nodes s' a) = map_option (\<lambda>n. (hl_next n, hl_element n)) (hl_nodes s a))"

lemma kept_refl [simp]: "kept s s"
  by (simp add: kept_def)

lemma kept_trans: "kept s s' \<Longrightarrow> kept s' s'' \<Longrightarrow> kept s s''"
  by (simp add: kept_def)

lemma kept_node:
  assumes "kept s s'" and "hl_nodes s a = Some n"
  obtains n' where "hl_nodes s' a = Some n'" and "hl_next n' = hl_next n" and "hl_element n' = hl_element n"
proof -
  have "map_option (\<lambda>n. (hl_next n, hl_element n)) (hl_nodes s' a) = Some (hl_next n, hl_element n)"
    using assms by (simp add: kept_def)
  then show thesis using that by auto
qed

lemma kept_dom: "kept s s' \<Longrightarrow> dom (hl_nodes s') = dom (hl_nodes s)"
proof -
  assume k: "kept s s'"
  have "hl_nodes s' a = None \<longleftrightarrow> hl_nodes s a = None" for a
  proof -
    have "map_option (\<lambda>n. (hl_next n, hl_element n)) (hl_nodes s' a) = map_option (\<lambda>n. (hl_next n, hl_element n)) (hl_nodes s a)"
      using k by (simp add: kept_def)
    then show ?thesis by (cases "hl_nodes s a"; cases "hl_nodes s' a") auto
  qed
  then show ?thesis by (auto simp: dom_def)
qed

lemma kept_elem: "kept s s' \<Longrightarrow> elem s' = elem s"
proof
  fix a
  assume "kept s s'"
  then have "map_option (\<lambda>n. (hl_next n, hl_element n)) (hl_nodes s' a) = map_option (\<lambda>n. (hl_next n, hl_element n)) (hl_nodes s a)"
    by (simp add: kept_def)
  then show "elem s' a = elem s a" by (cases "hl_nodes s a"; cases "hl_nodes s' a") (auto simp: elem_def)
qed

definition placed :: "addr \<Rightarrow> hl_node \<Rightarrow> nat \<Rightarrow> hashlist \<Rightarrow> hashlist" where
  "placed a n c s = s\<lparr>ht_data := (ht_data s)(c := Some a), hl_nodes := (hl_nodes s)(a \<mapsto> n\<lparr>hashTableIndex := int c\<rparr>),
     ht_size := ht_size s + 1\<rparr>"

lemma placed_kept: "hl_nodes s a = Some n \<Longrightarrow> kept s (placed a n c s)"
  by (simp add: kept_def placed_def)

lemma placed_ok:
  assumes ok: "ht_ok m s P" and n: "hl_nodes s a = Some n" and new: "a \<notin> P" "hl_element n \<notin> elem s ` P"
    and room: "2 * card P < 2 ^ m" and c: "c < 2 ^ m" "ht_data s c = None"
      "probe (2 * 2 ^ m) m (cells s) (hl_element n) (start m (hl_element n)) 0 = Some c"
  shows "ht_ok m (placed a n c s) (insert a P)"
proof -
  note H = ht_okD [OF ok]
  let ?s = "placed a n c s"
  have el: "elem ?s = elem s" by (rule kept_elem [OF placed_kept [OF n]])
  have ea: "elem s a = hl_element n" by (simp add: elem_def n)
  have K: "cells ?s = (cells s)(c \<mapsto> hl_element n)"
    using ea by (auto simp: cells_def el fun_eq_iff) (auto simp: placed_def)
  have Kc: "cells s c = None" using c(2) by (simp add: cells_def)
  obtain k where k: "m = Suc k" using H(2) by (cases m) auto
  have size: "2 * card (insert a P) \<le> 2 ^ m" using room H(4) new(1) by (simp add: k)
  have inj: "inj_on (elem s) (insert a P)" using H(7) new ea by auto
  have old: "\<exists>nd d. hl_nodes ?s b = Some nd \<and> hashTableIndex nd = int d \<and> d < 2 ^ m \<and> ht_data ?s d = Some b \<and>
      probe (2 * 2 ^ m) m (cells ?s) (elem ?s b) (start m (elem ?s b)) 0 = Some d" if b: "b \<in> P" for b
  proof -
    obtain nd d where d: "hl_nodes s b = Some nd" "hashTableIndex nd = int d" "d < 2 ^ m" "ht_data s d = Some b"
      "probe (2 * 2 ^ m) m (cells s) (elem s b) (start m (elem s b)) 0 = Some d"
      using H(8) [OF b] by blast
    have "cells s d \<noteq> None" using d(4) by (simp add: cells_def)
    from probe_upd [OF d(5) this Kc] have "probe (2 * 2 ^ m) m (cells ?s) (elem ?s b) (start m (elem ?s b)) 0 = Some d"
      by (simp only: K el)
    moreover have "b \<noteq> a" "d \<noteq> c" using b new(1) d(4) c(2) by auto
    ultimately show ?thesis using d by (intro exI [of _ nd] exI [of _ d]) (simp add: placed_def)
  qed
  have "probe (2 * 2 ^ m) m (cells ?s) (elem ?s a) (start m (elem ?s a)) 0 = Some c"
    using probe_new [OF c(3) Kc] by (simp only: K el ea)
  then have "\<exists>nd d. hl_nodes ?s a = Some nd \<and> hashTableIndex nd = int d \<and> d < 2 ^ m \<and> ht_data ?s d = Some a \<and>
      probe (2 * 2 ^ m) m (cells ?s) (elem ?s a) (start m (elem ?s a)) 0 = Some d"
    using c(1) by (intro exI [of _ "n\<lparr>hashTableIndex := int c\<rparr>"] exI [of _ c]) (simp add: placed_def)
  moreover have "b \<in> insert a P \<and> (\<exists>nd. hl_nodes ?s b = Some nd \<and> hashTableIndex nd = int d)"
    if "d < 2 ^ m" "ht_data ?s d = Some b" for b d
  proof (cases "d = c")
    case True
    then show ?thesis using that by (auto simp: placed_def)
  next
    case False
    with that(2) have "ht_data s d = Some b" by (simp add: placed_def)
    with H(9) [OF that(1) this] new(1) show ?thesis by (auto simp: placed_def)
  qed
  moreover have "ht_capacity ?s = 2 ^ m" "ht_size ?s = card (insert a P)" using H(1,4,5) new(1) by (simp_all add: placed_def)
  ultimately show ?thesis unfolding ht_ok_def using H(2-4) size inj old el by simp
qed

lemma free_place:
  assumes ok: "ht_ok m s P" and n: "hl_nodes s a = Some n" and new: "a \<notin> P" "hl_element n \<notin> elem s ` P"
    and room: "2 * card P < 2 ^ m"
  obtains c where "findIx (hl_element n) s = (Ok c, s)" and "c < ht_capacity s" and "ht_data s c = None"
    and "ht_ok m (placed a n c s) (insert a P)"
proof -
  obtain c where ix: "findIx (hl_element n) s = (Ok c, s)" and c: "c < 2 ^ m"
      "probe (2 * 2 ^ m) m (cells s) (hl_element n) (start m (hl_element n)) 0 = Some c"
    and at: "ht_data s c = None \<and> hl_element n \<notin> elem s ` P \<or> (\<exists>a\<in>P. ht_data s c = Some a \<and> elem s a = hl_element n)"
    by (rule findIx_run [OF ok, of "hl_element n"])
  have free: "ht_data s c = None" using at new(2) by (metis imageI)
  show thesis
    by (rule that [OF ix _ free placed_ok [OF ok n new room c(1) free c(2)]]) (simp add: c(1) ht_okD(1) [OF ok])
qed

text \<open>\<open>insertNode\<close> once \<open>tryExpand\<close> has returned.\<close>

lemma insertNode_after:
  assumes ok: "ht_ok m s P" and n: "hl_nodes s a = Some n" and new: "a \<notin> P" "hl_element n \<notin> elem s ` P"
    and ex: "tryExpand (insertNode d head) head s = (Ok (), s1)" and ok1: "ht_ok m1 s1 P" and k1: "kept s s1"
    and room: "2 * card P < 2 ^ m1"
  obtains s' where "insertNode (Suc d) head a s = (Ok (), s')" and "ht_ok m1 s' (insert a P)" and "kept s s'"
proof -
  obtain r where find: "ht_find (hl_element n) s = (Ok r, s)" and r: "r = None"
    using ht_find_run [OF ok, of "hl_element n"] new(2) by metis
  obtain n1 where n1: "hl_nodes s1 a = Some n1" "hl_element n1 = hl_element n" by (rule kept_node [OF k1 n])
  have new1: "hl_element n1 \<notin> elem s1 ` P" using new(2) by (simp add: kept_elem [OF k1] n1)
  obtain c where ix: "findIx (hl_element n1) s1 = (Ok c, s1)" and c: "c < ht_capacity s1" "ht_data s1 c = None"
    and ok': "ht_ok m1 (placed a n1 c s1) (insert a P)"
    by (rule free_place [OF ok1 n1(1) new(1) new1 room])
  have "insertNode (Suc d) head a s = (Ok (), placed a n1 c s1)"
    using n r c n1 ix
    by (simp add: run_simps find ex assert_pow2_run [OF ht_okD(1,3) [OF ok1]] readCell_def hl_deref_def hl_upd_def placed_def)
  then show thesis using ok' kept_trans [OF k1 placed_kept [OF n1(1)]] by (rule that)
qed

lemma insertNode_direct:
  assumes ok: "ht_ok m s P" and n: "hl_nodes s a = Some n" and new: "a \<notin> P" "hl_element n \<notin> elem s ` P"
    and room: "2 * card P < 2 ^ m"
  obtains s' where "insertNode (Suc d) head a s = (Ok (), s')" and "ht_ok m s' (insert a P)" and "kept s s'"
proof -
  have "tryExpand (insertNode d head) head s = (Ok (), s)"
    using room ht_okD(1,5) [OF ok] by (simp add: tryExpand_def run_simps mult.commute)
  then show thesis by (rule insertNode_after [OF ok n new _ ok kept_refl room]) (rule that)
qed

section \<open>Expansion\<close>

definition nx :: "hashlist \<Rightarrow> addr \<Rightarrow> addr option" where
  "nx s a = Option.bind (hl_nodes s a) hl_next"

lemma nx_Some: "hl_nodes s a = Some n \<Longrightarrow> nx s a = hl_next n"
  by (simp add: nx_def)

lemma kept_nx: "kept s s' \<Longrightarrow> nx s' = nx s"
proof
  fix a
  assume "kept s s'"
  then have "map_option (\<lambda>n. (hl_next n, hl_element n)) (hl_nodes s' a) = map_option (\<lambda>n. (hl_next n, hl_element n)) (hl_nodes s a)"
    by (simp add: kept_def)
  then show "nx s' a = nx s a" by (cases "hl_nodes s a"; cases "hl_nodes s' a") (auto simp: nx_def)
qed

lemma rehash_loop_run:
  assumes "ht_ok m s P" and "path (nx s) p V None" and "distinct V" and "set V \<inter> P = {}"
    and "\<forall>a\<in>set V. hl_nodes s a \<noteq> None" and "inj_on (elem s) (P \<union> set V)" and "2 * (card P + length V) \<le> 2 ^ m"
    and "length V < fuel"
  shows "\<exists>s'. rehash_loop (insertNode (Suc d) head) fuel p s = (Ok (), s') \<and> ht_ok m s' (P \<union> set V) \<and> kept s s'"
  using assms
proof (induction V arbitrary: s P p fuel)
  case Nil
  then obtain f where "fuel = Suc f" by (cases fuel) auto
  with Nil show ?case by (simp add: run_simps)
next
  case (Cons a V)
  then obtain f where f: "fuel = Suc f" by (cases fuel) auto
  obtain n where n: "hl_nodes s a = Some n" using Cons.prems(5) by auto
  have p: "p = Some a" and rest: "path (nx s) (nx s a) V None" using Cons.prems(2) by auto
  have aP: "a \<notin> P" using Cons.prems(4) by auto
  have ea: "elem s a = hl_element n" by (simp add: elem_def n)
  have fresh: "hl_element n \<notin> elem s ` P"
    using Cons.prems(6) aP ea by (auto simp: inj_on_def)
  have room: "2 * card P < 2 ^ m" using Cons.prems(7) by simp
  obtain s1 where ins: "insertNode (Suc d) head a s = (Ok (), s1)" and ok1: "ht_ok m s1 (insert a P)" and k1: "kept s s1"
    by (rule insertNode_direct [OF Cons.prems(1) n aP fresh room])
  obtain n1 where n1: "hl_nodes s1 a = Some n1" "hl_next n1 = hl_next n" by (rule kept_node [OF k1 n])
  have fin: "finite P" using ht_okD(4) [OF Cons.prems(1)] .
  have ex: "hl_nodes s1 b \<noteq> None" if b: "b \<in> set V" for b
  proof -
    obtain nb where "hl_nodes s b = Some nb" using Cons.prems(5) b by auto
    then show ?thesis by (rule kept_node [OF k1]) simp
  qed
  have "\<exists>s'. rehash_loop (insertNode (Suc d) head) f (nx s a) s1 = (Ok (), s') \<and> ht_ok m s' (insert a P \<union> set V) \<and> kept s1 s'"
  proof (rule Cons.IH [OF ok1])
    show "path (nx s1) (nx s a) V None" using rest by (simp only: kept_nx [OF k1])
    show "inj_on (elem s1) (insert a P \<union> set V)" using Cons.prems(6) by (simp add: kept_elem [OF k1])
    show "2 * (card (insert a P) + length V) \<le> 2 ^ m" using Cons.prems(7) aP fin by simp
  qed (use Cons.prems ex f in auto)
  then obtain s' where "rehash_loop (insertNode (Suc d) head) f (nx s a) s1 = (Ok (), s')" "ht_ok m s' (insert a P \<union> set V)" "kept s1 s'"
    by blast
  moreover have "hl_next n1 = nx s a" using n1(2) n by (simp add: nx_def)
  ultimately show ?case
    using ins n1(1) kept_trans [OF k1] by (auto simp: f p run_simps hl_deref_def simp del: insertNode.simps)
qed

lemma tryExpand_run:
  assumes ok: "ht_ok m s (set V)" and path: "path (nx s) head V None" and fuel: "set V \<subseteq> {..<hl_fresh s}"
    and few: "4 * length V \<le> 2 ^ 30"
  obtains s' m' where "tryExpand (insertNode (Suc d) head) head s = (Ok (), s')" and "ht_ok m' s' (set V)" and "kept s s'"
    and "2 * card (set V) < 2 ^ m'"
proof (cases "2 * card (set V) < 2 ^ m")
  case True
  note H = ht_okD [OF ok]
  have "tryExpand (insertNode (Suc d) head) head s = (Ok (), s)"
    using True H(1,5) by (simp add: tryExpand_def run_simps mult.commute del: insertNode.simps)
  from that [OF this ok kept_refl True] show thesis .
next
  case False
  note H = ht_okD [OF ok]
  have dist: "distinct V" by (rule path_distinct [OF path])
  then have len: "card (set V) = length V" by (rule distinct_card)
  have full: "2 * length V = 2 ^ m" using False H(6) len by simp
  then have "2 ^ Suc m \<le> (2 :: nat) ^ 30" using few by simp
  then have m: "Suc m \<le> 30" by (rule power_le_imp_le_exp [rotated]) simp
  let ?s = "s\<lparr>ht_capacity := ht_capacity s * 2, ht_data := (\<lambda>_. None), ht_size := 0\<rparr>"
  have k0: "kept s ?s" by (simp add: kept_def)
  have ok0: "ht_ok (Suc m) ?s {}" using H(1) m by (simp add: ht_ok_def)
  have "length V < Suc (hl_fresh s)" using card_mono [OF _ fuel] len by simp
  moreover have "hl_nodes s a \<noteq> None" if "a \<in> set V" for a using H(8) [OF that] by auto
  ultimately have "\<exists>s'. rehash_loop (insertNode (Suc d) head) (Suc (hl_fresh s)) head ?s = (Ok (), s') \<and>
      ht_ok (Suc m) s' ({} \<union> set V) \<and> kept ?s s'"
    by (intro rehash_loop_run [OF ok0]) (use path dist H(7) full in \<open>simp_all add: kept_nx [OF k0] kept_elem [OF k0]\<close>)
  then obtain s' where run: "rehash_loop (insertNode (Suc d) head) (Suc (hl_fresh s)) head ?s = (Ok (), s')"
    and ok': "ht_ok (Suc m) s' (set V)" and k': "kept ?s s'"
    by auto
  have "tryExpand (insertNode (Suc d) head) head s = (Ok (), s')"
    using False H(1,5) run by (simp add: tryExpand_def run_simps mult.commute del: insertNode.simps rehash_loop.simps)
  moreover have "2 * card (set V) < 2 ^ Suc m" using full len by simp
  ultimately show thesis using ok' kept_trans [OF k0 k'] that by blast
qed

lemma insertNode_run:
  assumes ok: "ht_ok m s (set V)" and path: "path (nx s) head V None" and fuel: "set V \<subseteq> {..<hl_fresh s}"
    and few: "4 * length V \<le> 2 ^ 30"
    and n: "hl_nodes s a = Some n" and new: "a \<notin> set V" "hl_element n \<notin> elem s ` set V"
  obtains s' m' where "insertNode (Suc (Suc d)) head a s = (Ok (), s')" and "ht_ok m' s' (insert a (set V))" and "kept s s'"
proof -
  obtain s1 m1 where ex: "tryExpand (insertNode (Suc d) head) head s = (Ok (), s1)" and ok1: "ht_ok m1 s1 (set V)"
    and k1: "kept s s1" and room: "2 * card (set V) < 2 ^ m1"
    by (rule tryExpand_run [OF ok path fuel few])
  show thesis by (rule insertNode_after [OF ok n new ex ok1 k1 room]) (rule that)
qed

end
