(* ===== verification/HashListSpec.thy ===== *)
theory HashListSpec
  imports HashList
begin

text \<open>
  The hash list as a whole: the list, the table and the nodes kept for reuse are consistent after
  every operation, and the operations simulate those on a list of distinct elements.
\<close>

unbundle bit_operations_syntax

section \<open>The list and the table\<close>

text \<open>
  \<open>hl_ok m s V F\<close>: \<open>V\<close> are the nodes of the list, \<open>F\<close> those kept for reuse; together they are
  all nodes that were allocated.
\<close>

definition hl_ok :: "nat \<Rightarrow> hashlist \<Rightarrow> addr list \<Rightarrow> addr list \<Rightarrow> bool" where
  "hl_ok m s V F \<longleftrightarrow> ht_ok m s (set V) \<and> path (nx s) (hl_head s) V None \<and> path (nx s) (freeNodes s) F None \<and>
     set V \<inter> set F = {} \<and> dom (hl_nodes s) = set V \<union> set F \<and> dom (hl_nodes s) \<subseteq> {..<hl_fresh s} \<and>
     hl_tail s = (if V = [] then None else Some (last V)) \<and> hl_size s = length V"

lemma hl_okD:
  assumes "hl_ok m s V F"
  shows "ht_ok m s (set V)" and "path (nx s) (hl_head s) V None" and "path (nx s) (freeNodes s) F None"
    and "set V \<inter> set F = {}" and "dom (hl_nodes s) = set V \<union> set F" and "dom (hl_nodes s) \<subseteq> {..<hl_fresh s}"
    and "hl_tail s = (if V = [] then None else Some (last V))" and "hl_size s = length V"
  using assms unfolding hl_ok_def by blast+

lemma ht_ok_cong:
  assumes ok: "ht_ok m s P" and P: "\<And>a. a \<in> P \<Longrightarrow> hl_nodes s' a = hl_nodes s a"
    and s': "ht_data s' = ht_data s" "ht_size s' = ht_size s" "ht_capacity s' = ht_capacity s"
  shows "ht_ok m s' P"
proof -
  note H = ht_okD [OF ok]
  have el: "elem s' a = elem s a" if "a \<in> P" for a using P [OF that] by (simp add: elem_def)
  have K: "cells s' c = cells s c" if "c < 2 ^ m" for c
    using H(9) [OF that] el by (cases "ht_data s c") (auto simp: cells_def s')
  have probe: "probe n m (cells s') e ix i = probe n m (cells s) e ix i" if "ix < 2 ^ m" for n e ix i
    using that by (induction n arbitrary: ix i) (simp_all add: K)
  have "inj_on (elem s') P" using H(7) el by (simp add: inj_on_def)
  moreover have "\<exists>n c. hl_nodes s' a = Some n \<and> hashTableIndex n = int c \<and> c < 2 ^ m \<and> ht_data s' c = Some a \<and>
        probe (2 * 2 ^ m) m (cells s') (elem s' a) (start m (elem s' a)) 0 = Some c" if "a \<in> P" for a
    using H(8) [OF that] P [OF that] unfolding s' el [OF that] probe [OF start_less] by simp
  moreover have "a \<in> P \<and> (\<exists>n. hl_nodes s' a = Some n \<and> hashTableIndex n = int c)" if "c < 2 ^ m" "ht_data s' c = Some a" for c a
    using H(9) [OF that(1)] that(2) P by (auto simp: s')
  ultimately show ?thesis unfolding ht_ok_def using H(1-6) by (simp add: s')
qed

lemma allocateNode_run:
  assumes ok: "hl_ok m s V F"
  obtains s' a F' where "allocateNode e s = (Ok a, s')" and "ht_ok m s' (set V)" and "path (nx s') (hl_head s) V None"
    and "path (nx s') (freeNodes s') F' None" and "a \<notin> set V" and "a \<notin> set F'" and "set V \<inter> set F' = {}"
    and "dom (hl_nodes s') = insert a (set V \<union> set F')" and "dom (hl_nodes s') \<subseteq> {..<hl_fresh s'}"
    and "\<exists>n. hl_nodes s' a = Some n \<and> hl_element n = e \<and> hl_next n = hl_head s"
    and "hl_head s' = hl_head s" and "hl_tail s' = hl_tail s" and "hl_size s' = hl_size s"
    and "\<And>b. b \<in> set V \<Longrightarrow> elem s' b = elem s b"
proof -
  note H = hl_okD [OF ok]
  show thesis
  proof (cases "freeNodes s")
    case None
    with H(3) have F: "F = []" by (cases F) auto
    let ?a = "hl_fresh s"
    let ?s = "s\<lparr>hl_nodes := (hl_nodes s)(?a \<mapsto> \<lparr>hl_next = hl_head s, hl_element = e, hashTableIndex = - 1\<rparr>), hl_fresh := Suc ?a\<rparr>"
    have a: "?a \<notin> set V" using H(5,6) by auto
    have same: "hl_nodes ?s b = hl_nodes s b" if "b \<in> set V" for b using a that by auto
    have "path (nx ?s) (hl_head s) V None = path (nx s) (hl_head s) V None"
      by (rule path_cong) (use a in \<open>auto simp: nx_def\<close>)
    then show thesis
      using None F H a same ht_ok_cong [OF H(1), of ?s]
      by (intro that [of ?a ?s "[]"]) (auto simp: allocateNode_def run_simps elem_def)
  next
    case (Some a)
    with H(3) obtain F' where F: "F = a # F'" "path (nx s) (nx s a) F' None" by (cases F) auto
    obtain n where n: "hl_nodes s a = Some n" using H(5) F by auto
    let ?s = "s\<lparr>freeNodes := hl_next n, hl_nodes := (hl_nodes s)(a \<mapsto> n\<lparr>hl_element := e, hl_next := hl_head s\<rparr>)\<rparr>"
    have a: "a \<notin> set V" "a \<notin> set F'" using H(4) F path_distinct [OF H(3)] by auto
    have same: "hl_nodes ?s b = hl_nodes s b" if "b \<noteq> a" for b using that by simp
    have P: "path (nx ?s) p W None = path (nx s) p W None" if "a \<notin> set W" for p W
      by (rule path_cong) (use that in \<open>auto simp: nx_def\<close>)
    have run: "allocateNode e s = (Ok a, ?s)"
      using Some n by (simp add: allocateNode_def run_simps hl_deref_def hl_upd_def)
    show thesis
    proof (rule that [OF run])
      show "ht_ok m ?s (set V)" by (rule ht_ok_cong [OF H(1)]) (use a in auto)
      show "path (nx ?s) (hl_head s) V None" "path (nx ?s) (freeNodes ?s) F' None"
        using H(2) F(2) n by (simp_all only: P [OF a(1)] P [OF a(2)]) (simp add: nx_def)
    qed (use H F a n in \<open>auto simp: elem_def\<close>)
  qed
qed

text \<open>The contents: the elements, the newest first.\<close>

definition hl_contents :: "hashlist \<Rightarrow> addr list \<Rightarrow> u64 list" where
  "hl_contents s V = map (elem s) V"

lemma hl_insert_run:
  assumes ok: "hl_ok m s V F" and few: "4 * length V \<le> 2 ^ 30"
  obtains s' m' V' F' where "hl_insert e s = (Ok (), s')" and "hl_ok m' s' V' F'"
    and "hl_contents s' V' = (if e \<in> set (hl_contents s V) then hl_contents s V else e # hl_contents s V)"
proof -
  note H = hl_okD [OF ok]
  obtain r where find: "ht_find e s = (Ok r, s)" and r: "r = None \<longleftrightarrow> e \<notin> elem s ` set V" by (rule ht_find_run [OF H(1)])
  show thesis
  proof (cases r)
    case (Some b)
    then have "e \<in> set (hl_contents s V)" using r by (auto simp: hl_contents_def)
    with Some find ok show thesis by (intro that [of s m V F]) (auto simp: hl_insert_def run_simps)
  next
    case None
    show thesis
    proof (rule allocateNode_run [OF ok, of e])
      fix s1 a F'
      assume al: "allocateNode e s = (Ok a, s1)" and ok1: "ht_ok m s1 (set V)" and path: "path (nx s1) (hl_head s) V None"
        and pathF: "path (nx s1) (freeNodes s1) F' None" and a: "a \<notin> set V" "a \<notin> set F'" and VF: "set V \<inter> set F' = {}"
        and dom: "dom (hl_nodes s1) = insert a (set V \<union> set F')" "dom (hl_nodes s1) \<subseteq> {..<hl_fresh s1}"
        and node: "\<exists>n. hl_nodes s1 a = Some n \<and> hl_element n = e \<and> hl_next n = hl_head s"
        and sel: "hl_head s1 = hl_head s" "hl_tail s1 = hl_tail s" "hl_size s1 = hl_size s"
        and el: "\<And>b. b \<in> set V \<Longrightarrow> elem s1 b = elem s b"
      from node obtain n where n: "hl_nodes s1 a = Some n" "hl_element n = e" "hl_next n = hl_head s" by blast
      have fuel: "set V \<subseteq> {..<hl_fresh s1}" using dom by auto
      have new: "hl_element n \<notin> elem s1 ` set V" using r None el n(2) by auto
      obtain s2 m2 where ins: "insertNode (Suc (Suc 0)) (hl_head s) a s1 = (Ok (), s2)" and ok2: "ht_ok m2 s2 (insert a (set V))"
        and k: "kept s1 s2"
        by (rule insertNode_run [OF ok1 path fuel few n(1) a(1) new])
      obtain n2 where n2: "hl_nodes s2 a = Some n2" "hl_next n2 = hl_head s" "hl_element n2 = e"
        by (rule kept_node [OF k n(1)]) (use n in auto)
      let ?s = "s2\<lparr>hl_tail := (if hl_head s = None then Some a else hl_tail s2), hl_head := Some a, hl_size := hl_size s2 + 1\<rparr>"
      have run: "hl_insert e s = (Ok (), ?s)"
        using None find al ins sel by (simp add: hl_insert_def run_simps numeral_2_eq_2 del: insertNode.simps)
      have nxs: "nx ?s = nx s1" using kept_nx [OF k] by (simp add: nx_def fun_eq_iff)
      have els: "elem ?s = elem s1" using kept_elem [OF k] by (simp add: elem_def fun_eq_iff)
      have doms: "dom (hl_nodes ?s) = dom (hl_nodes s1)"
        using kept_dom [OF k] by simp
      have emp: "hl_head s = None \<longleftrightarrow> V = []" using H(2) by (cases V) auto
      have okh: "ht_ok m2 ?s (set (a # V))" using ht_ok_cong [OF ok2, of ?s] by simp
      have "nx s1 a = hl_head s" using n by (simp add: nx_def)
      then have "path (nx ?s) (hl_head ?s) (a # V) None" unfolding nxs using path by simp
      moreover have "path (nx ?s) (freeNodes ?s) F' None" unfolding nxs using pathF k by (simp add: kept_def)
      moreover have "hl_tail ?s = Some (last (a # V))" using H(7) k sel(2) emp by (simp add: kept_def)
      moreover have "hl_size ?s = length (a # V)" using k sel(3) H(8) by (simp add: kept_def)
      moreover have "dom (hl_nodes ?s) \<subseteq> {..<hl_fresh ?s}" using dom(2) k unfolding doms by (simp add: kept_def)
      moreover have "dom (hl_nodes ?s) = set (a # V) \<union> set F'" unfolding doms dom(1) by simp
      ultimately have "hl_ok m2 ?s (a # V) F'" unfolding hl_ok_def using okh VF a by simp
      moreover have "hl_contents ?s (a # V) = e # hl_contents s V"
        unfolding hl_contents_def els using el n by simp (simp add: elem_def)
      moreover have "e \<notin> set (hl_contents s V)" using r None by (auto simp: hl_contents_def)
      ultimately show thesis using that [OF run] by simp
    qed
  qed
qed

lemma hl_contains_run:
  assumes "hl_ok m s V F"
  shows "hl_contains e s = (Ok (e \<in> set (hl_contents s V)), s)"
proof -
  obtain r where "ht_find e s = (Ok r, s)" "r = None \<longleftrightarrow> e \<notin> elem s ` set V" by (rule ht_find_run [OF hl_okD(1) [OF assms]])
  then show ?thesis by (auto simp: hl_contains_def run_simps hl_contents_def)
qed

section \<open>Clearing and destruction\<close>

lemma ht_clear_loop_run:
  assumes "path (nx s) p W None" and "length W < fuel"
    and "\<And>a. a \<in> set W \<Longrightarrow> \<exists>n c. hl_nodes s a = Some n \<and> hashTableIndex n = int c \<and> c < ht_capacity s \<and> ht_data s c = Some a"
  shows "\<exists>D. ht_clear_loop fuel p s = (Ok (), s\<lparr>ht_data := D\<rparr>) \<and>
    (\<forall>c a. D c = Some a \<longrightarrow> ht_data s c = Some a) \<and>
    (\<forall>a\<in>set W. \<forall>n c. hl_nodes s a = Some n \<longrightarrow> hashTableIndex n = int c \<longrightarrow> D c = None)"
  using assms
proof (induction W arbitrary: s p fuel)
  case Nil
  then obtain f where "fuel = Suc f" by (cases fuel) auto
  with Nil show ?case by (intro exI [of _ "ht_data s"]) (simp add: run_simps)
next
  case (Cons a W)
  then obtain f where f: "fuel = Suc f" by (cases fuel) auto
  obtain n c where n: "hl_nodes s a = Some n" "hashTableIndex n = int c" "c < ht_capacity s" "ht_data s c = Some a"
    using Cons.prems(3) [of a] by auto
  have p: "p = Some a" "path (nx s) (hl_next n) W None" using Cons.prems(1) nx_Some [OF n(1)] by auto
  let ?s = "s\<lparr>ht_data := (ht_data s)(c := None)\<rparr>"
  have aW: "a \<notin> set W" using path_distinct [OF Cons.prems(1)] by simp
  have "\<exists>D. ht_clear_loop f (hl_next n) ?s = (Ok (), ?s\<lparr>ht_data := D\<rparr>) \<and> (\<forall>c a. D c = Some a \<longrightarrow> ht_data ?s c = Some a) \<and>
      (\<forall>a\<in>set W. \<forall>n c. hl_nodes ?s a = Some n \<longrightarrow> hashTableIndex n = int c \<longrightarrow> D c = None)"
  proof (rule Cons.IH)
    have "nx ?s = nx s" by (simp add: nx_def fun_eq_iff)
    then show "path (nx ?s) (hl_next n) W None" using p(2) by simp
    show "\<exists>n c. hl_nodes ?s b = Some n \<and> hashTableIndex n = int c \<and> c < ht_capacity ?s \<and> ht_data ?s c = Some b" if bW: "b \<in> set W" for b
    proof -
      obtain nb d where b: "hl_nodes s b = Some nb" "hashTableIndex nb = int d" "d < ht_capacity s" "ht_data s d = Some b"
        using Cons.prems(3) [of b] bW by auto
      moreover have "d \<noteq> c" using b(4) n(4) aW bW by auto
      ultimately show ?thesis by (intro exI [of _ nb] exI [of _ d]) simp
    qed
  qed (use Cons.prems(2) f in simp)
  then obtain D where run: "ht_clear_loop f (hl_next n) ?s = (Ok (), ?s\<lparr>ht_data := D\<rparr>)"
    and old: "\<forall>d b. D d = Some b \<longrightarrow> ht_data ?s d = Some b"
    and gone: "\<forall>a\<in>set W. \<forall>n c. hl_nodes ?s a = Some n \<longrightarrow> hashTableIndex n = int c \<longrightarrow> D c = None"
    by blast
  have kept_old: "d \<noteq> c \<and> ht_data s d = Some b" if "D d = Some b" for d b
    using old [rule_format, OF that] by (simp split: if_splits)
  have "D c = None" using kept_old by (metis option.exhaust)
  moreover have "ht_clear_loop fuel p s = (Ok (), s\<lparr>ht_data := D\<rparr>)"
    using run n by (simp add: f p run_simps hl_deref_def readCell_def)
  ultimately show ?case using kept_old gone n(1,2) by (intro exI [of _ D]) auto
qed

lemma ht_clear_run:
  assumes ok: "ht_ok m s (set V)" and path: "path (nx s) head V None" and fuel: "set V \<subseteq> {..<hl_fresh s}"
  obtains D where "ht_clear head s = (Ok (), s\<lparr>ht_data := D, ht_size := 0\<rparr>)" and "ht_ok m (s\<lparr>ht_data := D, ht_size := 0\<rparr>) {}"
proof (cases "ht_size s * 4 < ht_capacity s")
  case True
  note H = ht_okD [OF ok]
  have "length V < Suc (hl_fresh s)"
    using card_mono [OF _ fuel] distinct_card [OF path_distinct [OF path]] by simp
  moreover have "\<exists>n c. hl_nodes s a = Some n \<and> hashTableIndex n = int c \<and> c < ht_capacity s \<and> ht_data s c = Some a"
    if "a \<in> set V" for a using H(8) [OF that] H(1) by auto
  ultimately obtain D where D: "ht_clear_loop (Suc (hl_fresh s)) head s = (Ok (), s\<lparr>ht_data := D\<rparr>)"
    "\<forall>c a. D c = Some a \<longrightarrow> ht_data s c = Some a"
    "\<forall>a\<in>set V. \<forall>n c. hl_nodes s a = Some n \<longrightarrow> hashTableIndex n = int c \<longrightarrow> D c = None"
    using ht_clear_loop_run [OF path, of "Suc (hl_fresh s)"] by blast
  have "D c = None" if "c < 2 ^ m" for c using D(2,3) H(9) [OF that] by (metis option.exhaust)
  then have "ht_ok m (s\<lparr>ht_data := D, ht_size := 0\<rparr>) {}" using H(1-3) by (auto simp: ht_ok_def)
  moreover have "ht_clear head s = (Ok (), s\<lparr>ht_data := D, ht_size := 0\<rparr>)"
    using True D(1) by (simp add: ht_clear_def run_simps del: ht_clear_loop.simps)
  ultimately show thesis using that by blast
next
  case False
  note H = ht_okD [OF ok]
  show thesis
    by (rule that [of "\<lambda>_. None"]) (use False H(1-3) in \<open>simp_all add: ht_clear_def run_simps ht_ok_def\<close>)
qed

lemma hl_clear_run:
  assumes ok: "hl_ok m s V F"
  obtains s' where "hl_clear s = (Ok (), s')" and "hl_ok m s' [] (V @ F)"
proof -
  note H = hl_okD [OF ok]
  have fuel: "set V \<subseteq> {..<hl_fresh s}" using H(5,6) by auto
  obtain D where cl: "ht_clear (hl_head s) s = (Ok (), s\<lparr>ht_data := D, ht_size := 0\<rparr>)"
    and ok1: "ht_ok m (s\<lparr>ht_data := D, ht_size := 0\<rparr>) {}"
    by (rule ht_clear_run [OF H(1,2) fuel])
  show thesis
  proof (cases V)
    case Nil
    let ?s = "s\<lparr>ht_data := D, ht_size := 0, hl_head := None, hl_tail := None, hl_size := 0\<rparr>"
    have "hl_clear s = (Ok (), ?s)" using cl H(7) Nil by (simp add: hl_clear_def run_simps)
    moreover have "nx ?s = nx s" by (simp add: nx_def fun_eq_iff)
    then have "hl_ok m ?s [] (V @ F)" using H ok1 Nil ht_ok_cong [OF ok1, of ?s] by (simp add: hl_ok_def)
    ultimately show thesis by (rule that)
  next
    case (Cons v V')
    define t where "t = last V"
    have V: "V = butlast V @ [t]" using Cons by (simp add: t_def)
    obtain nt where nt: "hl_nodes s t = Some nt" using H(5) V by (metis Un_iff domD in_set_conv_decomp)
    let ?s = "s\<lparr>ht_data := D, ht_size := 0, hl_nodes := (hl_nodes s)(t \<mapsto> nt\<lparr>hl_next := freeNodes s\<rparr>), freeNodes := hl_head s,
      hl_head := None, hl_tail := None, hl_size := 0\<rparr>"
    have run: "hl_clear s = (Ok (), ?s)"
      using cl H(7) Cons nt by (simp add: hl_clear_def run_simps hl_upd_def hl_deref_def t_def)
    have nxs: "nx ?s = (nx s)(t := freeNodes s)" using nt by (simp add: nx_def fun_eq_iff)
    have dist: "distinct V" by (rule path_distinct [OF H(2)])
    then have tb: "t \<notin> set (butlast V)" using V by (metis distinct_append not_distinct_conv_prefix)
    have tF: "t \<notin> set F" using H(4) V by (metis Int_iff empty_iff in_set_conv_decomp)
    have "path (nx s) (hl_head s) (butlast V) (Some t)" using H(2) V by (metis path.simps(2) path_append)
    then have "path (nx ?s) (freeNodes ?s) (butlast V) (Some t)" unfolding nxs using tb by simp
    moreover have "path (nx ?s) (freeNodes s) F None" unfolding nxs using tF H(3) by simp
    ultimately have "path (nx ?s) (freeNodes ?s) ((butlast V @ [t]) @ F) None" by (simp add: nxs del: fun_upd_apply) (simp add: nxs)
    then have "path (nx ?s) (freeNodes ?s) (V @ F) None" using V by simp
    moreover have "dom (hl_nodes ?s) = dom (hl_nodes s)" using nt by auto
    ultimately have "hl_ok m ?s [] (V @ F)" using H(4-6) ht_ok_cong [OF ok1, of ?s] by (simp add: hl_ok_def)
    with run show thesis by (rule that)
  qed
qed

lemma destroy_loop_run:
  assumes "path (nx s) p F None" and "length F < fuel" and "set F \<subseteq> dom (hl_nodes s)"
  shows "destroy_loop fuel p s = (Ok (), s\<lparr>hl_nodes := hl_nodes s |` (- set F)\<rparr>)"
  using assms
proof (induction F arbitrary: s p fuel)
  case Nil
  then obtain f where "fuel = Suc f" by (cases fuel) auto
  with Nil show ?case by (simp add: run_simps)
next
  case (Cons a F)
  then obtain f n where f: "fuel = Suc f" and n: "hl_nodes s a = Some n" by (cases fuel) auto
  have p: "p = Some a" "path (nx s) (hl_next n) F None" using Cons.prems(1) nx_Some [OF n] by auto
  have aF: "a \<notin> set F" using path_distinct [OF Cons.prems(1)] by simp
  let ?s = "s\<lparr>hl_nodes := (hl_nodes s)(a := None)\<rparr>"
  have "path (nx ?s) (hl_next n) F None = path (nx s) (hl_next n) F None"
    by (rule path_cong) (use aF in \<open>auto simp: nx_def\<close>)
  then have "destroy_loop f (hl_next n) ?s = (Ok (), ?s\<lparr>hl_nodes := hl_nodes ?s |` (- set F)\<rparr>)"
    using Cons.prems(2,3) p(2) f aF by (intro Cons.IH) auto
  moreover have "((hl_nodes s)(a := None)) |` (- set F) = hl_nodes s |` (- set (a # F))"
    by (auto simp: restrict_map_def fun_eq_iff)
  ultimately show ?case using n by (simp add: f p run_simps hl_deref_def)
qed

lemma hl_destroy_run:
  assumes "hl_ok m s V F"
  shows "\<exists>s'. hl_destroy s = (Ok (), s') \<and> hl_nodes s' = Map.empty"
proof -
  obtain s1 where cl: "hl_clear s = (Ok (), s1)" and ok1: "hl_ok m s1 [] (V @ F)" by (rule hl_clear_run [OF assms])
  note H = hl_okD [OF ok1]
  let ?s = "s1\<lparr>ht_capacity := 0\<rparr>"
  have "nx ?s = nx s1" by (simp add: nx_def fun_eq_iff)
  moreover have "length (V @ F) < Suc (hl_fresh s1)"
    using card_mono [of "{..<hl_fresh s1}" "set (V @ F)"] distinct_card [OF path_distinct [OF H(3)]] H(5,6) by simp
  ultimately have "destroy_loop (Suc (hl_fresh s1)) (freeNodes ?s) ?s = (Ok (), ?s\<lparr>hl_nodes := hl_nodes ?s |` (- set (V @ F))\<rparr>)"
    using H(3,5) by (intro destroy_loop_run) auto
  moreover have "hl_nodes s1 |` (- set (V @ F)) = Map.empty" using H(5) by (auto simp: restrict_map_def fun_eq_iff)
  ultimately show ?thesis using cl by (simp add: hl_destroy_def run_simps del: destroy_loop.simps)
qed

section \<open>Scripts\<close>

text \<open>What a client of the list can do, and what it means for the list of distinct elements.\<close>

datatype hl_op = HL_insert u64 | HL_contains u64 | HL_getSize | HL_clear

datatype hl_result = HL_done | HL_bool bool | HL_size nat

primrec hl_step :: "hl_op \<Rightarrow> (hashlist, hl_result) cmd" where
  "hl_step (HL_insert e) = thenE (hl_insert e) (returnE HL_done)"
| "hl_step (HL_contains e) = bindE (hl_contains e) (\<lambda>b. returnE (HL_bool b))"
| "hl_step HL_getSize = bindE hl_getSize (\<lambda>k. returnE (HL_size k))"
| "hl_step HL_clear = thenE hl_clear (returnE HL_done)"

primrec hl_spec :: "hl_op \<Rightarrow> u64 list \<Rightarrow> hl_result \<times> u64 list" where
  "hl_spec (HL_insert e) xs = (HL_done, List.insert e xs)"
| "hl_spec (HL_contains e) xs = (HL_bool (e \<in> set xs), xs)"
| "hl_spec HL_getSize xs = (HL_size (length xs), xs)"
| "hl_spec HL_clear xs = (HL_done, [])"

primrec hl_run :: "hl_op list \<Rightarrow> (hashlist, hl_result list) cmd" where
  "hl_run [] = returnE []"
| "hl_run (f # fs) = bindE (hl_step f) (\<lambda>r. bindE (hl_run fs) (\<lambda>rs. returnE (r # rs)))"

primrec hl_spec_run :: "hl_op list \<Rightarrow> u64 list \<Rightarrow> hl_result list \<times> u64 list" where
  "hl_spec_run [] xs = ([], xs)"
| "hl_spec_run (f # fs) xs =
     (let (r, xs1) = hl_spec f xs; (rs, xs2) = hl_spec_run fs xs1 in (r # rs, xs2))"

lemma hl_step_run:
  assumes ok: "hl_ok m s V F" and few: "4 * length V \<le> 2 ^ 30"
  obtains s' m' V' F' where "hl_step f s = (Ok (fst (hl_spec f (hl_contents s V))), s')" and "hl_ok m' s' V' F'"
    and "hl_contents s' V' = snd (hl_spec f (hl_contents s V))"
proof (cases f)
  case (HL_insert e)
  obtain s' m' V' F' where "hl_insert e s = (Ok (), s')" "hl_ok m' s' V' F'"
    "hl_contents s' V' = (if e \<in> set (hl_contents s V) then hl_contents s V else e # hl_contents s V)"
    by (rule hl_insert_run [OF ok few])
  then show thesis by (intro that [of s' m' V' F']) (simp_all add: HL_insert run_simps List.insert_def)
next
  case (HL_contains e)
  then show thesis using hl_contains_run [OF ok, of e] ok by (intro that [of s m V F]) (simp_all add: run_simps)
next
  case HL_getSize
  then show thesis
    using ok hl_okD(8) [OF ok] by (intro that [of s m V F]) (simp_all add: run_simps hl_getSize_def hl_contents_def)
next
  case HL_clear
  obtain s' where "hl_clear s = (Ok (), s')" "hl_ok m s' [] (V @ F)" by (rule hl_clear_run [OF ok])
  then show thesis by (intro that [of s' m "[]" "V @ F"]) (simp_all add: HL_clear run_simps hl_contents_def)
qed

lemma hl_spec_length: "length (snd (hl_spec f xs)) \<le> Suc (length xs)"
  by (cases f) (simp_all add: List.insert_def)

lemma hl_run_ok:
  assumes "hl_ok m s V F" and "4 * (length V + length fs) \<le> 2 ^ 30"
  shows "\<exists>s' m' V' F'. hl_run fs s = (Ok (fst (hl_spec_run fs (hl_contents s V))), s') \<and> hl_ok m' s' V' F' \<and>
    hl_contents s' V' = snd (hl_spec_run fs (hl_contents s V))"
  using assms
proof (induction fs arbitrary: m s V F)
  case Nil
  then show ?case by (auto simp: run_simps)
next
  case (Cons f fs)
  have "4 * length V \<le> 2 ^ 30" using Cons.prems(2) by simp
  from hl_step_run [OF Cons.prems(1) this] obtain s1 m1 V1 F1
    where run: "hl_step f s = (Ok (fst (hl_spec f (hl_contents s V))), s1)" and ok1: "hl_ok m1 s1 V1 F1"
      and c1: "hl_contents s1 V1 = snd (hl_spec f (hl_contents s V))"
    by blast
  have "length V1 \<le> Suc (length V)" using hl_spec_length [of f "hl_contents s V"] c1 by (metis hl_contents_def length_map)
  then have "4 * (length V1 + length fs) \<le> 2 ^ 30" using Cons.prems(2) by simp
  from Cons.IH [OF ok1 this] obtain s' m' V' F' where rest: "hl_run fs s1 = (Ok (fst (hl_spec_run fs (hl_contents s1 V1))), s')"
    and ok': "hl_ok m' s' V' F'" and c': "hl_contents s' V' = snd (hl_spec_run fs (hl_contents s1 V1))"
    by blast
  have "hl_run (f # fs) s = (Ok (fst (hl_spec_run (f # fs) (hl_contents s V))), s')"
    using run rest c1 by (simp add: run_simps split: prod.splits)
  moreover have "hl_contents s' V' = snd (hl_spec_run (f # fs) (hl_contents s V))"
    using c1 c' by (simp split: prod.splits)
  ultimately show ?case using ok' by blast
qed

lemma hl_init_ok:
  assumes "1 \<le> m" and "m \<le> 30"
  obtains s where "hl_init (2 ^ m) empty_hashlist = (Ok (), s)" and "hl_ok m s [] []"
proof -
  let ?s = "empty_hashlist\<lparr>ht_capacity := 2 ^ m\<rparr>"
  have "hl_init (2 ^ m) empty_hashlist = (Ok (), ?s)"
    using assms by (simp add: hl_init_def ht_init_def run_simps popcount_pow2 empty_hashlist_def)
  moreover have "hl_ok m ?s [] []" using assms by (simp add: hl_ok_def ht_ok_def empty_hashlist_def)
  ultimately show thesis by (rule that)
qed



lemma one_cell: "next_probe 1 ix i = 0" "popcount 1 = 1"
  using next_probe_mod [of 0 ix i] popcount_pow2 [of 0] by simp_all

lemma unfold_two: "insertNode 2 = insertNode (Suc (Suc 0))" "findIx_loop 2 = findIx_loop (Suc (Suc 0))"
  by (simp_all only: numeral_2_eq_2)

lemma one_cell_loop:
  assumes "ht_capacity s = 1" and "ht_data s 0 = Some a" and "hl_nodes s a = Some n" and "hl_element n \<noteq> e"
  shows "findIx_loop k e 0 i s = (Throw Diverges, s)"
  using assms by (induction k arbitrary: i) (simp_all add: run_simps readCell_def hl_deref_def one_cell [unfolded One_nat_def])

text \<open>
  A capacity of one cell, which the constructor accepts, is not enough: after one insertion the
  table is full, and a lookup of any other element probes its only cell for ever.
\<close>

lemma hashlist_capacity_one:
  assumes "e \<noteq> e'"
  shows "\<exists>s s1. hl_init 1 empty_hashlist = (Ok (), s) \<and> hl_insert e s = (Ok (), s1) \<and>
    hl_hash e' s1 = (Ok 0, s1) \<and> (\<forall>n. findIx_loop n e' 0 0 s1 = (Throw Diverges, s1))"
proof -
  let ?s = "empty_hashlist\<lparr>ht_capacity := 1\<rparr>"
  let ?s1 = "\<lparr>hl_nodes = [0 \<mapsto> \<lparr>hl_next = None, hl_element = e, hashTableIndex = 0\<rparr>], hl_fresh = 1, ht_data = (\<lambda>_. None)(0 := Some 0),
    ht_size = 1, ht_capacity = 1, hl_head = Some 0, hl_tail = Some 0, freeNodes = None, hl_size = 1\<rparr>"
  note pc = one_cell(2) [unfolded One_nat_def]
  have "hl_init 1 empty_hashlist = (Ok (), ?s)"
    by (simp add: hl_init_def ht_init_def run_simps pc empty_hashlist_def)
  moreover have "hl_insert e ?s = (Ok (), ?s1)"
    by (simp add: hl_insert_def ht_find_def findIx_def hl_hash_def assert_pow2_def allocateNode_def tryExpand_def hl_upd_def
        hl_deref_def readCell_def run_simps pc empty_hashlist_def unfold_two Let_def)
  moreover have "hl_hash e' ?s1 = (Ok 0, ?s1)" by (simp add: hl_hash_def assert_pow2_def run_simps pc Let_def)
  moreover have "findIx_loop n e' 0 0 ?s1 = (Throw Diverges, ?s1)" for n
    by (rule one_cell_loop [where a = 0 and n = "\<lparr>hl_next = None, hl_element = e, hashTableIndex = 0\<rparr>"]) (use assms in simp_all)
  ultimately show ?thesis by blast
qed

end
