(* ===== verification/BumpAlloc.thy ===== *)
theory BumpAlloc
  imports Prelude "HOL-Library.Multiset"
begin

text \<open>
  The allocators that cut objects from large blocks of memory: \<^verbatim>\<open>recordmgr/allocator_bump.h\<close>, which
  takes a new block when a thread's block is used up, and \<^verbatim>\<open>recordmgr/allocator_once.h\<close>, which
  takes one block per thread at construction. Addresses are integers and the null pointer is \<open>0\<close>.
  \<open>malloc\<close> is a parameter: \<open>mal k\<close> is the address its \<open>k\<close>th call returns. An object takes
  whole cache lines. \<^verbatim>\<open>HAS_FUNCTION_aligned_alloc\<close> is defined nowhere and \<^verbatim>\<open>MEMORY_STATS\<close> is off;
  \<open>deallocate\<close> leaves the allocator alone.
\<close>

section \<open>Blocks and positions\<close>

definition BYTES_IN_CACHE_LINE :: int where
  "BYTES_IN_CACHE_LINE = 64"

record bump =
  bu_mem :: "nat \<Rightarrow> int"
  memBytes :: "nat \<Rightarrow> int"
  bu_current :: "nat \<Rightarrow> int"
  toFree :: "nat \<Rightarrow> int list"
  mallocs :: nat

definition cachelines :: "int \<Rightarrow> int" where
  "cachelines sizeof = (sizeof + (BYTES_IN_CACHE_LINE - 1)) div BYTES_IN_CACHE_LINE"

definition bump_memory_next :: "int \<Rightarrow> nat \<Rightarrow> (bump, int) cmd" where
  "bump_memory_next cl tid =
     bindE (getsE (\<lambda>s. bu_current s tid)) (\<lambda>result.
     thenE (modifyE (\<lambda>s. s\<lparr>bu_current := (bu_current s)(tid := bu_current s tid + cl * BYTES_IN_CACHE_LINE)\<rparr>))
           (returnE result))"

definition bump_memory_full :: "int \<Rightarrow> nat \<Rightarrow> bump \<Rightarrow> bool" where
  "bump_memory_full cl tid s \<longleftrightarrow> bu_current s tid + cl * BYTES_IN_CACHE_LINE > bu_mem s tid + memBytes s tid"

definition bump_memory_bytes_remaining :: "nat \<Rightarrow> bump \<Rightarrow> int" where
  "bump_memory_bytes_remaining tid s = (bu_mem s tid + memBytes s tid) - bu_current s tid"

definition call_malloc :: "(nat \<Rightarrow> int) \<Rightarrow> (bump, int) cmd" where
  "call_malloc mal = bindE (getsE mallocs) (\<lambda>k. thenE (modifyE (\<lambda>s. s\<lparr>mallocs := Suc k\<rparr>)) (returnE (mal k)))"

text \<open>Both allocators start at the first cache line of a new block.\<close>

definition align_current :: "nat \<Rightarrow> (bump, unit) cmd" where
  "align_current tid =
     thenE (modifyE (\<lambda>s.
       let m = bu_mem s tid mod BYTES_IN_CACHE_LINE in
       s\<lparr>bu_current := (bu_current s)(tid := (if m > 0 then bu_mem s tid + BYTES_IN_CACHE_LINE - m else bu_mem s tid))\<rparr>))
    (bindE (getsE (\<lambda>s. bu_current s tid)) (\<lambda>c. assertE (c mod BYTES_IN_CACHE_LINE = 0)))"

section \<open>The bump allocator\<close>

definition BUMP_BLOCK :: int where
  "BUMP_BLOCK = 2 ^ 24"

definition bump_memory_allocate :: "(nat \<Rightarrow> int) \<Rightarrow> nat \<Rightarrow> (bump, unit) cmd" where
  "bump_memory_allocate mal tid =
     bindE (call_malloc mal) (\<lambda>p.
     thenE (modifyE (\<lambda>s. s\<lparr>bu_mem := (bu_mem s)(tid := p), memBytes := (memBytes s)(tid := BUMP_BLOCK),
              bu_current := (bu_current s)(tid := p), toFree := (toFree s)(tid := toFree s tid @ [p])\<rparr>))
           (align_current tid))"

definition bump_allocate :: "(nat \<Rightarrow> int) \<Rightarrow> int \<Rightarrow> nat \<Rightarrow> (bump, int) cmd" where
  "bump_allocate mal cl tid =
     bindE (getsE (\<lambda>s. bu_mem s tid = 0 \<or> bump_memory_full cl tid s)) (\<lambda>b.
     thenE (if b then bump_memory_allocate mal tid else returnE ()) (bump_memory_next cl tid))"

definition new_bump :: bump where
  "new_bump = \<lparr>bu_mem = (\<lambda>_. 0), memBytes = (\<lambda>_. 0), bu_current = (\<lambda>_. 0), toFree = (\<lambda>_. []), mallocs = 0\<rparr>"

text \<open>The destructor: the pointers passed to \<open>free\<close>, in this order.\<close>

definition bump_freed :: "nat \<Rightarrow> bump \<Rightarrow> int list" where
  "bump_freed numProcesses s = concat (map (toFree s) [0..<numProcesses])"

section \<open>The allocator that allocates once\<close>

text \<open>The constructor ends the process when \<open>malloc\<close> returns null; here that is a failing assertion.\<close>

definition ALLOC_ONCE_MEMORY :: int where
  "ALLOC_ONCE_MEMORY = 2 ^ 32"

definition once_init_thread :: "(nat \<Rightarrow> int) \<Rightarrow> int \<Rightarrow> nat \<Rightarrow> nat \<Rightarrow> (bump, unit) cmd" where
  "once_init_thread mal cl numProcesses tid =
     (let newSizeBytes = ALLOC_ONCE_MEMORY div int numProcesses in
      thenE (assertE (newSizeBytes mod (cl * BYTES_IN_CACHE_LINE) = 0))
     (bindE (call_malloc mal) (\<lambda>p.
      if p = 0 then throwE AssertionFailed
      else thenE (modifyE (\<lambda>s. s\<lparr>bu_mem := (bu_mem s)(tid := p), memBytes := (memBytes s)(tid := newSizeBytes),
                    bu_current := (bu_current s)(tid := p)\<rparr>))
                 (align_current tid))))"

definition new_once :: "(nat \<Rightarrow> int) \<Rightarrow> int \<Rightarrow> nat \<Rightarrow> (bump, unit) cmd" where
  "new_once mal cl numProcesses = forE [0..<numProcesses] (once_init_thread mal cl numProcesses)"

definition once_allocate :: "int \<Rightarrow> nat \<Rightarrow> (bump, int) cmd" where
  "once_allocate cl tid =
     bindE (getsE (bump_memory_full cl tid)) (\<lambda>full. if full then returnE 0 else bump_memory_next cl tid)"

text \<open>The destructor: the pointers passed to \<open>delete\<close>.\<close>

definition once_freed :: "nat \<Rightarrow> bump \<Rightarrow> int list" where
  "once_freed numProcesses s = map (bu_mem s) [0..<numProcesses]"

section \<open>Objects do not overlap\<close>

text \<open>What the allocators rely on of \<open>malloc\<close>: its blocks are not null and do not overlap.\<close>

definition malloc_ok :: "(nat \<Rightarrow> int) \<Rightarrow> int \<Rightarrow> bool" where
  "malloc_ok mal sz \<longleftrightarrow> (\<forall>k. 0 < mal k) \<and> (\<forall>j k. j \<noteq> k \<longrightarrow> {mal j..<mal j + sz} \<inter> {mal k..<mal k + sz} = {})"

definition apart :: "int \<Rightarrow> int \<Rightarrow> int \<Rightarrow> bool" where
  "apart w a b \<longleftrightarrow> {a..<a + w} \<inter> {b..<b + w} = {}"

text \<open>
  \<open>bump_inv mal sz w own s R\<close>: thread \<open>t\<close> cuts from the block \<open>own t\<close>, no two threads from the same one;
  the objects \<open>R\<close> of \<open>w\<close> bytes that were handed out are aligned, lie in blocks that \<open>malloc\<close> returned,
  before the position of the thread that cuts from that block, and do not overlap.
\<close>

definition bump_inv :: "(nat \<Rightarrow> int) \<Rightarrow> int \<Rightarrow> int \<Rightarrow> (nat \<Rightarrow> nat option) \<Rightarrow> bump \<Rightarrow> int list \<Rightarrow> bool" where
  "bump_inv mal sz w own s R \<longleftrightarrow>
     (\<forall>t. own t = None \<longrightarrow> bu_mem s t = 0) \<and>
     (\<forall>t k. own t = Some k \<longrightarrow> k < mallocs s \<and> bu_mem s t = mal k \<and> memBytes s t = sz \<and> mal k \<le> bu_current s t \<and>
        bu_current s t mod 64 = 0) \<and>
     (\<forall>t u k. own t = Some k \<longrightarrow> own u = Some k \<longrightarrow> t = u) \<and>
     (\<forall>r\<in>set R. r mod 64 = 0 \<and> (\<exists>k<mallocs s. mal k \<le> r \<and> r + w \<le> mal k + sz \<and>
        (\<forall>t. own t = Some k \<longrightarrow> r + w \<le> bu_current s t))) \<and>
     sorted_wrt (apart w) R"

lemma bump_invD:
  assumes "bump_inv mal sz w own s R"
  shows "own t = None \<Longrightarrow> bu_mem s t = 0"
    and "own t = Some k \<Longrightarrow> k < mallocs s \<and> bu_mem s t = mal k \<and> memBytes s t = sz \<and> mal k \<le> bu_current s t \<and>
        bu_current s t mod 64 = 0"
    and "own t = Some k \<Longrightarrow> own u = Some k \<Longrightarrow> t = u"
    and "r \<in> set R \<Longrightarrow> r mod 64 = 0 \<and> (\<exists>k<mallocs s. mal k \<le> r \<and> r + w \<le> mal k + sz \<and>
        (\<forall>t. own t = Some k \<longrightarrow> r + w \<le> bu_current s t))"
    and "sorted_wrt (apart w) R"
  using assms unfolding bump_inv_def by blast+

text \<open>Cutting an object from a block that has room for it.\<close>

lemma bump_next_inv:
  assumes inv: "bump_inv mal sz (cl * 64) own s R" and mal: "malloc_ok mal sz" and cl: "0 < cl"
    and k: "own t = Some k" and room: "\<not> bump_memory_full cl t s"
  shows "bump_memory_next cl t s = (Ok (bu_current s t), s\<lparr>bu_current := (bu_current s)(t := bu_current s t + cl * 64)\<rparr>)"
    and "bump_inv mal sz (cl * 64) own (s\<lparr>bu_current := (bu_current s)(t := bu_current s t + cl * 64)\<rparr>) (R @ [bu_current s t])"
proof -
  let ?w = "cl * 64" and ?r = "bu_current s t"
  let ?s = "s\<lparr>bu_current := (bu_current s)(t := ?r + ?w)\<rparr>"
  note I = bump_invD [OF inv]
  show "bump_memory_next cl t s = (Ok ?r, ?s)" by (simp add: bump_memory_next_def run_simps BYTES_IN_CACHE_LINE_def)
  have fit: "?r + ?w \<le> mal k + sz" using room I(2) [OF k] by (simp add: bump_memory_full_def BYTES_IN_CACHE_LINE_def)
  have grow: "bu_current s u \<le> bu_current ?s u" for u using cl by simp
  have "apart ?w r ?r" if r: "r \<in> set R" for r
  proof -
    obtain j where j: "mal j \<le> r" "r + ?w \<le> mal j + sz" "\<forall>t. own t = Some j \<longrightarrow> r + ?w \<le> bu_current s t" using I(4) [OF r] by blast
    show ?thesis
    proof (cases "j = k")
      case True
      then show ?thesis using j(3) k by (auto simp: apart_def)
    next
      case False
      then have "{mal j..<mal j + sz} \<inter> {mal k..<mal k + sz} = {}" using mal by (simp add: malloc_ok_def)
      moreover have "{r..<r + ?w} \<subseteq> {mal j..<mal j + sz}" using j by auto
      moreover have "{?r..<?r + ?w} \<subseteq> {mal k..<mal k + sz}" using fit I(2) [OF k] by auto
      ultimately show ?thesis unfolding apart_def by blast
    qed
  qed
  then have "sorted_wrt (apart ?w) (R @ [?r])" using I(5) by (simp add: sorted_wrt_append)
  moreover have "r mod 64 = 0 \<and> (\<exists>k<mallocs ?s. mal k \<le> r \<and> r + ?w \<le> mal k + sz \<and> (\<forall>t. own t = Some k \<longrightarrow> r + ?w \<le> bu_current ?s t))"
    if "r \<in> set (R @ [?r])" for r
  proof (cases "r \<in> set R")
    case True
    from I(4) [OF True] obtain j where j: "r mod 64 = 0" "j < mallocs s" "mal j \<le> r" "r + ?w \<le> mal j + sz"
      "\<forall>t. own t = Some j \<longrightarrow> r + ?w \<le> bu_current s t" by auto
    then have "\<forall>u. own u = Some j \<longrightarrow> r + ?w \<le> bu_current ?s u" using grow order_trans by blast
    then show ?thesis using j by (intro conjI exI [of _ j]) (assumption | simp)+
  next
    case False
    then have "r = ?r" using that by simp
    moreover have "\<forall>u. own u = Some k \<longrightarrow> u = t" using I(3) k by blast
    ultimately show ?thesis using I(2) [OF k] fit by auto
  qed
  moreover have "j < mallocs ?s \<and> bu_mem ?s u = mal j \<and> memBytes ?s u = sz \<and> mal j \<le> bu_current ?s u \<and> bu_current ?s u mod 64 = 0"
    if "own u = Some j" for u j
    using I(2) [OF that] cl by auto
  ultimately show "bump_inv mal sz ?w own ?s (R @ [?r])"
    unfolding bump_inv_def using I(1,3) by simp
qed

text \<open>Taking a new block.\<close>

lemma aligned_start:
  fixes p :: int
  defines "c \<equiv> (if p mod 64 > 0 then p + 64 - p mod 64 else p)"
  shows "c mod 64 = 0" and "p \<le> c" and "c \<le> p + 63"
proof -
  have "p mod 64 < 64" "0 \<le> p mod 64" by simp_all
  then show "p \<le> c" "c \<le> p + 63" by (auto simp: c_def)
  have "(p + 64 - p mod 64) mod 64 = 0" by presburger
  then show "c mod 64 = 0" using \<open>0 \<le> p mod 64\<close> by (auto simp: c_def)
qed

lemma new_block_inv:
  assumes inv: "bump_inv mal sz w own s R"
    and s': "mallocs s' = Suc (mallocs s)" "bu_mem s' = (bu_mem s)(t := mal (mallocs s))" "memBytes s' = (memBytes s)(t := sz)"
      "bu_current s' = (bu_current s)(t := c)" "mal (mallocs s) \<le> c" "c mod 64 = 0"
  shows "bump_inv mal sz w (own(t \<mapsto> mallocs s)) s' R"
proof -
  note I = bump_invD [OF inv]
  let ?own = "own(t \<mapsto> mallocs s)"
  have old: "own u = Some k" if "?own u = Some k" "k < mallocs s" for u k using that by (auto split: if_splits)
  have placed: "\<exists>k<mallocs s'. mal k \<le> r \<and> r + w \<le> mal k + sz \<and> (\<forall>u. ?own u = Some k \<longrightarrow> r + w \<le> bu_current s' u)" if r: "r \<in> set R" for r
  proof -
    obtain k where k: "k < mallocs s" "mal k \<le> r" "r + w \<le> mal k + sz" "\<forall>u. own u = Some k \<longrightarrow> r + w \<le> bu_current s u"
      using I(4) [OF r] by blast
    have "r + w \<le> bu_current s' u" if "?own u = Some k" for u
    proof -
      have "u \<noteq> t" using that k(1) by auto
      then show ?thesis using k(4) old [OF that k(1)] by (simp add: s')
    qed
    then show ?thesis using k by (intro exI [of _ k]) (simp add: s')
  qed
  have block: "k < mallocs s' \<and> bu_mem s' u = mal k \<and> memBytes s' u = sz \<and> mal k \<le> bu_current s' u \<and> bu_current s' u mod 64 = 0"
    if "?own u = Some k" for u k
  proof (cases "u = t")
    case True
    then show ?thesis using that s' by auto
  next
    case False
    then have "own u = Some k" using that by simp
    from I(2) [OF this] False show ?thesis by (simp add: s')
  qed
  have single: "u = v" if "?own u = Some k" "?own v = Some k" for u v k
  proof (cases "k = mallocs s")
    case True
    have "own x \<noteq> Some k" for x using I(2) [of x k] True by auto
    then show ?thesis using that by (simp split: if_splits)
  next
    case False
    then have "own u = Some k" "own v = Some k" using that by (simp_all split: if_splits)
    then show ?thesis by (rule I(3))
  qed
  have none: "bu_mem s' u = 0" if "?own u = None" for u using that I(1) [of u] by (simp add: s' split: if_splits)
  show ?thesis unfolding bump_inv_def
  proof (intro conjI allI impI ballI)
    show "sorted_wrt (apart w) R" by (rule I(5))
    show "u = v" if "?own u = Some k" "?own v = Some k" for u v k by (rule single [OF that])
  qed (use placed block none I(4) in blast)+
qed

definition fresh_block :: "(nat \<Rightarrow> int) \<Rightarrow> nat \<Rightarrow> bump \<Rightarrow> bump" where
  "fresh_block mal t s = (let p = mal (mallocs s) in
     s\<lparr>mallocs := Suc (mallocs s), bu_mem := (bu_mem s)(t := p), memBytes := (memBytes s)(t := BUMP_BLOCK),
       bu_current := (bu_current s)(t := (if p mod 64 > 0 then p + 64 - p mod 64 else p)), toFree := (toFree s)(t := toFree s t @ [p])\<rparr>)"

lemma bump_memory_allocate_run: "bump_memory_allocate mal t s = (Ok (), fresh_block mal t s)"
  using aligned_start(1) [of "mal (mallocs s)"]
  by (auto simp: bump_memory_allocate_def call_malloc_def align_current_def fresh_block_def Let_def run_simps BYTES_IN_CACHE_LINE_def)

lemma bump_allocate_run:
  assumes inv: "bump_inv mal BUMP_BLOCK (cl * 64) own s R" and mal: "malloc_ok mal BUMP_BLOCK"
    and cl: "0 < cl" "cl * 64 + 63 \<le> BUMP_BLOCK"
  obtains r s' own' where "bump_allocate mal cl t s = (Ok r, s')" and "bump_inv mal BUMP_BLOCK (cl * 64) own' s' (R @ [r])"
    and "mallocs s' = mallocs s \<and> toFree s' = toFree s \<or>
      mallocs s' = Suc (mallocs s) \<and> toFree s' = (toFree s)(t := toFree s t @ [mal (mallocs s)])"
proof (cases "bu_mem s t = 0 \<or> bump_memory_full cl t s")
  case True
  let ?s = "fresh_block mal t s" and ?p = "mal (mallocs s)"
  note al = aligned_start [of ?p]
  have inv1: "bump_inv mal BUMP_BLOCK (cl * 64) (own(t \<mapsto> mallocs s)) ?s R"
    by (rule new_block_inv [OF inv]) (use al in \<open>simp_all add: fresh_block_def Let_def\<close>)
  have "\<not> bump_memory_full cl t ?s"
    using al(3) cl(2) by (simp add: bump_memory_full_def fresh_block_def Let_def BYTES_IN_CACHE_LINE_def)
  note step = bump_next_inv [OF inv1 mal cl(1) _ this, of "mallocs s", OF fun_upd_same]
  show thesis
    by (rule that [OF _ step(2)])
      (use True step(1) in \<open>simp_all add: bump_allocate_def run_simps bump_memory_allocate_run fresh_block_def Let_def\<close>)
next
  case False
  then obtain k where k: "own t = Some k" using bump_invD(1) [OF inv, of t] by (cases "own t") auto
  note step = bump_next_inv [OF inv mal cl(1) k] False
  show thesis
    by (rule that [OF _ step(2)]) (use False step(1) in \<open>simp_all add: bump_allocate_def run_simps\<close>)
qed

text \<open>Any sequence of allocations: the thread that asks, in order.\<close>

primrec alloc_script :: "(nat \<Rightarrow> (bump, int) cmd) \<Rightarrow> nat list \<Rightarrow> (bump, int list) cmd" where
  "alloc_script alloc [] = returnE []"
| "alloc_script alloc (t # ts) = bindE (alloc t) (\<lambda>r. bindE (alloc_script alloc ts) (\<lambda>rs. returnE (r # rs)))"

lemma mset_concat_push:
  assumes "t < n"
  shows "mset (concat (map (f(t := f t @ [p])) [0..<n])) = add_mset p (mset (concat (map f [0..<n])))"
  using assms
proof (induction n)
  case (Suc n)
  show ?case
  proof (cases "t = n")
    case True
    have old: "map (f(n := f n @ [p])) [0..<n] = map f [0..<n]" by simp
    show ?thesis unfolding True upt_Suc_append [OF le0] map_append concat_append old by simp
  next
    case False
    then show ?thesis using Suc by simp
  qed
qed simp

lemma bump_script_run:
  assumes "bump_inv mal BUMP_BLOCK (cl * 64) own s R" and mal: "malloc_ok mal BUMP_BLOCK"
    and cl: "0 < cl" "cl * 64 + 63 \<le> BUMP_BLOCK"
    and "set ts \<subseteq> {..<n}" and "mset (bump_freed n s) = mset (map mal [0..<mallocs s])"
  shows "\<exists>rs s' own'. alloc_script (bump_allocate mal cl) ts s = (Ok rs, s') \<and> length rs = length ts \<and>
    bump_inv mal BUMP_BLOCK (cl * 64) own' s' (R @ rs) \<and> mset (bump_freed n s') = mset (map mal [0..<mallocs s'])"
  using assms(1,5,6)
proof (induction ts arbitrary: own s R)
  case (Cons t ts)
  obtain r s1 own1 where 1: "bump_allocate mal cl t s = (Ok r, s1)" "bump_inv mal BUMP_BLOCK (cl * 64) own1 s1 (R @ [r])"
    "mallocs s1 = mallocs s \<and> toFree s1 = toFree s \<or>
      mallocs s1 = Suc (mallocs s) \<and> toFree s1 = (toFree s)(t := toFree s t @ [mal (mallocs s)])"
    by (rule bump_allocate_run [OF Cons.prems(1) mal cl])
  have "mset (bump_freed n s1) = mset (map mal [0..<mallocs s1])"
    using 1(3) Cons.prems(2,3) by (auto simp: bump_freed_def mset_concat_push atLeast0_lessThan_Suc)
  from Cons.IH [OF 1(2) _ this] obtain rs s2 own2 where 2: "alloc_script (bump_allocate mal cl) ts s1 = (Ok rs, s2)" "length rs = length ts"
    "bump_inv mal BUMP_BLOCK (cl * 64) own2 s2 ((R @ [r]) @ rs)" "mset (bump_freed n s2) = mset (map mal [0..<mallocs s2])"
    using Cons.prems(2) by auto
  have "alloc_script (bump_allocate mal cl) (t # ts) s = (Ok (r # rs), s2)" using 1(1) 2(1) by (simp add: run_simps)
  then show ?case using 2(2-4) by auto
qed (auto simp: run_simps)

lemma new_bump_inv: "bump_inv mal sz w (\<lambda>_. None) new_bump []"
  by (simp add: bump_inv_def new_bump_def)

text \<open>
  (C35) Any sequence of \<open>allocate\<close> calls of any threads on a new bump allocator succeeds, without a failing
  assertion, when an object fits into a block after the alignment: the objects start at cache lines, do not
  overlap, and each lies inside one of the blocks that the destructor frees; the destructor frees every block
  that \<open>malloc\<close> returned, and each one once. The hypothesis on \<open>malloc\<close>: its blocks are not null and do not overlap.
\<close>

theorem bump_objects_disjoint:
  assumes "malloc_ok mal BUMP_BLOCK" and "0 < sizeof" and "cachelines sizeof * BYTES_IN_CACHE_LINE + 63 \<le> BUMP_BLOCK"
    and "set ts \<subseteq> {..<numProcesses}"
  shows "\<exists>rs s. alloc_script (bump_allocate mal (cachelines sizeof)) ts new_bump = (Ok rs, s) \<and> length rs = length ts \<and>
    (\<forall>r\<in>set rs. r mod BYTES_IN_CACHE_LINE = 0 \<and>
       (\<exists>p\<in>set (bump_freed numProcesses s). p \<le> r \<and> r + sizeof \<le> p + BUMP_BLOCK)) \<and>
    sorted_wrt (apart sizeof) rs \<and>
    mset (bump_freed numProcesses s) = mset (map mal [0..<mallocs s])"
proof -
  let ?cl = "cachelines sizeof"
  have size: "0 < ?cl" "sizeof \<le> ?cl * 64" using assms(2) by (simp_all add: cachelines_def BYTES_IN_CACHE_LINE_def)
  have "mset (bump_freed numProcesses new_bump) = mset (map mal [0..<mallocs new_bump])"
    by (simp add: bump_freed_def new_bump_def)
  from bump_script_run [OF new_bump_inv assms(1) size(1) _ assms(4) this] assms(3)
  obtain rs s own where 1: "alloc_script (bump_allocate mal ?cl) ts new_bump = (Ok rs, s)" "length rs = length ts"
    "bump_inv mal BUMP_BLOCK (?cl * 64) own s rs" "mset (bump_freed numProcesses s) = mset (map mal [0..<mallocs s])"
    by (auto simp: BYTES_IN_CACHE_LINE_def)
  note I = bump_invD [OF 1(3)]
  have "set (bump_freed numProcesses s) = mal ` {..<mallocs s}" using arg_cong [OF 1(4), of set_mset] by (simp add: atLeast0LessThan)
  then have "\<exists>p\<in>set (bump_freed numProcesses s). p \<le> r \<and> r + sizeof \<le> p + BUMP_BLOCK" if "r \<in> set rs" for r
    using I(4) [OF that] size(2) by auto
  moreover have "sorted_wrt (apart sizeof) rs"
    by (rule sorted_wrt_mono_rel [OF _ I(5)]) (use size(2) in \<open>auto simp: apart_def\<close>)
  ultimately show ?thesis using 1 I(4) by (auto simp: BYTES_IN_CACHE_LINE_def)
qed

lemma malloc_ok_regular: "0 < sz \<Longrightarrow> 0 < b \<Longrightarrow> malloc_ok (\<lambda>k. int k * sz + b) sz"
proof -
  assume *: "0 < sz" "0 < b"
  have "int j * sz + sz \<le> int k * sz" if "j < k" for j k
    using mult_right_mono [of "int j + 1" "int k" sz] that *(1) by (simp add: distrib_right)
  then have "{int j * sz + b..<int j * sz + b + sz} \<inter> {int k * sz + b..<int k * sz + b + sz} = {}" if "j \<noteq> k" for j k
    using that by (cases j k rule: linorder_cases) fastforce+
  moreover have "0 < int k * sz + b" for k using * by (simp add: add_nonneg_pos)
  ultimately show ?thesis unfolding malloc_ok_def by blast
qed

theorem bump_objects_disjoint_witness:
  "\<exists>rs s. alloc_script (bump_allocate (\<lambda>k. int k * BUMP_BLOCK + 5) (cachelines 100)) [0, 1, 0] new_bump = (Ok rs, s) \<and> length rs = 3 \<and>
    (\<forall>r\<in>set rs. r mod BYTES_IN_CACHE_LINE = 0 \<and>
       (\<exists>p\<in>set (bump_freed 2 s). p \<le> r \<and> r + 100 \<le> p + BUMP_BLOCK)) \<and>
    sorted_wrt (apart 100) rs \<and> mset (bump_freed 2 s) = mset (map (\<lambda>k. int k * BUMP_BLOCK + 5) [0..<mallocs s])"
  using bump_objects_disjoint [of "\<lambda>k. int k * BUMP_BLOCK + 5" 100 "[0, 1, 0]" 2, OF malloc_ok_regular]
  by (simp add: BUMP_BLOCK_def cachelines_def BYTES_IN_CACHE_LINE_def numeral_3_eq_3)

section \<open>The allocator that allocates once, for a number of threads that divides the memory\<close>

definition once_block :: "(nat \<Rightarrow> int) \<Rightarrow> int \<Rightarrow> nat \<Rightarrow> bump \<Rightarrow> bump" where
  "once_block mal sz t s = (let p = mal (mallocs s) in
     s\<lparr>mallocs := Suc (mallocs s), bu_mem := (bu_mem s)(t := p), memBytes := (memBytes s)(t := sz),
       bu_current := (bu_current s)(t := (if p mod 64 > 0 then p + 64 - p mod 64 else p))\<rparr>)"

lemma once_init_run:
  assumes "malloc_ok mal sz" and "(2 ^ 32) div int n = sz" and "sz mod (cl * 64) = 0"
  shows "once_init_thread mal cl n t s = (Ok (), once_block mal sz t s)"
proof -
  have "mal (mallocs s) \<noteq> 0" using assms(1) unfolding malloc_ok_def by (metis less_irrefl)
  then show ?thesis
    using aligned_start(1) [of "mal (mallocs s)"] assms(2,3)
    by (auto simp: once_init_thread_def call_malloc_def align_current_def once_block_def Let_def run_simps BYTES_IN_CACHE_LINE_def
        ALLOC_ONCE_MEMORY_def)
qed

lemma once_constructor:
  assumes "malloc_ok mal sz" and "(2 ^ 32) div int n = sz" and "sz mod (cl * 64) = 0"
  shows "\<exists>s. forE [0..<k] (once_init_thread mal cl n) new_bump = (Ok (), s) \<and>
    bump_inv mal sz w (\<lambda>t. if t < k then Some t else None) s [] \<and> mallocs s = k"
proof (induction k)
  case 0
  show ?case using new_bump_inv by (simp add: run_simps new_bump_def)
next
  case (Suc k)
  then obtain s where s: "forE [0..<k] (once_init_thread mal cl n) new_bump = (Ok (), s)"
    "bump_inv mal sz w (\<lambda>t. if t < k then Some t else None) s []" "mallocs s = k" by auto
  have own: "(\<lambda>t. if t < k then Some t else None)(k \<mapsto> mallocs s) = (\<lambda>t. if t < Suc k then Some t else None)"
    using s(3) by (auto simp: less_Suc_eq)
  have "bump_inv mal sz w (\<lambda>t. if t < Suc k then Some t else None) (once_block mal sz k s) []"
    unfolding own [symmetric]
    by (rule new_block_inv [OF s(2)]) (use aligned_start [of "mal (mallocs s)"] in \<open>simp_all add: once_block_def Let_def\<close>)
  moreover have "forE [0..<Suc k] (once_init_thread mal cl n) new_bump = (Ok (), once_block mal sz k s)"
    using s(1) once_init_run [OF assms] by (simp add: forE_append run_simps)
  moreover have "mallocs (once_block mal sz k s) = Suc k" using s(3) by (simp add: once_block_def Let_def)
  ultimately show ?case by blast
qed

lemma once_allocate_run:
  "bump_memory_full cl t s \<Longrightarrow> once_allocate cl t s = (Ok 0, s)"
  "\<not> bump_memory_full cl t s \<Longrightarrow> once_allocate cl t s = bump_memory_next cl t s"
  by (simp_all add: once_allocate_def run_simps)

lemma once_script_run:
  assumes "bump_inv mal sz (cl * 64) own s R" and mal: "malloc_ok mal sz" and cl: "0 < cl"
    and "\<forall>t\<in>set ts. own t \<noteq> None"
  shows "\<exists>rs s'. alloc_script (once_allocate cl) ts s = (Ok rs, s') \<and> length rs = length ts \<and>
    bump_inv mal sz (cl * 64) own s' (R @ filter (\<lambda>r. r \<noteq> 0) rs) \<and> mallocs s' = mallocs s"
  using assms(1,4)
proof (induction ts arbitrary: s R)
  case (Cons t ts)
  show ?case
  proof (cases "bump_memory_full cl t s")
    case True
    from Cons.IH [OF Cons.prems(1)] Cons.prems(2) obtain rs s' where
      "alloc_script (once_allocate cl) ts s = (Ok rs, s')" "length rs = length ts" "bump_inv mal sz (cl * 64) own s' (R @ filter (\<lambda>r. r \<noteq> 0) rs)"
      "mallocs s' = mallocs s" by auto
    then show ?thesis using True by (intro exI [of _ "0 # rs"]) (simp add: run_simps once_allocate_run)
  next
    case False
    obtain k where k: "own t = Some k" using Cons.prems(2) by auto
    note step = bump_next_inv [OF Cons.prems(1) mal cl k False]
    from Cons.IH [OF step(2)] Cons.prems(2) obtain rs s' where 2:
      "alloc_script (once_allocate cl) ts (s\<lparr>bu_current := (bu_current s)(t := bu_current s t + cl * 64)\<rparr>) = (Ok rs, s')"
      "length rs = length ts" "bump_inv mal sz (cl * 64) own s' ((R @ [bu_current s t]) @ filter (\<lambda>r. r \<noteq> 0) rs)"
      "mallocs s' = mallocs s" by auto
    have "0 < mal k" using mal by (simp add: malloc_ok_def)
    then have "bu_current s t \<noteq> 0" using bump_invD(2) [OF Cons.prems(1) k] by simp
    then show ?thesis using 2 False step(1)
      by (intro exI [of _ "bu_current s t # rs"]) (simp add: run_simps once_allocate_run)
  qed
qed (auto simp: run_simps)

lemma once_objects_disjoint:
  assumes mal: "malloc_ok mal (ALLOC_ONCE_MEMORY div int n)" and cl: "0 < cl"
    and div: "(ALLOC_ONCE_MEMORY div int n) mod (cl * BYTES_IN_CACHE_LINE) = 0" and ts: "set ts \<subseteq> {..<n}"
  shows "\<exists>s0 rs s. new_once mal cl n new_bump = (Ok (), s0) \<and> alloc_script (once_allocate cl) ts s0 = (Ok rs, s) \<and> length rs = length ts \<and>
    (\<forall>r\<in>set rs. r \<noteq> 0 \<longrightarrow> r mod BYTES_IN_CACHE_LINE = 0 \<and>
       (\<exists>t<n. mal t \<le> r \<and> r + cl * BYTES_IN_CACHE_LINE \<le> mal t + ALLOC_ONCE_MEMORY div int n)) \<and>
    sorted_wrt (apart (cl * BYTES_IN_CACHE_LINE)) (filter (\<lambda>r. r \<noteq> 0) rs) \<and> once_freed n s = map mal [0..<n]"
proof -
  let ?sz = "ALLOC_ONCE_MEMORY div int n"
  obtain s0 where 0: "new_once mal cl n new_bump = (Ok (), s0)" "bump_inv mal ?sz (cl * 64) (\<lambda>t. if t < n then Some t else None) s0 []" "mallocs s0 = n"
    using once_constructor [OF mal, of n cl n "cl * 64"] div by (auto simp: new_once_def ALLOC_ONCE_MEMORY_def BYTES_IN_CACHE_LINE_def)
  from once_script_run [OF 0(2) mal cl, of ts] ts obtain rs s where 1: "alloc_script (once_allocate cl) ts s0 = (Ok rs, s)" "length rs = length ts"
    "bump_inv mal ?sz (cl * 64) (\<lambda>t. if t < n then Some t else None) s (filter (\<lambda>r. r \<noteq> 0) rs)" "mallocs s = n"
    using 0(3) by fastforce
  note I = bump_invD [OF 1(3)]
  have "r mod 64 = 0 \<and> (\<exists>t<n. mal t \<le> r \<and> r + cl * 64 \<le> mal t + ?sz)" if "r \<in> set rs" "r \<noteq> 0" for r
    using I(4) [of r] that 1(4) by auto
  moreover have "once_freed n s = map mal [0..<n]" unfolding once_freed_def by (rule map_cong) (use I(2) in auto)
  ultimately show ?thesis unfolding BYTES_IN_CACHE_LINE_def using 0(1) 1(1,2) I(5) by blast
qed

text \<open>With three threads the shares are not whole objects and the constructor's assertion fails.\<close>

lemma once_three_threads: "fst (new_once mal cl 3 s) = Throw AssertionFailed"
proof -
  have "(1431655765::int) mod (cl * 64) \<noteq> 0"
  proof
    assume "(1431655765::int) mod (cl * 64) = 0"
    then have "cl * 64 dvd (1431655765::int)" by (simp add: dvd_eq_mod_eq_0)
    then have "2 dvd (1431655765::int)" by (rule dvd_trans [rotated]) simp
    then show False by simp
  qed
  then show ?thesis
    by (simp add: new_once_def once_init_thread_def ALLOC_ONCE_MEMORY_def BYTES_IN_CACHE_LINE_def run_simps upt_rec numeral_3_eq_3)
qed

end
