(* ===== verification/Spec2Isabelle.thy ===== *)
theory Spec2Isabelle
  imports Anomalies NodeBuilds BagSpec LockFreeBag RWLock OptionalClass QueueLock ArrayList HashListSpec BumpAlloc
begin

text \<open>
  Transactional data structures: a verification library for the C++ program.

  \<^bold>\<open>The program.\<close> Several sorted linked lists share one transaction manager (\<^verbatim>\<open>TX.h\<close>). A thread runs
  its operations inside a transaction, through a read set and a write set that the commit locks,
  validates against a global version clock and publishes; or outside one, as singleton operations
  that lock the nodes they change. Every list (\<^verbatim>\<open>datatypes/LinkedList.h\<close>) has an index, a skip list
  (\<^verbatim>\<open>nodes/Index.h\<close>) or a dummy (\<^verbatim>\<open>datatypes/dummyIndex.h\<close>), that it asks for a node near a key and tells
  about insertions and removals. Nodes (\<^verbatim>\<open>nodes/LNode.h\<close>) carry a lock word; in the default build a
  retired node stays allocated, in the DEBRA build it goes to the record manager of
  \<^verbatim>\<open>common/recordmgr\<close>, whose epoch based reclaimer holds it in block bags until no thread can still
  reach it. \<^verbatim>\<open>main.cpp\<close> is a benchmark with several workers.

  \<^bold>\<open>Style.\<close> Every method is a command on a state record, with a value or an exception as its outcome
  (\<open>Prelude\<close>): a failing \<open>assert\<close>, a bad pointer and a loop that does not end are outcomes too.
  Machine words are words of their width. Interfaces are locales, each interpreted on the model:
  \<open>versioned_lock\<close> (lock words; \<open>LNode\<close>, \<open>QueueLock\<close>), \<open>list_index\<close> (what a list relies on;
  \<open>SkipAdd\<close>, \<open>DummyIndex\<close>), \<open>record_pool\<close> (object pools; \<open>PoolSpec\<close>), \<open>weighted_lock\<close> (readers-writer
  locks; \<open>RWLock\<close>).

  \<^bold>\<open>The transactional list.\<close>
  \<^item> \<open>LockProtocol\<close>, \<open>LNode\<close>: the lock word, all its methods, and the interleaved loads and
    compare-and-swaps of several threads on it: mutual exclusion, refinement of a record of fields,
    the range in which versions survive.
  \<^item> \<open>TxState\<close>: heap, nodes with their wrappers, \<open>LocalTransaction\<close>, \<open>LocalStorage\<close>, \<open>WriteElement\<close>, the
    index interface; \<open>TXManager\<close>: \<open>TXbegin\<close>, \<open>TXend\<close> in its phases, \<open>handle_abort\<close>;
    \<open>LinkedList\<close>: every operation of the list.
  \<^item> \<open>TxView\<close>, \<open>IndexSpec\<close>, \<open>TxOps\<close>, \<open>ListSpec\<close>, \<open>TxThread\<close>, \<open>TxSteps\<close>, \<open>TxMethods\<close>, \<open>TxCommit\<close>: what a
    transaction sees, the specification on maps, the invariant of a running transaction, the methods
    and the commit; \<open>TxSystem\<close>: the threads as a step relation and its invariant; \<open>TxHistory\<close>: the
    histories of committed transactions. The theorems below say that the lists hold what the
    committed transactions, replayed in commit order, leave, with every result that validation covers.
  \<^item> \<open>SoloView\<close>, \<open>SoloOps\<close>: the singleton operations, run by one thread from any reachable state,
    simulate the operations on maps.
  \<^item> \<open>ListWalks\<close>: \<open>get_size\<close>, \<open>get_sum_key\<close>, \<open>deinit_list\<close>.
  \<^item> \<open>SkipList\<close>, \<open>SkipWalk\<close>, \<open>SkipFind\<close>, \<open>SkipAdd\<close>, \<open>DummyIndex\<close>: the two indices and the proofs that they
    meet \<open>list_index\<close>, for every random level.
  \<^item> \<open>Bench\<close>: tasks, workers, initial filling, expected size. \<open>Scenario\<close>: evaluated runs that serve as
    witnesses. \<open>Anomalies\<close>: evaluated schedules in which \<open>get\<close> is not validated (write skew) and in
    which a singleton insertion is overwritten by a commit.
  \<^item> \<open>OptionalClass\<close>: \<^verbatim>\<open>optional.h\<close>. \<open>QueueLock\<close>: the lock word of \<^verbatim>\<open>datatypes/Queue.h\<close>.

  \<^bold>\<open>The record manager.\<close>
  \<^item> \<open>BlockBag\<close>, \<open>BagLayout\<close>, \<open>BagOps\<close>, \<open>BagMoves\<close>, \<open>BagLife\<close>, \<open>BagIter\<close>, \<open>BagSpec\<close>: \<^verbatim>\<open>blockbag.h\<close> and
    \<^verbatim>\<open>blockpool.h\<close>; bags are multisets. \<open>LockFreeBag\<close>: \<^verbatim>\<open>lockfreeblockbag.h\<close> under interference.
  \<^item> \<open>RecordPool\<close>, \<open>PoolSpec\<close>: \<^verbatim>\<open>allocator_new.h\<close>, \<^verbatim>\<open>pool_none.h\<close>, \<^verbatim>\<open>pool_perthread_and_shared.h\<close>; objects are
    conserved.
  \<^item> \<open>Debra\<close>, \<open>DebraSafe\<close>, \<open>DebraRun\<close>, \<open>RecordMgr\<close>: \<^verbatim>\<open>reclaimer_debra.h\<close> cut at its atomic accesses,
    \<^verbatim>\<open>record_manager.h\<close>: no object that a running operation may hold is freed or reused.
    \<open>NodeBuilds\<close>: the nodes of the UNSAFE and DEBRA builds on top of it.
  \<^item> \<open>DebugInfo\<close>, \<open>ArrayList\<close>, \<open>HashSet\<close>: \<^verbatim>\<open>debug_info.h\<close>, \<^verbatim>\<open>debugcounter.h\<close>, \<^verbatim>\<open>arraylist.h\<close>, \<^verbatim>\<open>hashtable.h\<close>.
  \<^item> \<open>RWLock\<close>: \<^verbatim>\<open>common/rwlock.h\<close>. \<open>HashList\<close>, \<open>HashListSpec\<close>: \<^verbatim>\<open>common/rq/hashlist.h\<close>.
  \<^item> \<open>BumpAlloc\<close>: \<^verbatim>\<open>allocator_bump.h\<close>, \<^verbatim>\<open>allocator_once.h\<close>; the objects they hand out do not overlap.

  \<^bold>\<open>Bounds.\<close> A loop over the nodes of a list carries as its bound the number of allocated nodes plus
  one, a loop over an index or a bag the number of index nodes or blocks, a probe of a hash table the
  number of cells (twice that for the probes by squares), the retry loops of the singleton operations
  the number of allocated nodes plus one; the value past a bound is \<open>Diverges\<close>. The theorems that an
  operation returns show that the bound is not reached in the states they speak of: the keys along a
  chain increase, the blocks of a bag are distinct, the probe sequences reach every cell.

  \<^bold>\<open>Assumptions.\<close> Memory is sequentially consistent. Inside a transaction one method, and the whole of
  \<open>TXend\<close>, is one step of its thread; the lock words, the reclaimer, the shared bag and the
  readers-writer locks are interleaved access by access. Singleton operations are proved without
  interference. The clock stays below \<open>2 ^ 60\<close>, where the flags of the lock word begin. Epochs, tags,
  sizes and debug counters are unbounded integers. The transactions use the default build.

  \<^bold>\<open>Not modelled.\<close> The operations of the queue (they do not compile), stream output and timing, the
  signals of the recovery manager, the segregated allocator and the reclaimers that no build selects, and the
  vendored libraries under \<^verbatim>\<open>common\<close> that the program does not use (range queries, DCSS, RLU, URCU,
  statistics, hardware counters).
\<close>

section \<open>Transactions on skip-list indexed lists\<close>



text \<open>
  (C2) A commit applies the transaction's operations to the lists, all of them at once: the
  contents after the step are those the specification computes from the contents before it.
\<close>

theorem commit_applies_operations:
  assumes "tx_reach skip_index n S" and "tx_step skip_index {..<n} S (Committed t) S'"
  shows "list_maps n (shared S') =
    snd (spec_run (map fst (th_trace (threads S t))) (list_maps n (shared S)))"
  using skip.reach_step_ok [OF assms] by (simp add: replay_final)

theorem commit_applies_operations_witness:
  "tx_step skip_index {..<1} demo_put (Committed 0) demo_end \<and>
   list_maps 1 (shared demo_end) = snd (spec_run [Put 0 5 7] (list_maps 1 (shared demo_put)))"
  using demo_commit commit_applies_operations [OF demo_reach demo_commit] by (simp add: put_trace)

text \<open>
  (C3) When the trace of a committed transaction has only results that its validation covers (no
  search that found a key the transaction had not written, no put on a key it had written), the
  results are exactly those of the specification run on the contents at the commit.
\<close>

theorem commit_results_exact:
  assumes "tx_reach skip_index n S" and "tx_step skip_index {..<n} S (Committed t) S'"
    and "exact (th_trace (threads S t)) {}"
  shows "spec_run (map fst (th_trace (threads S t))) (list_maps n (shared S)) =
    (map snd (th_trace (threads S t)), list_maps n (shared S'))"
  using skip.reach_step_ok [OF assms(1,2)] assms(3) by (simp add: replay_exact)

theorem commit_results_exact_witness:
  "exact [(Put 0 5 7, Value None)] {} \<and>
   spec_run [Put 0 5 7] (list_maps 1 (shared demo_put)) = ([Value None], list_maps 1 (shared demo_end))"
  using commit_results_exact [OF demo_reach demo_commit] by (simp add: put_trace)

text \<open>
  (C4) No step but a commit changes the contents of any list: methods of running transactions,
  aborts and starts are invisible.
\<close>

theorem only_commits_change_lists:
  assumes "tx_reach skip_index n S" and "tx_step skip_index {..<n} S e S'" and "\<And>t. e \<noteq> Committed t"
  shows "list_maps n (shared S') = list_maps n (shared S)"
  using skip.reach_step_ok [OF assms(1,2)] assms(3) by (cases e) auto

theorem only_commits_change_lists_witness:
  "tx_step skip_index {..<1} race_commit (Aborted 1) race_abort \<and>
   list_maps 1 (shared race_abort) = list_maps 1 (shared race_commit)"
  using race_step only_commits_change_lists [OF race_reach race_step] by simp

text \<open>
  (C5) A method called in a transaction returns or throws \<open>TxAbortException\<close>: no assertion
  fails, no null or dangling pointer is read and every loop ends, in every reachable state.
\<close>

theorem methods_return_or_abort:
  assumes "tx_reach skip_index n S" and "TX (th_lt (threads S t))" and "op_list f < n"
  shows "case fst (run_op skip_index f (load t S)) of Ok r \<Rightarrow> True | Throw e \<Rightarrow> e = TxAbortException"
  using assms by (rule skip.method_outcome)

theorem methods_return_or_abort_witness:
  "TX (th_lt (threads demo_put 0)) \<and>
   (case fst (run_op skip_index (Remove 0 5) (load 0 demo_put)) of Ok r \<Rightarrow> True | Throw e \<Rightarrow> e = TxAbortException)"
  using put_active(2) methods_return_or_abort [OF demo_reach put_active(2), of "Remove 0 5"] by simp



text \<open>
  (C7) Outside transactions. From every reachable state, a thread without a transaction that runs
  any sequence of the public operations without interference gets the results of the
  specification, and leaves the lists as the specification does: no operation waits, restarts,
  fails an assertion or runs past its bound.
\<close>

theorem singletons_refine_maps:
  assumes "tx_reach skip_index n S" and "\<not> TX (th_lt (threads S t))" and "\<forall>f\<in>set fs. op_list f < n"
  shows "\<exists>s'. run_ops skip_index fs (load t S) = (Ok (fst (spec_run fs (list_maps n (shared S)))), s') \<and>
    list_maps n s' = snd (spec_run fs (list_maps n (shared S))) \<and> ls s' = th_ls (threads S t) \<and> \<not> TX (lt s')"
  by (rule skip.solo_reach [OF assms])

theorem singletons_refine_maps_witness:
  "\<exists>s'. run_ops skip_index [Put 0 9 1, Remove 0 5, Get 0 5, PutIfAbsent 0 9 2, ContainsKey 0 9] (load 0 demo_end) =
      (Ok [Value None, Value (Some 7), Value None, Value (Some 1), Truth True], s') \<and>
    list_maps 1 s' 0 = [9 \<mapsto> 1]"
proof -
  have "\<forall>f\<in>set [Put 0 9 1, Remove 0 5, Get 0 5, PutIfAbsent 0 9 2, ContainsKey 0 9]. op_list f < 1" by simp
  from singletons_refine_maps [OF demo_reach_end end_idle this] show ?thesis
    by (auto simp: end_map map_upd_def fun_eq_iff simp del: run_ops.simps One_nat_def)
qed

text \<open>
  (C10) In every reachable state every list is a sorted null-terminated chain from its head; its
  nodes hold a value, are unlocked, not marked deleted or singleton, and carry a version the
  clock has reached.
\<close>

theorem reachable_lists_well_formed:
  assumes "tx_reach skip_index n S" and "l < n"
  shows "list_ok (shared S) l"
  using assms by (rule skip.list_ok_reach)

theorem reachable_lists_well_formed_witness: "list_ok (shared demo_end) 0"
  using reachable_lists_well_formed [OF demo_reach_end] by simp

text \<open>
  (C11) After an abort the thread has no transaction, its read and write sets and its index lists
  are empty.
\<close>

theorem abort_clears_thread:
  assumes "tx_reach skip_index n S" and "tx_step skip_index {..<n} S (Aborted t) S'"
  shows "\<not> TX (th_lt (threads S' t)) \<and> th_ls (threads S' t) = initial_storage \<and> th_trace (threads S' t) = []"
  using assms by (rule skip.abort_clears)

theorem abort_clears_thread_witness: "th_ls (threads race_abort 1) = initial_storage"
  using abort_clears_thread [OF race_reach race_step] by simp

text \<open>
  (C12) \<open>get_size\<close> returns the number of keys of the list and \<open>get_sum_key\<close> their sum, both
  modulo the word size, and both change nothing.
\<close>

theorem get_size_counts_keys:
  assumes "tx_reach skip_index n S" and "l < n"
  shows "get_size l (shared S) = (Ok (of_nat (card (dom (list_maps n (shared S) l)))), shared S) \<and>
    get_sum_key l (shared S) = (Ok (\<Sum>k\<in>dom (list_maps n (shared S) l). k), shared S)"
  using skip.get_size_reach [OF assms] skip.get_sum_key_reach [OF assms] by (rule conjI)

theorem get_size_counts_keys_witness:
  "get_size 0 (shared demo_end) = (Ok 1, shared demo_end) \<and> get_sum_key 0 (shared demo_end) = (Ok 5, shared demo_end)"
  using get_size_counts_keys [OF demo_reach_end, of 0] by (simp add: end_map del: One_nat_def)

text \<open>
  (C13) \<open>deinit_list\<close> retires the nodes of the list in order, all but the last one.
\<close>

theorem deinit_list_skips_last:
  assumes "tx_reach skip_index n S" and "l < n"
  shows "deinit_list l (shared S) =
    (Ok (), (shared S)\<lparr>retired := retired (shared S) @ butlast (nodes_of (shared S) l)\<rparr>)"
  using assms by (rule skip.deinit_list_reach)

theorem deinit_list_skips_last_witness:
  "fst (deinit_list 0 (shared demo_end)) = Ok ()"
  using deinit_list_skips_last [OF demo_reach_end] by simp

section \<open>The benchmark\<close>

text \<open>
  (C17) At every moment of a run of the benchmark, under every interleaving of the workers, the
  size \<open>print_results\<close> would print as expected, from the counters of the workers, is the size
  \<open>get_size\<close> reads in the list.
\<close>

theorem bench_expected_size:
  assumes "bench_run skip_index tasks n ops ps init_size B"
  shows "get_size 0 (shared (bench_sys B)) =
    (Ok (of_int (expected_size init_size n (workers B))), shared (bench_sys B))"
  using assms by (rule skip.bench_size)

theorem bench_expected_size_witness:
  "bench_run skip_index bench_tasks 2 1 [(3, 4)] 1 bench_end \<and>
   get_size 0 (shared (bench_sys bench_end)) = (Ok 2, shared (bench_sys bench_end))"
  using bench_end_run bench_expected_size [OF bench_end_run] by (simp add: bench_end_expected)

text \<open>
  (C18) Workers finish. In every state of a run, the next phase of every worker returns (no
  exception leaves \<open>work()\<close>), and it decreases the work the worker has left, however the other
  workers run: after \<open>1 + 3 * tasks\<close> of its phases a worker has finished.
\<close>

theorem bench_workers_progress:
  assumes "bench_run skip_index tasks n ops ps init_size B" and "t \<in> {1..n}"
    and "gvc (shared (bench_sys B)) + 1 < 2 ^ 60"
  shows "\<exists>w' tr' s'.
    work_step skip_index 0 tasks (workers B t) (th_trace (threads (bench_sys B) t)) (load t (bench_sys B)) =
      (Ok (w', tr'), s') \<and> (wk_pc (workers B t) \<noteq> Finished \<longrightarrow> work_left w' < work_left (workers B t))"
  using assms by (rule skip.bench_progress)

theorem bench_workers_progress_witness:
  "wk_pc (workers bench_0 1) \<noteq> Finished \<and> (\<exists>w' tr' s'.
    work_step skip_index 0 bench_tasks (workers bench_0 1) (th_trace (threads (bench_sys bench_0) 1))
      (load 1 (bench_sys bench_0)) = (Ok (w', tr'), s') \<and> work_left w' < work_left (workers bench_0 1))"
  using bench_workers_progress [OF bench_0_run, of 1] bench_0_idle by simp

end
